(* ===== verification/Redis_Prelude.thy ===== *)
theory Redis_Prelude
  imports Main "HOL-Library.Word" "HOL-Library.Monad_Syntax"
begin

text \<open>
  Shared vocabulary of the development.

  \<^item> Types: bytes and the fixed-width C integers that the components store in memory.
  \<^item> Buffers: a C allocation is the list of its bytes. A read or a write outside of the
    allocation, and a failed \<^verbatim>\<open>assert()\<close>, is the value \<open>None\<close>, so that a theorem of
    the form \<open>f x = Some y\<close> says in particular that \<open>f\<close> stays within its buffers.
  \<^item> Little-endian integers: the byte image of a two's complement integer.

  The collections \<open>mem_simps\<close> and \<open>le_simps\<close> gather the rewrite rules of the two groups.
\<close>

named_theorems mem_simps \<open>bounds-checked accesses to a buffer\<close>
named_theorems le_simps \<open>little-endian images of integers\<close>

type_synonym byte = "8 word"
type_synonym uint16 = "16 word"
type_synonym uint32 = "32 word"
type_synonym uint64 = "64 word"

abbreviation INT64_MIN :: int where "INT64_MIN \<equiv> - (2 ^ 63)"
abbreviation INT64_MAX :: int where "INT64_MAX \<equiv> 2 ^ 63 - 1"

definition is_int64 :: "int \<Rightarrow> bool" where
  "is_int64 v \<longleftrightarrow> INT64_MIN \<le> v \<and> v \<le> INT64_MAX"

section \<open>Masks of bytes\<close>

unbundle bit_operations_syntax

lemma unat_byte_less: "unat (b :: byte) < 256"
  using unsigned_less [of b] by simp

lemma unat_and_mask: "unat ((b :: byte) AND mask k) = unat b mod 2 ^ k"
  by (simp add: unsigned_take_bit_eq flip: take_bit_eq_mask take_bit_eq_mod)

lemma unat_and_not_mask: "unat ((b :: byte) AND NOT (mask k)) = 2 ^ k * (unat b div 2 ^ k)"
proof -
  have "b AND NOT (mask k) = push_bit k (drop_bit k b)"
    by (rule bit_word_eqI) (auto simp: bit_simps)
  then have "unat (b AND NOT (mask k)) = take_bit 8 (push_bit k (drop_bit k (take_bit 8 (unat b))))"
    by (simp only: unsigned_push_bit_eq unsigned_drop_bit_eq len_of_numeral_defs(2) word_size) simp
  moreover have "2 ^ k * (unat b div 2 ^ k) < 256"
    by (rule le_less_trans [OF times_div_less_eq_dividend unat_byte_less])
  ultimately show ?thesis
    using unat_byte_less [of b]
    by (simp add: push_bit_eq_mult drop_bit_eq_div take_bit_nat_eq_self mult.commute)
qed

lemma high_masks:
  "(0x80 :: byte) = NOT (mask 7)" "(0xC0 :: byte) = NOT (mask 6)"
  "(0xE0 :: byte) = NOT (mask 5)" "(0xF0 :: byte) = NOT (mask 4)"
  by (simp_all add: mask_eq_exp_minus_1)

lemma low_masks:
  "(0x7F :: byte) = mask 7" "(0x3F :: byte) = mask 6"
  "(0x1F :: byte) = mask 5" "(0xF :: byte) = mask 4"
  by (simp_all add: mask_eq_exp_minus_1)

lemma push_or_add: "(y :: nat) < 2 ^ k \<Longrightarrow> push_bit k x OR y = 2 ^ k * x + y"
proof -
  assume "y < 2 ^ k"
  then have "take_bit k y = y"
    by (simp add: take_bit_nat_eq_self)
  moreover have "push_bit k x + take_bit k y = push_bit k x OR take_bit k y"
    by (rule disjunctive_add) (auto simp: bit_simps)
  ultimately show ?thesis
    by (simp add: push_bit_eq_mult mult.commute)
qed

lemma or_push_add: "(y :: nat) < 2 ^ k \<Longrightarrow> y OR push_bit k x = y + 2 ^ k * x"
  using push_or_add [of y k x] by (simp add: or.commute)

lemma nat_and_mask: "(x :: nat) AND mask k = x mod 2 ^ k"
  by (simp flip: take_bit_eq_mask take_bit_eq_mod)

section \<open>Signed readings of 32 bit words\<close>

lemma sint_nonneg_uint: "0 \<le> sint (w :: uint32) \<Longrightarrow> uint w = sint w \<and> sint w < 2 ^ 31"
  using sint_lt [of w] uint_sint [of w]
  by (simp add: take_bit_int_eq_self)

lemma sint32_word_of_int:
  "- (2 ^ 31) \<le> k \<Longrightarrow> k < 2 ^ 31 \<Longrightarrow> sint (word_of_int k :: uint32) = k"
  by transfer (simp add: signed_take_bit_int_eq_self)

lemma sint32_word_of_nat: "m < 2 ^ 31 \<Longrightarrow> sint (word_of_nat m :: uint32) = int m"
  using sint32_word_of_int [of "int m"] by simp

lemma sint_pred: "m < 2 ^ 31 \<Longrightarrow> sint (word_of_nat m - 1 :: uint32) = int m - 1"
  using sint32_word_of_int [of "int m - 1"] by simp

lemma sint32_unat: "unat (w :: uint32) < 2 ^ 31 \<Longrightarrow> sint w = int (unat w)"
  using sint32_word_of_nat [of "unat w"] by simp

lemma unat32_of_nat: "n < 2 ^ 32 \<Longrightarrow> unat (of_nat n :: uint32) = n"
  by (simp add: unat_of_nat take_bit_nat_eq_self)

lemma unat32_of_nat_pred: "0 < n \<Longrightarrow> n < 2 ^ 32 \<Longrightarrow> unat (of_nat n - 1 :: uint32) = n - 1"
  using unat32_of_nat [of "n - 1"] by (simp add: of_nat_diff)

section \<open>Buffers\<close>

definition mem_read :: "byte list \<Rightarrow> nat \<Rightarrow> nat \<Rightarrow> byte list option" where
  "mem_read buf off n = (if off + n \<le> length buf then Some (take n (drop off buf)) else None)"

definition mem_write :: "byte list \<Rightarrow> nat \<Rightarrow> byte list \<Rightarrow> byte list option" where
  "mem_write buf off bs =
     (if off + length bs \<le> length buf
      then Some (take off buf @ bs @ drop (off + length bs) buf) else None)"

definition mem_move :: "byte list \<Rightarrow> nat \<Rightarrow> nat \<Rightarrow> nat \<Rightarrow> byte list option" where
  "mem_move buf dst src n = do { bs \<leftarrow> mem_read buf src n; mem_write buf dst bs }"

definition mem_get :: "byte list \<Rightarrow> nat \<Rightarrow> byte option" where
  "mem_get buf i = (if i < length buf then Some (buf ! i) else None)"

definition mem_put :: "byte list \<Rightarrow> nat \<Rightarrow> byte \<Rightarrow> byte list option" where
  "mem_put buf i b = (if i < length buf then Some (buf[i := b]) else None)"

text \<open>
  \<^verbatim>\<open>realloc\<close> keeps the common prefix; the bytes it appends are indeterminate, which the
  parameter \<open>fill\<close> stands for.
\<close>

definition mem_realloc :: "(nat \<Rightarrow> byte) \<Rightarrow> nat \<Rightarrow> byte list \<Rightarrow> byte list" where
  "mem_realloc fill n buf = take n buf @ map fill [length buf..<n]"

lemma mem_get_Some [mem_simps]: "i < length buf \<Longrightarrow> mem_get buf i = Some (buf ! i)"
  by (simp add: mem_get_def)

lemma mem_put_Some [mem_simps]: "i < length buf \<Longrightarrow> mem_put buf i b = Some (buf[i := b])"
  by (simp add: mem_put_def)

lemma mem_read_Some [mem_simps]:
  "off + n \<le> length buf \<Longrightarrow> mem_read buf off n = Some (take n (drop off buf))"
  by (simp add: mem_read_def)

lemma mem_read_eq_Some_iff:
  "mem_read buf off n = Some bs \<longleftrightarrow> off + n \<le> length buf \<and> bs = take n (drop off buf)"
  by (auto simp: mem_read_def)

lemma mem_read_length: "mem_read buf off n = Some bs \<Longrightarrow> length bs = n"
  by (auto simp: mem_read_eq_Some_iff)

lemma mem_write_Some [mem_simps]:
  "off + length bs \<le> length buf
   \<Longrightarrow> mem_write buf off bs = Some (take off buf @ bs @ drop (off + length bs) buf)"
  by (simp add: mem_write_def)

lemma mem_write_eq_Some_iff:
  "mem_write buf off bs = Some buf'
   \<longleftrightarrow> off + length bs \<le> length buf \<and> buf' = take off buf @ bs @ drop (off + length bs) buf"
  by (auto simp: mem_write_def)

lemma mem_write_length: "mem_write buf off bs = Some buf' \<Longrightarrow> length buf' = length buf"
  by (auto simp: mem_write_eq_Some_iff)

lemma mem_read_write_same:
  "mem_write buf off bs = Some buf' \<Longrightarrow> mem_read buf' off (length bs) = Some bs"
  by (auto simp: mem_write_eq_Some_iff mem_read_def min_def)

lemma mem_read_write_before:
  assumes "mem_write buf off bs = Some buf'" "off' + n \<le> off"
  shows "mem_read buf' off' n = mem_read buf off' n"
proof -
  have "take n (drop off' (take off buf @ ys)) = take n (drop off' buf)" if "off \<le> length buf" for ys
    using assms(2) that by (intro nth_equalityI) (auto simp: nth_append)
  with assms show ?thesis
    by (auto simp: mem_write_eq_Some_iff mem_read_def)
qed

lemma mem_read_write_after:
  assumes "mem_write buf off bs = Some buf'" "off + length bs \<le> off'"
  shows "mem_read buf' off' n = mem_read buf off' n"
proof -
  have "drop off' (take off buf @ bs @ drop (off + length bs) buf) = drop off' buf"
    if "off + length bs \<le> length buf"
    using assms(2) that by (intro nth_equalityI) (auto simp: nth_append)
  with assms show ?thesis
    by (auto simp: mem_write_eq_Some_iff mem_read_def)
qed

lemma mem_move_Some [mem_simps]:
  "src + n \<le> length buf \<Longrightarrow> dst + n \<le> length buf
   \<Longrightarrow> mem_move buf dst src n = Some (take dst buf @ take n (drop src buf) @ drop (dst + n) buf)"
  by (simp add: mem_move_def mem_read_def mem_write_def min_absorb2)

lemma length_mem_realloc [simp]: "length (mem_realloc fill n buf) = n"
  by (simp add: mem_realloc_def)

lemma take_mem_realloc [simp]:
  "k \<le> n \<Longrightarrow> k \<le> length buf \<Longrightarrow> take k (mem_realloc fill n buf) = take k buf"
  by (simp add: mem_realloc_def)

lemma mem_read_realloc:
  "off + k \<le> n \<Longrightarrow> off + k \<le> length buf
   \<Longrightarrow> mem_read (mem_realloc fill n buf) off k = mem_read buf off k"
  by (auto simp: mem_read_def mem_realloc_def nth_append intro!: nth_equalityI)

text \<open>An access that succeeds in a part of a buffer succeeds in the buffer.\<close>

lemma mem_get_frame: "mem_get e i = Some x \<Longrightarrow> mem_get (a @ e @ b) (length a + i) = Some x"
  by (auto simp: mem_get_def nth_append split: if_splits)

lemma mem_read_frame: "mem_read e i n = Some bs \<Longrightarrow> mem_read (a @ e @ b) (length a + i) n = Some bs"
  by (auto simp: mem_read_def split: if_splits)

lemmas mem_get_frame0 = mem_get_frame [where i = 0, unfolded add_0_right]

section \<open>Little-endian integers\<close>

primrec le_encode :: "nat \<Rightarrow> int \<Rightarrow> byte list" where
  "le_encode 0 v = []"
| "le_encode (Suc n) v = word_of_int v # le_encode n (v div 256)"

definition le_decode :: "byte list \<Rightarrow> int" where
  "le_decode bs = horner_sum uint 256 bs"

definition le_decode_signed :: "byte list \<Rightarrow> int" where
  "le_decode_signed bs = signed_take_bit (8 * length bs - 1) (le_decode bs)"

lemma length_le_encode [simp]: "length (le_encode n v) = n"
  by (induction n arbitrary: v) auto

lemma le_decode_simps [simp]:
  "le_decode [] = 0"
  "le_decode (b # bs) = uint b + 256 * le_decode bs"
  by (simp_all add: le_decode_def)

lemma le_decode_bounds: "0 \<le> le_decode bs \<and> le_decode bs < 256 ^ length bs"
proof (induction bs)
  case Nil
  then show ?case by simp
next
  case (Cons b bs)
  moreover have "0 \<le> uint b" "uint b < 256"
    using uint_lt2p [of b] by simp_all
  ultimately show ?case by simp
qed

lemma le_decode_encode [le_simps]: "le_decode (le_encode n v) = take_bit (8 * n) v"
proof (induction n arbitrary: v)
  case 0
  then show ?case by simp
next
  case (Suc n)
  have "(2::int) ^ (8 * Suc n) = 256 * 2 ^ (8 * n)"
    by (simp add: power_add)
  then have "take_bit (8 * Suc n) v = 256 * (v div 256 mod 2 ^ (8 * n)) + v mod 256"
    by (simp add: take_bit_eq_mod zmod_zmult2_eq)
  with Suc.IH [of "v div 256"] show ?case
    by (simp add: uint_word_of_int take_bit_eq_mod)
qed

lemma le_decode_signed_encode [le_simps]:
  assumes "0 < n" "- (2 ^ (8 * n - 1)) \<le> v" "v < 2 ^ (8 * n - 1)"
  shows "le_decode_signed (le_encode n v) = v"
proof -
  have "\<not> 8 * n \<le> 8 * n - 1"
    using assms(1) by arith
  then have "signed_take_bit (8 * n - 1) (take_bit (8 * n) v) = signed_take_bit (8 * n - 1) v"
    by (simp only: signed_take_bit_take_bit if_False)
  also have "\<dots> = v"
    using assms(2,3) by (simp add: signed_take_bit_int_eq_self)
  finally show ?thesis
    by (simp add: le_decode_signed_def le_decode_encode)
qed

lemma le_decode_signed_bounds:
  assumes "bs \<noteq> []"
  shows "- (2 ^ (8 * length bs - 1)) \<le> le_decode_signed bs
    \<and> le_decode_signed bs < 2 ^ (8 * length bs - 1)"
  by (simp add: le_decode_signed_def signed_take_bit_int_greater_eq_minus_exp
      signed_take_bit_int_less_exp)

lemma le_encode_take_bit [le_simps]: "le_encode n (take_bit (8 * n) v) = le_encode n v"
proof (induction n arbitrary: v)
  case 0
  then show ?case by simp
next
  case (Suc n)
  have "take_bit (8 * Suc n) v div 256 = take_bit (8 * n) (v div 256)"
    by (simp add: take_bit_eq_mod power_add zmod_zmult2_eq)
  moreover have "(word_of_int (take_bit (8 * Suc n) v) :: byte) = word_of_int v"
    by (rule word_of_int_eq_iff [THEN iffD2]) (simp add: min_def)
  ultimately show ?case
    using Suc.IH by simp
qed

lemma le_encode_decode [le_simps]: "le_encode (length bs) (le_decode bs) = bs"
proof (induction bs)
  case Nil
  then show ?case by simp
next
  case (Cons b bs)
  have "(uint b + 256 * le_decode bs) div 256 = le_decode bs"
    using uint_lt2p [of b] by simp
  moreover have "(word_of_int (uint b + 256 * le_decode bs) :: byte) = word_of_int (uint b)"
    by (rule word_of_int_eq_iff [THEN iffD2]) (simp add: take_bit_eq_mod)
  ultimately show ?case
    using Cons.IH by (simp del: of_int_add)
qed

lemma le_encode_decode_signed [le_simps]:
  "bs \<noteq> [] \<Longrightarrow> le_encode (length bs) (le_decode_signed bs) = bs"
proof -
  assume "bs \<noteq> []"
  then have "8 * length bs \<le> Suc (8 * length bs - 1)"
    by simp
  then have "take_bit (8 * length bs) (le_decode_signed bs) = take_bit (8 * length bs) (le_decode bs)"
    by (simp only: le_decode_signed_def take_bit_signed_take_bit)
  then show ?thesis
    by (metis le_encode_take_bit le_encode_decode)
qed

section \<open>Arrays of little-endian integers\<close>

definition enc_all :: "nat \<Rightarrow> int list \<Rightarrow> byte list" where
  "enc_all w xs = concat (map (le_encode w) xs)"

primrec dec_all :: "nat \<Rightarrow> nat \<Rightarrow> byte list \<Rightarrow> int list" where
  "dec_all w 0 bs = []"
| "dec_all w (Suc n) bs = le_decode_signed (take w bs) # dec_all w n (drop w bs)"

lemma enc_all_simps [simp]:
  "enc_all w [] = []"
  "enc_all w (x # xs) = le_encode w x @ enc_all w xs"
  "enc_all w (xs @ ys) = enc_all w xs @ enc_all w ys"
  by (simp_all add: enc_all_def)

lemma length_enc_all [simp]: "length (enc_all w xs) = w * length xs"
  by (induction xs) auto

lemma take_enc_all: "take (w * p) (enc_all w xs) = enc_all w (take p xs)"
proof (induction xs arbitrary: p)
  case Nil
  then show ?case by simp
next
  case (Cons x xs)
  then show ?case
    by (cases p) auto
qed

lemma drop_enc_all: "drop (w * p) (enc_all w xs) = enc_all w (drop p xs)"
proof (induction xs arbitrary: p)
  case Nil
  then show ?case by simp
next
  case (Cons x xs)
  then show ?case
    by (cases p) auto
qed

lemma length_dec_all [simp]: "length (dec_all w n bs) = n"
  by (induction n arbitrary: bs) auto

lemma enc_dec_all:
  "0 < w \<Longrightarrow> length bs = w * n \<Longrightarrow> enc_all w (dec_all w n bs) = bs"
proof (induction n arbitrary: bs)
  case 0
  then show ?case by simp
next
  case (Suc n)
  then have "length (take w bs) = w"
    by simp
  with Suc.prems(1) have "le_encode w (le_decode_signed (take w bs)) = take w bs"
    by (metis le_encode_decode_signed length_0_conv less_numeral_extra(3))
  with Suc show ?case
    by simp
qed

text \<open>The values that fit \<open>w\<close> bytes in two's complement.\<close>

definition fits :: "nat \<Rightarrow> int \<Rightarrow> bool" where
  "fits w v \<longleftrightarrow> - (2 ^ (8 * w - 1)) \<le> v \<and> v < 2 ^ (8 * w - 1)"

lemma fits_mono: "fits w v \<Longrightarrow> w \<le> w' \<Longrightarrow> fits w' v"
proof -
  assume "fits w v" "w \<le> w'"
  moreover from \<open>w \<le> w'\<close> have "(2::int) ^ (8 * w - 1) \<le> 2 ^ (8 * w' - 1)"
    by (intro power_increasing) auto
  ultimately show ?thesis
    unfolding fits_def by linarith
qed

lemma dec_enc_all:
  "0 < w \<Longrightarrow> \<forall>x\<in>set xs. fits w x \<Longrightarrow> dec_all w (length xs) (enc_all w xs @ ys) = xs"
  by (induction xs) (auto simp: fits_def le_decode_signed_encode)

lemma dec_all_fits: "0 < w \<Longrightarrow> w * n \<le> length bs \<Longrightarrow> \<forall>x\<in>set (dec_all w n bs). fits w x"
proof (induction n arbitrary: bs)
  case 0
  then show ?case by simp
next
  case (Suc n)
  then have "length (take w bs) = w"
    by simp
  with Suc.prems(1) have "fits w (le_decode_signed (take w bs))"
    by (metis fits_def le_decode_signed_bounds length_0_conv less_numeral_extra(3))
  with Suc.IH [of "drop w bs"] Suc.prems show ?case
    by simp
qed

lemma mem_read_append: "mem_read (a @ b @ c) (length a) (length b) = Some b"
  by (simp add: mem_read_def)

lemma mem_write_append:
  "length b = length b' \<Longrightarrow> mem_write (a @ b @ c) (length a) b' = Some (a @ b' @ c)"
  by (simp add: mem_write_def)

lemma mem_read_enc_all [mem_simps]:
  "i < length xs \<Longrightarrow> mem_read (enc_all w xs @ ys) (w * i) w = Some (le_encode w (xs ! i))"
proof -
  assume i: "i < length xs"
  then have "enc_all w xs = enc_all w (take i xs) @ le_encode w (xs ! i) @ enc_all w (drop (Suc i) xs)"
    by (metis id_take_nth_drop enc_all_simps(2,3))
  moreover have "length (enc_all w (take i xs)) = w * i"
    using i by simp
  ultimately show ?thesis
    using i mem_read_append [of "enc_all w (take i xs)" "le_encode w (xs ! i)"]
    by (simp add: min_absorb2)
qed

end
