(* ===== verification/Set_Interface.thy ===== *)
theory Set_Interface
  imports Redis_Prelude
begin

text \<open>
  The contract that \<^verbatim>\<open>t_set.c\<close> relies on for each in-memory encoding of a set: membership,
  insertion and removal with their success flags, as long as the encoding has room. A state
  of the encoding stands for a finite set (\<open>mem\<close>); a fault is \<open>None\<close>.
\<close>

datatype 'a set_op = SAdd 'a | SRem 'a

primrec op_arg :: "'a set_op \<Rightarrow> 'a" where
  "op_arg (SAdd x) = x"
| "op_arg (SRem x) = x"

primrec abs_op :: "'a set \<Rightarrow> 'a set_op \<Rightarrow> 'a set \<times> bool" where
  "abs_op A (SAdd x) = (insert x A, x \<notin> A)"
| "abs_op A (SRem x) = (A - {x}, x \<in> A)"

primrec abs_run :: "'a set \<Rightarrow> 'a set_op list \<Rightarrow> 'a set \<times> bool list" where
  "abs_run A [] = (A, [])"
| "abs_run A (p # ps) =
     (let (A', b) = abs_op A p; (A'', bs) = abs_run A' ps in (A'', b # bs))"

primrec exec_op ::
  "('s \<Rightarrow> 'a \<Rightarrow> ('s \<times> bool) option) \<Rightarrow> ('s \<Rightarrow> 'a \<Rightarrow> ('s \<times> bool) option) \<Rightarrow> 's \<Rightarrow> 'a set_op
   \<Rightarrow> ('s \<times> bool) option" where
  "exec_op add rem s (SAdd x) = add s x"
| "exec_op add rem s (SRem x) = rem s x"

primrec exec_run ::
  "('s \<Rightarrow> 'a \<Rightarrow> ('s \<times> bool) option) \<Rightarrow> ('s \<Rightarrow> 'a \<Rightarrow> ('s \<times> bool) option) \<Rightarrow> 's \<Rightarrow> 'a set_op list
   \<Rightarrow> ('s \<times> bool list) option" where
  "exec_run add rem s [] = Some (s, [])"
| "exec_run add rem s (p # ps) = do {
     (s', b) \<leftarrow> exec_op add rem s p;
     (s'', bs) \<leftarrow> exec_run add rem s' ps;
     Some (s'', b # bs)
   }"

locale bounded_set =
  fixes wf :: "'s \<Rightarrow> bool" and mem :: "'s \<Rightarrow> 'a set" and ok :: "'a \<Rightarrow> bool" and cap :: nat
    and add rem :: "'s \<Rightarrow> 'a \<Rightarrow> ('s \<times> bool) option" and find :: "'s \<Rightarrow> 'a \<Rightarrow> bool option"
  assumes finite_mem: "wf s \<Longrightarrow> finite (mem s)"
    and add_spec: "wf s \<Longrightarrow> ok x \<Longrightarrow> card (mem s) < cap \<Longrightarrow>
      \<exists>s'. add s x = Some (s', x \<notin> mem s) \<and> wf s' \<and> mem s' = insert x (mem s)"
    and rem_spec: "wf s \<Longrightarrow> ok x \<Longrightarrow>
      \<exists>s'. rem s x = Some (s', x \<in> mem s) \<and> wf s' \<and> mem s' = mem s - {x}"
    and find_spec: "wf s \<Longrightarrow> ok x \<Longrightarrow> find s x = Some (x \<in> mem s)"
begin

lemma exec_op_correct:
  assumes "wf s" "ok (op_arg p)" "card (mem s) < cap"
  shows "\<exists>s'. exec_op add rem s p = Some (s', snd (abs_op (mem s) p)) \<and> wf s' \<and>
     mem s' = fst (abs_op (mem s) p) \<and> card (mem s') \<le> Suc (card (mem s))"
proof (cases p)
  case (SAdd x)
  with assms add_spec [of s x] finite_mem show ?thesis
    by (force simp: card_insert_if)
next
  case (SRem x)
  with assms rem_spec [of s x] finite_mem [of s] show ?thesis
    by (fastforce intro: le_SucI card_Diff1_le)
qed

text \<open>Any sequence of operations that stays within the capacity runs without a fault and
  computes the abstract set, with the success flags of the abstract operations.\<close>

lemma exec_run_correct:
  assumes "wf s" "\<forall>p\<in>set ps. ok (op_arg p)" "card (mem s) + length ps \<le> cap"
  shows "\<exists>s'. exec_run add rem s ps = Some (s', snd (abs_run (mem s) ps)) \<and> wf s' \<and>
     mem s' = fst (abs_run (mem s) ps)"
  using assms
proof (induction ps arbitrary: s)
  case Nil
  then show ?case by simp
next
  case (Cons p ps)
  then obtain s' where s': "exec_op add rem s p = Some (s', snd (abs_op (mem s) p))" "wf s'"
    "mem s' = fst (abs_op (mem s) p)" "card (mem s') \<le> Suc (card (mem s))"
    using exec_op_correct [of s p] by auto
  moreover from this Cons.prems have "card (mem s') + length ps \<le> cap"
    by simp
  ultimately obtain s'' where "exec_run add rem s' ps = Some (s'', snd (abs_run (mem s') ps))" "wf s''"
    "mem s'' = fst (abs_run (mem s') ps)"
    using Cons.IH [of s'] Cons.prems by auto
  with s' show ?case
    by (auto split: prod.splits)
qed

lemma find_after_run:
  assumes "wf s" "\<forall>p\<in>set ps. ok (op_arg p)" "card (mem s) + length ps \<le> cap" "ok x"
  shows "\<exists>s' bs. exec_run add rem s ps = Some (s', bs) \<and>
     find s' x = Some (x \<in> fst (abs_run (mem s) ps))"
  using exec_run_correct [OF assms(1-3)] find_spec assms(4) by force

end

end
