(* ===== verification/Intset.thy ===== *)
theory Intset
  imports Set_Interface
begin

text \<open>
  Integer sets, \<^verbatim>\<open>src/redis-7.2.10/src/intset.c\<close>: a sorted array of 16, 32 or 64 bit
  integers in one allocation, little-endian, searched by bisection and re-encoded in place
  when a wider value arrives. The model works on the bytes of the allocation, as the C code
  does: \<open>None\<close> is an access outside of \<open>is_contents\<close> or a failed assertion.
  On a little-endian host the \<^verbatim>\<open>rev\<close> macros of \<^verbatim>\<open>endianconv.h\<close> are no-ops.
  Values of type \<^verbatim>\<open>int64_t\<close> are \<open>int\<close>; \<open>uint32_t\<close> fields are words.
\<close>

record intset =
  is_encoding :: uint32
  is_length :: uint32
  is_contents :: "byte list"

abbreviation (input) INTSET_ENC_INT16 :: nat where "INTSET_ENC_INT16 \<equiv> 2"
abbreviation (input) INTSET_ENC_INT32 :: nat where "INTSET_ENC_INT32 \<equiv> 4"
abbreviation (input) INTSET_ENC_INT64 :: nat where "INTSET_ENC_INT64 \<equiv> 8"

section \<open>Operations\<close>

definition intsetValueEncoding :: "int \<Rightarrow> nat" where
  "intsetValueEncoding v =
     (if v < - (2 ^ 31) \<or> v > 2 ^ 31 - 1 then INTSET_ENC_INT64
      else if v < - (2 ^ 15) \<or> v > 2 ^ 15 - 1 then INTSET_ENC_INT32
      else INTSET_ENC_INT16)"

definition intsetGetEncoded :: "intset \<Rightarrow> int \<Rightarrow> nat \<Rightarrow> int option" where
  "intsetGetEncoded is pos enc =
     (if pos < 0 then None
      else if enc = INTSET_ENC_INT64 then
        map_option le_decode_signed (mem_read (is_contents is) (8 * nat pos) 8)
      else if enc = INTSET_ENC_INT32 then
        map_option le_decode_signed (mem_read (is_contents is) (4 * nat pos) 4)
      else
        map_option le_decode_signed (mem_read (is_contents is) (2 * nat pos) 2))"

text \<open>The parameter of \<^verbatim>\<open>_intsetGetEncoded\<close> is a \<^verbatim>\<open>uint8_t\<close>.\<close>

definition intsetGet0 :: "intset \<Rightarrow> int \<Rightarrow> int option" where
  "intsetGet0 is pos = intsetGetEncoded is pos (unat (is_encoding is) mod 256)"

definition intsetSet :: "intset \<Rightarrow> int \<Rightarrow> int \<Rightarrow> intset option" where
  "intsetSet is pos v =
     (if pos < 0 then None
      else if unat (is_encoding is) = INTSET_ENC_INT64 then
        map_option (\<lambda>c. is\<lparr>is_contents := c\<rparr>) (mem_write (is_contents is) (8 * nat pos) (le_encode 8 v))
      else if unat (is_encoding is) = INTSET_ENC_INT32 then
        map_option (\<lambda>c. is\<lparr>is_contents := c\<rparr>) (mem_write (is_contents is) (4 * nat pos) (le_encode 4 v))
      else
        map_option (\<lambda>c. is\<lparr>is_contents := c\<rparr>) (mem_write (is_contents is) (2 * nat pos) (le_encode 2 v)))"

definition intsetNew :: intset where
  "intsetNew = \<lparr>is_encoding = of_nat INTSET_ENC_INT16, is_length = 0, is_contents = []\<rparr>"

definition intsetResize :: "(nat \<Rightarrow> byte) \<Rightarrow> intset \<Rightarrow> uint32 \<Rightarrow> intset option" where
  "intsetResize fill is len =
     (let size = unat len * unat (is_encoding is)
      in if size \<le> (2 ^ 64 - 1) - 8
         then Some (is\<lparr>is_contents := mem_realloc fill size (is_contents is)\<rparr>) else None)"

text \<open>
  The bisection loop. \<^verbatim>\<open>min\<close> starts at 0 and only grows, so it is a natural number;
  \<^verbatim>\<open>max\<close> is the C \<^verbatim>\<open>int\<close>, read as signed; the midpoint is the unsigned shift of the
  source. The result is the final \<^verbatim>\<open>min\<close>, \<^verbatim>\<open>mid\<close> and \<^verbatim>\<open>cur\<close>.
\<close>

function intsetSearchLoop ::
  "intset \<Rightarrow> int \<Rightarrow> nat \<Rightarrow> uint32 \<Rightarrow> int \<Rightarrow> int \<Rightarrow> (nat \<times> int \<times> int) option" where
  "intsetSearchLoop is v mn mx mid cur =
     (if int mn \<le> sint mx then
        (let mid' = unat (drop_bit 1 (word_of_nat mn + mx)) in
         case intsetGet0 is (int mid') of
           None \<Rightarrow> None
         | Some cur' \<Rightarrow>
             if v > cur' then intsetSearchLoop is v (mid' + 1) mx (int mid') cur'
             else if v < cur' then intsetSearchLoop is v mn (word_of_nat mid' - 1) (int mid') cur'
             else Some (mn, int mid', cur'))
      else Some (mn, mid, cur))"
  by pat_completeness auto

lemma mid_bounds:
  assumes "int mn \<le> sint (mx :: uint32)"
  defines "mid \<equiv> unat (drop_bit 1 (word_of_nat mn + mx))"
  shows "mn \<le> mid" "int mid \<le> sint mx" "mid = (mn + unat mx) div 2" "mid < 2 ^ 31"
    "unat mx = nat (sint mx)"
proof -
  from assms have mx: "uint mx = sint mx" "sint mx < 2 ^ 31"
    using sint_nonneg_uint [of mx] by auto
  then show eq: "unat mx = nat (sint mx)"
    by (simp add: unat_eq_nat_uint)
  with mx assms(1) have "mn + unat mx < 2 ^ 32"
    by simp
  then have "unat (word_of_nat mn + mx) = mn + unat mx"
    by (simp add: unat_word_ariths unat_of_nat take_bit_eq_mod mod_add_left_eq)
  then show m: "mid = (mn + unat mx) div 2"
    by (simp add: mid_def drop_bit_eq_div unat_div)
  show "mn \<le> mid" "int mid \<le> sint mx"
    using assms(1) m eq by linarith+
  with mx show "mid < 2 ^ 31"
    by simp
qed

termination intsetSearchLoop
proof (relation "measure (\<lambda>(is, v, mn, mx, mid, cur). nat (sint mx + 1 - int mn))", goal_cases)
  case 1
  then show ?case by simp
next
  case (2 s v mn mx mid cur mid' cur')
  then show ?case
    using mid_bounds [of mn mx] by simp
next
  case (3 s v mn mx mid cur mid' cur')
  note b = mid_bounds [OF 3(1), folded 3(2)]
  from b(1,2,4) sint_pred [of mid'] show ?case
    by simp
qed

declare intsetSearchLoop.simps [simp del]

definition intsetSearch :: "intset \<Rightarrow> int \<Rightarrow> (bool \<times> uint32) option" where
  "intsetSearch is v =
     (let len = is_length is; mx = len - 1
      in if len = 0 then Some (False, 0)
         else do {
           hi \<leftarrow> intsetGet0 is (sint mx);
           if v > hi then Some (False, len)
           else do {
             lo \<leftarrow> intsetGet0 is 0;
             if v < lo then Some (False, 0)
             else do {
               (mn, mid, cur) \<leftarrow> intsetSearchLoop is v 0 mx (-1) (-1);
               Some (if v = cur then (True, word_of_int mid) else (False, word_of_nat mn))
             }
           }
         })"

text \<open>
  \<^verbatim>\<open>while(length--)\<close> of \<^verbatim>\<open>intsetUpgradeAndAdd\<close>: from the last value to the first. The C
  counter is an \<^verbatim>\<open>int\<close>; a length of \<open>2 ^ 31\<close> or more converts to a negative one, whose first
  access is out of bounds.
\<close>

primrec intsetUpgradeLoop :: "nat \<Rightarrow> nat \<Rightarrow> nat \<Rightarrow> intset \<Rightarrow> intset option" where
  "intsetUpgradeLoop curenc prepend 0 is = Some is"
| "intsetUpgradeLoop curenc prepend (Suc l) is = do {
     v \<leftarrow> intsetGetEncoded is (int l) curenc;
     is' \<leftarrow> intsetSet is (int (l + prepend)) v;
     intsetUpgradeLoop curenc prepend l is'
   }"

definition intsetUpgradeAndAdd :: "(nat \<Rightarrow> byte) \<Rightarrow> intset \<Rightarrow> int \<Rightarrow> intset option" where
  "intsetUpgradeAndAdd fill is v =
     (let curenc = unat (is_encoding is) mod 256;
          newenc = intsetValueEncoding v;
          len = sint (is_length is);
          prepend = (if v < 0 then 1 else 0)
      in do {
        is1 \<leftarrow> intsetResize fill (is\<lparr>is_encoding := of_nat newenc\<rparr>) (is_length is + 1);
        is2 \<leftarrow> (if len < 0 then None else intsetUpgradeLoop curenc prepend (nat len) is1);
        is3 \<leftarrow> (if prepend = 1 then intsetSet is2 0 v
               else intsetSet is2 (sint (is_length is2)) v);
        Some (is3\<lparr>is_length := is_length is3 + 1\<rparr>)
      })"

text \<open>The byte count of \<^verbatim>\<open>intsetMoveTail\<close> is a \<^verbatim>\<open>uint32_t\<close>: the product wraps.\<close>

definition intsetMoveTail :: "intset \<Rightarrow> uint32 \<Rightarrow> uint32 \<Rightarrow> intset option" where
  "intsetMoveTail is from to =
     (let bytes = is_length is - from;
          w = (if unat (is_encoding is) = INTSET_ENC_INT64 then 8
               else if unat (is_encoding is) = INTSET_ENC_INT32 then 4 else 2)
      in map_option (\<lambda>c. is\<lparr>is_contents := c\<rparr>)
           (mem_move (is_contents is) (w * unat to) (w * unat from) (unat (bytes * of_nat w))))"

definition intsetAdd :: "(nat \<Rightarrow> byte) \<Rightarrow> intset \<Rightarrow> int \<Rightarrow> (intset \<times> bool) option" where
  "intsetAdd fill is v =
     (let valenc = intsetValueEncoding v
      in if valenc > unat (is_encoding is)
         then map_option (\<lambda>is'. (is', True)) (intsetUpgradeAndAdd fill is v)
         else do {
           (found, pos) \<leftarrow> intsetSearch is v;
           if found then Some (is, False)
           else do {
             is1 \<leftarrow> intsetResize fill is (is_length is + 1);
             is2 \<leftarrow> (if pos < is_length is1 then intsetMoveTail is1 pos (pos + 1) else Some is1);
             is3 \<leftarrow> intsetSet is2 (sint pos) v;
             Some (is3\<lparr>is_length := is_length is3 + 1\<rparr>, True)
           }
         })"

definition intsetRemove :: "(nat \<Rightarrow> byte) \<Rightarrow> intset \<Rightarrow> int \<Rightarrow> (intset \<times> bool) option" where
  "intsetRemove fill is v =
     (let valenc = intsetValueEncoding v
      in if valenc \<le> unat (is_encoding is) then do {
           (found, pos) \<leftarrow> intsetSearch is v;
           if found then
             (let len = is_length is
              in do {
                is1 \<leftarrow> (if pos < len - 1 then intsetMoveTail is (pos + 1) pos else Some is);
                is2 \<leftarrow> intsetResize fill is1 (len - 1);
                Some (is2\<lparr>is_length := len - 1\<rparr>, True)
              })
           else Some (is, False)
         }
         else Some (is, False))"

definition intsetFind :: "intset \<Rightarrow> int \<Rightarrow> bool option" where
  "intsetFind is v =
     (if intsetValueEncoding v \<le> unat (is_encoding is)
      then map_option fst (intsetSearch is v) else Some False)"

text \<open>\<open>rnd\<close> is the value of libc's \<^verbatim>\<open>rand()\<close>.\<close>

definition intsetRandom :: "nat \<Rightarrow> intset \<Rightarrow> int option" where
  "intsetRandom rnd is =
     (let len = unat (is_length is)
      in if len = 0 then None else intsetGet0 is (sint (of_nat (rnd mod len) :: uint32)))"

definition intsetMax :: "intset \<Rightarrow> int option" where
  "intsetMax is = intsetGet0 is (sint (is_length is - 1))"

definition intsetMin :: "intset \<Rightarrow> int option" where
  "intsetMin is = intsetGet0 is 0"

text \<open>\<^verbatim>\<open>intsetGet\<close>: the outer \<open>None\<close> is a fault, the inner one the return value 0.\<close>

definition intsetGet :: "intset \<Rightarrow> uint32 \<Rightarrow> int option option" where
  "intsetGet is pos =
     (if pos < is_length is then map_option Some (intsetGet0 is (sint pos)) else Some None)"

definition intsetLen :: "intset \<Rightarrow> uint32" where
  "intsetLen is = is_length is"

definition intsetBlobLen :: "intset \<Rightarrow> nat" where
  "intsetBlobLen is = 8 + unat (is_length is) * unat (is_encoding is)"

text \<open>
  \<^verbatim>\<open>intsetValidateIntegrity\<close> reads an untrusted blob: the header is two little-endian
  \<^verbatim>\<open>uint32_t\<close>, the records follow.
\<close>

definition intset_of_blob :: "byte list \<Rightarrow> intset" where
  "intset_of_blob p =
     \<lparr>is_encoding = word_of_int (le_decode (take 4 p)),
      is_length = word_of_int (le_decode (take 4 (drop 4 p))),
      is_contents = drop 8 p\<rparr>"

primrec intsetValidateLoop :: "intset \<Rightarrow> nat \<Rightarrow> nat \<Rightarrow> int \<Rightarrow> bool option" where
  "intsetValidateLoop is 0 i prev = Some True"
| "intsetValidateLoop is (Suc n) i prev = do {
     cur \<leftarrow> intsetGet0 is (sint (of_nat i :: uint32));
     if cur \<le> prev then Some False else intsetValidateLoop is n (Suc i) cur
   }"

definition intsetValidateIntegrity :: "byte list \<Rightarrow> bool \<Rightarrow> bool option" where
  "intsetValidateIntegrity p deep =
     (let size = length p; is = intset_of_blob p
      in if size < 8 then Some False
         else let enc = unat (is_encoding is); count = unat (is_length is)
         in if enc \<noteq> INTSET_ENC_INT64 \<and> enc \<noteq> INTSET_ENC_INT32 \<and> enc \<noteq> INTSET_ENC_INT16
            then Some False
            else if 8 + count * enc \<noteq> size then Some False
            else if count = 0 then Some False
            else if \<not> deep then Some True
            else do {
              prev \<leftarrow> intsetGet0 is 0;
              intsetValidateLoop is (count - 1) 1 prev
            })"

section \<open>Abstraction and invariant\<close>

text \<open>
  The set as the list of its members in increasing order, and the well-formed intsets. The
  bound on the length keeps the 32 bit byte count of \<^verbatim>\<open>intsetMoveTail\<close> from wrapping.
\<close>

definition intset_elems :: "intset \<Rightarrow> int list" where
  "intset_elems s = dec_all (unat (is_encoding s)) (unat (is_length s)) (is_contents s)"

definition intset_wf :: "intset \<Rightarrow> bool" where
  "intset_wf s \<longleftrightarrow>
     unat (is_encoding s) \<in> {2, 4, 8} \<and> unat (is_length s) < 2 ^ 29 \<and>
     length (is_contents s) = unat (is_encoding s) * unat (is_length s) \<and>
     sorted_wrt (<) (intset_elems s)"

definition intset_repr :: "intset \<Rightarrow> nat \<Rightarrow> int list \<Rightarrow> bool" where
  "intset_repr s w xs \<longleftrightarrow>
     unat (is_encoding s) = w \<and> w \<in> {2, 4, 8} \<and> is_length s = of_nat (length xs) \<and>
     length xs < 2 ^ 29 \<and> is_contents s = enc_all w xs \<and> (\<forall>x\<in>set xs. fits w x)"

lemma intset_repr_elems: "intset_repr s w xs \<Longrightarrow> intset_elems s = xs"
  using dec_enc_all [of w xs "[]"]
  by (auto simp: intset_repr_def intset_elems_def unat32_of_nat)

lemma intset_elems_repr:
  fixes s :: intset
  defines "w \<equiv> unat (is_encoding s)" and "n \<equiv> unat (is_length s)"
  assumes w: "w \<in> {2, 4, 8}" "length (is_contents s) = w * n" "n < 2 ^ 29"
  shows "intset_repr s w (intset_elems s)"
proof -
  have "enc_all w (intset_elems s) = is_contents s" "\<forall>x\<in>set (intset_elems s). fits w x"
    using enc_dec_all [of w "is_contents s" n] dec_all_fits [of w n "is_contents s"] w
    by (auto simp: intset_elems_def w_def n_def)
  with w show ?thesis
    by (simp add: intset_repr_def intset_elems_def w_def n_def)
qed

lemma intset_wf_repr:
  assumes "intset_wf s"
  shows "intset_repr s (unat (is_encoding s)) (intset_elems s)" "sorted_wrt (<) (intset_elems s)"
  using assms intset_elems_repr [of s] by (auto simp: intset_wf_def)

lemma intset_wfI:
  assumes "intset_repr s w xs" "sorted_wrt (<) xs"
  shows "intset_wf s \<and> intset_elems s = xs"
proof -
  have "intset_elems s = xs"
    using assms(1) by (rule intset_repr_elems)
  with assms show ?thesis
    by (auto simp: intset_wf_def intset_repr_def unat32_of_nat)
qed

section \<open>Reads and writes of one record\<close>

lemma intsetGetEncoded_mem:
  "w \<in> {2, 4, 8} \<Longrightarrow>
   intsetGetEncoded s (int i) w = map_option le_decode_signed (mem_read (is_contents s) (w * i) w)"
  by (auto simp: intsetGetEncoded_def)

lemma intsetSet_mem:
  "unat (is_encoding s) = w \<Longrightarrow> w \<in> {2, 4, 8} \<Longrightarrow>
   intsetSet s (int i) v =
     map_option (\<lambda>c. s\<lparr>is_contents := c\<rparr>) (mem_write (is_contents s) (w * i) (le_encode w v))"
  by (auto simp: intsetSet_def)

lemma intsetGet0_nth:
  assumes "intset_repr s w xs" "i < length xs"
  shows "intsetGet0 s (int i) = Some (xs ! i)"
proof -
  from assms have "fits w (xs ! i)" "0 < w" "is_contents s = enc_all w xs" "w \<in> {2, 4, 8}"
    "unat (is_encoding s) = w"
    by (auto simp: intset_repr_def)
  then show ?thesis
    using mem_read_enc_all [of i xs w "[]"] assms(2)
    by (auto simp: intsetGet0_def intsetGetEncoded_mem le_decode_signed_encode fits_def)
qed

lemma intset_repr_length:
  "intset_repr s w xs \<Longrightarrow> unat (is_length s) = length xs \<and> sint (is_length s) = int (length xs)"
  by (simp add: intset_repr_def unat32_of_nat sint32_word_of_nat)

section \<open>Bisection\<close>

definition insert_pos :: "int \<Rightarrow> int list \<Rightarrow> nat" where
  "insert_pos v xs = length (takeWhile (\<lambda>x. x < v) xs)"

lemma insert_pos_eqI:
  assumes "p \<le> length xs" "\<forall>i<p. xs ! i < v" "p < length xs \<longrightarrow> v \<le> xs ! p"
  shows "insert_pos v xs = p"
proof -
  have "takeWhile (\<lambda>x. x < v) xs = take p xs"
    using assms by (intro takeWhile_eq_take_P_nth) (auto simp: not_less)
  with assms(1) show ?thesis
    by (simp add: insert_pos_def)
qed

lemma insert_pos_le: "insert_pos v xs \<le> length xs"
  by (simp add: insert_pos_def length_takeWhile_le)

lemma intsetSearchLoop_correct:
  assumes "intset_repr s w xs" "sorted_wrt (<) xs"
    and "mn \<le> length xs" "sint mx < int (length xs)" "-1 \<le> sint mx" "int mn \<le> sint mx + 1"
    and "\<forall>i<mn. xs ! i < v" "\<forall>i<length xs. sint mx < int i \<longrightarrow> v < xs ! i"
    and "int mn \<le> sint mx \<or> cur \<noteq> v"
  shows "\<exists>mn' mid' cur'. intsetSearchLoop s v mn mx mid cur = Some (mn', mid', cur') \<and>
     (if v \<in> set xs then cur' = v \<and> mid' = int (insert_pos v xs)
      else cur' \<noteq> v \<and> mn' = insert_pos v xs)"
  using assms
proof (induction s v mn mx mid cur rule: intsetSearchLoop.induct)
  case (1 s v mn mx mid cur)
  show ?case
  proof (cases "int mn \<le> sint mx")
    case False
    with "1.prems" have mn: "int mn = sint mx + 1" "cur \<noteq> v"
      by auto
    then have "v < xs ! i" if "i < length xs" "mn \<le> i" for i
      using that "1.prems"(8) by auto
    moreover from this have "v \<notin> set xs"
      using "1.prems"(7) by (metis in_set_conv_nth linorder_not_le order_less_irrefl)
    moreover have "insert_pos v xs = mn"
      using "1.prems" calculation(1) by (intro insert_pos_eqI) (auto simp: less_imp_le)
    ultimately show ?thesis
      using False mn(2) by (simp add: intsetSearchLoop.simps [of s v mn mx])
  next
    case True
    define m where "m = unat (drop_bit 1 (word_of_nat mn + mx))"
    note b = mid_bounds [OF True, folded m_def]
    with "1.prems"(4) have m: "m < length xs"
      by linarith
    then have get: "intsetGet0 s (int m) = Some (xs ! m)"
      using "1.prems"(1) by (rule intsetGet0_nth [rotated])
    have unfold: "intsetSearchLoop s v mn mx mid cur =
      (if v > xs ! m then intsetSearchLoop s v (m + 1) mx (int m) (xs ! m)
       else if v < xs ! m then intsetSearchLoop s v mn (word_of_nat m - 1) (int m) (xs ! m)
       else Some (mn, int m, xs ! m))"
      unfolding intsetSearchLoop.simps [of s v mn mx] m_def [symmetric] Let_def get
      using True by (simp only: if_True option.case)
    have mono: "xs ! i < xs ! j" if "i < j" "j < length xs" for i j
      using that "1.prems"(2) by (simp add: sorted_wrt_iff_nth_less)
    consider "v > xs ! m" | "v < xs ! m" | "v = xs ! m"
      by linarith
    then show ?thesis
    proof cases
      case 1
      then have "\<forall>i<m + 1. xs ! i < v"
        using mono m by (metis Suc_eq_plus1 less_Suc_eq order_less_trans)
      then show ?thesis
        using "1.IH"(1) [OF True m_def get 1 "1.prems"(1,2)] "1.prems"(4,5,8) b(2) m 1
        by (simp add: unfold)
    next
      case 2
      have mx': "sint (word_of_nat m - 1 :: uint32) = int m - 1"
        using b(4) by (rule sint_pred)
      have "v < xs ! i" if "i < length xs" "int m - 1 < int i" for i
      proof (cases "i = m")
        case True
        with 2 show ?thesis by simp
      next
        case False
        with that have "xs ! m < xs ! i"
          by (intro mono) auto
        with 2 show ?thesis by simp
      qed
      then show ?thesis
        using "1.IH"(2) [OF True m_def get _ 2 "1.prems"(1,2)] "1.prems"(3,4,7) b(1) m 2
          order_less_not_sym [OF 2]
        by (simp add: unfold mx')
    next
      case 3
      have "insert_pos v xs = m"
        using 3 m mono by (intro insert_pos_eqI) auto
      moreover have "v \<in> set xs"
        using 3 m by simp
      moreover have "intsetSearchLoop s v mn mx mid cur = Some (mn, int m, v)"
        using 3 unfold by simp
      ultimately show ?thesis
        by simp
    qed
  qed
qed

lemma intsetSearch_repr:
  assumes "intset_repr s w xs" "sorted_wrt (<) xs"
  shows "intsetSearch s v = Some (v \<in> set xs, of_nat (insert_pos v xs))"
proof (cases "xs = []")
  case True
  with assms(1) have "is_length s = 0"
    by (simp add: intset_repr_def)
  with True show ?thesis
    by (simp add: intsetSearch_def insert_pos_def)
next
  case False
  define n where "n = length xs"
  have n: "0 < n" "n < 2 ^ 29" "is_length s = of_nat n"
    using False assms(1) by (auto simp: intset_repr_def n_def)
  then have "unat (is_length s) = n" and mx: "sint (is_length s - 1) = int n - 1"
    using sint_pred [of n] by (simp_all add: unat32_of_nat)
  then have len: "is_length s \<noteq> 0"
    using n(1) by auto
  have hi: "intsetGet0 s (sint (is_length s - 1)) = Some (xs ! (n - 1))"
    and lo: "intsetGet0 s 0 = Some (xs ! 0)"
    using intsetGet0_nth [OF assms(1), of "n - 1"] intsetGet0_nth [OF assms(1), of 0] n(1) mx
    by (simp_all add: n_def)
  have mono: "xs ! i \<le> xs ! j" if "i \<le> j" "j < n" for i j
    using that assms(2) by (metis le_less n_def order_refl sorted_wrt_iff_nth_less)
  consider "v > xs ! (n - 1)" | "\<not> v > xs ! (n - 1)" "v < xs ! 0"
    | "\<not> v > xs ! (n - 1)" "\<not> v < xs ! 0"
    by linarith
  then show ?thesis
  proof cases
    case 1
    have "xs ! i < v" if "i < n" for i
      using 1 mono [of i "n - 1"] that by force
    moreover from this have "insert_pos v xs = n"
      by (intro insert_pos_eqI) (auto simp: n_def)
    ultimately have "v \<notin> set xs" "insert_pos v xs = n"
      by (auto simp: in_set_conv_nth n_def)
    with 1 show ?thesis
      by (simp add: intsetSearch_def Let_def len hi flip: n(3))
  next
    case 2
    have "v < xs ! i" if "i < n" for i
      using 2(2) mono [of 0 i] that by simp
    moreover from this have "insert_pos v xs = 0"
      by (intro insert_pos_eqI) (auto simp: n_def less_imp_le)
    ultimately have "v \<notin> set xs" "insert_pos v xs = 0"
      by (auto simp: in_set_conv_nth n_def)
    with 2 show ?thesis
      by (simp add: intsetSearch_def len hi lo)
  next
    case 3
    have "\<exists>mn' mid' cur'. intsetSearchLoop s v 0 (is_length s - 1) (-1) (-1) = Some (mn', mid', cur') \<and>
       (if v \<in> set xs then cur' = v \<and> mid' = int (insert_pos v xs)
        else cur' \<noteq> v \<and> mn' = insert_pos v xs)"
      using n(1) mx by (intro intsetSearchLoop_correct [OF assms]) (auto simp: n_def)
    with 3 show ?thesis
      by (auto simp: intsetSearch_def len hi lo split: if_splits)
  qed
qed

section \<open>Insertion and removal without a change of encoding\<close>

lemma intsetMoveTail_repr:
  assumes "unat (is_encoding s) = w" "w \<in> {2, 4, 8}" "is_length s = of_nat n" "n < 2 ^ 29"
    and "f \<le> n" "t \<le> n"
  shows "intsetMoveTail s (of_nat f) (of_nat t) =
    map_option (\<lambda>c. s\<lparr>is_contents := c\<rparr>) (mem_move (is_contents s) (w * t) (w * f) ((n - f) * w))"
proof -
  have "unat (of_nat n - of_nat f :: uint32) = n - f"
    using assms(4,5) by (simp add: unat_sub_if_size unat32_of_nat)
  then have "unat ((of_nat n - of_nat f) * of_nat w :: uint32) = (n - f) * w mod 2 ^ 32"
    using assms(2) by (auto simp: unat_word_ariths)
  also have "\<dots> = (n - f) * w"
    using assms(2,4) by (intro mod_less) auto
  finally show ?thesis
    using assms by (auto simp: intsetMoveTail_def unat32_of_nat)
qed

lemma insort_insert_pos:
  assumes "sorted_wrt (<) xs" "v \<notin> set xs"
  shows "take (insert_pos v xs) xs @ v # drop (insert_pos v xs) xs = insort_insert v xs"
  using assms
proof (induction xs)
  case Nil
  then show ?case by (simp add: insert_pos_def insort_insert_insort)
next
  case (Cons x xs)
  then show ?case
    by (cases "x < v") (auto simp: insert_pos_def insort_insert_key_def)
qed

lemma remove1_insert_pos:
  assumes "sorted_wrt (<) xs" "v \<in> set xs"
  shows "insert_pos v xs < length xs" "xs ! insert_pos v xs = v"
    "take (insert_pos v xs) xs @ drop (Suc (insert_pos v xs)) xs = remove1 v xs"
  using assms by (induction xs) (auto simp: insert_pos_def)

lemma strict_sorted_insort_insert:
  "sorted_wrt (<) (xs :: int list) \<Longrightarrow> sorted_wrt (<) (insort_insert v xs)"
  by (metis distinct_insort_insert sorted_insort_insert strict_sorted_iff)

lemma strict_sorted_remove1:
  "sorted_wrt (<) (xs :: int list) \<Longrightarrow> sorted_wrt (<) (remove1 v xs)"
  by (metis distinct_remove1 sorted_remove1 strict_sorted_iff)

lemma length_insort_insert:
  "length (insort_insert v (xs :: int list)) = (if v \<in> set xs then length xs else Suc (length xs))"
  by (simp add: insort_insert_key_def)

lemma intsetResize_repr:
  assumes "unat (is_encoding s) = w" "w \<in> {2, 4, 8}" "n \<le> 2 ^ 29"
  shows "intsetResize fill s (of_nat n) = Some (s\<lparr>is_contents := mem_realloc fill (w * n) (is_contents s)\<rparr>)"
  using assms by (auto simp: intsetResize_def unat32_of_nat mult.commute)

text \<open>The bytes of an insertion: grow by one record, shift the tail, write the record.\<close>

lemma insert_record_bytes:
  assumes "p \<le> length xs" "0 < w"
  defines "n \<equiv> length xs"
  shows "do { c \<leftarrow> (if p < n then mem_move (mem_realloc fill (w * Suc n) (enc_all w xs))
                     (w * Suc p) (w * p) ((n - p) * w)
                   else Some (mem_realloc fill (w * Suc n) (enc_all w xs)));
              mem_write c (w * p) (le_encode w v) }
         = Some (enc_all w (take p xs @ v # drop p xs))"
proof -
  define junk where "junk = map fill [w * n..<w * Suc n]"
  have junk: "length junk = w"
    by (simp add: junk_def)
  have c: "mem_realloc fill (w * Suc n) (enc_all w xs) = enc_all w (take p xs) @ enc_all w (drop p xs) @ junk"
    unfolding mem_realloc_def junk_def n_def
    by (metis append_assoc append_take_drop_id enc_all_simps(3) le_add2 length_enc_all
        mult_Suc_right take_all)
  have tp: "length (enc_all w (take p xs)) = w * p" and dp: "length (enc_all w (drop p xs)) = (n - p) * w"
    using assms(1) by (simp_all add: n_def)
  show ?thesis
  proof (cases "p < n")
    case True
    let ?c = "enc_all w (take p xs) @ enc_all w (drop p xs) @ junk"
    obtain k where k: "n = p + Suc k"
      using True less_iff_Suc_add [of p n] by auto
    then have len: "length ?c = w * Suc n"
      using junk tp dp by (simp del: length_enc_all add: algebra_simps)
    have le: "w * p + (n - p) * w \<le> w * Suc n" "w * Suc p + (n - p) * w \<le> w * Suc n"
      using k by (simp_all add: algebra_simps)
    define b where "b = take w (enc_all w (drop p xs) @ junk)"
    have b: "length b = length (le_encode w v)"
      using junk by (simp add: b_def)
    have "take (w * Suc p) ?c = enc_all w (take p xs) @ b"
      by (simp add: b_def tp del: length_enc_all)
    moreover have "take ((n - p) * w) (drop (w * p) ?c) = enc_all w (drop p xs)"
      by (simp add: tp dp del: length_enc_all)
    moreover have "drop (w * Suc p + (n - p) * w) ?c = []"
      using len k by (simp add: algebra_simps)
    ultimately have "mem_move ?c (w * Suc p) (w * p) ((n - p) * w) =
      Some (enc_all w (take p xs) @ b @ enc_all w (drop p xs))"
      using le len by (simp add: mem_move_Some)
    then show ?thesis
      using True mem_write_append [OF b, of "enc_all w (take p xs)" "enc_all w (drop p xs)", unfolded tp]
      by (simp add: c [unfolded mult_Suc_right])
  next
    case False
    then have "p = n"
      using assms(1) by (simp add: n_def)
    then show ?thesis
      using tp junk mem_write_append [of junk "le_encode w v" "enc_all w xs" "[]"]
      by (simp add: c [unfolded mult_Suc_right n_def] n_def)
  qed
qed

lemma delete_record_bytes:
  assumes "p < length xs" "0 < w"
  defines "n \<equiv> length xs"
  shows "do { c \<leftarrow> (if p < n - 1 then mem_move (enc_all w xs) (w * p) (w * Suc p) ((n - Suc p) * w)
                   else Some (enc_all w xs));
              Some (mem_realloc fill (w * (n - 1)) c) }
         = Some (enc_all w (take p xs @ drop (Suc p) xs))"
proof (cases "p < n - 1")
  case True
  have tp: "take (w * p) (enc_all w xs) = enc_all w (take p xs)"
    and dp: "drop (w * Suc p) (enc_all w xs) = enc_all w (drop (Suc p) xs)"
    by (rule take_enc_all, rule drop_enc_all)
  obtain k where "n = Suc p + k"
    using assms(1) less_imp_Suc_add [of p n] by (auto simp: n_def)
  then have le: "w * Suc p + (n - Suc p) * w \<le> w * n" "w * p + (n - Suc p) * w \<le> w * n"
    by (simp_all add: algebra_simps)
  have "length (enc_all w (drop (Suc p) xs)) = (n - Suc p) * w"
    by (simp add: n_def)
  with dp le have "mem_move (enc_all w xs) (w * p) (w * Suc p) ((n - Suc p) * w) =
    Some (enc_all w (take p xs) @ enc_all w (drop (Suc p) xs) @ drop (w * p + (n - Suc p) * w) (enc_all w xs))"
    by (simp add: mem_move_Some tp n_def del: mult_Suc_right)
  moreover have "length (take p xs @ drop (Suc p) xs) = n - 1"
    using assms(1) by (simp add: n_def)
  then have "length (enc_all w (take p xs @ drop (Suc p) xs)) = w * (n - 1)"
    by (simp only: length_enc_all)
  ultimately show ?thesis
    using True by (simp add: mem_realloc_def del: length_enc_all)
next
  case False
  with assms(1) have "p = n - 1" "0 < n"
    by (auto simp: n_def)
  then show ?thesis
    by (simp add: mem_realloc_def take_enc_all n_def)
qed

lemma bind_map_option_record:
  "map_option (\<lambda>c. s\<lparr>is_contents := c\<rparr>) m = Some s' \<longleftrightarrow>
     (\<exists>c. m = Some c \<and> s' = s\<lparr>is_contents := c\<rparr>)"
  by (cases m) auto

lemma intsetAdd_same_encoding:
  assumes "intset_repr s w xs" "sorted_wrt (<) xs" "fits w v" "v \<notin> set xs"
    and "intsetValueEncoding v \<le> w" "Suc (length xs) < 2 ^ 29"
  shows "\<exists>s'. intsetAdd fill s v = Some (s', True) \<and> intset_repr s' w (insort_insert v xs)"
proof -
  define p n where "p = insert_pos v xs" and "n = length xs"
  have p: "p \<le> n"
    by (simp add: p_def n_def insert_pos_le)
  have w: "unat (is_encoding s) = w" "w \<in> {2, 4, 8}" "0 < w" "is_length s = of_nat n"
    "is_contents s = enc_all w xs"
    using assms(1) by (auto simp: intset_repr_def n_def)
  define s1 where "s1 = s\<lparr>is_contents := mem_realloc fill (w * Suc n) (enc_all w xs)\<rparr>"
  have resize: "intsetResize fill s (is_length s + 1) = Some s1"
    using intsetResize_repr [OF w(1,2), of "Suc n" fill] assms(6) w
    by (simp add: s1_def n_def add.commute)
  have lt: "(of_nat p < (of_nat n :: uint32)) = (p < n)"
    using p assms(6) by (simp add: word_less_nat_alt unat32_of_nat n_def)
  have move: "(if of_nat p < is_length s1 then intsetMoveTail s1 (of_nat p) (of_nat p + 1) else Some s1)
     = map_option (\<lambda>c. s1\<lparr>is_contents := c\<rparr>)
         (if p < n then mem_move (mem_realloc fill (w * Suc n) (enc_all w xs)) (w * Suc p) (w * p) ((n - p) * w)
          else Some (mem_realloc fill (w * Suc n) (enc_all w xs)))"
    using intsetMoveTail_repr [of s1 w n p "Suc p"] w p assms(6) lt
    by (auto simp: s1_def n_def add.commute)
  obtain c where c:
    "(if p < n then mem_move (mem_realloc fill (w * Suc n) (enc_all w xs)) (w * Suc p) (w * p) ((n - p) * w)
      else Some (mem_realloc fill (w * Suc n) (enc_all w xs))) = Some c"
    "mem_write c (w * p) (le_encode w v) = Some (enc_all w (take p xs @ v # drop p xs))"
    using insert_record_bytes [of p xs w fill v, folded n_def, OF p w(3)]
    by (auto simp: bind_eq_Some_conv simp del: enc_all_simps)
  have set: "intsetSet (s1\<lparr>is_contents := c\<rparr>) (sint (of_nat p :: uint32)) v =
      Some (s1\<lparr>is_contents := enc_all w (take p xs @ v # drop p xs)\<rparr>)"
    using intsetSet_mem [of "s1\<lparr>is_contents := c\<rparr>" w p v] w c(2) p assms(6)
    by (simp add: s1_def sint32_word_of_nat n_def)
  have "intsetSearch s v = Some (False, of_nat p)"
    using intsetSearch_repr [OF assms(1,2)] assms(4) by (simp add: p_def)
  moreover have "(if of_nat p < is_length s1 then intsetMoveTail s1 (of_nat p) (of_nat p + 1) else Some s1)
      = Some (s1\<lparr>is_contents := c\<rparr>)"
    using move c(1) by simp
  ultimately have "intsetAdd fill s v =
      Some (s1\<lparr>is_contents := enc_all w (insort_insert v xs), is_length := is_length s1 + 1\<rparr>, True)"
    using assms(5) w(1) resize set insort_insert_pos [OF assms(2,4), folded p_def]
    by (simp add: intsetAdd_def)
  moreover have "intset_repr (s1\<lparr>is_contents := enc_all w (insort_insert v xs), is_length := is_length s1 + 1\<rparr>)
      w (insort_insert v xs)"
    using assms w
    by (auto simp: intset_repr_def s1_def n_def length_insort_insert set_insort_insert)
  ultimately show ?thesis
    by blast
qed

lemma intsetRemove_present:
  assumes "intset_repr s w xs" "sorted_wrt (<) xs" "v \<in> set xs" "intsetValueEncoding v \<le> w"
  shows "\<exists>s'. intsetRemove fill s v = Some (s', True) \<and> intset_repr s' w (remove1 v xs)"
proof -
  define p n where "p = insert_pos v xs" and "n = length xs"
  have p: "p < n"
    using remove1_insert_pos [OF assms(2,3)] by (simp add: p_def n_def)
  have w: "unat (is_encoding s) = w" "w \<in> {2, 4, 8}" "0 < w" "is_length s = of_nat n"
    "is_contents s = enc_all w xs" "n < 2 ^ 29"
    using assms(1) by (auto simp: intset_repr_def n_def)
  have n1: "is_length s - 1 = of_nat (n - 1)"
    using w(4) p by (simp add: of_nat_diff)
  have "unat (of_nat (n - 1) :: uint32) = n - 1" "unat (of_nat p :: uint32) = p"
    using p w(6) by (intro unat32_of_nat; simp)+
  then have lt: "(of_nat p < is_length s - 1) = (p < n - 1)"
    by (simp only: n1 word_less_nat_alt)
  have move: "(if of_nat p < is_length s - 1 then intsetMoveTail s (of_nat p + 1) (of_nat p) else Some s)
     = map_option (\<lambda>c. s\<lparr>is_contents := c\<rparr>)
         (if p < n - 1 then mem_move (enc_all w xs) (w * p) (w * Suc p) ((n - Suc p) * w)
          else Some (enc_all w xs))"
    using intsetMoveTail_repr [of s w n "Suc p" p] w p lt
    by (auto simp: add.commute)
  obtain c where c:
    "(if p < n - 1 then mem_move (enc_all w xs) (w * p) (w * Suc p) ((n - Suc p) * w)
      else Some (enc_all w xs)) = Some c"
    "mem_realloc fill (w * (n - 1)) c = enc_all w (remove1 v xs)"
    using delete_record_bytes [of p xs w fill, folded n_def, OF p w(3)]
      remove1_insert_pos(3) [OF assms(2,3), folded p_def]
    by (auto simp: bind_eq_Some_conv simp del: enc_all_simps)
  have resize: "intsetResize fill (s\<lparr>is_contents := c\<rparr>) (of_nat (n - 1)) =
      Some (s\<lparr>is_contents := enc_all w (remove1 v xs)\<rparr>)"
    using intsetResize_repr [of "s\<lparr>is_contents := c\<rparr>" w "n - 1" fill] w c(2) by simp
  have "intsetSearch s v = Some (True, of_nat p)"
    using intsetSearch_repr [OF assms(1,2)] assms(3) by (simp add: p_def)
  then have "intsetRemove fill s v =
      Some (s\<lparr>is_contents := enc_all w (remove1 v xs), is_length := of_nat (n - 1)\<rparr>, True)"
    using assms(4) w(1) move c(1) resize by (simp add: intsetRemove_def n1 Let_def)
  moreover have "intset_repr (s\<lparr>is_contents := enc_all w (remove1 v xs), is_length := of_nat (n - 1)\<rparr>)
      w (remove1 v xs)"
    using assms w set_remove1_subset [of v xs] p
    by (auto simp: intset_repr_def n_def length_remove1)
  ultimately show ?thesis
    by blast
qed

section \<open>Upgrading the encoding in place\<close>

text \<open>
  The loop reads records of \<open>w\<close> bytes and writes records of \<open>W\<close> bytes of the same buffer,
  from the last one down. What it still has to read is never overwritten, because record \<open>l\<close>
  moves to offset \<open>W * (l + prepend)\<close>, which is at least \<open>w * l\<close>.
\<close>

lemma intsetUpgradeLoop_correct:
  assumes "unat (is_encoding s) = W" "W \<in> {2, 4, 8}" "w \<in> {2, 4, 8}" "w \<le> W"
    and "\<forall>x\<in>set xs. fits w x" "take (w * length xs) (is_contents s) = enc_all w xs"
    and "W * (length xs + pre) \<le> length (is_contents s)"
  shows "intsetUpgradeLoop w pre (length xs) s =
     Some (s\<lparr>is_contents := take (W * pre) (is_contents s) @ enc_all W xs
                @ drop (W * (length xs + pre)) (is_contents s)\<rparr>)"
  using assms
proof (induction xs arbitrary: s rule: rev_induct)
  case Nil
  then show ?case by simp
next
  case (snoc x xs)
  let ?c = "is_contents s" and ?l = "length xs"
  have "take w (drop (w * ?l) ?c) = drop (w * ?l) (take (w * length (xs @ [x])) ?c)"
    by (simp add: take_drop)
  also have "\<dots> = le_encode w x"
    unfolding snoc.prems(6) by simp
  finally have "take w (drop (w * ?l) ?c) = le_encode w x" .
  moreover have "w * ?l + w \<le> length ?c"
  proof -
    have "w * length (xs @ [x]) \<le> W * (length (xs @ [x]) + pre)"
      using snoc.prems(4) by (intro mult_le_mono) auto
    with snoc.prems(7) show ?thesis
      by simp
  qed
  ultimately have get: "intsetGetEncoded s (int ?l) w = Some x"
    using snoc.prems(3,5)
    by (auto simp: intsetGetEncoded_mem mem_read_Some le_decode_signed_encode fits_def)
  define c' where "c' = take (W * (?l + pre)) ?c @ le_encode W x @ drop (W * (?l + pre) + W) ?c"
  have len: "W * (?l + pre) + W \<le> length ?c"
    using snoc.prems(7) by (simp add: algebra_simps)
  then have set: "intsetSet s (int (?l + pre)) x = Some (s\<lparr>is_contents := c'\<rparr>)"
    using snoc.prems(1,2) by (simp add: intsetSet_mem mem_write_Some c'_def del: of_nat_add)
  have "take (w * ?l) c' = take (w * ?l) ?c"
  proof -
    have "w * ?l \<le> W * (?l + pre)"
      using snoc.prems(4) by (metis le_add1 mult_le_mono)
    with len show ?thesis
      by (simp add: c'_def)
  qed
  also have "\<dots> = enc_all w xs"
    using arg_cong [OF snoc.prems(6), of "take (w * ?l)"] by (simp add: take_enc_all min_def)
  finally have "intsetUpgradeLoop w pre ?l (s\<lparr>is_contents := c'\<rparr>) =
     Some (s\<lparr>is_contents := take (W * pre) c' @ enc_all W xs @ drop (W * (?l + pre)) c'\<rparr>)"
    using snoc.IH [of "s\<lparr>is_contents := c'\<rparr>"] snoc.prems len by (simp add: c'_def)
  moreover have "take (W * pre) c' = take (W * pre) ?c"
    using len by (simp add: c'_def algebra_simps)
  moreover have "drop (W * (?l + pre)) c' = le_encode W x @ drop (W * (length (xs @ [x]) + pre)) ?c"
    using len by (simp add: c'_def algebra_simps)
  ultimately show ?case
    using get set by simp
qed

lemma fits_intsetValueEncoding:
  assumes "is_int64 v"
  shows "intsetValueEncoding v \<in> {2, 4, 8}"
    and "w \<in> {2, 4, 8} \<Longrightarrow> fits w v \<longleftrightarrow> intsetValueEncoding v \<le> w"
  using assms by (auto simp: intsetValueEncoding_def fits_def is_int64_def)

lemma wider_value_outside:
  assumes "fits w x" "\<not> fits w v"
  shows "if v < 0 then v < x else x < v"
  using assms by (auto simp: fits_def)

lemma intsetAdd_wider:
  assumes "intset_repr s w xs" "sorted_wrt (<) xs" "is_int64 v" "\<not> intsetValueEncoding v \<le> w"
    and "Suc (length xs) < 2 ^ 29"
  defines "W \<equiv> intsetValueEncoding v"
  shows "\<exists>s'. intsetAdd fill s v = Some (s', True) \<and> intset_repr s' W (insort_insert v xs)"
proof -
  define n pre where "n = length xs" and "pre = (if v < 0 then 1 else 0 :: nat)"
  define ys where "ys = (if v < 0 then v # xs else xs @ [v])"
  have w: "unat (is_encoding s) = w" "w \<in> {2, 4, 8}" "is_length s = of_nat n"
    "is_contents s = enc_all w xs" "\<forall>x\<in>set xs. fits w x"
    using assms(1) by (auto simp: intset_repr_def n_def)
  have W: "W \<in> {2, 4, 8}" "w \<le> W" "fits W v"
    using fits_intsetValueEncoding [OF assms(3)] assms(4) by (auto simp: W_def simp del: insert_iff)
  have uW: "unat (of_nat W :: uint32) = W"
    using W(1) by auto
  define s1 where "s1 = s\<lparr>is_encoding := of_nat W,
    is_contents := mem_realloc fill (W * Suc n) (enc_all w xs)\<rparr>"
  have resize: "intsetResize fill (s\<lparr>is_encoding := of_nat W\<rparr>) (is_length s + 1) = Some s1"
    using intsetResize_repr [of "s\<lparr>is_encoding := of_nat W\<rparr>" W "Suc n" fill] W(1) uW w(3,4) assms(5)
    by (simp add: s1_def n_def add.commute)
  define s2 where "s2 = s1\<lparr>is_contents := take (W * pre) (is_contents s1) @ enc_all W xs
                 @ drop (W * (n + pre)) (is_contents s1)\<rparr>"
  have len1: "length (is_contents s1) = W * Suc n"
    by (simp add: s1_def)
  have "take (w * n) (is_contents s1) = enc_all w xs"
    using W(2) by (simp add: s1_def n_def take_mem_realloc mult_le_mono trans_le_add2)
  then have loop: "intsetUpgradeLoop w pre n s1 = Some s2"
    unfolding n_def s2_def using w(2,5) W(1,2) uW len1
    by (intro intsetUpgradeLoop_correct) (auto simp: s1_def n_def pre_def)
  have "intsetSet s2 (if v < 0 then 0 else int n) v = Some (s2\<lparr>is_contents := enc_all W ys\<rparr>)"
  proof (cases "v < 0")
    case True
    then show ?thesis
      using intsetSet_mem [of s2 W 0 v] W(1) uW len1
        mem_write_append [of "take W (is_contents s1)" "le_encode W v" "[]" "enc_all W xs"]
      by (simp add: s2_def s1_def pre_def ys_def n_def)
  next
    case False
    then show ?thesis
      using intsetSet_mem [of s2 W n v] W(1) uW len1
        mem_write_append [of "drop (W * n) (is_contents s1)" "le_encode W v" "enc_all W xs" "[]"]
      by (simp add: s2_def s1_def pre_def ys_def n_def)
  qed
  moreover have "sint (is_length s) = int n" "is_length s2 = is_length s"
    using w(3) assms(5) by (simp_all add: sint32_word_of_nat n_def s2_def s1_def)
  moreover have "unat (is_encoding s) mod 256 = unat (is_encoding s)"
    using w(1,2) by auto
  ultimately have "intsetAdd fill s v =
      Some (s2\<lparr>is_contents := enc_all W ys, is_length := is_length s + 1\<rparr>, True)"
    using assms(4) w(1) resize loop
    by (auto simp: intsetAdd_def intsetUpgradeAndAdd_def W_def [symmetric] pre_def
        Let_def split: if_splits)
  moreover have "ys = insort_insert v xs"
  proof -
    have out: "\<forall>x\<in>set xs. if v < 0 then v < x else x < v"
      using wider_value_outside [of w _ v] w(5) fits_intsetValueEncoding(2) [OF assms(3) w(2)] assms(4)
      by blast
    then have "v \<notin> set xs"
      by (auto split: if_splits)
    moreover from out have "insert_pos v xs = (if v < 0 then 0 else n)"
      by (auto simp: n_def all_set_conv_all_nth intro!: insert_pos_eqI)
    ultimately show ?thesis
      using insort_insert_pos [OF assms(2), of v] by (simp add: ys_def n_def split: if_splits)
  qed
  moreover have "intset_repr (s2\<lparr>is_contents := enc_all W ys, is_length := is_length s + 1\<rparr>) W ys"
    using w W uW assms(5) fits_mono [OF _ W(2)]
    by (auto simp: intset_repr_def s2_def s1_def ys_def n_def)
  ultimately show ?thesis
    by auto
qed

section \<open>Example states\<close>

definition intset_sample :: intset where
  "intset_sample = \<lparr>is_encoding = 2, is_length = 2, is_contents = [5, 0, 9, 0]\<rparr>"

lemma intset_sample_repr: "intset_repr intset_sample 2 [5, 9]"
proof -
  have "le_encode 2 5 = [5, 0]" "le_encode 2 9 = [9, 0]"
    by (simp_all add: numeral_2_eq_2)
  then show ?thesis
    by (simp add: intset_repr_def intset_sample_def fits_def)
qed

lemma intset_sample_wf: "intset_wf intset_sample" "intset_elems intset_sample = [5, 9]"
  using intset_wfI [OF intset_sample_repr] by simp_all

lemma intsetNew_wf: "intset_wf intsetNew" "intset_elems intsetNew = []"
  by (simp_all add: intset_wf_def intset_elems_def intsetNew_def)

section \<open>Correctness of the operations\<close>

text \<open>the bisection of a well-formed set stays within the buffer, decides membership and
  returns the position of the value, or the position at which it has to be inserted.\<close>
theorem intsetSearch_correct:
  assumes "intset_wf s"
  shows "intsetSearch s v =
    Some (v \<in> set (intset_elems s), of_nat (length (takeWhile (\<lambda>x. x < v) (intset_elems s))))"
  using intsetSearch_repr [OF intset_wf_repr [OF assms]] by (simp add: insert_pos_def)

theorem intsetSearch_correct_witness:
  "intset_wf intset_sample \<and> intsetSearch intset_sample 9 = Some (True, 1)"
  using intsetSearch_correct [OF intset_sample_wf(1), of 9] intset_sample_wf by simp

lemma intsetAdd_total:
  assumes "intset_wf s" "is_int64 v" "unat (is_length s) + 1 < 2 ^ 29"
  shows "\<exists>s'. intsetAdd fill s v = Some (s', v \<notin> set (intset_elems s)) \<and> intset_wf s' \<and>
    intset_elems s' = insort_insert v (intset_elems s)"
proof -
  let ?w = "unat (is_encoding s)" and ?xs = "intset_elems s"
  note r = intset_wf_repr [OF assms(1)]
  have w: "?w \<in> {2, 4, 8}" and n: "Suc (length ?xs) < 2 ^ 29"
    using assms(1,3) by (auto simp: intset_wf_def intset_elems_def)
  note fit = fits_intsetValueEncoding(2) [OF assms(2) w]
  consider "v \<in> set ?xs" | "v \<notin> set ?xs" "intsetValueEncoding v \<le> ?w" | "\<not> intsetValueEncoding v \<le> ?w"
    by blast
  then show ?thesis
  proof cases
    case 1
    then have "intsetValueEncoding v \<le> ?w"
      using fit r(1) by (auto simp: intset_repr_def)
    then have "intsetAdd fill s v = Some (s, False)"
      using 1 intsetSearch_repr [OF r] by (simp add: intsetAdd_def)
    with 1 assms(1) show ?thesis
      by (simp add: insort_insert_key_def)
  next
    case 2
    then have "fits ?w v"
      using fit by simp
    from intsetAdd_same_encoding [OF r this 2 n] obtain s' where
      "intsetAdd fill s v = Some (s', True)" "intset_repr s' ?w (insort_insert v ?xs)"
      by blast
    with 2 intset_wfI [OF _ strict_sorted_insort_insert [OF r(2)]] show ?thesis
      by auto
  next
    case 3
    then have "v \<notin> set ?xs"
      using fit r(1) by (auto simp: intset_repr_def)
    moreover from intsetAdd_wider [OF r assms(2) 3 n] obtain s' where
      "intsetAdd fill s v = Some (s', True)"
      "intset_repr s' (intsetValueEncoding v) (insort_insert v ?xs)"
      by blast
    ultimately show ?thesis
      using intset_wfI [OF _ strict_sorted_insort_insert [OF r(2)]] by auto
  qed
qed

text \<open>C13: adding a 64 bit integer to a well-formed set with room for it never faults, reports
  whether the value was absent, and gives a well-formed set with exactly the value added in
  order; when the value is wider than the current encoding all records are re-encoded.\<close>
theorem intsetAdd_correct:
  assumes "intset_wf s" "is_int64 v" "unat (is_length s) + 1 < 2 ^ 29"
  shows "\<exists>s'. intsetAdd fill s v = Some (s', v \<notin> set (intset_elems s)) \<and> intset_wf s' \<and>
    intset_elems s' = insort_insert v (intset_elems s)"
  using assms by (rule intsetAdd_total)

theorem intsetAdd_correct_witness:
  "\<exists>s'. intsetAdd (\<lambda>_. 0) intset_sample 70000 = Some (s', True) \<and> intset_elems s' = [5, 9, 70000]"
  using intsetAdd_correct [OF intset_sample_wf(1), of 70000 "\<lambda>_. 0"] intset_sample_wf(2)
  by (auto simp: is_int64_def intset_sample_def insort_insert_key_def)

lemma intsetRemove_total:
  assumes "intset_wf s" "is_int64 v"
  shows "\<exists>s'. intsetRemove fill s v = Some (s', v \<in> set (intset_elems s)) \<and> intset_wf s' \<and>
    intset_elems s' = remove1 v (intset_elems s)"
proof -
  let ?w = "unat (is_encoding s)" and ?xs = "intset_elems s"
  note r = intset_wf_repr [OF assms(1)]
  have w: "?w \<in> {2, 4, 8}"
    using assms(1) by (auto simp: intset_wf_def)
  show ?thesis
  proof (cases "v \<in> set ?xs")
    case True
    then have "intsetValueEncoding v \<le> ?w"
      using fits_intsetValueEncoding(2) [OF assms(2) w] r(1) by (auto simp: intset_repr_def)
    from intsetRemove_present [OF r True this] obtain s' where
      "intsetRemove fill s v = Some (s', True)" "intset_repr s' ?w (remove1 v ?xs)"
      by blast
    with True intset_wfI [OF _ strict_sorted_remove1 [OF r(2)]] show ?thesis
      by auto
  next
    case False
    then have "intsetRemove fill s v = Some (s, False)"
      using intsetSearch_repr [OF r] by (simp add: intsetRemove_def)
    with False assms(1) show ?thesis
      by (simp add: remove1_idem)
  qed
qed

text \<open>removing a value from a well-formed set never faults, reports whether it was a member,
  and leaves a well-formed set with exactly that value removed.\<close>
theorem intsetRemove_correct:
  assumes "intset_wf s" "is_int64 v"
  shows "\<exists>s'. intsetRemove fill s v = Some (s', v \<in> set (intset_elems s)) \<and> intset_wf s' \<and>
    intset_elems s' = remove1 v (intset_elems s)"
  using assms by (rule intsetRemove_total)

theorem intsetRemove_correct_witness:
  "\<exists>s'. intsetRemove (\<lambda>_. 0) intset_sample 5 = Some (s', True) \<and> intset_elems s' = [9]"
  using intsetRemove_correct [OF intset_sample_wf(1), of 5 "\<lambda>_. 0"] intset_sample_wf(2)
  by (auto simp: is_int64_def)

lemma intsetFind_member:
  assumes "intset_wf s" "is_int64 v"
  shows "intsetFind s v = Some (v \<in> set (intset_elems s))"
proof -
  note r = intset_wf_repr [OF assms(1)]
  have "unat (is_encoding s) \<in> {2, 4, 8}"
    using assms(1) by (simp add: intset_wf_def)
  from fits_intsetValueEncoding(2) [OF assms(2) this] r(1)
  have "v \<in> set (intset_elems s) \<Longrightarrow> intsetValueEncoding v \<le> unat (is_encoding s)"
    by (auto simp: intset_repr_def)
  then show ?thesis
    using intsetSearch_repr [OF r] by (auto simp: intsetFind_def)
qed

section \<open>The intset as an encoding of sets\<close>

lemma intset_card:
  "intset_wf s \<Longrightarrow> card (set (intset_elems s)) = unat (is_length s)"
  by (metis distinct_card intset_elems_def intset_wf_def length_dec_all strict_sorted_iff)

interpretation ints: bounded_set intset_wf "\<lambda>s. set (intset_elems s)" is_int64 "2 ^ 29 - 1"
  "intsetAdd fill" "intsetRemove fill" intsetFind for fill
proof unfold_locales
  fix s :: intset and v :: int
  assume wf: "intset_wf s" and v: "is_int64 v"
  show "intsetFind s v = Some (v \<in> set (intset_elems s))"
    using wf v by (rule intsetFind_member)
  show "\<exists>s'. intsetRemove fill s v = Some (s', v \<in> set (intset_elems s)) \<and> intset_wf s' \<and>
      set (intset_elems s') = set (intset_elems s) - {v}"
    using intsetRemove_total [OF wf v] wf by (fastforce simp: intset_wf_def strict_sorted_iff)
  assume "card (set (intset_elems s)) < 2 ^ 29 - 1"
  then show "\<exists>s'. intsetAdd fill s v = Some (s', v \<notin> set (intset_elems s)) \<and> intset_wf s' \<and>
      set (intset_elems s') = insert v (set (intset_elems s))"
    using intsetAdd_total [OF wf v] intset_card [OF wf] by (fastforce simp: set_insort_insert)
qed simp

section \<open>Histories, integrity and the limits of the byte count\<close>

text \<open>C17: any history of insertions and removals of 64 bit integers that starts from a new set
  and is shorter than \<open>2 ^ 29\<close> runs without a fault, whatever the allocator returns; every
  success flag and every later membership test are those of the mathematical set.\<close>
theorem intset_history_refines_set:
  assumes "\<forall>p\<in>set ps. is_int64 (op_arg p)" "length ps < 2 ^ 29" "is_int64 x"
  shows "\<exists>s'. exec_run (intsetAdd fill) (intsetRemove fill) intsetNew ps = Some (s', snd (abs_run {} ps))
    \<and> set (intset_elems s') = fst (abs_run {} ps)
    \<and> intsetFind s' x = Some (x \<in> fst (abs_run {} ps))"
proof -
  have "\<exists>s'. exec_run (intsetAdd fill) (intsetRemove fill) intsetNew ps =
        Some (s', snd (abs_run (set (intset_elems intsetNew)) ps)) \<and> intset_wf s' \<and>
      set (intset_elems s') = fst (abs_run (set (intset_elems intsetNew)) ps)"
    using assms(1,2) by (intro ints.exec_run_correct) (auto simp: intsetNew_wf)
  then obtain s' where "exec_run (intsetAdd fill) (intsetRemove fill) intsetNew ps =
      Some (s', snd (abs_run {} ps))" "intset_wf s'" "set (intset_elems s') = fst (abs_run {} ps)"
    by (auto simp: intsetNew_wf)
  with ints.find_spec [OF _ assms(3)] show ?thesis
    by simp
qed

theorem intset_history_refines_set_witness:
  "\<exists>s'. exec_run (intsetAdd (\<lambda>_. 0)) (intsetRemove (\<lambda>_. 0)) intsetNew
       [SAdd 3, SAdd (- 70000), SAdd 3, SRem 3] = Some (s', [True, True, False, True])
     \<and> set (intset_elems s') = {- 70000} \<and> intsetFind s' 3 = Some False"
  using intset_history_refines_set
    [of "[SAdd 3, SAdd (- 70000), SAdd 3, SRem 3]" 3 "\<lambda>_. 0"]
  by (auto simp: is_int64_def insert_Diff_if)

text \<open>The loop of the deep check on an array with the records \<open>xs\<close>. The index of the loop is a \<^verbatim>\<open>uint32_t\<close> and
  the position of \<^verbatim>\<open>_intsetGet\<close> an \<^verbatim>\<open>int\<close>, which is negative from the index \<open>2 ^ 31\<close> on.\<close>

lemma sint32_index: "i < 2 ^ 31 \<Longrightarrow> sint (of_nat i :: uint32) = int i" "sint (of_nat (2 ^ 31) :: uint32) = - (2 ^ 31)"
  by (simp_all add: signed_of_nat signed_take_bit_int_eq_self)

lemma intsetGet0_record:
  assumes "unat (is_encoding s) \<in> {2, 4, 8}" "length (is_contents s) = unat (is_encoding s) * unat (is_length s)"
    "i < unat (is_length s)"
  shows "intsetGet0 s (int i) = Some (intset_elems s ! i)"
proof -
  define w xs where "w = unat (is_encoding s)" and "xs = intset_elems s"
  have w: "w \<in> {2, 4, 8}" "0 < w" "w mod 256 = w"
    using assms(1) by (auto simp: w_def)
  have xs: "is_contents s = enc_all w xs" "\<forall>x\<in>set xs. fits w x" "i < length xs"
    using enc_dec_all [of w "is_contents s" "unat (is_length s)"] dec_all_fits [of w "unat (is_length s)" "is_contents s"] w assms
    by (auto simp: intset_elems_def w_def xs_def)
  then have "fits w (xs ! i)"
    by simp
  then show ?thesis
    using mem_read_enc_all [of i xs w "[]"] xs w intsetGetEncoded_mem [OF w(1), of s i]
    by (simp add: intsetGet0_def le_decode_signed_encode fits_def w_def [symmetric] xs_def [symmetric] del: insert_iff)
qed

lemma sorted_drop_step:
  assumes "0 < i" "i < length (ys :: int list)"
  shows "sorted_wrt (<) (drop (i - 1) ys) \<longleftrightarrow> ys ! (i - 1) < ys ! i \<and> sorted_wrt (<) (drop i ys)"
proof -
  have "drop (i - 1) ys = ys ! (i - 1) # ys ! i # drop (Suc i) ys" "drop i ys = ys ! i # drop (Suc i) ys"
    using assms by (cases i; simp add: Cons_nth_drop_Suc)+
  then show ?thesis
    by (auto simp: sorted_wrt2_simps)
qed

lemma intsetValidateLoop_exact:
  assumes "unat (is_encoding s) \<in> {2, 4, 8}" "length (is_contents s) = unat (is_encoding s) * unat (is_length s)"
    "0 < i" "i \<le> 2 ^ 31" "i + k = unat (is_length s)"
  shows "intsetValidateLoop s k i (intset_elems s ! (i - 1)) =
    (if \<not> sorted_wrt (<) (drop (i - 1) (take (2 ^ 31) (intset_elems s))) then Some False
     else if unat (is_length s) \<le> 2 ^ 31 then Some True else None)"
  using assms(3-)
proof (induction k arbitrary: i)
  case 0
  have "length (intset_elems s) = i"
    using 0 by (simp add: intset_elems_def)
  then have "length (drop (i - 1) (take (2 ^ 31) (intset_elems s))) = 1"
    using 0 by simp
  then have "sorted_wrt (<) (drop (i - 1) (take (2 ^ 31) (intset_elems s)))"
    by (metis One_nat_def length_0_conv length_Suc_conv sorted_wrt1)
  then show ?case
    using 0 by simp
next
  case (Suc k)
  let ?xs = "intset_elems s"
  have len: "length ?xs = unat (is_length s)"
    by (simp add: intset_elems_def)
  show ?case
  proof (cases "i = 2 ^ 31")
    case True
    have "length (drop (i - 1) (take (2 ^ 31) ?xs)) = 1"
      using Suc.prems len True by simp
    then have "sorted_wrt (<) (drop (i - 1) (take (2 ^ 31) ?xs))"
      by (metis One_nat_def length_0_conv length_Suc_conv sorted_wrt1)
    moreover have "intsetGet0 s (sint (of_nat i :: uint32)) = None"
      unfolding True sint32_index(2) by (simp add: intsetGet0_def intsetGetEncoded_def)
    ultimately show ?thesis
      using Suc.prems(3) True by simp
  next
    case False
    then have i: "i < 2 ^ 31" "i < unat (is_length s)"
      using Suc.prems by simp_all
    have get: "intsetGet0 s (sint (of_nat i :: uint32)) = Some (?xs ! i)"
      unfolding sint32_index(1) [OF i(1)] by (rule intsetGet0_record [OF assms(1,2) i(2)])
    have IH: "intsetValidateLoop s k (Suc i) (?xs ! i) =
        (if \<not> sorted_wrt (<) (drop i (take (2 ^ 31) ?xs)) then Some False
         else if unat (is_length s) \<le> 2 ^ 31 then Some True else None)"
      using Suc.IH [of "Suc i"] i Suc.prems by simp
    have "sorted_wrt (<) (drop (i - 1) (take (2 ^ 31) ?xs)) \<longleftrightarrow>
        ?xs ! (i - 1) < ?xs ! i \<and> sorted_wrt (<) (drop i (take (2 ^ 31) ?xs))"
      using sorted_drop_step [of i "take (2 ^ 31) ?xs"] i len Suc.prems(1) by simp
    then show ?thesis
      unfolding intsetValidateLoop.simps get Option.bind.simps IH by (simp add: not_less)
  qed
qed

lemma validate_shape:
  fixes w n size :: nat
  shows "(if size < 8 then Some False
      else if w \<noteq> 8 \<and> w \<noteq> 4 \<and> w \<noteq> 2 then Some False
      else if 8 + n * w \<noteq> size then Some False
      else if n = 0 then Some False
      else if \<not> True then Some True else r) =
    (if 8 \<le> size \<and> w \<in> {2, 4, 8} \<and> size = 8 + n * w \<and> 0 < n then r else Some False)"
  by (simp add: not_less)

text \<open>C29: The deep integrity check of any blob, exactly. It rejects a blob whose header, encoding, size or number of records is
  wrong or that has no record, and one whose first \<open>2 ^ 31\<close> records are not strictly increasing; it accepts every other
  blob of at most \<open>2 ^ 31\<close> records, so that it accepts only non-empty strictly increasing arrays. On any other
  blob of more records it reads outside of the blob: the index is passed as an \<^verbatim>\<open>int\<close>, and the
  one of the record \<open>2 ^ 31\<close> is negative.\<close>

theorem intsetValidateIntegrity_exact:
  "intsetValidateIntegrity p True =
    (let s = intset_of_blob p; w = unat (is_encoding s); n = unat (is_length s)
     in if \<not> (8 \<le> length p \<and> w \<in> {2, 4, 8} \<and> length p = 8 + n * w \<and> 0 < n) then Some False
        else if \<not> sorted_wrt (<) (take (2 ^ 31) (intset_elems s)) then Some False
        else if n \<le> 2 ^ 31 then Some True else None)"
proof -
  define s where "s = intset_of_blob p"
  define w where "w = unat (is_encoding s)"
  define n where "n = unat (is_length s)"
  define size where "size = length p"
  let ?ok = "8 \<le> size \<and> w \<in> {2, 4, 8} \<and> size = 8 + n * w \<and> 0 < n"
  have run: "intsetValidateIntegrity p True =
      (if ?ok then do { prev \<leftarrow> intsetGet0 s 0; intsetValidateLoop s (n - 1) 1 prev } else Some False)"
    unfolding intsetValidateIntegrity_def Let_def s_def [symmetric] w_def [symmetric] n_def [symmetric] size_def [symmetric]
    by (rule validate_shape)
  have "do { prev \<leftarrow> intsetGet0 s 0; intsetValidateLoop s (n - 1) 1 prev } =
      (if \<not> sorted_wrt (<) (take (2 ^ 31) (intset_elems s)) then Some False else if n \<le> 2 ^ 31 then Some True else None)"
    if ok: ?ok
  proof -
    have "length (is_contents s) = length p - 8"
      by (simp add: s_def intset_of_blob_def)
    also have "\<dots> = w * n"
      using ok unfolding size_def by (simp add: mult.commute)
    finally have c: "w \<in> {2, 4, 8}" "length (is_contents s) = w * n" "0 < n"
      using ok by blast+
    have "intsetGet0 s 0 = Some (intset_elems s ! 0)"
      using intsetGet0_record [OF c [unfolded w_def n_def]] by simp
    moreover have "intsetValidateLoop s (n - 1) 1 (intset_elems s ! 0) =
        (if \<not> sorted_wrt (<) (take (2 ^ 31) (intset_elems s)) then Some False else if n \<le> 2 ^ 31 then Some True else None)"
      using intsetValidateLoop_exact [OF c(1,2) [unfolded w_def n_def], of 1 "n - 1"] c(3)
      unfolding n_def [symmetric] by simp
    ultimately show ?thesis
      by (simp only: Option.bind.simps)
  qed
  then show ?thesis
    unfolding run Let_def s_def [symmetric] w_def [symmetric] n_def [symmetric] size_def [symmetric] by presburger
qed

text \<open>C30: the byte count of \<^verbatim>\<open>intsetMoveTail\<close> is a 32 bit product. For a set of \<open>2 ^ 29\<close>
  64 bit records the count of a shift of the whole array wraps to zero and nothing moves, so
  that the bound on the length in the invariant is needed.\<close>
theorem intsetMoveTail_count_wraps:
  assumes "is_encoding s = 8" "is_length s = 2 ^ 29" "length (is_contents s) = 8 * (2 ^ 29 + 1)"
  shows "intsetMoveTail s 0 1 = Some s"
  using assms by (simp add: intsetMoveTail_def mem_move_Some)

theorem intsetMoveTail_count_wraps_witness:
  "intsetMoveTail \<lparr>is_encoding = 8, is_length = 2 ^ 29, is_contents = replicate (8 * (2 ^ 29 + 1)) 1\<rparr> 0 1
   = Some \<lparr>is_encoding = 8, is_length = 2 ^ 29, is_contents = replicate (8 * (2 ^ 29 + 1)) 1\<rparr>"
  by (rule intsetMoveTail_count_wraps) simp_all

end
