(* ===== verification/Util_Numbers.thy ===== *)
theory Util_Numbers
  imports Redis_Prelude
begin

text \<open>
  Conversions between integers and their decimal representation,
  \<^verbatim>\<open>src/redis-7.2.10/src/util.c\<close>: \<^verbatim>\<open>digits10\<close>, \<^verbatim>\<open>sdigits10\<close>, \<^verbatim>\<open>ull2string\<close>, \<^verbatim>\<open>ll2string\<close>,
  \<^verbatim>\<open>string2ll\<close>, \<^verbatim>\<open>string2l\<close>, \<^verbatim>\<open>memtoull\<close>, and the byte scans \<^verbatim>\<open>mempbrk\<close> and
  \<^verbatim>\<open>memmapchars\<close>. Strings are lists of bytes; an output buffer is the list of its bytes, its
  size the \<^verbatim>\<open>dstlen\<close> of the source, and a write outside of it is \<open>None\<close>.
\<close>

section \<open>Number of digits\<close>

function digits10 :: "nat \<Rightarrow> nat" where
  "digits10 v =
     (if v < 10 then 1
      else if v < 100 then 2
      else if v < 1000 then 3
      else if v < 1000000000000 then
        (if v < 100000000 then
           (if v < 1000000 then
              (if v < 10000 then 4 else 5 + (if v \<ge> 100000 then 1 else 0))
            else 7 + (if v \<ge> 10000000 then 1 else 0))
         else if v < 10000000000 then 9 + (if v \<ge> 1000000000 then 1 else 0)
         else 11 + (if v \<ge> 100000000000 then 1 else 0))
      else 12 + digits10 (v div 1000000000000))"
  by pat_completeness auto
termination
  by (relation "measure id") auto

declare digits10.simps [simp del]

definition sdigits10 :: "int \<Rightarrow> nat" where
  "sdigits10 v =
     (if v < 0 then
        (let uv = (if v \<noteq> INT64_MIN then nat (- v) else nat INT64_MAX + 1)
         in digits10 uv + 1)
      else digits10 (nat v))"

section \<open>Printing\<close>

definition digit_pairs :: "byte list" where
  "digit_pairs = map of_char
    (''0001020304050607080910111213141516171819'' @
     ''2021222324252627282930313233343536373839'' @
     ''4041424344454647484950515253545556575859'' @
     ''6061626364656667686970717273747576777879'' @
     ''8081828384858687888990919293949596979899'')"

text \<open>The loop that writes two digits at a time; \<^verbatim>\<open>next\<close> is a \<^verbatim>\<open>uint32_t\<close>.\<close>

function ull2string_loop :: "nat \<Rightarrow> uint32 \<Rightarrow> byte list \<Rightarrow> (nat \<times> uint32 \<times> byte list) option" where
  "ull2string_loop value next dst =
     (if value \<ge> 100 then
        (let i = (value mod 100) * 2
         in do {
           d1 \<leftarrow> mem_get digit_pairs (i + 1);
           dst1 \<leftarrow> mem_put dst (unat next) d1;
           d0 \<leftarrow> mem_get digit_pairs i;
           dst2 \<leftarrow> mem_put dst1 (unat (next - 1)) d0;
           ull2string_loop (value div 100) (next - 2) dst2
         })
      else Some (value, next, dst))"
  by pat_completeness auto
termination
  by (relation "measure (\<lambda>(value, next, dst). value)") auto

declare ull2string_loop.simps [simp del]

text \<open>The digit steps: the loop, then the last one or two digits.\<close>

definition ull2string_body :: "nat \<Rightarrow> uint32 \<Rightarrow> byte list \<Rightarrow> byte list option" where
  "ull2string_body value next dst = do {
     (value', next', dst2) \<leftarrow> ull2string_loop value next dst;
     if value' < 10 then mem_put dst2 (unat next') (48 + of_nat value')
     else
       let i = value' * 2
       in do {
         d1 \<leftarrow> mem_get digit_pairs (i + 1);
         dst3 \<leftarrow> mem_put dst2 (unat next') d1;
         d0 \<leftarrow> mem_get digit_pairs i;
         mem_put dst3 (unat (next' - 1)) d0
       }
   }"

definition ull2string :: "byte list \<Rightarrow> nat \<Rightarrow> (nat \<times> byte list) option" where
  "ull2string dst value =
     (let len = digits10 value
      in if len \<ge> length dst then
           Some (0, if length dst > 0 then dst[0 := 0] else dst)
         else
           let next = of_nat (len - 1)
           in do {
             dst1 \<leftarrow> mem_put dst (unat (next + 1)) 0;
             dst2 \<leftarrow> ull2string_body value next dst1;
             Some (len, dst2)
           })"

text \<open>
  \<^verbatim>\<open>ll2string\<close>: on a negative value the rest of the buffer, after the sign, is handed to
  \<^verbatim>\<open>ull2string\<close>.
\<close>

definition ll2string :: "byte list \<Rightarrow> int \<Rightarrow> (nat \<times> byte list) option" where
  "ll2string dst svalue =
     (if svalue < 0 then
        (let value = (if svalue \<noteq> INT64_MIN then nat (- svalue) else nat INT64_MAX + 1)
         in if length dst < 2 then Some (0, if length dst > 0 then dst[0 := 0] else dst)
            else do {
              (n, dst') \<leftarrow> ull2string (tl dst) value;
              if n = 0 then Some (0, 45 # dst') else Some (n + 1, 45 # dst')
            })
      else ull2string dst (nat svalue))"

section \<open>Parsing\<close>

definition LONG_STR_SIZE :: nat where "LONG_STR_SIZE = 21"
definition ULLONG_MAX :: nat where "ULLONG_MAX = 2 ^ 64 - 1"

text \<open>The digit loop of \<^verbatim>\<open>string2ll\<close>: \<open>None\<close> is the early return on overflow, the other
  result the accumulated value and the bytes left.\<close>

fun string2ll_digits :: "nat \<Rightarrow> byte list \<Rightarrow> (nat \<times> byte list) option" where
  "string2ll_digits v [] = Some (v, [])"
| "string2ll_digits v (c # p) =
     (if c \<ge> 48 \<and> c \<le> 57 then
        (if v > ULLONG_MAX div 10 then None
         else let v1 = v * 10 mod 2 ^ 64
         in if v1 > ULLONG_MAX - (unat c - 48) then None
            else string2ll_digits ((v1 + (unat c - 48)) mod 2 ^ 64) p)
      else Some (v, c # p))"

definition string2ll :: "byte list \<Rightarrow> int option" where
  "string2ll s =
     (if length s = 0 \<or> length s \<ge> LONG_STR_SIZE then None
      else if length s = 1 \<and> s ! 0 = 48 then Some 0
      else
        let negative = (s ! 0 = 45); p = (if negative then tl s else s)
        in case p of
             [] \<Rightarrow> None
           | c # p' \<Rightarrow>
               if c \<ge> 49 \<and> c \<le> 57 then
                 (case string2ll_digits (unat c - 48) p' of
                    None \<Rightarrow> None
                  | Some (v, rest) \<Rightarrow>
                      if rest \<noteq> [] then None
                      else if negative then (if v > 2 ^ 63 then None else Some (- int v))
                      else if v > 2 ^ 63 - 1 then None else Some (int v))
               else None)"

definition string2l :: "byte list \<Rightarrow> int option" where
  "string2l s =
     (case string2ll s of
        None \<Rightarrow> None
      | Some llval \<Rightarrow> if llval < INT64_MIN \<or> llval > INT64_MAX then None else Some llval)"

section \<open>Byte scans\<close>

text \<open>\<^verbatim>\<open>mempbrk\<close>: the offset of the first byte of the buffer that is among the given ones.\<close>

fun mempbrk_from :: "nat \<Rightarrow> byte list \<Rightarrow> byte list \<Rightarrow> nat option" where
  "mempbrk_from j [] chars = None"
| "mempbrk_from j (b # s) chars =
     (if list_ex (\<lambda>c. b = c) chars then Some j else mempbrk_from (Suc j) s chars)"

definition mempbrk :: "byte list \<Rightarrow> byte list \<Rightarrow> nat option" where
  "mempbrk s chars = mempbrk_from 0 s chars"

text \<open>\<^verbatim>\<open>memmapchars\<close>: the first matching pair of the two parallel sets replaces a byte.\<close>

fun mapchar :: "byte \<Rightarrow> byte list \<Rightarrow> byte list \<Rightarrow> byte" where
  "mapchar b (f # from) (t # to) = (if b = f then t else mapchar b from to)"
| "mapchar b _ _ = b"

definition memmapchars :: "byte list \<Rightarrow> byte list \<Rightarrow> byte list \<Rightarrow> byte list" where
  "memmapchars s from to = map (\<lambda>b. mapchar b from to) s"

section \<open>Memory sizes\<close>

definition byte_tolower :: "byte \<Rightarrow> byte" where
  "byte_tolower c = (if 65 \<le> c \<and> c \<le> 90 then c + 32 else c)"

definition is_digit :: "byte \<Rightarrow> bool" where
  "is_digit c \<longleftrightarrow> 48 \<le> c \<and> c \<le> 57"

definition strcaseeq :: "byte list \<Rightarrow> string \<Rightarrow> bool" where
  "strcaseeq u lit \<longleftrightarrow> map byte_tolower u = map of_char lit"

text \<open>
  \<^verbatim>\<open>strtoull\<close> in base 10 on a string of digits: the value, saturated at \<^verbatim>\<open>ULLONG_MAX\<close>.
  Whether a conversion without any digit reports \<^verbatim>\<open>EINVAL\<close> depends on the C library, which the
  parameter \<open>einval\<close> stands for.
\<close>

definition dec_value :: "byte list \<Rightarrow> nat" where
  "dec_value ds = foldl (\<lambda>v c. v * 10 + (unat c - 48)) 0 ds"

definition strtoull_digits :: "byte list \<Rightarrow> nat" where
  "strtoull_digits ds = min (dec_value ds) ULLONG_MAX"

definition memtoull_unit :: "byte list \<Rightarrow> nat option" where
  "memtoull_unit u =
     (if u = [] \<or> strcaseeq u ''b'' then Some 1
      else if strcaseeq u ''k'' then Some 1000
      else if strcaseeq u ''kb'' then Some 1024
      else if strcaseeq u ''m'' then Some (1000 * 1000)
      else if strcaseeq u ''mb'' then Some (1024 * 1024)
      else if strcaseeq u ''g'' then Some (1000 * 1000 * 1000)
      else if strcaseeq u ''gb'' then Some (1024 * 1024 * 1024)
      else None)"

text \<open>The result is the value and the error flag \<^verbatim>\<open>*err\<close>; the product is a 64 bit one.\<close>

definition memtoull :: "bool \<Rightarrow> byte list \<Rightarrow> nat \<times> bool" where
  "memtoull einval p =
     (if p \<noteq> [] \<and> hd p = 45 then (0, True)
      else
        let buf = takeWhile is_digit p; u = dropWhile is_digit p
        in case memtoull_unit u of
             None \<Rightarrow> (0, True)
           | Some mul \<Rightarrow>
               if length buf \<ge> 128 then (0, True)
               else let val = strtoull_digits buf
               in if val = 0 \<and> buf = [] \<and> einval then (0, True)
                  else (val * mul mod 2 ^ 64, False))"

section \<open>The decimal representation\<close>

fun dec_digits :: "nat \<Rightarrow> byte list" where
  "dec_digits n = (if n < 10 then [48 + of_nat n] else dec_digits (n div 10) @ [48 + of_nat (n mod 10)])"

declare dec_digits.simps [simp del]

definition dec_string :: "int \<Rightarrow> byte list" where
  "dec_string v = (if v < 0 then 45 # dec_digits (nat (- v)) else dec_digits (nat v))"

lemma dec_digits_small: "n < 10 \<Longrightarrow> dec_digits n = [48 + of_nat n]"
  by (simp add: dec_digits.simps)

lemma dec_digits_step: "10 \<le> n \<Longrightarrow> dec_digits n = dec_digits (n div 10) @ [48 + of_nat (n mod 10)]"
  by (simp add: dec_digits.simps [of n])

lemma dec_digits_nonempty [simp]: "dec_digits n \<noteq> []"
  by (subst dec_digits.simps) simp

lemma length_dec_digits_div:
  "10 ^ k \<le> n \<Longrightarrow> length (dec_digits n) = k + length (dec_digits (n div 10 ^ k))"
proof (induction k arbitrary: n)
  case 0
  then show ?case by simp
next
  case (Suc k)
  then have "10 \<le> n" and "10 ^ k \<le> n div 10"
    by (simp_all add: less_eq_div_iff_mult_less_eq mult.commute le_trans [of 10 "10 * 10 ^ k"])
  with Suc.IH [of "n div 10"] show ?case
    by (simp add: dec_digits_step div_mult2_eq)
qed

lemma length_dec_digits:
  assumes "10 ^ k \<le> n" "n < 10 ^ Suc k"
  shows "length (dec_digits n) = Suc k"
proof -
  from assms(2) have "n div 10 ^ k < 10"
    by (simp add: less_mult_imp_div_less mult.commute)
  with length_dec_digits_div [OF assms(1)] show ?thesis
    by (simp add: dec_digits_small)
qed

lemma digits10_length: "digits10 v = length (dec_digits v)"
proof (induction v rule: digits10.induct)
  case (1 v)
  show ?case
  proof (cases "v < 1000000000000")
    case True
    have small: "length (dec_digits v) = Suc k" if "10 ^ k \<le> v" "v < 10 ^ Suc k" for k
      using that by (rule length_dec_digits)
    show ?thesis
      using True small [of 1] small [of 2] small [of 3] small [of 4] small [of 5] small [of 6]
        small [of 7] small [of 8] small [of 9] small [of 10] small [of 11]
      by (cases "v < 10") (auto simp: digits10.simps [of v] dec_digits_small)
  next
    case False
    moreover have "length (dec_digits v) = 12 + length (dec_digits (v div 10 ^ 12))"
      using False by (intro length_dec_digits_div) simp
    ultimately show ?thesis
      using "1.IH" by (simp add: digits10.simps [of v])
  qed
qed

lemma digit_pairs_concat:
  "digit_pairs = concat (map (\<lambda>k. [48 + of_nat (k div 10), 48 + of_nat (k mod 10)]) [0..<100])"
  by (simp add: digit_pairs_def upt_rec)

lemma length_concat_pairs: "length (concat (map (\<lambda>k. [f k, g k]) xs)) = 2 * length xs"
  by (induction xs) auto

lemma concat_pairs_nth:
  "i < length xs \<Longrightarrow> concat (map (\<lambda>k. [f k, g k]) xs) ! (2 * i) = f (xs ! i) \<and>
     concat (map (\<lambda>k. [f k, g k]) xs) ! (2 * i + 1) = g (xs ! i)"
proof (induction xs arbitrary: i)
  case (Cons x xs)
  then show ?case
    by (cases i) auto
qed simp

lemma digit_pairs_nth:
  assumes "k < 100"
  shows "mem_get digit_pairs (2 * k) = Some (48 + of_nat (k div 10))"
    and "mem_get digit_pairs (2 * k + 1) = Some (48 + of_nat (k mod 10))"
  using assms concat_pairs_nth [of k "[0..<100]" "\<lambda>k. 48 + of_nat (k div 10) :: byte"
      "\<lambda>k. 48 + of_nat (k mod 10)"]
  by (simp_all add: digit_pairs_concat mem_get_def length_concat_pairs)

section \<open>Printing is exact\<close>

lemma dec_digits_step2:
  assumes "100 \<le> n"
  shows "dec_digits n =
    dec_digits (n div 100) @ [48 + of_nat (n mod 100 div 10), 48 + of_nat (n mod 100 mod 10)]"
proof -
  have m: "n mod 100 = 10 * (n div 10 mod 10) + n mod 10"
    using mod_mult2_eq [of n 10 10] by simp
  have "10 \<le> n" "10 \<le> n div 10" "n div 10 div 10 = n div 100"
    using assms by (simp_all flip: div_mult2_eq)
  with m show ?thesis
    by (simp add: dec_digits_step [of n] dec_digits_step [of "n div 10"])
qed

text \<open>What the digit steps leave in the buffer, for a number of \<open>Suc k\<close> digits.\<close>

lemma ull2string_body_correct:
  assumes "length (dec_digits v) = Suc k" "k < length dst" "k < 2 ^ 32"
  shows "ull2string_body v (of_nat k) dst = Some (dec_digits v @ drop (Suc k) dst)"
  using assms
proof (induction v arbitrary: k dst rule: less_induct)
  case (less v)
  consider "v < 10" | "10 \<le> v" "v < 100" | "100 \<le> v"
    by linarith
  then show ?case
  proof cases
    case 1
    with less.prems show ?thesis
      by (cases dst) (auto simp: ull2string_body_def ull2string_loop.simps [of v] dec_digits_small mem_put_def)
  next
    case 2
    then have d: "dec_digits v = [48 + of_nat (v div 10), 48 + of_nat (v mod 10)]"
      by (simp add: dec_digits_step dec_digits_small)
    with less.prems have "k = 1"
      by simp
    moreover obtain a b ds where "dst = a # b # ds"
      using less.prems(2) \<open>k = 1\<close> by (cases dst; cases "tl dst") auto
    ultimately show ?thesis
      using 2 d digit_pairs_nth [of v]
      by (simp add: ull2string_body_def ull2string_loop.simps [of v] mem_put_def mult.commute)
  next
    case 3
    then have split: "dec_digits v = dec_digits (v div 100) @
        [48 + of_nat (v mod 100 div 10), 48 + of_nat (v mod 100 mod 10)]"
      by (rule dec_digits_step2)
    then have len: "length (dec_digits (v div 100)) = Suc (k - 2)" and k: "2 \<le> k"
      using less.prems(1) dec_digits_nonempty [of "v div 100"]
      by (cases "dec_digits (v div 100)"; simp)+
    define dst' where "dst' = dst[k := 48 + of_nat (v mod 100 mod 10), k - 1 := 48 + of_nat (v mod 100 div 10)]"
    have "k - 1 < length dst"
      using less.prems(2) by simp
    then have "ull2string_body v (of_nat k) dst = ull2string_body (v div 100) (of_nat k - 2) dst'"
      using 3 less.prems(2,3) k digit_pairs_nth [of "v mod 100"]
      by (simp add: ull2string_body_def ull2string_loop.simps [of v] mem_put_def unat32_of_nat
          unat32_of_nat_pred dst'_def mult.commute)
    also have "of_nat k - 2 = (of_nat (k - 2) :: uint32)"
      using k by (simp add: of_nat_diff)
    also have "ull2string_body (v div 100) (of_nat (k - 2)) dst' =
        Some (dec_digits (v div 100) @ drop (Suc (k - 2)) dst')"
      using less.prems(2,3) k len 3 by (intro less.IH) (auto simp: dst'_def)
    also have "drop (Suc (k - 2)) dst' =
        [48 + of_nat (v mod 100 div 10), 48 + of_nat (v mod 100 mod 10)] @ drop (Suc k) dst"
    proof -
      obtain j where j: "k = j + 2"
        using k le_Suc_ex [of 2 k] by auto
      then have "drop (Suc j) dst = dst ! Suc j # dst ! Suc (Suc j) # drop (Suc k) dst"
        using less.prems(2) by (simp add: Cons_nth_drop_Suc)
      with j show ?thesis
        by (simp add: dst'_def drop_update_swap)
    qed
    finally show ?thesis
      by (simp add: split)
  qed
qed

lemma ull2string_fits:
  assumes "digits10 v < length dst" "length dst < 2 ^ 32"
  shows "ull2string dst v =
    Some (length (dec_digits v), dec_digits v @ 0 # drop (Suc (length (dec_digits v))) dst)"
proof -
  define n where "n = length (dec_digits v)"
  have n: "digits10 v = n" "0 < n" "n < length dst" "n < 2 ^ 32"
    using assms by (simp_all add: digits10_length n_def)
  then have "unat (of_nat (n - 1) + 1 :: uint32) = n"
    using unat32_of_nat [of n] by (simp add: of_nat_diff)
  moreover have "ull2string_body v (of_nat (n - 1)) (dst[n := 0]) =
      Some (dec_digits v @ drop (Suc (n - 1)) (dst[n := 0]))"
    using n by (intro ull2string_body_correct) (auto simp: n_def)
  moreover have "drop n (dst[n := 0]) = 0 # drop (Suc n) dst"
    using n(3) by (simp add: drop_update_swap Cons_nth_drop_Suc [symmetric])
  ultimately have "ull2string_body v (of_nat (n - 1)) (dst[n := 0]) = Some (dec_digits v @ 0 # drop (Suc n) dst)"
    and "unat (of_nat (n - 1) + 1 :: uint32) = n"
    using n(2) by simp_all
  with n show ?thesis
    by (simp add: ull2string_def mem_put_Some Let_def flip: n_def)
qed

section \<open>Parsing is exact\<close>

definition digits_value :: "nat \<Rightarrow> byte list \<Rightarrow> nat" where
  "digits_value v ds = foldl (\<lambda>v c. v * 10 + (unat c - 48)) v ds"

lemma digits_value_simps [simp]:
  "digits_value v [] = v"
  "digits_value v (c # ds) = digits_value (v * 10 + (unat c - 48)) ds"
  "digits_value v (ds @ [c]) = digits_value v ds * 10 + (unat c - 48)"
  by (simp_all add: digits_value_def)

lemma digits_value_ge: "v \<le> digits_value v ds"
proof (induction ds arbitrary: v)
  case (Cons c ds)
  from Cons [of "v * 10 + (unat c - 48)"] show ?case
    by simp
qed simp

lemma is_digit_iff: "is_digit c \<longleftrightarrow> 48 \<le> unat c \<and> unat c \<le> 57"
  by (simp add: is_digit_def word_le_nat_alt)

lemma string2ll_digits_iff:
  assumes "v \<le> ULLONG_MAX"
  shows "string2ll_digits v p = Some (v', []) \<longleftrightarrow>
    (\<forall>c\<in>set p. is_digit c) \<and> v' = digits_value v p \<and> v' \<le> ULLONG_MAX"
  using assms
proof (induction v p rule: string2ll_digits.induct)
  case (1 v)
  then show ?case by auto
next
  case (2 v c p)
  let ?d = "unat c - 48"
  show ?case
  proof (cases "is_digit c \<and> v * 10 + ?d \<le> ULLONG_MAX")
    case True
    then have "v \<le> ULLONG_MAX div 10" "v * 10 mod 2 ^ 64 = v * 10"
      "(v * 10 + ?d) mod 2 ^ 64 = v * 10 + ?d" "v * 10 \<le> ULLONG_MAX - ?d"
      by (auto simp: ULLONG_MAX_def)
    with True 2 show ?thesis
      by (simp add: is_digit_def Let_def)
  next
    case False
    then have "\<not> is_digit c \<or> ULLONG_MAX < digits_value v (c # p)"
      using digits_value_ge [of "v * 10 + ?d" p] by auto
    moreover have "string2ll_digits v (c # p) \<noteq> Some (v', [])"
    proof (cases "is_digit c")
      case True
      have "v > ULLONG_MAX div 10 \<or> v * 10 mod 2 ^ 64 > ULLONG_MAX - ?d"
      proof (cases "v \<le> ULLONG_MAX div 10")
        case True
        then have "v * 10 mod 2 ^ 64 = v * 10"
          by (simp add: ULLONG_MAX_def)
        moreover have "ULLONG_MAX < v * 10 + ?d" "?d < ULLONG_MAX"
          using False \<open>is_digit c\<close> by (auto simp: ULLONG_MAX_def is_digit_iff)
        then have "ULLONG_MAX - ?d < v * 10"
          by arith
        ultimately show ?thesis
          by simp
      qed simp
      with True show ?thesis
        by (auto simp: is_digit_def Let_def)
    qed (auto simp: is_digit_def)
    ultimately show ?thesis
      by auto
  qed
qed

lemma unat_digit: "d < 10 \<Longrightarrow> unat (48 + of_nat d :: byte) = 48 + d"
  by (simp add: unat_word_ariths unat_of_nat take_bit_nat_eq_self)

lemma digit_of_unat: "is_digit c \<Longrightarrow> 48 + of_nat (unat c - 48) = c"
  by (simp add: is_digit_iff of_nat_diff)

lemma dec_digits_value: "digits_value 0 (dec_digits n) = n"
proof (induction n rule: dec_digits.induct)
  case (1 n)
  then show ?case
    by (cases "n < 10") (simp_all add: dec_digits_small dec_digits_step unat_digit)
qed

lemma dec_digits_are_digits: "\<forall>c\<in>set (dec_digits n). is_digit c"
proof (induction n rule: dec_digits.induct)
  case (1 n)
  then show ?case
    by (cases "n < 10") (simp_all add: dec_digits_small dec_digits_step unat_digit is_digit_iff)
qed

lemma hd_dec_digits: "0 < n \<Longrightarrow> hd (dec_digits n) \<noteq> 48"
proof (induction n rule: dec_digits.induct)
  case (1 n)
  show ?case
  proof (cases "n < 10")
    case True
    with "1.prems" have "unat (48 + of_nat n :: byte) \<noteq> 48"
      by (simp add: unat_digit)
    with True show ?thesis
      by (auto simp: dec_digits_small)
  next
    case False
    with 1 show ?thesis
      by (simp add: dec_digits_step)
  qed
qed

lemma unat_numeral_byte_48: "unat (48 :: byte) = 48"
  by simp

lemma digits_value_pos:
  "ds \<noteq> [] \<Longrightarrow> is_digit (hd ds) \<Longrightarrow> hd ds \<noteq> 48 \<Longrightarrow> 0 < digits_value 0 ds"
proof -
  assume "ds \<noteq> []" "is_digit (hd ds)" "hd ds \<noteq> 48"
  moreover from this have "unat (hd ds) \<noteq> 48"
    by (metis unat_numeral_byte_48 word_unat_eq_iff)
  ultimately show ?thesis
    using digits_value_ge [of "unat (hd ds) - 48" "tl ds"] by (cases ds) (auto simp: is_digit_iff)
qed

lemma dec_digits_of_digits:
  assumes "ds \<noteq> []" "\<forall>c\<in>set ds. is_digit c" "hd ds \<noteq> 48 \<or> length ds = 1"
  shows "dec_digits (digits_value 0 ds) = ds"
  using assms
proof (induction ds rule: rev_nonempty_induct)
  case (single c)
  then have "unat c - 48 < 10"
    by (auto simp: is_digit_iff)
  with single show ?case
    by (simp add: dec_digits_small digit_of_unat)
next
  case (snoc c ds)
  let ?v = "digits_value 0 ds" and ?d = "unat c - 48"
  have d: "?d < 10" "48 + of_nat ?d = c"
    using snoc.prems by (auto simp: is_digit_iff digit_of_unat)
  have "hd ds \<noteq> 48"
    using snoc.hyps snoc.prems by auto
  then have "0 < ?v"
    using snoc.hyps snoc.prems hd_in_set [of ds] by (intro digits_value_pos) auto
  with d have "dec_digits (?v * 10 + ?d) = dec_digits ?v @ [c]"
    by (simp add: dec_digits_step)
  with snoc \<open>hd ds \<noteq> 48\<close> show ?case
    by simp
qed

lemma length_dec_digits_le:
  assumes "n < 10 ^ Suc k"
  shows "length (dec_digits n) \<le> Suc k"
  using assms
proof (induction k arbitrary: n)
  case 0
  then show ?case by (simp add: dec_digits_small)
next
  case (Suc k)
  show ?case
  proof (cases "n < 10")
    case True
    then show ?thesis by (simp add: dec_digits_small)
  next
    case False
    with Suc show ?thesis
      by (simp add: dec_digits_step less_mult_imp_div_less mult.commute)
  qed
qed

lemma length_dec_string: "is_int64 v \<Longrightarrow> length (dec_string v) < LONG_STR_SIZE"
proof -
  assume "is_int64 v"
  then have "nat (- v) < 10 ^ Suc 18" "nat v < 10 ^ Suc 18"
    by (auto simp: is_int64_def nat_less_iff)
  then have "length (dec_digits (nat (- v))) \<le> Suc 18" "length (dec_digits (nat v)) \<le> Suc 18"
    by (blast intro: length_dec_digits_le)+
  then show ?thesis
    by (simp add: dec_string_def LONG_STR_SIZE_def)
qed

lemma first_digit_iff: "c \<ge> 49 \<and> c \<le> 57 \<longleftrightarrow> is_digit (c :: byte) \<and> c \<noteq> 48"
  by (auto simp: is_digit_iff word_le_nat_alt word_unat_eq_iff)

text \<open>A positive number: the first digit, then the loop.\<close>

lemma parse_positive:
  assumes "c \<ge> 49 \<and> c \<le> 57"
  shows "string2ll_digits (unat c - 48) p = Some (v, []) \<longleftrightarrow>
    c # p = dec_digits v \<and> v \<le> ULLONG_MAX"
proof -
  have c: "is_digit c" "c \<noteq> 48"
    using assms first_digit_iff by auto
  then have "unat c - 48 \<le> ULLONG_MAX"
    by (auto simp: is_digit_iff ULLONG_MAX_def)
  note iff = string2ll_digits_iff [OF this, of p v]
  show ?thesis
  proof
    assume "string2ll_digits (unat c - 48) p = Some (v, [])"
    with iff c show "c # p = dec_digits v \<and> v \<le> ULLONG_MAX"
      using dec_digits_of_digits [of "c # p"] by simp
  next
    assume "c # p = dec_digits v \<and> v \<le> ULLONG_MAX"
    then show "string2ll_digits (unat c - 48) p = Some (v, [])"
      using iff dec_digits_are_digits [of v] dec_digits_value [of v] by (metis digits_value_simps(2)
          list.set_intros(2) add_0 mult_0)
  qed
qed

lemma hd_dec_digits_digit: "is_digit (hd (dec_digits n))"
  using dec_digits_are_digits [of n] hd_in_set [of "dec_digits n"] by simp

lemma dec_string_sign:
  "dec_string v ! 0 = 45 \<longleftrightarrow> v < 0"
  "(if v < 0 then tl (dec_string v) else dec_string v) = dec_digits (nat \<bar>v\<bar>)"
  using hd_dec_digits_digit [of "nat v"] by (auto simp: dec_string_def is_digit_def hd_conv_nth)

lemma dec_digits_inject: "dec_digits m = dec_digits n \<longleftrightarrow> m = n"
  by (metis dec_digits_value)

lemma string2ll_nonzero:
  assumes "s \<noteq> [48]" "s \<noteq> []" "length s < LONG_STR_SIZE"
  defines "neg \<equiv> s ! 0 = 45" and "p \<equiv> if s ! 0 = 45 then tl s else s"
  shows "string2ll s = Some v \<longleftrightarrow>
    (\<exists>n. 0 < n \<and> p = dec_digits n \<and> (if neg then n \<le> 2 ^ 63 \<and> v = - int n else n \<le> 2 ^ 63 - 1 \<and> v = int n))"
proof -
  have unfold: "string2ll s = (case p of [] \<Rightarrow> None | c # p' \<Rightarrow>
      if c \<ge> 49 \<and> c \<le> 57 then
        (case string2ll_digits (unat c - 48) p' of None \<Rightarrow> None
         | Some (v, rest) \<Rightarrow> if rest \<noteq> [] then None
             else if neg then (if v > 2 ^ 63 then None else Some (- int v))
             else if v > 2 ^ 63 - 1 then None else Some (int v))
      else None)"
  proof -
    have "\<not> (length s = 1 \<and> s ! 0 = 48)" "\<not> (length s = 0 \<or> length s \<ge> LONG_STR_SIZE)"
      using assms(1-3) by (auto simp: length_Suc_conv)
    then show ?thesis
      by (simp only: string2ll_def if_False Let_def p_def neg_def)
  qed
  show ?thesis
  proof (cases p)
    case Nil
    then show ?thesis
      by (auto simp: unfold dec_digits_nonempty [symmetric] simp del: dec_digits_nonempty)
  next
    case (Cons c p')
    show ?thesis
    proof (cases "c \<ge> 49 \<and> c \<le> 57")
      case False
      have "p \<noteq> dec_digits n" if "0 < n" for n
      proof
        assume "p = dec_digits n"
        with Cons have "hd (dec_digits n) = c"
          by (metis list.sel(1))
        with that False show False
          using hd_dec_digits [of n] hd_dec_digits_digit [of n] first_digit_iff [of c] by simp
      qed
      moreover have "string2ll s = None"
        unfolding unfold Cons using False by (simp only: list.case if_False)
      ultimately show ?thesis
        by auto
    next
      case True
      have pos: "p = dec_digits n \<Longrightarrow> 0 < n" for n
        using True Cons by (cases n) (auto simp: dec_digits_small)
      have "string2ll s = (case string2ll_digits (unat c - 48) p' of None \<Rightarrow> None
         | Some (v, rest) \<Rightarrow> if rest \<noteq> [] then None
             else if neg then (if v > 2 ^ 63 then None else Some (- int v))
             else if v > 2 ^ 63 - 1 then None else Some (int v))"
        unfolding unfold Cons using True by (simp only: list.case if_True simp_thms)
      then have "string2ll s = Some v \<longleftrightarrow> (\<exists>n. string2ll_digits (unat c - 48) p' = Some (n, []) \<and>
          (if neg then n \<le> 2 ^ 63 \<and> v = - int n else n \<le> 2 ^ 63 - 1 \<and> v = int n))"
        by (auto simp: not_less split: option.splits if_splits)
      then have *: "string2ll s = Some v \<longleftrightarrow> (\<exists>n. p = dec_digits n \<and> n \<le> ULLONG_MAX \<and>
          (if neg then n \<le> 2 ^ 63 \<and> v = - int n else n \<le> 2 ^ 63 - 1 \<and> v = int n))"
        by (simp only: parse_positive [OF True] Cons conj_assoc)
      have "n \<le> 2 ^ 63 \<Longrightarrow> n \<le> ULLONG_MAX" for n :: nat
        by (simp add: ULLONG_MAX_def)
      with * pos show ?thesis
        by (auto split: if_splits)
    qed
  qed
qed

lemma string2ll_iff: "string2ll s = Some v \<longleftrightarrow> is_int64 v \<and> s = dec_string v"
proof -
  have zero: "dec_string v = [48] \<longleftrightarrow> v = 0"
    using hd_dec_digits [of "nat v"] by (cases "v > 0") (auto simp: dec_string_def dec_digits_small)
  have nonempty: "dec_string v \<noteq> []"
    by (simp add: dec_string_def)
  consider "s = [] \<or> length s \<ge> LONG_STR_SIZE" | "s = [48]"
    | "s \<noteq> [48]" "s \<noteq> []" "length s < LONG_STR_SIZE"
    by linarith
  then show ?thesis
  proof cases
    case 1
    then show ?thesis
      using length_dec_string [of v] nonempty by (auto simp: string2ll_def)
  next
    case 2
    then show ?thesis
      using zero by (auto simp: string2ll_def LONG_STR_SIZE_def is_int64_def)
  next
    case 3
    let ?p = "if s ! 0 = 45 then tl s else s"
    have "s = dec_string v \<longleftrightarrow> (s ! 0 = 45 \<longleftrightarrow> v < 0) \<and> v \<noteq> 0 \<and> ?p = dec_digits (nat \<bar>v\<bar>)"
    proof
      assume "s = dec_string v"
      with 3 zero dec_string_sign [of v] show "(s ! 0 = 45 \<longleftrightarrow> v < 0) \<and> v \<noteq> 0 \<and> ?p = dec_digits (nat \<bar>v\<bar>)"
        by auto
    next
      assume "(s ! 0 = 45 \<longleftrightarrow> v < 0) \<and> v \<noteq> 0 \<and> ?p = dec_digits (nat \<bar>v\<bar>)"
      with 3(2) show "s = dec_string v"
        by (cases s) (auto simp: dec_string_def split: if_splits)
    qed
    with string2ll_nonzero [OF 3, of v] show ?thesis
      by (auto simp: is_int64_def dec_digits_inject split: if_splits)
  qed
qed

lemma ll2string_fits:
  assumes "is_int64 v" "length (dec_string v) < length dst" "length dst < 2 ^ 32"
  shows "ll2string dst v =
    Some (length (dec_string v), dec_string v @ 0 # drop (Suc (length (dec_string v))) dst)"
proof (cases "v < 0")
  case True
  have "(if v \<noteq> INT64_MIN then nat (- v) else nat INT64_MAX + 1) = nat (- v)"
    by simp
  moreover from True assms have "ull2string (tl dst) (nat (- v)) = Some (length (dec_digits (nat (- v))),
      dec_digits (nat (- v)) @ 0 # drop (Suc (length (dec_digits (nat (- v))))) (tl dst))"
    by (intro ull2string_fits) (auto simp: dec_string_def digits10_length)
  moreover have "\<not> length dst < 2"
    using True assms(2) dec_digits_nonempty [of "nat (- v)"]
    by (cases "dec_digits (nat (- v))") (auto simp: dec_string_def)
  ultimately show ?thesis
    using True by (simp add: ll2string_def dec_string_def drop_Suc Let_def)
next
  case False
  with assms show ?thesis
    by (simp add: ll2string_def dec_string_def ull2string_fits digits10_length)
qed

section \<open>Properties\<close>

text \<open>the closed-form digit count equals the length of the decimal representation, for
  signed values with the sign counted.\<close>
theorem sdigits10_exact:
  assumes "is_int64 v"
  shows "sdigits10 v = length (dec_string v)"
proof -
  have "(if v \<noteq> INT64_MIN then nat (- v) else nat INT64_MAX + 1) = nat (- v)"
    by simp
  then show ?thesis
    by (simp add: sdigits10_def dec_string_def digits10_length Let_def)
qed

theorem sdigits10_exact_witness: "sdigits10 (- 1234) = 5"
  using sdigits10_exact [of "- 1234"]
  by (simp add: is_int64_def dec_string_def dec_digits_step dec_digits_small)

text \<open>C31: printing a 64 bit integer into a buffer with room for its digits and the
  terminator writes exactly the decimal representation and a NUL, returns its length, and
  touches nothing behind; the two-digits-at-a-time loop never writes out of bounds.\<close>
theorem ll2string_exact:
  assumes "is_int64 v" "sdigits10 v < length dst" "length dst < 2 ^ 32"
  shows "ll2string dst v =
    Some (sdigits10 v, dec_string v @ 0 # drop (Suc (sdigits10 v)) dst)"
proof -
  have "(if v \<noteq> INT64_MIN then nat (- v) else nat INT64_MAX + 1) = nat (- v)"
    by simp
  then have "sdigits10 v = length (dec_string v)"
    by (simp add: sdigits10_def dec_string_def digits10_length Let_def)
  with assms ll2string_fits show ?thesis
    by simp
qed

theorem ll2string_exact_witness:
  "ll2string [7, 7, 7, 7, 7, 7] (- 123) = Some (4, [45, 49, 50, 51, 0, 7])"
  using ll2string_exact [of "- 123" "[7, 7, 7, 7, 7, 7]"]
  by (simp add: is_int64_def dec_string_def dec_digits_step dec_digits_small sdigits10_def
      digits10_length)

text \<open>C32: \<^verbatim>\<open>string2ll\<close> accepts exactly the decimal representations of the 64 bit integers, so
  that an accepted string is recovered from its number without any loss; every other string,
  an overflowing one included, is refused.\<close>
theorem string2ll_exact:
  "string2ll s = Some v \<longleftrightarrow> is_int64 v \<and> s = dec_string v"
  by (rule string2ll_iff)

text \<open>what \<^verbatim>\<open>ll2string\<close> prints, \<^verbatim>\<open>string2ll\<close> reads back, for every 64 bit integer and a
  buffer of \<^verbatim>\<open>LONG_STR_SIZE\<close> bytes.\<close>
theorem ll2string_string2ll_roundtrip:
  assumes "is_int64 v" "length dst = LONG_STR_SIZE"
  shows "\<exists>n dst'. ll2string dst v = Some (n, dst') \<and> string2ll (take n dst') = Some v \<and> dst' ! n = 0"
proof -
  have "length (dec_string v) < length dst" "length dst < 2 ^ 32"
    using length_dec_string [OF assms(1)] assms(2) by (simp_all add: LONG_STR_SIZE_def)
  with ll2string_fits [OF assms(1)] show ?thesis
    using assms(1) by (simp add: string2ll_iff nth_append)
qed

theorem ll2string_string2ll_roundtrip_witness:
  "\<exists>n dst'. ll2string (replicate 21 0) (- (2 ^ 63)) = Some (n, dst') \<and>
     string2ll (take n dst') = Some (- (2 ^ 63)) \<and> dst' ! n = 0"
  using ll2string_string2ll_roundtrip [of "- (2 ^ 63)" "replicate 21 0"]
  by (simp add: is_int64_def LONG_STR_SIZE_def)

lemma takeWhile_digits_append:
  assumes "\<forall>c\<in>set ds. is_digit c" "u = [] \<or> \<not> is_digit (hd u)"
  shows "takeWhile is_digit (ds @ u) = ds" "dropWhile is_digit (ds @ u) = u"
  using assms by (cases u; simp add: takeWhile_append2 dropWhile_append2)+

text \<open>The units of the documentation with their factors; they are written in any case.\<close>

definition size_units :: "(string \<times> nat) list" where
  "size_units =
     [([], 1), (''b'', 1), (''k'', 10 ^ 3), (''kb'', 2 ^ 10), (''m'', 10 ^ 6), (''mb'', 2 ^ 20), (''g'', 10 ^ 9), (''gb'', 2 ^ 30)]"

lemma memtoull_unit_table:
  "(name, mul) \<in> set size_units \<Longrightarrow> map byte_tolower u = map of_char name \<Longrightarrow> memtoull_unit u = Some mul"
  by (auto simp: size_units_def memtoull_unit_def strcaseeq_def)

lemma memtoull_unit_other:
  "\<forall>(name, mul)\<in>set size_units. map byte_tolower u \<noteq> map of_char name \<Longrightarrow> memtoull_unit u = None"
  by (auto simp: size_units_def memtoull_unit_def strcaseeq_def)

lemma memtoull_decimal:
  assumes "u = [] \<or> \<not> is_digit (hd u)" "n < 10 ^ 127"
  shows "memtoull einval (dec_digits n @ u) =
    (case memtoull_unit u of None \<Rightarrow> (0, True) | Some mul \<Rightarrow> (min n ULLONG_MAX * mul mod 2 ^ 64, False))"
proof -
  have "strtoull_digits (dec_digits n) = min n ULLONG_MAX"
    using dec_digits_value [of n] by (simp add: strtoull_digits_def dec_value_def digits_value_def)
  moreover have "hd (dec_digits n @ u) \<noteq> 45" "dec_digits n \<noteq> []"
    using hd_dec_digits_digit [of n] by (auto simp: is_digit_def)
  moreover have "length (dec_digits n) < 128"
    using length_dec_digits_le [of n 126] assms(2) by simp
  ultimately show ?thesis
    using takeWhile_digits_append [OF dec_digits_are_digits assms(1), of n]
    by (simp add: memtoull_def Let_def split: option.split)
qed

lemma size_units_pos: "(name, mul) \<in> set size_units \<Longrightarrow> 0 < mul"
  by (auto simp: size_units_def)

text \<open>C33: A size that is a decimal number followed by a unit of the table, in any case, is converted exactly whenever the
  product fits 64 bits, and a number of up to 127 digits followed by anything else is an error.\<close>

theorem memtoull_exact:
  assumes "u = [] \<or> \<not> is_digit (hd u)"
  shows "(\<forall>(name, mul)\<in>set size_units. map byte_tolower u = map of_char name \<and> n * mul < 2 ^ 64 \<longrightarrow>
      memtoull einval (dec_digits n @ u) = (n * mul, False)) \<and>
    ((\<forall>(name, mul)\<in>set size_units. map byte_tolower u \<noteq> map of_char name) \<and> n < 10 ^ 127 \<longrightarrow>
      memtoull einval (dec_digits n @ u) = (0, True))"
proof -
  have "memtoull einval (dec_digits n @ u) = (n * mul, False)"
    if t: "(name, mul) \<in> set size_units" "map byte_tolower u = map of_char name" and b: "n * mul < 2 ^ 64" for name mul
  proof -
    have "n \<le> n * mul"
      using size_units_pos [OF t(1)] by simp
    then have n: "n < 2 ^ 64"
      using b by (rule le_less_trans)
    also have "(2 :: nat) ^ 64 < 10 ^ 127"
      by simp
    finally have "n < 10 ^ 127" .
    then show ?thesis
      using memtoull_decimal [OF assms] memtoull_unit_table [OF t] n b by (simp add: ULLONG_MAX_def)
  qed
  then show ?thesis
    using memtoull_decimal [OF assms] memtoull_unit_other by auto
qed

theorem memtoull_exact_witness:
  "memtoull False (map of_char ''100Mb'') = (104857600, False) \<and> memtoull False (map of_char ''100Mbit'') = (0, True)"
proof -
  have u: "map of_char ''Mb'' = [] \<or> \<not> is_digit (hd (map of_char ''Mb''))"
    "map of_char ''Mbit'' = [] \<or> \<not> is_digit (hd (map of_char ''Mbit''))"
    by (simp_all add: is_digit_def)
  have "memtoull False (dec_digits 100 @ map of_char ''Mb'') = (104857600, False)"
    using memtoull_exact [OF u(1), of 100 False] by (simp add: size_units_def byte_tolower_def)
  moreover have "memtoull False (dec_digits 100 @ map of_char ''Mbit'') = (0, True)"
    using memtoull_exact [OF u(2), of 100 False] by (simp add: size_units_def byte_tolower_def)
  moreover have "dec_digits 100 @ map of_char w = map of_char (''100'' @ w)" for w
    by (simp add: dec_digits_step dec_digits_small)
  ultimately show ?thesis
    by simp
qed

text \<open>C34: A size that does not fit 64 bits is not an error. For every number of up to 127 digits and every unit of the table
  whose product is \<open>2 ^ 64\<close> or more, the result is the product modulo \<open>2 ^ 64\<close>, with a number beyond 64 bits first cut to the
  greatest one, and the error flag stays clear.\<close>

theorem memtoull_wraps_silently:
  assumes "u = [] \<or> \<not> is_digit (hd u)" "n < 10 ^ 127" "(name, mul) \<in> set size_units" "map byte_tolower u = map of_char name"
    "2 ^ 64 \<le> n * mul"
  shows "memtoull einval (dec_digits n @ u) = (min n (2 ^ 64 - 1) * mul mod 2 ^ 64, False)"
  using memtoull_decimal [OF assms(1,2)] memtoull_unit_table [OF assms(3,4)] by (simp add: ULLONG_MAX_def)

theorem memtoull_wraps_silently_witness: "memtoull True (map of_char ''17179869184gb'') = (0, False)"
proof -
  have "memtoull True (dec_digits 17179869184 @ map of_char ''gb'') = (0, False)"
    using memtoull_wraps_silently [of "map of_char ''gb''" 17179869184 "''gb''" "2 ^ 30" True]
    by (simp add: is_digit_def size_units_def byte_tolower_def)
  moreover have "dec_digits 17179869184 @ map of_char ''gb'' = map of_char ''17179869184gb''"
    by (simp add: dec_digits_step dec_digits_small)
  ultimately show ?thesis
    by (simp only:)
qed

end
