(* ===== verification/Listpack_Encoding.thy ===== *)
theory Listpack_Encoding
  imports Util_Numbers
begin

text \<open>
  The entries of a listpack, first part of \<^verbatim>\<open>src/redis-7.2.10/src/listpack.c\<close>: the encoding of
  integers and strings, the backward-readable length behind every entry, and the size and
  value of the entry a pointer points to. A pointer into a listpack is the offset of the byte
  in the allocation; \<open>None\<close> is an access out of the allocation or a failed assertion.
\<close>

abbreviation LP_HDR_SIZE :: nat where "LP_HDR_SIZE \<equiv> 6"
abbreviation LP_HDR_NUMELE_UNKNOWN :: nat where "LP_HDR_NUMELE_UNKNOWN \<equiv> 65535"
abbreviation LP_EOF :: byte where "LP_EOF \<equiv> 0xFF"
abbreviation LP_INTBUF_SIZE :: nat where "LP_INTBUF_SIZE \<equiv> 21"
abbreviation UINT32_MAX :: nat where "UINT32_MAX \<equiv> 2 ^ 32 - 1"
abbreviation UINT64_MAX :: nat where "UINT64_MAX \<equiv> 2 ^ 64 - 1"

section \<open>Encoding bytes\<close>

definition LP_ENCODING_IS_7BIT_UINT :: "byte \<Rightarrow> bool" where
  "LP_ENCODING_IS_7BIT_UINT b \<longleftrightarrow> b AND 0x80 = 0"

definition LP_ENCODING_IS_6BIT_STR :: "byte \<Rightarrow> bool" where
  "LP_ENCODING_IS_6BIT_STR b \<longleftrightarrow> b AND 0xC0 = 0x80"

definition LP_ENCODING_IS_13BIT_INT :: "byte \<Rightarrow> bool" where
  "LP_ENCODING_IS_13BIT_INT b \<longleftrightarrow> b AND 0xE0 = 0xC0"

definition LP_ENCODING_IS_12BIT_STR :: "byte \<Rightarrow> bool" where
  "LP_ENCODING_IS_12BIT_STR b \<longleftrightarrow> b AND 0xF0 = 0xE0"

abbreviation LP_ENCODING_32BIT_STR :: byte where "LP_ENCODING_32BIT_STR \<equiv> 0xF0"
abbreviation LP_ENCODING_16BIT_INT :: byte where "LP_ENCODING_16BIT_INT \<equiv> 0xF1"
abbreviation LP_ENCODING_24BIT_INT :: byte where "LP_ENCODING_24BIT_INT \<equiv> 0xF2"
abbreviation LP_ENCODING_32BIT_INT :: byte where "LP_ENCODING_32BIT_INT \<equiv> 0xF3"
abbreviation LP_ENCODING_64BIT_INT :: byte where "LP_ENCODING_64BIT_INT \<equiv> 0xF4"

definition LP_ENCODING_6BIT_STR_LEN :: "byte \<Rightarrow> nat" where
  "LP_ENCODING_6BIT_STR_LEN b = unat (b AND 0x3F)"

definition LP_ENCODING_12BIT_STR_LEN :: "byte \<Rightarrow> byte \<Rightarrow> nat" where
  "LP_ENCODING_12BIT_STR_LEN b0 b1 = push_bit 8 (unat (b0 AND 0xF)) OR unat b1"

section \<open>Header fields\<close>

definition lpGetTotalBytes :: "byte list \<Rightarrow> nat option" where
  "lpGetTotalBytes lp = do { bs \<leftarrow> mem_read lp 0 4; Some (nat (le_decode bs)) }"

definition lpGetNumElements :: "byte list \<Rightarrow> nat option" where
  "lpGetNumElements lp = do { bs \<leftarrow> mem_read lp 4 2; Some (nat (le_decode bs)) }"

definition lpSetTotalBytes :: "byte list \<Rightarrow> nat \<Rightarrow> byte list option" where
  "lpSetTotalBytes lp v = mem_write lp 0 (le_encode 4 (int v))"

definition lpSetNumElements :: "byte list \<Rightarrow> int \<Rightarrow> byte list option" where
  "lpSetNumElements lp v = mem_write lp 4 (le_encode 2 v)"

definition lpSafeToAdd :: "byte list option \<Rightarrow> nat \<Rightarrow> bool option" where
  "lpSafeToAdd lp add = do {
     len \<leftarrow> (case lp of None \<Rightarrow> Some 0 | Some lp \<Rightarrow> lpGetTotalBytes lp);
     Some (\<not> (len + add) mod 2 ^ 64 > 2 ^ 30) }"

section \<open>Encoding of elements\<close>

text \<open>The digit loop of \<^verbatim>\<open>lpStringToInt64\<close>; \<open>None\<close> is the early return on overflow.\<close>

fun lpStringToInt64_digits :: "nat \<Rightarrow> byte list \<Rightarrow> (nat \<times> byte list) option" where
  "lpStringToInt64_digits v [] = Some (v, [])"
| "lpStringToInt64_digits v (c # p) =
     (if 48 \<le> c \<and> c \<le> 57 then
        (if v > UINT64_MAX div 10 then None
         else let v1 = v * 10 mod 2 ^ 64
         in if v1 > UINT64_MAX - (unat c - 48) then None
            else lpStringToInt64_digits ((v1 + (unat c - 48)) mod 2 ^ 64) p)
      else Some (v, c # p))"

definition lpStringToInt64 :: "byte list \<Rightarrow> int option" where
  "lpStringToInt64 s =
     (if length s = 0 \<or> length s \<ge> LONG_STR_SIZE then None
      else if length s = 1 \<and> s ! 0 = 48 then Some 0
      else let negative = (s ! 0 = 45); p = (if negative then tl s else s)
        in case p of
             [] \<Rightarrow> None
           | c # p' \<Rightarrow>
               if 49 \<le> c \<and> c \<le> 57 then
                 (case lpStringToInt64_digits (unat c - 48) p' of
                    None \<Rightarrow> None
                  | Some (v, rest) \<Rightarrow>
                      if rest \<noteq> [] then None
                      else if negative then (if v > 2 ^ 63 then None else Some (- int v))
                      else if v > 2 ^ 63 - 1 then None else Some (int v))
               else None)"

text \<open>The encoded integer; \<^verbatim>\<open>*enclen\<close> is its length.\<close>

definition lpEncodeIntegerGetType :: "int \<Rightarrow> byte list" where
  "lpEncodeIntegerGetType v =
     (if 0 \<le> v \<and> v \<le> 127 then [word_of_int v]
      else if - 4096 \<le> v \<and> v \<le> 4095 then
        (let v = (if v < 0 then 2 ^ 13 + v else v)
         in [word_of_int (drop_bit 8 v) OR 0xC0, word_of_int (v AND 0xFF)])
      else if - 32768 \<le> v \<and> v \<le> 32767 then
        (let v = (if v < 0 then 2 ^ 16 + v else v) in LP_ENCODING_16BIT_INT # le_encode 2 v)
      else if - 8388608 \<le> v \<and> v \<le> 8388607 then
        (let v = (if v < 0 then 2 ^ 24 + v else v) in LP_ENCODING_24BIT_INT # le_encode 3 v)
      else if - 2147483648 \<le> v \<and> v \<le> 2147483647 then
        (let v = (if v < 0 then 2 ^ 32 + v else v) in LP_ENCODING_32BIT_INT # le_encode 4 v)
      else LP_ENCODING_64BIT_INT # le_encode 8 (take_bit 64 v))"

text \<open>
  \<open>Some intenc\<close> is \<^verbatim>\<open>LP_ENCODING_INT\<close>, \<open>None\<close> is \<^verbatim>\<open>LP_ENCODING_STRING\<close>; the second component
  is \<^verbatim>\<open>*enclen\<close>.
\<close>

definition lpEncodeGetType :: "byte list \<Rightarrow> byte list option \<times> nat" where
  "lpEncodeGetType ele =
     (case lpStringToInt64 ele of
        Some v \<Rightarrow> let intenc = lpEncodeIntegerGetType v in (Some intenc, length intenc)
      | None \<Rightarrow>
          (None, if length ele < 64 then 1 + length ele
                 else if length ele < 4096 then 2 + length ele else 5 + length ele))"

text \<open>The bytes \<^verbatim>\<open>lpEncodeBacklen\<close> stores; it returns their number.\<close>

definition lpEncodeBacklen :: "nat \<Rightarrow> byte list" where
  "lpEncodeBacklen l =
     (if l \<le> 127 then [word_of_nat l]
      else if l < 16383 then
        [word_of_nat (drop_bit 7 l), word_of_nat ((l AND 127) OR 128)]
      else if l < 2097151 then
        [word_of_nat (drop_bit 14 l), word_of_nat ((drop_bit 7 l AND 127) OR 128),
         word_of_nat ((l AND 127) OR 128)]
      else if l < 268435455 then
        [word_of_nat (drop_bit 21 l), word_of_nat ((drop_bit 14 l AND 127) OR 128),
         word_of_nat ((drop_bit 7 l AND 127) OR 128), word_of_nat ((l AND 127) OR 128)]
      else
        [word_of_nat (drop_bit 28 l), word_of_nat ((drop_bit 21 l AND 127) OR 128),
         word_of_nat ((drop_bit 14 l AND 127) OR 128), word_of_nat ((drop_bit 7 l AND 127) OR 128),
         word_of_nat ((l AND 127) OR 128)])"

text \<open>The loop of \<^verbatim>\<open>lpDecodeBacklen\<close>: a byte at the pointer, then to the left.\<close>

function lpDecodeBacklen_loop :: "byte list \<Rightarrow> nat \<Rightarrow> nat \<Rightarrow> nat \<Rightarrow> nat option" where
  "lpDecodeBacklen_loop lp p val shift =
     (case mem_get lp p of
        None \<Rightarrow> None
      | Some b \<Rightarrow>
          let val' = val OR push_bit shift (unat (b AND 0x7F))
          in if b AND 0x80 = 0 then Some val'
             else if shift + 7 > 28 then Some UINT64_MAX
             else if p = 0 then None
             else lpDecodeBacklen_loop lp (p - 1) val' (shift + 7))"
  by pat_completeness auto

termination
  by (relation "measure (\<lambda>(lp, p, val, shift). 35 - shift)") auto

declare lpDecodeBacklen_loop.simps [simp del]

definition lpDecodeBacklen :: "byte list \<Rightarrow> nat \<Rightarrow> nat option" where
  "lpDecodeBacklen lp p = lpDecodeBacklen_loop lp p 0 0"

text \<open>The bytes \<^verbatim>\<open>lpEncodeString\<close> stores.\<close>

definition lpEncodeString :: "byte list \<Rightarrow> byte list" where
  "lpEncodeString s =
     (let len = length s
      in if len < 64 then [word_of_nat len OR 0x80] @ s
         else if len < 4096 then [word_of_nat (drop_bit 8 len) OR 0xE0, word_of_nat (len AND 0xFF)] @ s
         else [LP_ENCODING_32BIT_STR] @ le_encode 4 (int len) @ s)"

section \<open>Size and value of an entry\<close>

definition lpCurrentEncodedSizeUnsafe :: "byte list \<Rightarrow> nat \<Rightarrow> nat option" where
  "lpCurrentEncodedSizeUnsafe lp p = do {
     b \<leftarrow> mem_get lp p;
     if LP_ENCODING_IS_7BIT_UINT b then Some 1
     else if LP_ENCODING_IS_6BIT_STR b then Some (1 + LP_ENCODING_6BIT_STR_LEN b)
     else if LP_ENCODING_IS_13BIT_INT b then Some 2
     else if b = LP_ENCODING_16BIT_INT then Some 3
     else if b = LP_ENCODING_24BIT_INT then Some 4
     else if b = LP_ENCODING_32BIT_INT then Some 5
     else if b = LP_ENCODING_64BIT_INT then Some 9
     else if LP_ENCODING_IS_12BIT_STR b then do {
       b1 \<leftarrow> mem_get lp (p + 1); Some (2 + LP_ENCODING_12BIT_STR_LEN b b1) }
     else if b = LP_ENCODING_32BIT_STR then do {
       bs \<leftarrow> mem_read lp (p + 1) 4; Some ((5 + nat (le_decode bs)) mod 2 ^ 32) }
     else if b = LP_EOF then Some 1
     else Some 0 }"

definition lpCurrentEncodedSizeBytes :: "byte list \<Rightarrow> nat \<Rightarrow> nat option" where
  "lpCurrentEncodedSizeBytes lp p = do {
     b \<leftarrow> mem_get lp p;
     Some (if LP_ENCODING_IS_7BIT_UINT b then 1
       else if LP_ENCODING_IS_6BIT_STR b then 1
       else if LP_ENCODING_IS_13BIT_INT b then 1
       else if b = LP_ENCODING_16BIT_INT then 1
       else if b = LP_ENCODING_24BIT_INT then 1
       else if b = LP_ENCODING_32BIT_INT then 1
       else if b = LP_ENCODING_64BIT_INT then 1
       else if LP_ENCODING_IS_12BIT_STR b then 2
       else if b = LP_ENCODING_32BIT_STR then 5
       else if b = LP_EOF then 1
       else 0) }"

definition lpSkip :: "byte list \<Rightarrow> nat \<Rightarrow> nat option" where
  "lpSkip lp p = do {
     entrylen \<leftarrow> lpCurrentEncodedSizeUnsafe lp p;
     Some (p + (entrylen + length (lpEncodeBacklen entrylen))) }"

text \<open>
  What \<^verbatim>\<open>lpGetWithSize\<close> returns: a pointer into the listpack with the string length in
  \<^verbatim>\<open>*count\<close>, the caller's \<^verbatim>\<open>intbuf\<close> with the number of characters, or \<^verbatim>\<open>NULL\<close> with the
  integer in \<^verbatim>\<open>*count\<close>.
\<close>

datatype lp_got = InPlace nat nat | InBuf nat "byte list" | IntVal int

definition lpSignedValue :: "nat \<Rightarrow> nat \<Rightarrow> nat \<Rightarrow> int" where
  "lpSignedValue uval negstart negmax =
     (if uval \<ge> negstart then - (int negmax - int uval) - 1 else int uval)"

definition lpReturnInt :: "byte list option \<Rightarrow> int \<Rightarrow> lp_got option" where
  "lpReturnInt intbuf val =
     (case intbuf of
        Some buf \<Rightarrow> do { (count, buf') \<leftarrow> ll2string buf val; Some (InBuf count buf') }
      | None \<Rightarrow> Some (IntVal val))"

text \<open>The second component is \<^verbatim>\<open>*entry_size\<close>, \<open>None\<close> when the branch does not set it.\<close>

definition lpGetWithSize :: "byte list \<Rightarrow> nat \<Rightarrow> byte list option \<Rightarrow> (lp_got \<times> nat option) option" where
  "lpGetWithSize lp p intbuf = do {
     b \<leftarrow> mem_get lp p;
     if LP_ENCODING_IS_7BIT_UINT b then do {
       r \<leftarrow> lpReturnInt intbuf (lpSignedValue (unat (b AND 0x7F)) UINT64_MAX 0);
       Some (r, Some 2) }
     else if LP_ENCODING_IS_6BIT_STR b then
       (let count = LP_ENCODING_6BIT_STR_LEN b
        in Some (InPlace (p + 1) count, Some (1 + count + length (lpEncodeBacklen (count + 1)))))
     else if LP_ENCODING_IS_13BIT_INT b then do {
       b1 \<leftarrow> mem_get lp (p + 1);
       r \<leftarrow> lpReturnInt intbuf
         (lpSignedValue (push_bit 8 (unat (b AND 0x1F)) OR unat b1) (2 ^ 12) 8191);
       Some (r, Some 3) }
     else if b = LP_ENCODING_16BIT_INT then do {
       bs \<leftarrow> mem_read lp (p + 1) 2;
       r \<leftarrow> lpReturnInt intbuf (lpSignedValue (nat (le_decode bs)) (2 ^ 15) (2 ^ 16 - 1));
       Some (r, Some 4) }
     else if b = LP_ENCODING_24BIT_INT then do {
       bs \<leftarrow> mem_read lp (p + 1) 3;
       r \<leftarrow> lpReturnInt intbuf (lpSignedValue (nat (le_decode bs)) (2 ^ 23) (2 ^ 24 - 1));
       Some (r, Some 5) }
     else if b = LP_ENCODING_32BIT_INT then do {
       bs \<leftarrow> mem_read lp (p + 1) 4;
       r \<leftarrow> lpReturnInt intbuf (lpSignedValue (nat (le_decode bs)) (2 ^ 31) UINT32_MAX);
       Some (r, Some 6) }
     else if b = LP_ENCODING_64BIT_INT then do {
       bs \<leftarrow> mem_read lp (p + 1) 8;
       r \<leftarrow> lpReturnInt intbuf (lpSignedValue (nat (le_decode bs)) (2 ^ 63) UINT64_MAX);
       Some (r, Some 10) }
     else if LP_ENCODING_IS_12BIT_STR b then do {
       b1 \<leftarrow> mem_get lp (p + 1);
       let count = LP_ENCODING_12BIT_STR_LEN b b1;
       Some (InPlace (p + 2) count, Some (2 + count + length (lpEncodeBacklen (count + 2)))) }
     else if b = LP_ENCODING_32BIT_STR then do {
       bs \<leftarrow> mem_read lp (p + 1) 4;
       let count = nat (le_decode bs);
       Some (InPlace (p + 5) count, Some (5 + count + length (lpEncodeBacklen (count + 5)))) }
     else do {
       r \<leftarrow> lpReturnInt intbuf (lpSignedValue (12345678900000000 + unat b) UINT64_MAX 0);
       Some (r, None) } }"

definition lpGet :: "byte list \<Rightarrow> nat \<Rightarrow> byte list option \<Rightarrow> lp_got option" where
  "lpGet lp p intbuf = map_option fst (lpGetWithSize lp p intbuf)"

text \<open>\<^verbatim>\<open>lpGetValue\<close>: a string (pointer and \<^verbatim>\<open>*slen\<close>) or an integer \<^verbatim>\<open>*lval\<close>.\<close>

definition lpGetValue :: "byte list \<Rightarrow> nat \<Rightarrow> lp_got option" where
  "lpGetValue lp p = lpGet lp p None"

text \<open>\<^verbatim>\<open>lpCompare\<close>: whether the entry at \<open>p\<close> equals the string.\<close>

definition lpCompare :: "byte list \<Rightarrow> nat \<Rightarrow> byte list \<Rightarrow> bool option" where
  "lpCompare lp p s = do {
     b \<leftarrow> mem_get lp p;
     if b = LP_EOF then Some False
     else do {
       got \<leftarrow> lpGet lp p None;
       case got of
         InPlace value sz \<Rightarrow>
           if length s = sz then map_option (\<lambda>bs. bs = s) (mem_read lp value sz) else Some False
       | InBuf _ _ \<Rightarrow> None
       | IntVal sz \<Rightarrow>
           Some (case lpStringToInt64 s of Some sval \<Rightarrow> sz = sval | None \<Rightarrow> False) } }"

section \<open>Classes of encoding bytes\<close>

lemma lp_is_7bit [simp]: "LP_ENCODING_IS_7BIT_UINT b \<longleftrightarrow> unat b < 128"
proof -
  have "b AND 0x80 = 0 \<longleftrightarrow> unat (b AND NOT (mask 7)) = 0"
    by (simp only: high_masks unat_eq_0)
  then show ?thesis
    by (simp only: LP_ENCODING_IS_7BIT_UINT_def unat_and_not_mask) auto
qed

lemma lp_is_6bit [simp]: "LP_ENCODING_IS_6BIT_STR b \<longleftrightarrow> 128 \<le> unat b \<and> unat b < 192"
proof -
  have "b AND 0xC0 = 0x80 \<longleftrightarrow> unat (b AND NOT (mask 6)) = 128"
    by (simp only: high_masks(2) word_unat_eq_iff) (simp add: mask_eq_exp_minus_1)
  then show ?thesis
    by (simp only: LP_ENCODING_IS_6BIT_STR_def unat_and_not_mask) auto
qed

lemma lp_is_13bit [simp]: "LP_ENCODING_IS_13BIT_INT b \<longleftrightarrow> 192 \<le> unat b \<and> unat b < 224"
proof -
  have "b AND 0xE0 = 0xC0 \<longleftrightarrow> unat (b AND NOT (mask 5)) = 192"
    by (simp only: high_masks(3) word_unat_eq_iff) (simp add: mask_eq_exp_minus_1)
  then show ?thesis
    by (simp only: LP_ENCODING_IS_13BIT_INT_def unat_and_not_mask) auto
qed

lemma lp_is_12bit [simp]: "LP_ENCODING_IS_12BIT_STR b \<longleftrightarrow> 224 \<le> unat b \<and> unat b < 240"
proof -
  have "b AND 0xF0 = 0xE0 \<longleftrightarrow> unat (b AND NOT (mask 4)) = 224"
    by (simp only: high_masks(4) word_unat_eq_iff) (simp add: mask_eq_exp_minus_1)
  then show ?thesis
    by (simp only: LP_ENCODING_IS_12BIT_STR_def unat_and_not_mask) auto
qed

lemma lp_6bit_len [simp]: "LP_ENCODING_6BIT_STR_LEN b = unat b mod 64"
  by (simp add: LP_ENCODING_6BIT_STR_LEN_def low_masks unat_and_mask)

lemma lp_12bit_len [simp]: "LP_ENCODING_12BIT_STR_LEN b0 b1 = 256 * (unat b0 mod 16) + unat b1"
  by (simp add: LP_ENCODING_12BIT_STR_LEN_def low_masks unat_and_mask push_or_add [where k = 8, simplified] unat_byte_less)

lemma byte_7F [simp]: "unat ((b :: byte) AND 0x7F) = unat b mod 128"
  by (simp add: low_masks unat_and_mask)

lemma byte_1F [simp]: "unat ((b :: byte) AND 0x1F) = unat b mod 32"
  by (simp add: low_masks unat_and_mask)

lemma byte_80 [simp]: "(b :: byte) AND 0x80 = 0 \<longleftrightarrow> unat b < 128"
  using lp_is_7bit [of b] by (simp only: LP_ENCODING_IS_7BIT_UINT_def)

lemma lpStringToInt64_digits_eq: "lpStringToInt64_digits = string2ll_digits"
proof (intro ext)
  fix v p
  show "lpStringToInt64_digits v p = string2ll_digits v p"
    by (induction p arbitrary: v)
      (simp_all only: lpStringToInt64_digits.simps string2ll_digits.simps ULLONG_MAX_def)
qed

lemma lpStringToInt64_eq: "lpStringToInt64 s = string2ll s"
  by (simp only: lpStringToInt64_def string2ll_def lpStringToInt64_digits_eq)

lemma lpStringToInt64_iff: "lpStringToInt64 s = Some v \<longleftrightarrow> is_int64 v \<and> s = dec_string v"
  by (simp only: lpStringToInt64_eq string2ll_iff)

section \<open>Backward lengths\<close>

text \<open>
  One byte of the decoding, for bytes written by the encoder: a continuation byte \<open>d + 128\<close>
  contributes its seven bits and moves to the left, a byte below 128 ends the number.
\<close>

lemma lpDecodeBacklen_last:
  assumes "mem_get lp p = Some (word_of_nat d)" "d < 128" "val < 2 ^ shift"
  shows "lpDecodeBacklen_loop lp p val shift = Some (val + 2 ^ shift * d)"
  using assms by (subst lpDecodeBacklen_loop.simps)
    (simp add: unat_of_nat take_bit_nat_eq_self or_push_add Let_def)

lemma lpDecodeBacklen_more:
  assumes "mem_get lp p = Some (word_of_nat ((d AND 127) OR 128))" "val < 2 ^ shift" "shift \<le> 21"
    "0 < p"
  shows "lpDecodeBacklen_loop lp p val shift =
    lpDecodeBacklen_loop lp (p - 1) (val + 2 ^ shift * (d mod 128)) (shift + 7)"
proof -
  have "(d AND 127) OR 128 = d mod 128 + 128"
    using or_push_add [of "d mod 128" 7 1] nat_and_mask [of d 7]
    by (simp add: mask_eq_exp_minus_1)
  moreover have "unat (word_of_nat (d mod 128 + 128) :: byte) = d mod 128 + 128"
    by (simp add: unat_of_nat take_bit_nat_eq_self del: of_nat_add)
  ultimately show ?thesis
    using assms by (subst lpDecodeBacklen_loop.simps) (simp add: or_push_add Let_def)
qed

lemma base128_split:
  fixes l :: nat
  shows "l mod 128 + 128 * (l div 128) = l" "l mod 16384 + 16384 * (l div 16384) = l"
    "l mod 2097152 + 2097152 * (l div 2097152) = l" "l mod 268435456 + 268435456 * (l div 268435456) = l"
  by simp_all

lemma base128_join:
  fixes l :: nat
  shows "l mod 128 + 128 * (l div 128 mod 128) = l mod 16384"
    "l mod 16384 + 16384 * (l div 16384 mod 128) = l mod 2097152"
    "l mod 2097152 + 2097152 * (l div 2097152 mod 128) = l mod 268435456"
  using mod_mult2_eq [of l 128 128] mod_mult2_eq [of l 16384 128] mod_mult2_eq [of l 2097152 128]
  by simp_all

lemmas base128_digits = base128_split base128_join

lemma lpDecodeBacklen_encode_aux:
  assumes "l < 2 ^ 35"
  shows "lpDecodeBacklen (a @ lpEncodeBacklen l @ b) (length a + (length (lpEncodeBacklen l) - 1)) = Some l"
proof -
  let ?c = "\<lambda>k. word_of_nat ((drop_bit k l AND 127) OR 128) :: byte"
  consider "l \<le> 127" | "127 < l" "l < 16383" | "16383 \<le> l" "l < 2097151"
    | "2097151 \<le> l" "l < 268435455" | "268435455 \<le> l"
    by linarith
  then show ?thesis
  proof cases
    case 1
    then show ?thesis
      by (simp add: lpEncodeBacklen_def lpDecodeBacklen_def mem_get_def nth_append
          lpDecodeBacklen_last [where d = l])
  next
    case 2
    then have "lpEncodeBacklen l = [word_of_nat (l div 128), ?c 0]"
      by (simp add: lpEncodeBacklen_def drop_bit_eq_div)
    with 2 show ?thesis
      by (simp add: lpDecodeBacklen_def mem_get_def nth_append base128_digits
          lpDecodeBacklen_more [where d = "drop_bit 0 l"] lpDecodeBacklen_last [where d = "l div 128"])
  next
    case 3
    then have "lpEncodeBacklen l = [word_of_nat (l div 16384), ?c 7, ?c 0]"
      by (simp add: lpEncodeBacklen_def drop_bit_eq_div)
    with 3 show ?thesis
      by (simp add: lpDecodeBacklen_def mem_get_def nth_append base128_digits
          lpDecodeBacklen_more [where d = "drop_bit 0 l"] lpDecodeBacklen_more [where d = "drop_bit 7 l"]
          drop_bit_eq_div lpDecodeBacklen_last [where d = "l div 16384"])
  next
    case 4
    then have "lpEncodeBacklen l = [word_of_nat (l div 2097152), ?c 14, ?c 7, ?c 0]"
      by (simp add: lpEncodeBacklen_def drop_bit_eq_div)
    with 4 show ?thesis
      by (simp add: lpDecodeBacklen_def mem_get_def nth_append base128_digits
          lpDecodeBacklen_more [where d = "drop_bit 0 l"] lpDecodeBacklen_more [where d = "drop_bit 7 l"]
          lpDecodeBacklen_more [where d = "drop_bit 14 l"]
          drop_bit_eq_div lpDecodeBacklen_last [where d = "l div 2097152"])
  next
    case 5
    then have "lpEncodeBacklen l = [word_of_nat (l div 268435456), ?c 21, ?c 14, ?c 7, ?c 0]"
      by (simp add: lpEncodeBacklen_def drop_bit_eq_div)
    with 5 assms show ?thesis
      by (simp add: lpDecodeBacklen_def mem_get_def nth_append base128_digits
          lpDecodeBacklen_more [where d = "drop_bit 0 l"] lpDecodeBacklen_more [where d = "drop_bit 7 l"]
          lpDecodeBacklen_more [where d = "drop_bit 14 l"] lpDecodeBacklen_more [where d = "drop_bit 21 l"]
          drop_bit_eq_div lpDecodeBacklen_last [where d = "l div 268435456"])
  qed
qed

section \<open>Well-formed entries\<close>

text \<open>The encoded part of an entry: an encoding byte that is not the end marker, and exactly the
  bytes it announces.\<close>

definition entry_ok :: "byte list \<Rightarrow> bool" where
  "entry_ok e \<longleftrightarrow> e \<noteq> [] \<and> hd e \<noteq> LP_EOF \<and> lpCurrentEncodedSizeUnsafe e 0 = Some (length e)"

text \<open>The entry with its backward length.\<close>

definition entry_bytes :: "byte list \<Rightarrow> byte list" where
  "entry_bytes e = e @ lpEncodeBacklen (length e)"

fun shift_got :: "nat \<Rightarrow> lp_got \<Rightarrow> lp_got" where
  "shift_got n (InPlace p c) = InPlace (n + p) c"
| "shift_got n r = r"

text \<open>The string an entry stands for.\<close>

definition entry_string :: "byte list \<Rightarrow> byte list" where
  "entry_string e =
     (case lpGet e 0 None of
        Some (InPlace p n) \<Rightarrow> take n (drop p e)
      | Some (IntVal v) \<Rightarrow> dec_string v
      | _ \<Rightarrow> [])"

lemma lpCurrentEncodedSizeUnsafe_frame:
  assumes "lpCurrentEncodedSizeUnsafe e 0 = Some n"
  shows "lpCurrentEncodedSizeUnsafe (a @ e @ b) (length a) = Some n"
proof -
  from assms obtain c where c: "mem_get e 0 = Some c"
    by (auto simp: lpCurrentEncodedSizeUnsafe_def bind_eq_Some_conv)
  note c' = mem_get_frame0 [OF c, of a b]
  have "mem_get (a @ e @ b) (length a + 1) = mem_get e 1" if "mem_get e 1 \<noteq> None"
    using that mem_get_frame [of e 1] by auto
  moreover have "mem_read (a @ e @ b) (length a + 1) 4 = mem_read e 1 4" if "mem_read e 1 4 \<noteq> None"
    using that mem_read_frame [of e 1 4] by auto
  ultimately show ?thesis
    using assms unfolding lpCurrentEncodedSizeUnsafe_def c c'
    by (auto split: if_splits simp: bind_eq_Some_conv)
qed

lemma lpCurrentEncodedSizeBytes_frame:
  assumes "e \<noteq> []"
  shows "lpCurrentEncodedSizeBytes (a @ e @ b) (length a) = lpCurrentEncodedSizeBytes e 0"
  using assms by (simp add: lpCurrentEncodedSizeBytes_def mem_get_def nth_append)

lemma lpGetWithSize_frame:
  assumes "lpGetWithSize e 0 ib = Some (r, sz)"
  shows "lpGetWithSize (a @ e @ b) (length a) ib = Some (shift_got (length a) r, sz)"
proof -
  from assms obtain c where c: "mem_get e 0 = Some c"
    by (auto simp: lpGetWithSize_def bind_eq_Some_conv)
  note c' = mem_get_frame0 [OF c, of a b]
  have get: "mem_get (a @ e @ b) (Suc (length a)) = mem_get e (Suc 0)" if "mem_get e (Suc 0) \<noteq> None"
    using that mem_get_frame [of e "Suc 0"] by auto
  have read: "mem_read (a @ e @ b) (Suc (length a)) n = mem_read e (Suc 0) n" if "mem_read e (Suc 0) n \<noteq> None" for n
    using that mem_read_frame [of e "Suc 0" n] by auto
  have ret: "shift_got k r' = r'" if "lpReturnInt ib v = Some r'" for k v r'
    using that by (auto simp: lpReturnInt_def bind_eq_Some_conv split: option.splits)
  show ?thesis
    using assms get read unfolding lpGetWithSize_def c c'
    by (auto split: if_splits simp: bind_eq_Some_conv ret Let_def)
qed

lemma length_lpEncodeBacklen_small [simp]: "l \<le> 127 \<Longrightarrow> length (lpEncodeBacklen l) = 1"
  by (simp add: lpEncodeBacklen_def)

lemma length_lpEncodeBacklen_bounds: "1 \<le> length (lpEncodeBacklen l) \<and> length (lpEncodeBacklen l) \<le> 5"
  by (simp add: lpEncodeBacklen_def)

lemma is_int64_of_nat: "n < 2 ^ 63 \<Longrightarrow> is_int64 (int n)"
  by (simp add: is_int64_def)

lemma lpSignedValue_range:
  assumes "m \<le> 2 ^ 63" "u < 2 * m"
  shows "is_int64 (lpSignedValue u m (2 * m - 1))"
proof (cases "m \<le> u")
  case True
  then show ?thesis
    using assms unfolding lpSignedValue_def is_int64_def by auto
next
  case False
  then show ?thesis
    using assms(1) unfolding lpSignedValue_def is_int64_def by auto
qed

lemma lpSignedValue_int64:
  "k \<le> 63 \<Longrightarrow> u < 2 * 2 ^ k \<Longrightarrow> is_int64 (lpSignedValue u (2 ^ k) (2 * 2 ^ k - 1))"
  by (rule lpSignedValue_range) (simp_all only: power_increasing one_le_numeral)

lemma le_decode_less: "length bs = n \<Longrightarrow> nat (le_decode bs) < 256 ^ n"
  using le_decode_bounds [of bs] by (auto simp: nat_less_iff)

lemma mem_read_1_full: "length e = Suc n \<Longrightarrow> mem_read e (Suc 0) n = Some (tl e)"
  by (simp add: mem_read_def drop_Suc)

lemma no_wrap_5: "n < 2 ^ 32 \<Longrightarrow> 5 \<le> m \<Longrightarrow> (5 + n) mod 2 ^ 32 = m \<Longrightarrow> 5 + n = (m :: nat)"
  by (cases "5 + n < 2 ^ 32") (auto simp: le_mod_geq)

lemma lpGetWithSize_entry:
  assumes "entry_ok e"
  shows "(\<exists>v. is_int64 v \<and> lpGetWithSize e 0 None = Some (IntVal v, Some (length (entry_bytes e)))) \<or>
    (\<exists>p. 0 < p \<and> p \<le> length e
       \<and> lpGetWithSize e 0 None = Some (InPlace p (length e - p), Some (length (entry_bytes e))))"
    (is "?int \<or> ?str")
proof -
  from assms obtain c es where e: "e = c # es" and eof: "c \<noteq> LP_EOF"
    and size: "lpCurrentEncodedSizeUnsafe e 0 = Some (length e)"
    by (cases e) (auto simp: entry_ok_def)
  have get: "mem_get e 0 = Some c"
    by (simp add: e mem_get_def)
  note size = size [unfolded lpCurrentEncodedSizeUnsafe_def get]
  have len: "unat c < 256"
    by (rule unat_byte_less)
  consider (u7) "unat c < 128" | (s6) "128 \<le> unat c" "unat c < 192" | (i13) "192 \<le> unat c" "unat c < 224"
    | (s12) "224 \<le> unat c" "unat c < 240" | (s32) "c = 0xF0" | (i16) "c = 0xF1" | (i24) "c = 0xF2" | (i32) "c = 0xF3"
    | (i64) "c = 0xF4" | (bad) "240 \<le> unat c" "c \<noteq> 0xF0" "c \<noteq> 0xF1" "c \<noteq> 0xF2" "c \<noteq> 0xF3" "c \<noteq> 0xF4"
    by linarith
  then show ?thesis
  proof cases
    case u7
    with size have "length e = 1" by simp
    moreover have "is_int64 (int (unat c))"
      by (rule is_int64_of_nat) (use len in simp)
    ultimately have ?int
      using u7 by (simp add: lpGetWithSize_def get lpReturnInt_def lpSignedValue_def entry_bytes_def)
    then show ?thesis ..
  next
    case s6
    with size have "length e = 1 + unat c mod 64" by simp
    with s6 have ?str
      by (intro exI [of _ 1]) (simp add: lpGetWithSize_def get entry_bytes_def Let_def)
    then show ?thesis ..
  next
    case i13
    with size have l: "length e = 2" by simp
    then obtain d where d: "es = [d]"
      by (auto simp: e length_Suc_conv numeral_eq_Suc)
    have "mem_get e 1 = Some d"
      by (simp add: e d mem_get_def)
    moreover have "push_bit 8 (unat c mod 32) OR unat d < 2 * 2 ^ 12"
      using push_or_add [of "unat d" 8 "unat c mod 32"] unat_byte_less [of d] by simp
    from lpSignedValue_int64 [OF _ this] have "is_int64 (lpSignedValue (push_bit 8 (unat c mod 32) OR unat d) 4096 8191)"
      by simp
    ultimately have ?int
      using i13 l by (simp add: lpGetWithSize_def get lpReturnInt_def entry_bytes_def)
    then show ?thesis ..
  next
    case s12
    then have ne: "c \<noteq> 0xF1" "c \<noteq> 0xF2" "c \<noteq> 0xF3" "c \<noteq> 0xF4"
      by auto
    from s12 size obtain d where d: "mem_get e 1 = Some d" "length e = 2 + (256 * (unat c mod 16) + unat d)"
      by (auto simp: ne bind_eq_Some_conv)
    with s12 have ?str
      by (intro exI [of _ 2]) (simp add: ne lpGetWithSize_def get entry_bytes_def Let_def)
    then show ?thesis ..
  next
    case s32
    with size obtain bs where bs: "mem_read e 1 4 = Some bs" "(5 + nat (le_decode bs)) mod 2 ^ 32 = length e"
      by (auto simp: bind_eq_Some_conv)
    have "nat (le_decode bs) < 2 ^ 32"
      using le_decode_less [of bs 4] mem_read_length [OF bs(1)] by simp
    moreover have "5 \<le> length e"
      using bs(1) by (auto simp: mem_read_def split: if_splits)
    ultimately have "5 + nat (le_decode bs) = length e"
      using bs(2) by (intro no_wrap_5)
    then have l: "length e = nat (le_decode bs) + 5"
      by simp
    from s32 bs(1) have ?str
      by (intro exI [of _ 5]) (simp add: lpGetWithSize_def get entry_bytes_def Let_def l)
    then show ?thesis ..
  next
    case i16
    with size have l: "length e = 3" by simp
    then have "mem_read e 1 2 = Some (tl e)" "nat (le_decode (tl e)) < 2 * 2 ^ 15"
      using mem_read_1_full [of e 2] le_decode_less [of "tl e" 2] by simp_all
    with i16 l lpSignedValue_int64 [OF _ this(2)] have ?int
      by (simp add: lpGetWithSize_def get lpReturnInt_def entry_bytes_def)
    then show ?thesis ..
  next
    case i24
    with size have l: "length e = 4" by simp
    then have "mem_read e 1 3 = Some (tl e)" "nat (le_decode (tl e)) < 2 * 2 ^ 23"
      using mem_read_1_full [of e 3] le_decode_less [of "tl e" 3] by simp_all
    with i24 l lpSignedValue_int64 [OF _ this(2)] have ?int
      by (simp add: lpGetWithSize_def get lpReturnInt_def entry_bytes_def)
    then show ?thesis ..
  next
    case i32
    with size have l: "length e = 5" by simp
    then have "mem_read e 1 4 = Some (tl e)" "nat (le_decode (tl e)) < 2 * 2 ^ 31"
      using mem_read_1_full [of e 4] le_decode_less [of "tl e" 4] by simp_all
    with i32 l lpSignedValue_int64 [OF _ this(2)] have ?int
      by (simp add: lpGetWithSize_def get lpReturnInt_def entry_bytes_def)
    then show ?thesis ..
  next
    case i64
    with size have l: "length e = 9" by simp
    then have "mem_read e 1 8 = Some (tl e)" "nat (le_decode (tl e)) < 2 * 2 ^ 63"
      using mem_read_1_full [of e 8] le_decode_less [of "tl e" 8] by simp_all
    with i64 l lpSignedValue_int64 [OF _ this(2)] have ?int
      by (simp add: lpGetWithSize_def get lpReturnInt_def entry_bytes_def)
    then show ?thesis ..
  next
    case bad
    with size eof show ?thesis
      by (simp add: e)
  qed
qed

section \<open>Round trips of the encoders\<close>

lemma unat_or_high:
  assumes "n < 2 ^ k" "n + 2 ^ k * m < 256"
  shows "unat (word_of_nat n OR word_of_nat (2 ^ k * m) :: byte) = n + 2 ^ k * m"
proof -
  have "unat (word_of_nat n :: byte) = n" "unat (word_of_nat (2 ^ k * m) :: byte) = 2 ^ k * m"
    using assms(2) by (simp_all add: unat_of_nat take_bit_nat_eq_self del: of_nat_mult of_nat_power)
  then show ?thesis
    using or_push_add [OF assms(1), of m]
    by (simp add: unsigned_or_eq push_bit_eq_mult mult.commute del: of_nat_mult of_nat_power)
qed

lemma unat_or_80 [simp]: "n < 64 \<Longrightarrow> unat (word_of_nat n OR 0x80 :: byte) = n + 128"
  using unat_or_high [of n 6 2] by simp

lemma unat_or_E0 [simp]: "n < 16 \<Longrightarrow> unat (word_of_nat n OR 0xE0 :: byte) = n + 224"
  using unat_or_high [of n 5 7] by simp

lemma unat_or_C0 [simp]: "n < 32 \<Longrightarrow> unat (word_of_nat n OR 0xC0 :: byte) = n + 192"
  using unat_or_high [of n 5 6] by simp

lemma unat_byte_neq: "unat (b :: byte) < 240 \<Longrightarrow> b \<noteq> 0xF0 \<and> b \<noteq> 0xF1 \<and> b \<noteq> 0xF2 \<and> b \<noteq> 0xF3 \<and> b \<noteq> 0xF4 \<and> b \<noteq> 0xFF"
  by auto

lemma nat_and_FF: "(n :: nat) AND 255 = n mod 256"
  using nat_and_mask [of n 8] by (simp add: mask_eq_exp_minus_1)

lemma lpEncodeString_size:
  "length (lpEncodeString s) = (if length s < 64 then 1 else if length s < 4096 then 2 else 5) + length s"
  by (simp add: lpEncodeString_def Let_def)

lemma lpEncodeString_get:
  assumes "length s + 5 < 2 ^ 32"
  shows "entry_ok (lpEncodeString s) \<and> (\<exists>k. lpGet (lpEncodeString s) 0 None = Some (InPlace k (length s)) \<and> drop k (lpEncodeString s) = s)"
proof -
  consider (s6) "length s < 64" | (s12) "64 \<le> length s" "length s < 4096" | (s32) "4096 \<le> length s"
    by linarith
  then show ?thesis
  proof cases
    case s6
    define c :: byte where "c = word_of_nat (length s) OR 0x80"
    have c: "unat c = length s + 128"
      using s6 by (simp add: c_def)
    have e: "lpEncodeString s = c # s"
      using s6 by (simp add: lpEncodeString_def c_def Let_def)
    moreover have "(length s + 128) mod 64 = length s"
      using s6 mod_mult_self1 [of "length s" 2 64] by simp
    ultimately show ?thesis
      using unat_byte_neq [of c] c s6 unfolding e
      by (simp add: entry_ok_def lpCurrentEncodedSizeUnsafe_def lpGet_def lpGetWithSize_def mem_get_def Let_def)
  next
    case s12
    define c :: byte where "c = word_of_nat (length s div 256) OR 0xE0"
    have c: "unat c = length s div 256 + 224" "length s div 256 < 16"
      using s12 by (simp_all add: c_def less_mult_imp_div_less)
    have e: "lpEncodeString s = c # word_of_nat (length s mod 256) # s"
      using s12 by (simp add: lpEncodeString_def c_def drop_bit_eq_div nat_and_FF Let_def)
    moreover have "unat c mod 16 = length s div 256"
      using c mod_mult_self1 [of "length s div 256" 14 16] by simp
    moreover have "256 * (length s div 256) + length s mod 256 = length s"
      by simp
    moreover have "unat (word_of_nat (length s mod 256) :: byte) = length s mod 256"
      by (simp add: unat_of_nat take_bit_nat_eq_self)
    ultimately show ?thesis
      using unat_byte_neq [of c] c unfolding e
      by (simp add: entry_ok_def lpCurrentEncodedSizeUnsafe_def lpGet_def lpGetWithSize_def mem_get_def Let_def)
  next
    case s32
    then have e: "lpEncodeString s = LP_ENCODING_32BIT_STR # le_encode 4 (int (length s)) @ s"
      by (simp add: lpEncodeString_def Let_def)
    have "mem_read (lpEncodeString s) 1 4 = Some (le_encode 4 (int (length s)))"
      unfolding e by (simp add: mem_read_def)
    moreover have "nat (le_decode (le_encode 4 (int (length s)))) = length s"
      using assms by (simp add: le_decode_encode take_bit_int_eq_self)
    moreover have "mem_get (lpEncodeString s) 0 = Some LP_ENCODING_32BIT_STR"
      by (simp add: e mem_get_def)
    ultimately show ?thesis
      using assms s32
      by (simp add: entry_ok_def lpCurrentEncodedSizeUnsafe_def lpGet_def lpGetWithSize_def e Let_def)
  qed
qed

lemma lpSignedValue_twos:
  assumes "- int m \<le> v" "v < int m"
  shows "lpSignedValue (nat (if v < 0 then 2 * int m + v else v)) m (2 * m - 1) = v"
  using assms unfolding lpSignedValue_def by (cases "v < 0") (auto simp: of_nat_diff)

lemma le_decode_twos:
  assumes "- (2 ^ (8 * n - 1)) \<le> v" "v < 2 ^ (8 * n - 1)" "0 < n"
  shows "lpSignedValue (nat (le_decode (le_encode n (if v < 0 then 2 ^ (8 * n) + v else v))))
    (2 ^ (8 * n - 1)) (2 ^ (8 * n) - 1) = v"
proof -
  define m :: nat where "m = 2 ^ (8 * n - 1)"
  have m: "int m = 2 ^ (8 * n - 1)" "2 ^ (8 * n) = 2 * m" "2 ^ (8 * n) = 2 * int m"
    using assms(3) by (simp_all add: m_def flip: power_Suc)
  have "0 \<le> (if v < 0 then 2 ^ (8 * n) + v else v)" "(if v < 0 then 2 ^ (8 * n) + v else v) < 2 ^ (8 * n)"
    using assms(1,2) m by auto
  then have "le_decode (le_encode n (if v < 0 then 2 ^ (8 * n) + v else v)) = (if v < 0 then 2 ^ (8 * n) + v else v)"
    by (simp add: le_decode_encode take_bit_int_eq_self)
  moreover have "lpSignedValue (nat (if v < 0 then 2 ^ (8 * n) + v else v)) m (2 ^ (8 * n) - 1) = v"
    using lpSignedValue_twos [of m v] assms(1,2) by (simp only: m)
  ultimately show ?thesis
    by (simp only: m_def)
qed

lemma twos_get:
  assumes "- (2 ^ (8 * n - 1)) \<le> v" "v < 2 ^ (8 * n - 1)"
    and "(b, n) \<in> {(LP_ENCODING_16BIT_INT, 2), (LP_ENCODING_24BIT_INT, 3), (LP_ENCODING_32BIT_INT, 4), (LP_ENCODING_64BIT_INT, 8)}"
  defines "e \<equiv> b # le_encode n (if v < 0 then 2 ^ (8 * n) + v else v)"
  shows "entry_ok e \<and> lpGet e 0 None = Some (IntVal v)"
proof -
  let ?v = "if v < 0 then 2 ^ (8 * n) + v else v"
  have "mem_get e 0 = Some b" "mem_read e 1 n = Some (le_encode n ?v)"
    by (simp_all add: e_def mem_get_def mem_read_def)
  moreover have "lpSignedValue (nat (le_decode (le_encode n ?v))) (2 ^ (8 * n - 1)) (2 ^ (8 * n) - 1) = v"
    using assms(3) by (intro le_decode_twos [OF assms(1,2)]) auto
  ultimately show ?thesis
    using assms(3)
    by (auto simp: entry_ok_def e_def lpCurrentEncodedSizeUnsafe_def lpGet_def lpGetWithSize_def lpReturnInt_def)
qed

lemma int_and_FF: "(k :: int) AND 255 = k mod 256"
  using take_bit_eq_mask [of 8 k] by (simp add: mask_eq_exp_minus_1 take_bit_eq_mod)

lemma int13_get:
  assumes "- 4096 \<le> v" "v \<le> 4095"
  defines "u \<equiv> if v < 0 then 2 ^ 13 + v else v"
  defines "e \<equiv> [word_of_int (drop_bit 8 u) OR 0xC0, word_of_int (u AND 0xFF)]"
  shows "entry_ok e \<and> lpGet e 0 None = Some (IntVal v)"
proof -
  obtain n where n: "u = int n" "n < 8192"
    using assms(1,2) by (cases u) (auto simp: u_def split: if_splits)
  define c :: byte where "c = word_of_nat (n div 256) OR 0xC0"
  have c: "unat c = n div 256 + 192" "n div 256 < 32"
    using n(2) by (simp_all add: c_def less_mult_imp_div_less)
  have "drop_bit 8 u = int (n div 256)" "u AND 0xFF = int (n mod 256)"
    by (simp_all add: n(1) drop_bit_eq_div zdiv_int zmod_int int_and_FF)
  then have e: "e = [c, word_of_nat (n mod 256)]"
    by (simp add: e_def c_def)
  have "unat (word_of_nat (n mod 256) :: byte) = n mod 256"
    by (simp add: unat_of_nat take_bit_nat_eq_self)
  moreover have "unat c mod 32 = n div 256"
    using c mod_mult_self1 [of "n div 256" 6 32] by simp
  ultimately have "push_bit 8 (unat c mod 32) OR unat (word_of_nat (n mod 256) :: byte) = n"
    using push_or_add [of "n mod 256" 8 "n div 256"] by simp
  moreover have "lpSignedValue n 4096 8191 = v"
    using lpSignedValue_twos [of 4096 v] assms(1,2) n(1) by (cases "v < 0") (auto simp: u_def)
  ultimately show ?thesis
    using unat_byte_neq [of c] c unfolding e
    by (simp add: entry_ok_def lpCurrentEncodedSizeUnsafe_def lpGet_def lpGetWithSize_def mem_get_def
        lpReturnInt_def)
qed

lemma lpEncodeIntegerGetType_get:
  assumes "is_int64 v"
  shows "entry_ok (lpEncodeIntegerGetType v) \<and> lpGet (lpEncodeIntegerGetType v) 0 None = Some (IntVal v)"
proof -
  consider (u7) "0 \<le> v" "v \<le> 127" | (i13) "\<not> (0 \<le> v \<and> v \<le> 127)" "- 4096 \<le> v" "v \<le> 4095"
    | (i16) "\<not> (- 4096 \<le> v \<and> v \<le> 4095)" "- 32768 \<le> v" "v \<le> 32767"
    | (i24) "\<not> (- 32768 \<le> v \<and> v \<le> 32767)" "- 8388608 \<le> v" "v \<le> 8388607"
    | (i32) "\<not> (- 8388608 \<le> v \<and> v \<le> 8388607)" "- 2147483648 \<le> v" "v \<le> 2147483647"
    | (i64) "\<not> (- 2147483648 \<le> v \<and> v \<le> 2147483647)"
    by linarith
  then show ?thesis
  proof cases
    case u7
    then have "nat v < 128" "unat (word_of_int v :: byte) = nat v" "lpEncodeIntegerGetType v = [word_of_int v]"
      by (simp_all add: lpEncodeIntegerGetType_def unat_eq_nat_uint uint_word_of_int take_bit_int_eq_self)
    moreover have "word_of_int v \<noteq> LP_EOF"
      using calculation(1,2) by (intro notI) simp
    ultimately show ?thesis
      using u7 by (simp add: entry_ok_def lpCurrentEncodedSizeUnsafe_def lpGet_def lpGetWithSize_def mem_get_def
        lpReturnInt_def lpSignedValue_def)
  next
    case i13
    then show ?thesis
      using int13_get [of v] by (auto simp: lpEncodeIntegerGetType_def Let_def)
  next
    case i16
    then show ?thesis
      using twos_get [of 2 v LP_ENCODING_16BIT_INT] by (auto simp: lpEncodeIntegerGetType_def Let_def)
  next
    case i24
    then show ?thesis
      using twos_get [of 3 v LP_ENCODING_24BIT_INT] by (auto simp: lpEncodeIntegerGetType_def Let_def)
  next
    case i32
    then show ?thesis
      using twos_get [of 4 v LP_ENCODING_32BIT_INT] by (auto simp: lpEncodeIntegerGetType_def Let_def)
  next
    case i64
    have "take_bit 64 v = (if v < 0 then 2 ^ 64 + v else v)"
    proof (cases "v < 0")
      case True
      then have "(v + 2 ^ 64) mod 2 ^ 64 = v + 2 ^ 64"
        using assms by (intro mod_pos_pos_trivial) (auto simp: is_int64_def)
      then show ?thesis
        using True by (simp add: take_bit_eq_mod)
    qed (use assms in \<open>simp add: take_bit_int_eq_self is_int64_def\<close>)
    moreover from i64 have "lpEncodeIntegerGetType v = LP_ENCODING_64BIT_INT # le_encode 8 (take_bit 64 v)"
      by (auto simp: lpEncodeIntegerGetType_def)
    ultimately show ?thesis
      using twos_get [of 8 v LP_ENCODING_64BIT_INT] assms by (cases "v < 0") (simp_all add: is_int64_def)
  qed
qed

text \<open>What \<^verbatim>\<open>lpInsert\<close> stores for an element given as a string.\<close>

definition encode_element :: "byte list \<Rightarrow> byte list" where
  "encode_element s =
     (case lpStringToInt64 s of Some v \<Rightarrow> lpEncodeIntegerGetType v | None \<Rightarrow> lpEncodeString s)"

lemma lpEncodeGetType_enclen: "snd (lpEncodeGetType s) = length (encode_element s)"
  by (simp add: lpEncodeGetType_def encode_element_def lpEncodeString_size Let_def split: option.split)

lemma lpEncodeGetType_int: "fst (lpEncodeGetType s) = map_option lpEncodeIntegerGetType (lpStringToInt64 s)"
  by (simp add: lpEncodeGetType_def Let_def split: option.split)

lemma entry_ok_encode_element: "length s + 5 < 2 ^ 32 \<Longrightarrow> entry_ok (encode_element s)"
  using lpEncodeString_get [of s] lpEncodeIntegerGetType_get
  by (auto simp: encode_element_def lpStringToInt64_iff split: option.split)

lemma entry_string_encode_element:
  assumes "length s + 5 < 2 ^ 32"
  shows "entry_string (encode_element s) = s"
proof (cases "lpStringToInt64 s")
  case None
  with lpEncodeString_get [OF assms] show ?thesis
    by (auto simp: encode_element_def entry_string_def)
next
  case (Some v)
  then have "is_int64 v \<and> s = dec_string v"
    by (simp add: lpStringToInt64_iff)
  with Some lpEncodeIntegerGetType_get [of v] show ?thesis
    by (simp add: encode_element_def entry_string_def)
qed

lemma entry_string_integer: "is_int64 v \<Longrightarrow> entry_string (lpEncodeIntegerGetType v) = dec_string v"
  using lpEncodeIntegerGetType_get [of v] by (simp add: entry_string_def)

lemma lpGet_entry:
  assumes "entry_ok e"
  obtains (int) v where "is_int64 v" "lpGetWithSize e 0 None = Some (IntVal v, Some (length (entry_bytes e)))"
      "entry_string e = dec_string v"
    | (str) p where "0 < p" "p \<le> length e"
      "lpGetWithSize e 0 None = Some (InPlace p (length e - p), Some (length (entry_bytes e)))"
      "entry_string e = drop p e"
  using lpGetWithSize_entry [OF assms] by (auto simp: entry_string_def lpGet_def)

text \<open>Reading an entry at a pointer into a buffer.\<close>

lemma lpCompare_entry:
  assumes "entry_ok e"
  shows "lpCompare (a @ e @ b) (length a) s = Some (entry_string e = s)"
proof -
  have hd: "mem_get (a @ e @ b) (length a) = Some (hd e)" "hd e \<noteq> LP_EOF"
    using assms by (auto simp: entry_ok_def mem_get_def nth_append hd_conv_nth)
  from assms show ?thesis
  proof (cases rule: lpGet_entry)
    case (int v)
    have "entry_string e = s \<longleftrightarrow> lpStringToInt64 s = Some v"
      using int(1,3) by (auto simp: lpStringToInt64_iff)
    then show ?thesis
      using lpGetWithSize_frame [OF int(2), of a b] hd
      by (auto simp: lpCompare_def lpGet_def split: option.split)
  next
    case (str p)
    have "mem_read (a @ e @ b) (length a + p) (length e - p) = Some (drop p e)"
      using mem_read_frame [of e p "length e - p" "drop p e" a b] str(2) by (simp add: mem_read_def)
    moreover have "length s \<noteq> length e - p \<Longrightarrow> drop p e \<noteq> s"
      by auto
    ultimately show ?thesis
      using lpGetWithSize_frame [OF str(3), of a b] hd str(4)
      by (auto simp: lpCompare_def lpGet_def)
  qed
qed

lemma lpReturnInt_None [simp]: "lpReturnInt None v = Some (IntVal v)"
  by (simp add: lpReturnInt_def)

lemma lpReturnInt_no_string [simp]: "lpReturnInt ib v \<noteq> Some (InPlace q n)"
  by (auto simp: lpReturnInt_def bind_eq_Some_conv split: option.splits)

lemma lpGetWithSize_intbuf:
  "lpGetWithSize lp p None = Some (IntVal v, sz) \<Longrightarrow>
     lpGetWithSize lp p (Some buf) = do { r \<leftarrow> lpReturnInt (Some buf) v; Some (r, sz) }"
  "lpGetWithSize lp p None = Some (InPlace q n, sz) \<Longrightarrow>
     lpGetWithSize lp p (Some buf) = Some (InPlace q n, sz)"
  unfolding lpGetWithSize_def
  by (auto simp: bind_eq_Some_conv Let_def split: if_splits)

section \<open>Properties\<close>

text \<open>a backward length below \<open>2 ^ 35\<close>, wherever it is stored, is read back from its last byte;
  the decoder touches no byte before it.\<close>
theorem lpBacklen_roundtrip:
  assumes "l < 2 ^ 35"
  shows "lpDecodeBacklen (a @ lpEncodeBacklen l @ b) (length a + (length (lpEncodeBacklen l) - 1)) = Some l"
  using assms by (rule lpDecodeBacklen_encode_aux)

theorem lpBacklen_roundtrip_witness: "lpDecodeBacklen ([7] @ lpEncodeBacklen 300 @ [9]) (Suc (Suc 0)) = Some 300"
  using lpBacklen_roundtrip [of 300 "[7]" "[9]"] by (simp add: lpEncodeBacklen_def)

text \<open>The string a caller gets from \<^verbatim>\<open>lpGet\<close> with an \<^verbatim>\<open>intbuf\<close>.\<close>

fun got_string :: "byte list \<Rightarrow> lp_got \<Rightarrow> byte list" where
  "got_string lp (InPlace p n) = take n (drop p lp)"
| "got_string lp (InBuf n buf) = take n buf"
| "got_string lp (IntVal v) = dec_string v"

text \<open>C19: every element, whether it is stored as one of the integer encodings or as a string, is
  read back byte for byte by \<^verbatim>\<open>lpGet\<close> with a buffer of \<^verbatim>\<open>LP_INTBUF_SIZE\<close> bytes, at any place of
  a listpack.\<close>
theorem lpElement_roundtrip:
  assumes "length s + 5 < 2 ^ 32" "length buf = LP_INTBUF_SIZE"
  shows "\<exists>r. lpGet (a @ encode_element s @ b) (length a) (Some buf) = Some r
    \<and> got_string (a @ encode_element s @ b) r = s"
proof -
  let ?e = "encode_element s"
  from entry_ok_encode_element [OF assms(1)] show ?thesis
  proof (cases rule: lpGet_entry)
    case (int v)
    then have "length (dec_string v) < length buf"
      using length_dec_string [of v] assms(2) by (simp add: LONG_STR_SIZE_def)
    with int(1) assms(2) have "ll2string buf v = Some (length (dec_string v), dec_string v @ 0 # drop (Suc (length (dec_string v))) buf)"
      by (intro ll2string_fits) auto
    then show ?thesis
      using lpGetWithSize_intbuf(1) [OF lpGetWithSize_frame [OF int(2), of a b, simplified]] int(3)
        entry_string_encode_element [OF assms(1)]
      by (simp add: lpGet_def lpReturnInt_def)
  next
    case (str p)
    then have "take (length ?e - p) (drop (length a + p) (a @ ?e @ b)) = entry_string ?e"
      by simp
    then show ?thesis
      using lpGetWithSize_intbuf(2) [OF lpGetWithSize_frame [OF str(3), of a b, simplified]]
      by (simp add: lpGet_def entry_string_encode_element [OF assms(1)] del: drop_append take_append)
  qed
qed

theorem lpElement_roundtrip_witness:
  "\<exists>r. lpGet ([1, 2] @ encode_element [45, 53] @ []) (Suc (Suc 0)) (Some (replicate 21 0)) = Some r
    \<and> got_string ([1, 2] @ encode_element [45, 53] @ []) r = [45, 53]"
  using lpElement_roundtrip [of "[45, 53]" "replicate 21 0" "[1, 2]" "[]"] by simp

end
