(* ===== verification/Listpack.thy ===== *)
theory Listpack
  imports Listpack_Encoding
begin

text \<open>
  Listpacks, second part of \<^verbatim>\<open>src/redis-7.2.10/src/listpack.c\<close>: a header with the total size and
  the number of elements, the entries, an end marker, in one allocation. The operations work
  on the bytes of the allocation as the C code does. Pointers are offsets; an operation that
  returns \<^verbatim>\<open>NULL\<close> returns the inner \<open>None\<close>, and the outer \<open>None\<close> is an access out of the
  allocation or a failed \<^verbatim>\<open>assert\<close>.

  The allocator is a parameter: the usable size it reports for a request (at least the
  request, see \<open>alloc_ok\<close>) and the indeterminate contents of fresh memory.
\<close>

record allocator =
  alloc_usable :: "nat \<Rightarrow> nat"
  alloc_fill :: "nat \<Rightarrow> byte"

definition alloc_ok :: "allocator \<Rightarrow> bool" where
  "alloc_ok al \<longleftrightarrow> (\<forall>n. n \<le> alloc_usable al n)"

definition lp_malloc :: "allocator \<Rightarrow> nat \<Rightarrow> byte list" where
  "lp_malloc al n = map (alloc_fill al) [0..<alloc_usable al n]"

definition lp_realloc :: "allocator \<Rightarrow> byte list \<Rightarrow> nat \<Rightarrow> byte list" where
  "lp_realloc al buf n = mem_realloc (alloc_fill al) (alloc_usable al n) buf"

datatype lp_where = LP_BEFORE | LP_AFTER | LP_REPLACE

definition check :: "bool \<Rightarrow> unit option" where
  "check b = (if b then Some () else None)"

section \<open>Creation, header\<close>

definition lpNew :: "allocator \<Rightarrow> nat \<Rightarrow> byte list option" where
  "lpNew al capacity = (let lp = lp_malloc al (if capacity > LP_HDR_SIZE + 1 then capacity else LP_HDR_SIZE + 1)
     in do {
       lp \<leftarrow> lpSetTotalBytes lp (LP_HDR_SIZE + 1);
       lp \<leftarrow> lpSetNumElements lp 0;
       mem_put lp LP_HDR_SIZE LP_EOF })"

definition lpBytes :: "byte list \<Rightarrow> nat option" where
  "lpBytes lp = lpGetTotalBytes lp"

definition lpShrinkToFit :: "allocator \<Rightarrow> byte list \<Rightarrow> byte list option" where
  "lpShrinkToFit al lp = do {
     size \<leftarrow> lpGetTotalBytes lp;
     Some (if size < length lp then lp_realloc al lp size else lp) }"

definition lpDup :: "allocator \<Rightarrow> byte list \<Rightarrow> byte list option" where
  "lpDup al lp = do {
     lpbytes \<leftarrow> lpBytes lp;
     bs \<leftarrow> mem_read lp 0 lpbytes;
     mem_write (lp_malloc al lpbytes) 0 bs }"

definition lpEstimateBytesRepeatedInteger :: "int \<Rightarrow> nat \<Rightarrow> nat" where
  "lpEstimateBytesRepeatedInteger lval rep =
     (let enclen = length (lpEncodeIntegerGetType lval); backlen = length (lpEncodeBacklen enclen)
      in LP_HDR_SIZE + (enclen + backlen) * rep + 1)"

section \<open>Validation of entries\<close>

text \<open>
  \<^verbatim>\<open>lpValidateNext\<close>: the result is the returned flag and the updated \<^verbatim>\<open>*pp\<close>. The comparison
  with \<^verbatim>\<open>lp + lpbytes - 1\<close> is written without the subtraction.
\<close>

definition lp_out_of_range :: "nat \<Rightarrow> nat \<Rightarrow> bool" where
  "lp_out_of_range lpbytes p \<longleftrightarrow> p < LP_HDR_SIZE \<or> p + 1 > lpbytes"

definition lpValidateNext :: "byte list \<Rightarrow> nat option \<Rightarrow> nat \<Rightarrow> (bool \<times> nat option) option" where
  "lpValidateNext lp pp lpbytes =
     (case pp of
        None \<Rightarrow> Some (False, pp)
      | Some p \<Rightarrow>
          if lp_out_of_range lpbytes p then Some (False, pp)
          else do {
            b \<leftarrow> mem_get lp p;
            if b = LP_EOF then Some (True, None)
            else do {
              lenbytes \<leftarrow> lpCurrentEncodedSizeBytes lp p;
              if lenbytes = 0 then Some (False, pp)
              else if lp_out_of_range lpbytes (p + lenbytes) then Some (False, pp)
              else do {
                len \<leftarrow> lpCurrentEncodedSizeUnsafe lp p;
                let encodedBacklen = length (lpEncodeBacklen len);
                let entrylen = len + encodedBacklen;
                if lp_out_of_range lpbytes (p + entrylen) then Some (False, pp)
                else do {
                  prevlen \<leftarrow> lpDecodeBacklen lp (p + entrylen - 1);
                  if (prevlen + encodedBacklen) mod 2 ^ 64 \<noteq> entrylen then Some (False, pp)
                  else Some (True, Some (p + entrylen)) } } } })"

definition lpAssertValidEntry :: "byte list \<Rightarrow> nat \<Rightarrow> nat \<Rightarrow> unit option" where
  "lpAssertValidEntry lp lpbytes p = do {
     (ok, _) \<leftarrow> lpValidateNext lp (Some p) lpbytes;
     check ok }"

definition lpValidateFirst :: "byte list \<Rightarrow> nat option option" where
  "lpValidateFirst lp = do {
     b \<leftarrow> mem_get lp LP_HDR_SIZE;
     Some (if b = LP_EOF then None else Some LP_HDR_SIZE) }"

section \<open>Traversal\<close>

definition lpNext :: "byte list \<Rightarrow> nat \<Rightarrow> nat option option" where
  "lpNext lp p = do {
     p \<leftarrow> lpSkip lp p;
     b \<leftarrow> mem_get lp p;
     if b = LP_EOF then Some None
     else do {
       bytes \<leftarrow> lpBytes lp;
       lpAssertValidEntry lp bytes p;
       Some (Some p) } }"

text \<open>
  The pointer may leave the allocation to the left, where the assertion of the source fails:
  the subtraction is one of integers, \<^verbatim>\<open>prevlen\<close> a 64 bit unsigned integer.
\<close>

definition lpPrev :: "byte list \<Rightarrow> nat \<Rightarrow> nat option option" where
  "lpPrev lp p =
     (if p = LP_HDR_SIZE then Some None
      else if p = 0 then None
      else do {
        prevlen \<leftarrow> lpDecodeBacklen lp (p - 1);
        let prevlen = (prevlen + length (lpEncodeBacklen prevlen)) mod 2 ^ 64;
        let q = int (p - 1) - (int prevlen - 1);
        check (0 \<le> q);
        bytes \<leftarrow> lpBytes lp;
        lpAssertValidEntry lp bytes (nat q);
        Some (Some (nat q)) })"

definition lpFirst :: "byte list \<Rightarrow> nat option option" where
  "lpFirst lp = do {
     b \<leftarrow> mem_get lp LP_HDR_SIZE;
     if b = LP_EOF then Some None
     else do {
       bytes \<leftarrow> lpBytes lp;
       lpAssertValidEntry lp bytes LP_HDR_SIZE;
       Some (Some LP_HDR_SIZE) } }"

definition lpLast :: "byte list \<Rightarrow> nat option option" where
  "lpLast lp = do {
     bytes \<leftarrow> lpGetTotalBytes lp;
     check (0 < bytes);
     lpPrev lp (bytes - 1) }"

lemma lpNext_increases:
  assumes "lpNext lp p = Some (Some q)"
  shows "p < q \<and> q < length lp"
proof -
  from assms obtain e where "lpCurrentEncodedSizeUnsafe lp p = Some e"
    "q = p + (e + length (lpEncodeBacklen e))" "mem_get lp q \<noteq> None"
    by (auto simp: lpNext_def lpSkip_def bind_eq_Some_conv split: if_splits)
  with length_lpEncodeBacklen_bounds [of e] show ?thesis
    by (auto simp: mem_get_def split: if_splits)
qed

text \<open>The scan of \<^verbatim>\<open>lpLength\<close>; \<^verbatim>\<open>count\<close> is a \<^verbatim>\<open>uint32_t\<close>.\<close>

function lpLength_scan :: "byte list \<Rightarrow> nat option \<Rightarrow> uint32 \<Rightarrow> uint32 option" where
  "lpLength_scan lp p count =
     (case p of
        None \<Rightarrow> Some count
      | Some q \<Rightarrow>
          (case lpNext lp q of
             None \<Rightarrow> None
           | Some p' \<Rightarrow> lpLength_scan lp p' (count + 1)))"
  by pat_completeness auto

termination
  by (relation "measure (\<lambda>(lp, p, count). case p of None \<Rightarrow> 0 | Some q \<Rightarrow> Suc (length lp - q))")
    (auto dest: lpNext_increases split: option.split)

declare lpLength_scan.simps [simp del]

text \<open>The second component is the listpack after the header may have been updated.\<close>

definition lpLength :: "byte list \<Rightarrow> (nat \<times> byte list) option" where
  "lpLength lp = do {
     numele \<leftarrow> lpGetNumElements lp;
     if numele \<noteq> LP_HDR_NUMELE_UNKNOWN then Some (numele, lp)
     else do {
       p \<leftarrow> lpFirst lp;
       count \<leftarrow> lpLength_scan lp p 0;
       lp \<leftarrow> (if unat count < LP_HDR_NUMELE_UNKNOWN then lpSetNumElements lp (uint count) else Some lp);
       Some (unat count, lp) } }"

text \<open>The two loops of \<^verbatim>\<open>lpSeek\<close>, the count of steps still to do as argument.\<close>

fun lpSeek_forward :: "byte list \<Rightarrow> nat \<Rightarrow> nat option \<Rightarrow> nat option option" where
  "lpSeek_forward lp (Suc n) (Some ele) = do { ele \<leftarrow> lpNext lp ele; lpSeek_forward lp n ele }"
| "lpSeek_forward lp n ele = Some ele"

fun lpSeek_backward :: "byte list \<Rightarrow> nat \<Rightarrow> nat option \<Rightarrow> nat option option" where
  "lpSeek_backward lp (Suc n) (Some ele) = do { ele \<leftarrow> lpPrev lp ele; lpSeek_backward lp n ele }"
| "lpSeek_backward lp n ele = Some ele"

definition lpSeek :: "byte list \<Rightarrow> int \<Rightarrow> nat option option" where
  "lpSeek lp index = do {
     numele \<leftarrow> lpGetNumElements lp;
     if numele \<noteq> LP_HDR_NUMELE_UNKNOWN then
       (let index = (if index < 0 then int numele + index else index)
        in if index < 0 then Some None
           else if index \<ge> int numele then Some None
           else if index > int numele div 2 then do {
             ele \<leftarrow> lpLast lp; lpSeek_backward lp (nat (- 1 - (index - int numele))) ele }
           else do { ele \<leftarrow> lpFirst lp; lpSeek_forward lp (nat index) ele })
     else if index < 0 then do { ele \<leftarrow> lpLast lp; lpSeek_backward lp (nat (- 1 - index)) ele }
     else do { ele \<leftarrow> lpFirst lp; lpSeek_forward lp (nat index) ele } }"

section \<open>Integrity of a whole listpack\<close>

lemma lpEncodeBacklen_nonempty [simp]: "lpEncodeBacklen l \<noteq> []"
  by (simp add: lpEncodeBacklen_def)

lemma lpValidateNext_step:
  "lpValidateNext lp (Some p) bytes = Some (True, Some q) \<Longrightarrow> p < q"
  by (auto simp: lpValidateNext_def bind_eq_Some_conv Let_def split: if_splits)

text \<open>
  The loop of \<^verbatim>\<open>lpValidateIntegrity\<close>: the pointer, the count, and the state \<^verbatim>\<open>cb_userdata\<close> of the
  callback, which gets the entry and the number of elements of the header. The result is
  \<open>None\<close> in the inner option for \<^verbatim>\<open>return 0\<close>, else the pointer and the count behind the loop.
\<close>

function lpValidateIntegrity_loop ::
  "byte list \<Rightarrow> nat \<Rightarrow> (nat \<Rightarrow> nat \<Rightarrow> 's \<Rightarrow> bool \<times> 's) option \<Rightarrow> nat
   \<Rightarrow> nat option \<Rightarrow> uint32 \<Rightarrow> 's \<Rightarrow> (nat option \<times> uint32) option option" where
  "lpValidateIntegrity_loop lp bytes cb numele p count st =
     (case p of
        None \<Rightarrow> Some (Some (None, count))
      | Some prev \<Rightarrow>
          (case mem_get lp prev of
             None \<Rightarrow> None
           | Some b \<Rightarrow>
               if b = LP_EOF then Some (Some (p, count))
               else (case lpValidateNext lp p bytes of
                       None \<Rightarrow> None
                     | Some (ok, p') \<Rightarrow>
                         if \<not> ok then Some None
                         else (let (good, st') = (case cb of None \<Rightarrow> (True, st) | Some f \<Rightarrow> f prev numele st)
                               in if \<not> good then Some None
                                  else lpValidateIntegrity_loop lp bytes cb numele p' (count + 1) st'))))"
  by pat_completeness auto

termination
  by (relation "measure (\<lambda>(lp, bytes, cb, numele, p, count, st). case p of None \<Rightarrow> 0 | Some q \<Rightarrow> Suc (length lp - q))")
    (auto dest: lpValidateNext_step simp: mem_get_def diff_less_mono2 split: option.split if_splits)

declare lpValidateIntegrity_loop.simps [simp del]

definition lpValidateIntegrity ::
  "byte list \<Rightarrow> nat \<Rightarrow> bool \<Rightarrow> (nat \<Rightarrow> nat \<Rightarrow> 's \<Rightarrow> bool \<times> 's) option \<Rightarrow> 's \<Rightarrow> bool option" where
  "lpValidateIntegrity lp sz deep cb st =
     (if sz < LP_HDR_SIZE + 1 then Some False
      else do {
        bytes \<leftarrow> lpGetTotalBytes lp;
        if bytes \<noteq> sz then Some False
        else do {
          b \<leftarrow> mem_get lp (sz - 1);
          if b \<noteq> LP_EOF then Some False
          else if \<not> deep then Some True
          else do {
            numele \<leftarrow> lpGetNumElements lp;
            r \<leftarrow> lpValidateIntegrity_loop lp bytes cb numele (Some LP_HDR_SIZE) 0 st;
            Some (case r of
                None \<Rightarrow> False
              | Some (p, count) \<Rightarrow>
                  if p \<noteq> Some (sz - 1) then False
                  else if numele \<noteq> LP_HDR_NUMELE_UNKNOWN \<and> numele \<noteq> unat count then False
                  else True) } } })"

section \<open>Search\<close>

text \<open>The assertion on the next pointer, in its fast and its slow form.\<close>

definition lpFind_check :: "byte list \<Rightarrow> nat \<Rightarrow> nat \<Rightarrow> unit option" where
  "lpFind_check lp lp_bytes p =
     (if p + 8 \<ge> lp_bytes then lpAssertValidEntry lp lp_bytes p
      else check (LP_HDR_SIZE \<le> p \<and> p < lp_bytes))"

text \<open>
  The loop of \<^verbatim>\<open>lpFind\<close>. \<open>venc\<close> is \<^verbatim>\<open>vencoding\<close> with \<^verbatim>\<open>vll\<close>: \<open>None\<close> when not tried yet (0),
  \<open>Some None\<close> when the searched string is no integer (\<^verbatim>\<open>UCHAR_MAX\<close>), \<open>Some (Some v)\<close> (1) else.
  \<^verbatim>\<open>entry_size\<close> keeps its last value when an unknown encoding does not set it, so that the loop
  is not bounded by a measure: it is a partial function, with \<open>None\<close> for not returning as well.
\<close>

partial_function (option) lpFind_loop ::
  "byte list \<Rightarrow> nat \<Rightarrow> byte list \<Rightarrow> nat \<Rightarrow> nat \<Rightarrow> nat \<Rightarrow> int option option \<Rightarrow> nat \<Rightarrow> nat option option" where
  "lpFind_loop lp lp_bytes s skip p skipcnt venc entry_size =
     do {
       (found, p', skipcnt', venc', entry_size') \<leftarrow>
         (if skipcnt = 0 then do {
            (got, sz) \<leftarrow> lpGetWithSize lp p None;
            let entry_size' = (case sz of Some n \<Rightarrow> n | None \<Rightarrow> entry_size);
            case got of
              InPlace value ll \<Rightarrow> do {
                check (LP_HDR_SIZE \<le> p \<and> p + entry_size' < lp_bytes);
                eq \<leftarrow> (if length s = ll then map_option (\<lambda>bs. bs = s) (mem_read lp value (length s)) else Some False);
                Some (eq, if eq then p else p + entry_size', skip, venc, entry_size') }
            | InBuf _ _ \<Rightarrow> None
            | IntVal ll \<Rightarrow>
                let venc' = (case venc of
                    Some v \<Rightarrow> Some v
                  | None \<Rightarrow> Some (if length s \<ge> 32 \<or> length s = 0 then None else lpStringToInt64 s));
                  eq = (venc' = Some (Some ll))
                in Some (eq, if eq then p else p + entry_size', skip, venc', entry_size') }
          else do {
            p' \<leftarrow> lpSkip lp p;
            Some (False, p', skipcnt - 1, venc, entry_size) });
       if found then Some (Some p')
       else do {
         lpFind_check lp lp_bytes p';
         b \<leftarrow> mem_get lp p';
         if b = LP_EOF then Some None
         else lpFind_loop lp lp_bytes s skip p' skipcnt' venc' entry_size' } }"

definition lpFind :: "byte list \<Rightarrow> nat \<Rightarrow> byte list \<Rightarrow> nat \<Rightarrow> nat option option" where
  "lpFind lp p s skip = do {
     lp_bytes \<leftarrow> lpBytes lp;
     lpFind_loop lp lp_bytes s skip p 0 None 123456789 }"

section \<open>Insertion, replacement, deletion\<close>

text \<open>
  The steps of \<^verbatim>\<open>lpInsert\<close>, in their order. The encoding: \<open>Some\<close> bytes for an encoded integer,
  \<open>None\<close> for a string or for no element, and \<^verbatim>\<open>enclen\<close>.
\<close>

definition lpInsert_encode :: "byte list option \<Rightarrow> byte list option \<Rightarrow> byte list option \<times> nat" where
  "lpInsert_encode elestr eleint =
     (case elestr of
        Some s \<Rightarrow> lpEncodeGetType s
      | None \<Rightarrow> (case eleint of Some i \<Rightarrow> (Some i, length i) | None \<Rightarrow> (None, 0)))"

text \<open>The length of the entry to replace, a \<^verbatim>\<open>uint32_t\<close>, with the assertion on it.\<close>

definition lpInsert_replaced :: "byte list \<Rightarrow> nat \<Rightarrow> nat \<Rightarrow> lp_where \<Rightarrow> nat option" where
  "lpInsert_replaced lp old_bytes p wh =
     (if wh = LP_REPLACE then do {
        r \<leftarrow> lpCurrentEncodedSizeUnsafe lp p;
        let r = (r + length (lpEncodeBacklen r)) mod 2 ^ 32;
        check (LP_HDR_SIZE \<le> p \<and> p + r < old_bytes);
        Some r }
      else Some 0)"

text \<open>Room for \<open>k\<close> bytes at \<open>p\<close>: reallocate before, move the tail, reallocate after.\<close>

definition lpInsert_move ::
  "allocator \<Rightarrow> byte list \<Rightarrow> lp_where \<Rightarrow> nat \<Rightarrow> nat \<Rightarrow> nat \<Rightarrow> nat \<Rightarrow> nat \<Rightarrow> byte list option" where
  "lpInsert_move al lp wh p k replaced_len old_bytes new_bytes = do {
     check (p \<le> old_bytes);
     let lp = (if new_bytes > old_bytes \<and> new_bytes > length lp then lp_realloc al lp new_bytes else lp);
     lp \<leftarrow> (if wh = LP_BEFORE
            then mem_move lp (p + k) p (old_bytes - p)
            else mem_move lp (p + k) (p + replaced_len) (old_bytes - p - replaced_len));
     Some (if new_bytes < old_bytes then lp_realloc al lp new_bytes else lp) }"

definition lpInsert_store ::
  "byte list \<Rightarrow> nat \<Rightarrow> byte list option \<Rightarrow> byte list option \<Rightarrow> nat \<Rightarrow> byte list \<Rightarrow> byte list option" where
  "lpInsert_store lp p elestr intenc enclen backlen = do {
     lp \<leftarrow> (case intenc of
              Some i \<Rightarrow> mem_write lp p i
            | None \<Rightarrow> (case elestr of Some s \<Rightarrow> mem_write lp p (lpEncodeString s) | None \<Rightarrow> None));
     mem_write lp (p + enclen) backlen }"

definition lpInsert_header :: "byte list \<Rightarrow> lp_where \<Rightarrow> bool \<Rightarrow> nat \<Rightarrow> byte list option" where
  "lpInsert_header lp wh delete new_bytes = do {
     lp \<leftarrow> (if wh \<noteq> LP_REPLACE \<or> delete then do {
              num_elements \<leftarrow> lpGetNumElements lp;
              if num_elements \<noteq> LP_HDR_NUMELE_UNKNOWN then
                (if \<not> delete then lpSetNumElements lp (int num_elements + 1)
                 else lpSetNumElements lp (int num_elements - 1))
              else Some lp }
            else Some lp);
     lpSetTotalBytes lp new_bytes }"

text \<open>
  \<^verbatim>\<open>lpInsert\<close>: the string is \<^verbatim>\<open>elestr\<close> with \<^verbatim>\<open>size\<close> its length, the encoded integer is
  \<^verbatim>\<open>eleint\<close>. The inner \<open>None\<close> is the \<^verbatim>\<open>NULL\<close> returned when the new size does not fit the header;
  else the result is the listpack and \<^verbatim>\<open>*newp\<close>.
\<close>

definition lpInsert ::
  "allocator \<Rightarrow> byte list \<Rightarrow> byte list option \<Rightarrow> byte list option \<Rightarrow> nat \<Rightarrow> lp_where
   \<Rightarrow> (byte list \<times> nat option) option option" where
  "lpInsert al lp elestr eleint p0 where0 =
     (let delete = (elestr = None \<and> eleint = None);
          where1 = (if delete then LP_REPLACE else where0)
      in do {
        old_bytes \<leftarrow> lpGetTotalBytes lp;
        (p, wh) \<leftarrow> (if where1 = LP_AFTER then do {
                     p \<leftarrow> lpSkip lp p0;
                     check (LP_HDR_SIZE \<le> p \<and> p < old_bytes);
                     Some (p, LP_BEFORE) }
                   else Some (p0, where1));
        let (intenc, enclen) = lpInsert_encode elestr eleint;
        let backlen = (if delete then [] else lpEncodeBacklen enclen);
        replaced_len \<leftarrow> lpInsert_replaced lp old_bytes p wh;
        let new_bytes = old_bytes + enclen + length backlen - replaced_len;
        if new_bytes > UINT32_MAX then Some None
        else do {
          lp \<leftarrow> lpInsert_move al lp wh p (enclen + length backlen) replaced_len old_bytes new_bytes;
          newp \<leftarrow> (if delete then do { b \<leftarrow> mem_get lp p; Some (if b = LP_EOF then None else Some p) }
                   else Some (Some p));
          lp \<leftarrow> (if delete then Some lp else lpInsert_store lp p elestr intenc enclen backlen);
          lp \<leftarrow> lpInsert_header lp wh delete new_bytes;
          Some (Some (lp, newp)) } })"

definition lpInsertString ::
  "allocator \<Rightarrow> byte list \<Rightarrow> byte list \<Rightarrow> nat \<Rightarrow> lp_where \<Rightarrow> (byte list \<times> nat option) option option" where
  "lpInsertString al lp s p wh = lpInsert al lp (Some s) None p wh"

definition lpInsertInteger ::
  "allocator \<Rightarrow> byte list \<Rightarrow> int \<Rightarrow> nat \<Rightarrow> lp_where \<Rightarrow> (byte list \<times> nat option) option option" where
  "lpInsertInteger al lp lval p wh = lpInsert al lp None (Some (lpEncodeIntegerGetType lval)) p wh"

text \<open>Callers that pass \<^verbatim>\<open>NULL\<close> for \<^verbatim>\<open>newp\<close> drop it.\<close>

abbreviation drop_newp :: "(byte list \<times> nat option) option option \<Rightarrow> byte list option option" where
  "drop_newp \<equiv> map_option (map_option fst)"

definition lpAppend :: "allocator \<Rightarrow> byte list \<Rightarrow> byte list \<Rightarrow> byte list option option" where
  "lpAppend al lp ele = do {
     listpack_bytes \<leftarrow> lpGetTotalBytes lp;
     check (0 < listpack_bytes);
     drop_newp (lpInsert al lp (Some ele) None (listpack_bytes - 1) LP_BEFORE) }"

definition lpAppendInteger :: "allocator \<Rightarrow> byte list \<Rightarrow> int \<Rightarrow> byte list option option" where
  "lpAppendInteger al lp lval = do {
     listpack_bytes \<leftarrow> lpGetTotalBytes lp;
     check (0 < listpack_bytes);
     drop_newp (lpInsertInteger al lp lval (listpack_bytes - 1) LP_BEFORE) }"

definition lpPrepend :: "allocator \<Rightarrow> byte list \<Rightarrow> byte list \<Rightarrow> byte list option option" where
  "lpPrepend al lp s = do {
     p \<leftarrow> lpFirst lp;
     case p of
       None \<Rightarrow> lpAppend al lp s
     | Some p \<Rightarrow> drop_newp (lpInsert al lp (Some s) None p LP_BEFORE) }"

definition lpPrependInteger :: "allocator \<Rightarrow> byte list \<Rightarrow> int \<Rightarrow> byte list option option" where
  "lpPrependInteger al lp lval = do {
     p \<leftarrow> lpFirst lp;
     case p of
       None \<Rightarrow> lpAppendInteger al lp lval
     | Some p \<Rightarrow> drop_newp (lpInsertInteger al lp lval p LP_BEFORE) }"

definition lpReplace ::
  "allocator \<Rightarrow> byte list \<Rightarrow> nat \<Rightarrow> byte list \<Rightarrow> (byte list \<times> nat option) option option" where
  "lpReplace al lp p s = lpInsert al lp (Some s) None p LP_REPLACE"

definition lpReplaceInteger ::
  "allocator \<Rightarrow> byte list \<Rightarrow> nat \<Rightarrow> int \<Rightarrow> (byte list \<times> nat option) option option" where
  "lpReplaceInteger al lp p lval = lpInsertInteger al lp lval p LP_REPLACE"

definition lpDelete :: "allocator \<Rightarrow> byte list \<Rightarrow> nat \<Rightarrow> (byte list \<times> nat option) option option" where
  "lpDelete al lp p = lpInsert al lp None None p LP_REPLACE"

section \<open>Representation\<close>

definition lp_body :: "byte list list \<Rightarrow> byte list" where
  "lp_body es = concat (map entry_bytes es)"

text \<open>The bytes of a listpack with entries \<open>es\<close> whose header says \<open>n\<close> elements.\<close>

definition lp_image :: "nat \<Rightarrow> byte list list \<Rightarrow> byte list" where
  "lp_image n es =
     le_encode 4 (int (7 + length (lp_body es))) @ le_encode 2 (int n) @ lp_body es @ [LP_EOF]"

definition numele_ok :: "nat \<Rightarrow> byte list list \<Rightarrow> bool" where
  "numele_ok n es \<longleftrightarrow> n = LP_HDR_NUMELE_UNKNOWN \<or> n = length es \<and> n < LP_HDR_NUMELE_UNKNOWN"

definition entries_ok :: "byte list list \<Rightarrow> bool" where
  "entries_ok es \<longleftrightarrow> (\<forall>e\<in>set es. entry_ok e) \<and> 7 + length (lp_body es) < 2 ^ 32"

definition lp_repr :: "byte list \<Rightarrow> byte list list \<Rightarrow> bool" where
  "lp_repr lp es \<longleftrightarrow> entries_ok es \<and> (\<exists>n slack. numele_ok n es \<and> lp = lp_image n es @ slack)"

text \<open>The offset of the entry with index \<open>i\<close>, or of the end marker.\<close>

definition lp_pos :: "byte list list \<Rightarrow> nat \<Rightarrow> nat" where
  "lp_pos es i = LP_HDR_SIZE + length (lp_body (take i es))"

lemma lp_body_simps [simp]:
  "lp_body [] = []" "lp_body (e # es) = entry_bytes e @ lp_body es"
  "lp_body (es @ fs) = lp_body es @ lp_body fs"
  by (simp_all add: lp_body_def)

lemma length_entry_bytes: "length (entry_bytes e) = length e + length (lpEncodeBacklen (length e))"
  by (simp add: entry_bytes_def)

lemma lp_pos_0 [simp]: "lp_pos es 0 = LP_HDR_SIZE"
  by (simp add: lp_pos_def)

lemma lp_pos_Suc: "i < length es \<Longrightarrow> lp_pos es (Suc i) = lp_pos es i + length (entry_bytes (es ! i))"
  by (simp add: lp_pos_def take_Suc_conv_app_nth)

lemma lp_pos_end: "lp_pos es (length es) = LP_HDR_SIZE + length (lp_body es)"
  by (simp add: lp_pos_def)

lemma lp_pos_ge: "LP_HDR_SIZE \<le> lp_pos es i"
  by (simp add: lp_pos_def)

lemma lp_pos_le: "lp_pos es i \<le> LP_HDR_SIZE + length (lp_body es)"
proof -
  have "lp_body es = lp_body (take i es) @ lp_body (drop i es)"
    by (metis append_take_drop_id lp_body_simps(3))
  then show ?thesis
    by (simp add: lp_pos_def)
qed

lemma lp_pos_strict: "i < j \<Longrightarrow> j \<le> length es \<Longrightarrow> lp_pos es i < lp_pos es j"
proof (induction j)
  case (Suc j)
  then have "lp_pos es j < lp_pos es (Suc j)"
    by (simp add: lp_pos_Suc length_entry_bytes)
  with Suc show ?case
    by (cases "i = j") auto
qed simp

lemma lp_repr_numele_lt: "numele_ok n es \<Longrightarrow> n < 65536"
  by (auto simp: numele_ok_def)

lemma lp_header:
  assumes "7 + length (lp_body es) < 2 ^ 32" "n < 65536"
  shows "lpGetTotalBytes (lp_image n es @ slack) = Some (7 + length (lp_body es))"
    "lpGetNumElements (lp_image n es @ slack) = Some n"
proof -
  have "mem_read (lp_image n es @ slack) 0 4 = Some (le_encode 4 (int (7 + length (lp_body es))))"
    by (simp add: lp_image_def mem_read_def)
  with assms(1) show "lpGetTotalBytes (lp_image n es @ slack) = Some (7 + length (lp_body es))"
    by (simp add: lpGetTotalBytes_def le_decode_encode take_bit_int_eq_self)
  have "mem_read (lp_image n es @ slack) 4 2 = Some (le_encode 2 (int n))"
    by (simp add: lp_image_def mem_read_def)
  with assms(2) show "lpGetNumElements (lp_image n es @ slack) = Some n"
    by (simp add: lpGetNumElements_def le_decode_encode take_bit_int_eq_self)
qed

lemma lp_image_split:
  assumes "i < length es"
  obtains a where "length a = lp_pos es i"
    "\<And>slack. lp_image n es @ slack = a @ entry_bytes (es ! i) @ lp_body (drop (Suc i) es) @ LP_EOF # slack"
proof -
  have "lp_body es = lp_body (take i es) @ entry_bytes (es ! i) @ lp_body (drop (Suc i) es)"
    using id_take_nth_drop [OF assms] by (metis lp_body_simps(2,3))
  then show thesis
    by (intro that [of "le_encode 4 (int (7 + length (lp_body es))) @ le_encode 2 (int n) @ lp_body (take i es)"])
      (simp_all add: lp_image_def lp_pos_def)
qed

lemma lp_image_end:
  obtains a where "length a = lp_pos es (length es)" "\<And>slack. lp_image n es @ slack = a @ LP_EOF # slack"
  by (intro that [of "le_encode 4 (int (7 + length (lp_body es))) @ le_encode 2 (int n) @ lp_body es"])
    (simp_all add: lp_image_def lp_pos_def)

section \<open>Single entries in a buffer\<close>

lemma entry_ok_nonempty: "entry_ok e \<Longrightarrow> e \<noteq> []"
  by (simp add: entry_ok_def)

lemma entry_size_bytes:
  assumes "entry_ok e"
  shows "\<exists>k. lpCurrentEncodedSizeBytes e 0 = Some k \<and> 0 < k \<and> k \<le> length e"
proof -
  from assms obtain c es where e: "e = c # es" and c: "c \<noteq> LP_EOF"
    and size: "lpCurrentEncodedSizeUnsafe e 0 = Some (length e)"
    by (cases e) (auto simp: entry_ok_def)
  have get: "mem_get e 0 = Some c"
    by (simp add: e mem_get_def)
  have "1 \<le> length e"
    by (simp add: e)
  with size c show ?thesis
    unfolding lpCurrentEncodedSizeUnsafe_def lpCurrentEncodedSizeBytes_def get
    by (auto simp: bind_eq_Some_conv mem_read_def mem_get_def simp del: lp_is_7bit lp_is_6bit
        lp_is_13bit lp_is_12bit split: if_splits)
qed

lemma lp_entry_size:
  "entry_ok e \<Longrightarrow> lpCurrentEncodedSizeUnsafe (a @ entry_bytes e @ b) (length a) = Some (length e)"
  using lpCurrentEncodedSizeUnsafe_frame [of e _ a "lpEncodeBacklen (length e) @ b"]
  by (simp add: entry_ok_def entry_bytes_def)

lemma lp_entry_size_bytes:
  assumes "entry_ok e"
  obtains k where "lpCurrentEncodedSizeBytes (a @ entry_bytes e @ b) (length a) = Some k" "0 < k" "k \<le> length e"
  using entry_size_bytes [OF assms]
    lpCurrentEncodedSizeBytes_frame [OF entry_ok_nonempty [OF assms], of a "lpEncodeBacklen (length e) @ b"]
  by (auto simp: entry_bytes_def)

lemma lp_entry_hd:
  "entry_ok e \<Longrightarrow> mem_get (a @ entry_bytes e @ b) (length a) = Some (hd e) \<and> hd e \<noteq> LP_EOF"
  by (auto simp: entry_ok_def entry_bytes_def mem_get_def nth_append hd_conv_nth)

lemma lp_entry_backlen:
  assumes "length e < 2 ^ 35"
  shows "lpDecodeBacklen (a @ entry_bytes e @ b) (length a + length (entry_bytes e) - 1) = Some (length e)"
proof -
  have "length a + length (entry_bytes e) - 1 = length (a @ e) + (length (lpEncodeBacklen (length e)) - 1)"
    using length_lpEncodeBacklen_bounds [of "length e"] by (simp add: length_entry_bytes)
  then show ?thesis
    using lpDecodeBacklen_encode_aux [OF assms, of "a @ e" b] by (simp add: entry_bytes_def)
qed

lemma lpSkip_entry:
  "entry_ok e \<Longrightarrow> lpSkip (a @ entry_bytes e @ b) (length a) = Some (length a + length (entry_bytes e))"
  by (simp add: lpSkip_def lp_entry_size length_entry_bytes)

lemma lpValidateNext_entry:
  assumes "entry_ok e" "LP_HDR_SIZE \<le> length a" "length a + length (entry_bytes e) < tot" "tot < 2 ^ 32"
  shows "lpValidateNext (a @ entry_bytes e @ b) (Some (length a)) tot =
    Some (True, Some (length a + length (entry_bytes e)))"
proof -
  obtain k where k: "lpCurrentEncodedSizeBytes (a @ entry_bytes e @ b) (length a) = Some k" "0 < k" "k \<le> length e"
    by (rule lp_entry_size_bytes [OF assms(1)])
  have "length e + length (lpEncodeBacklen (length e)) < 2 ^ 64" "length e < 2 ^ 35"
    using assms(3,4) by (simp_all add: length_entry_bytes)
  moreover have "\<not> lp_out_of_range tot (length a)" "\<not> lp_out_of_range tot (length a + k)"
    "\<not> lp_out_of_range tot (length a + (length e + length (lpEncodeBacklen (length e))))"
    using assms(2,3) k(3) by (auto simp: lp_out_of_range_def length_entry_bytes)
  ultimately show ?thesis
    using k(1,2) lp_entry_hd [OF assms(1), of a b] lp_entry_size [OF assms(1), of a b]
      lp_entry_backlen [of e a b]
    by (simp add: lpValidateNext_def length_entry_bytes Let_def add.assoc)
qed

lemma lpValidateNext_eof:
  "LP_HDR_SIZE \<le> length a \<Longrightarrow> length a < tot \<Longrightarrow>
    lpValidateNext (a @ LP_EOF # b) (Some (length a)) tot = Some (True, None)"
  by (simp add: lpValidateNext_def lp_out_of_range_def mem_get_def)

section \<open>Traversal of a represented listpack\<close>

lemma lp_repr_ok: "lp_repr lp es \<Longrightarrow> i < length es \<Longrightarrow> entry_ok (es ! i)"
  by (simp add: lp_repr_def entries_ok_def)

lemma lp_repr_size: "lp_repr lp es \<Longrightarrow> 7 + length (lp_body es) < 2 ^ 32"
  by (simp add: lp_repr_def entries_ok_def)

lemma lp_repr_bytes: "lp_repr lp es \<Longrightarrow> lpGetTotalBytes lp = Some (7 + length (lp_body es))"
  by (auto simp: lp_repr_def entries_ok_def lp_header dest: lp_repr_numele_lt)

lemma lp_repr_at:
  assumes "lp_repr lp es" "i < length es"
  obtains a b where "lp = a @ entry_bytes (es ! i) @ b" "length a = lp_pos es i"
  using assms lp_image_split [OF assms(2)] by (metis lp_repr_def)

lemma lp_repr_eof:
  assumes "lp_repr lp es"
  obtains a b where "lp = a @ LP_EOF # b" "length a = lp_pos es (length es)"
  using assms lp_image_end by (metis lp_repr_def)

lemma lp_pos_lt_total: "lp_pos es i < 7 + length (lp_body es)"
  using lp_pos_le [of es i] by simp

lemma lpSkip_repr: "lp_repr lp es \<Longrightarrow> i < length es \<Longrightarrow> lpSkip lp (lp_pos es i) = Some (lp_pos es (Suc i))"
  by (metis lp_repr_at lpSkip_entry lp_repr_ok lp_pos_Suc)

lemma lp_repr_hd:
  "lp_repr lp es \<Longrightarrow> i < length es \<Longrightarrow> mem_get lp (lp_pos es i) = Some (hd (es ! i)) \<and> hd (es ! i) \<noteq> LP_EOF"
  by (metis lp_repr_at lp_entry_hd lp_repr_ok)

lemma mem_get_append: "mem_get (a @ x # b) (length a) = Some x"
  by (simp add: mem_get_def)

lemma lp_repr_hd_eof: "lp_repr lp es \<Longrightarrow> mem_get lp (lp_pos es (length es)) = Some LP_EOF"
  by (metis lp_repr_eof mem_get_append)

lemma lpValidateNext_repr:
  assumes "lp_repr lp es" "i < length es"
  shows "lpValidateNext lp (Some (lp_pos es i)) (7 + length (lp_body es)) = Some (True, Some (lp_pos es (Suc i)))"
proof -
  obtain a b where a: "lp = a @ entry_bytes (es ! i) @ b" "length a = lp_pos es i"
    by (rule lp_repr_at [OF assms])
  have "length a + length (entry_bytes (es ! i)) = lp_pos es (Suc i)"
    using a(2) assms(2) by (simp add: lp_pos_Suc)
  then show ?thesis
    using lpValidateNext_entry [OF lp_repr_ok [OF assms], of a "7 + length (lp_body es)" b]
      lp_pos_lt_total [of es "Suc i"] lp_pos_ge [of es i] lp_repr_size [OF assms(1)] a
    by simp
qed

lemma lpValidateNext_repr_eof:
  assumes "lp_repr lp es"
  shows "lpValidateNext lp (Some (lp_pos es (length es))) (7 + length (lp_body es)) = Some (True, None)"
proof -
  obtain a b where a: "lp = a @ LP_EOF # b" "length a = lp_pos es (length es)"
    by (rule lp_repr_eof [OF assms])
  then show ?thesis
    using lpValidateNext_eof [of a "7 + length (lp_body es)" b] lp_pos_lt_total [of es "length es"] lp_pos_ge [of es]
    by simp
qed

lemma lpAssertValidEntry_repr:
  "lp_repr lp es \<Longrightarrow> i \<le> length es \<Longrightarrow> lpAssertValidEntry lp (7 + length (lp_body es)) (lp_pos es i) = Some ()"
  by (cases "i = length es")
    (simp_all add: lpAssertValidEntry_def lpValidateNext_repr_eof lpValidateNext_repr check_def)

text \<open>The pointer to the entry with index \<open>i\<close>, \<^verbatim>\<open>NULL\<close> behind the last one.\<close>

definition lp_ptr :: "byte list list \<Rightarrow> nat \<Rightarrow> nat option" where
  "lp_ptr es i = (if i < length es then Some (lp_pos es i) else None)"

lemma lpNext_repr:
  assumes "lp_repr lp es" "i < length es"
  shows "lpNext lp (lp_pos es i) = Some (lp_ptr es (Suc i))"
proof (cases "Suc i < length es")
  case True
  with assms show ?thesis
    using lp_repr_hd [OF assms(1) True]
    by (simp add: lpNext_def lpSkip_repr lpBytes_def lp_repr_bytes lpAssertValidEntry_repr lp_ptr_def)
next
  case False
  with assms(2) have "Suc i = length es"
    by simp
  with assms show ?thesis
    using lp_repr_hd_eof [OF assms(1)]
    by (simp add: lpNext_def lpSkip_repr lp_ptr_def)
qed

lemma lpFirst_repr:
  assumes "lp_repr lp es"
  shows "lpFirst lp = Some (lp_ptr es 0)"
proof (cases es)
  case Nil
  then show ?thesis
    using lp_repr_hd_eof [OF assms] by (simp add: lpFirst_def lp_ptr_def)
next
  case (Cons e es')
  then show ?thesis
    using lp_repr_hd [OF assms, of 0] lpAssertValidEntry_repr [OF assms, of 0] lp_repr_bytes [OF assms]
    by (simp add: lpFirst_def lp_ptr_def lpBytes_def)
qed

lemma lpPrev_repr:
  assumes "lp_repr lp es" "i \<le> length es"
  shows "lpPrev lp (lp_pos es i) = Some (if i = 0 then None else Some (lp_pos es (i - 1)))"
proof (cases i)
  case 0
  then show ?thesis
    by (simp add: lpPrev_def)
next
  case (Suc j)
  then have j: "j < length es"
    using assms(2) by simp
  obtain a b where a: "lp = a @ entry_bytes (es ! j) @ b" "length a = lp_pos es j"
    by (rule lp_repr_at [OF assms(1) j])
  let ?e = "es ! j"
  have pos: "lp_pos es i = lp_pos es j + length (entry_bytes ?e)"
    using Suc j by (simp add: lp_pos_Suc)
  have bound: "length ?e + length (lpEncodeBacklen (length ?e)) < 2 ^ 32"
    using lp_pos_lt_total [of es i] lp_repr_size [OF assms(1)] by (simp add: pos length_entry_bytes)
  then have dec: "lpDecodeBacklen lp (lp_pos es i - 1) = Some (length ?e)"
    using lp_entry_backlen [of ?e a b] a pos by simp
  have "lp_pos es i \<noteq> LP_HDR_SIZE" "lp_pos es i \<noteq> 0"
    using lp_pos_ge [of es j] lp_pos_strict [of j i es] Suc assms(2) by simp_all
  moreover have q: "int (lp_pos es (Suc j)) - (int (length ?e) + int (length (lpEncodeBacklen (length ?e)))) = int (lp_pos es j)"
    using pos Suc by (simp add: length_entry_bytes)
  moreover have "length ?e + length (lpEncodeBacklen (length ?e)) \<le> lp_pos es (Suc j)"
    using pos Suc by (simp add: length_entry_bytes)
  moreover have "(length ?e + length (lpEncodeBacklen (length ?e))) mod 2 ^ 64 = length ?e + length (lpEncodeBacklen (length ?e))"
    using bound by simp
  ultimately show ?thesis
    using dec lpAssertValidEntry_repr [OF assms(1), of j] j lp_repr_bytes [OF assms(1)] Suc
    by (simp add: lpPrev_def Let_def lpBytes_def check_def of_nat_diff q)
qed

lemma lpLast_repr:
  assumes "lp_repr lp es"
  shows "lpLast lp = Some (if es = [] then None else Some (lp_pos es (length es - 1)))"
  using lpPrev_repr [OF assms, of "length es"] lp_repr_bytes [OF assms]
  by (simp add: lpLast_def lp_pos_end check_def)

lemma lpSeek_forward_repr:
  assumes "lp_repr lp es"
  shows "lpSeek_forward lp k (lp_ptr es i) = Some (lp_ptr es (i + k))"
proof (induction k arbitrary: i)
  case 0
  then show ?case
    by (cases "lp_ptr es i") auto
next
  case (Suc k)
  show ?case
  proof (cases "i < length es")
    case True
    then have "lp_ptr es i = Some (lp_pos es i)"
      by (simp add: lp_ptr_def)
    then show ?thesis
      using lpNext_repr [OF assms True] Suc.IH [of "Suc i"] by simp
  qed (simp add: lp_ptr_def)
qed

lemma lpSeek_backward_repr:
  assumes "lp_repr lp es" "i < length es"
  shows "lpSeek_backward lp k (Some (lp_pos es i)) = Some (if k \<le> i then Some (lp_pos es (i - k)) else None)"
  using assms(2)
proof (induction k arbitrary: i)
  case 0
  then show ?case
    by simp
next
  case (Suc k)
  then show ?case
    using lpPrev_repr [OF assms(1), of i] Suc.IH [of "i - 1"] by (cases i) auto
qed

lemma length_lp_body: "2 * length es \<le> length (lp_body es)" if "\<forall>e\<in>set es. entry_ok e"
  using that
proof (induction es)
  case (Cons e es)
  then have "1 \<le> length e" "1 \<le> length (lpEncodeBacklen (length e))"
    using entry_ok_nonempty [of e] length_lpEncodeBacklen_bounds [of "length e"]
    by (auto simp: Suc_le_eq)
  with Cons show ?case
    by (simp add: length_entry_bytes)
qed simp

lemma lp_repr_count: "lp_repr lp es \<Longrightarrow> 2 * length es + 7 < 2 ^ 32"
  using length_lp_body [of es] by (simp add: lp_repr_def entries_ok_def)

lemma lpLength_scan_repr:
  assumes "lp_repr lp es"
  shows "lpLength_scan lp (lp_ptr es i) count = Some (count + of_nat (length es - i))"
proof (induction "length es - i" arbitrary: i count)
  case 0
  then show ?case
    by (simp add: lp_ptr_def lpLength_scan.simps)
next
  case (Suc k)
  then have "i < length es"
    by simp
  moreover from this have "length es - i = Suc (length es - Suc i)"
    by simp
  ultimately show ?case
    using Suc(1) [of "Suc i" "count + 1"] Suc(2) lpNext_repr [OF assms, of i]
    by (subst lpLength_scan.simps) (simp add: lp_ptr_def)
qed

lemma lpSetNumElements_image:
  "lpSetNumElements (lp_image n es @ slack) (int m) = Some (lp_image m es @ slack)"
  by (simp add: lpSetNumElements_def lp_image_def mem_write_def)

lemma length_lp_image [simp]: "length (lp_image n es) = 7 + length (lp_body es)"
  by (simp add: lp_image_def)

lemma lpLength_repr:
  assumes "lp_repr lp es"
  shows "\<exists>lp'. lpLength lp = Some (length es, lp') \<and> lp_repr lp' es \<and> length lp' = length lp"
proof -
  from assms obtain n slack where lp: "lp = lp_image n es @ slack" and n: "numele_ok n es" and ok: "entries_ok es"
    by (auto simp: lp_repr_def)
  have get: "lpGetNumElements lp = Some n"
    using ok n by (simp add: lp lp_header entries_ok_def lp_repr_numele_lt)
  show ?thesis
  proof (cases "n = LP_HDR_NUMELE_UNKNOWN")
    case False
    with get n assms show ?thesis
      by (auto simp: lpLength_def numele_ok_def)
  next
    case True
    have count: "unat (of_nat (length es) :: uint32) = length es"
      using lp_repr_count [OF assms] by (simp add: unat32_of_nat)
    then have ucount: "uint (of_nat (length es) :: uint32) = int (length es)"
      by (metis of_nat_unat)
    have "lp_repr (lp_image (length es) es @ slack) es" if "length es < LP_HDR_NUMELE_UNKNOWN"
      using that ok by (auto simp: lp_repr_def numele_ok_def)
    then show ?thesis
      using True get lpFirst_repr [OF assms] lpLength_scan_repr [OF assms, of 0 0] assms
        lpSetNumElements_image [of n es slack "length es", folded lp]
      by (auto simp: lpLength_def count ucount lp length_lp_image)
  qed
qed

text \<open>Where an index, negative from the end, points to.\<close>

definition seek_index :: "nat \<Rightarrow> int \<Rightarrow> nat option" where
  "seek_index len index =
     (let i = (if index < 0 then int len + index else index)
      in if 0 \<le> i \<and> i < int len then Some (nat i) else None)"

lemma lpSeek_repr:
  assumes "lp_repr lp es"
  shows "lpSeek lp index = Some (map_option (lp_pos es) (seek_index (length es) index))"
proof -
  from assms obtain n slack where lp: "lp = lp_image n es @ slack" and n: "numele_ok n es" and ok: "entries_ok es"
    by (auto simp: lp_repr_def)
  have get: "lpGetNumElements lp = Some n"
    using ok n by (simp add: lp lp_header entries_ok_def lp_repr_numele_lt)
  note fwd = lpFirst_repr [OF assms] lpSeek_forward_repr [OF assms, of _ 0]
  note bwd = lpLast_repr [OF assms] lpSeek_backward_repr [OF assms, of "length es - 1"]
  show ?thesis
  proof (cases "n = LP_HDR_NUMELE_UNKNOWN")
    case True
    show ?thesis
    proof (cases "index < 0")
      case neg: True
      show ?thesis
      proof (cases "es = []")
        case False
        then have "nat (- 1 - index) \<le> length es - 1 \<longleftrightarrow> 0 \<le> int (length es) + index"
          "length es - 1 - nat (- 1 - index) = nat (int (length es) + index)"
          using neg by (auto simp: Suc_le_eq nat_le_iff)
        with False neg True get bwd show ?thesis
          by (simp add: lpSeek_def seek_index_def)
      qed (use neg True get bwd in \<open>simp add: lpSeek_def seek_index_def\<close>)
    next
      case False
      with True get fwd show ?thesis
        by (auto simp: lpSeek_def seek_index_def lp_ptr_def)
    qed
  next
    case False
    with n have len: "n = length es"
      by (simp add: numele_ok_def)
    define i where "i = (if index < 0 then int n + index else index)"
    have eq: "lpSeek lp index = (if i < 0 then Some None else if i \<ge> int n then Some None
        else if i > int n div 2 then do { ele \<leftarrow> lpLast lp; lpSeek_backward lp (nat (- 1 - (i - int n))) ele }
        else do { ele \<leftarrow> lpFirst lp; lpSeek_forward lp (nat i) ele })"
      using False get by (simp add: lpSeek_def i_def Let_def)
    have idx: "seek_index (length es) index = (if 0 \<le> i \<and> i < int n then Some (nat i) else None)"
      by (simp add: seek_index_def i_def len)
    show ?thesis
    proof (cases "0 \<le> i \<and> i < int n")
      case True
      then have "es \<noteq> []" "length es - 1 - nat (- 1 - (i - int n)) = nat i" "nat (- 1 - (i - int n)) \<le> length es - 1"
        "nat i < length es"
        using len by auto
      with True fwd bwd show ?thesis
        by (simp add: eq idx lp_ptr_def)
    qed (auto simp: eq idx)
  qed
qed

section \<open>Insertion, replacement and deletion of a represented listpack\<close>

text \<open>Reallocation keeps what fits.\<close>

lemma lp_realloc_prefix:
  assumes "alloc_ok al" "length u \<le> m"
  shows "\<exists>S'. lp_realloc al (u @ S) m = u @ S' \<and> m \<le> length (u @ S')"
proof -
  have m: "m \<le> alloc_usable al m"
    using assms(1) by (simp add: alloc_ok_def)
  then have "take (length u) (lp_realloc al (u @ S) m) = u"
    using assms(2) unfolding lp_realloc_def by (subst take_mem_realloc) auto
  then have eq: "lp_realloc al (u @ S) m = u @ drop (length u) (lp_realloc al (u @ S) m)"
    by (metis append_take_drop_id)
  moreover have "m \<le> length (lp_realloc al (u @ S) m)"
    using m by (simp add: lp_realloc_def)
  ultimately show ?thesis
    by metis
qed

lemma mem_move_split:
  assumes "A @ T = buf" "length A + k + m \<le> length buf" "src + m \<le> length buf"
  shows "\<exists>X S. length X = k \<and> mem_move buf (length A + k) src m = Some (A @ X @ take m (drop src buf) @ S)"
proof -
  have "mem_move buf (length A + k) src m =
      Some (take (length A + k) buf @ take m (drop src buf) @ drop (length A + k + m) buf)"
    using assms(2,3) by (simp add: mem_move_Some)
  moreover have "take (length A + k) buf = A @ take k T"
    using assms(1) by auto
  moreover have "length (take k T) = k"
    using assms(1,2) by auto
  ultimately show ?thesis
    by (intro exI [of _ "take k T"] exI [of _ "drop (length A + k + m) buf"]) simp
qed

text \<open>
  The tail \<open>R\<close> behind the replaced bytes \<open>E\<close> is moved so that \<open>k\<close> bytes of room \<open>X\<close> are between the
  head \<open>A\<close> and \<open>R\<close>.
\<close>

lemma lpInsert_move_spec:
  assumes "alloc_ok al" "lp = A @ E @ R @ slack" "wh \<noteq> LP_AFTER" "wh = LP_BEFORE \<Longrightarrow> E = []"
  shows "\<exists>X S. length X = k \<and>
    lpInsert_move al lp wh (length A) k (length E) (length (A @ E @ R)) (length A + k + length R) =
      Some (A @ X @ R @ S)"
proof -
  let ?old = "length (A @ E @ R)" and ?new = "length A + k + length R"
  define lp1 where "lp1 = (if ?new > ?old \<and> ?new > length lp then lp_realloc al lp ?new else lp)"
  have "\<exists>slack'. lp1 = A @ E @ R @ slack' \<and> ?new \<le> length lp1"
  proof (cases "?new > ?old \<and> ?new > length lp")
    case True
    then show ?thesis
      using lp_realloc_prefix [OF assms(1), of "A @ E @ R" ?new slack] by (auto simp: lp1_def assms(2))
  next
    case False
    then show ?thesis
      by (auto simp: lp1_def assms(2))
  qed
  then obtain slack' where lp1: "lp1 = A @ E @ R @ slack'" and len: "?new \<le> length lp1"
    by blast
  have "take (length R) (drop (length A + length E) lp1) = R"
    by (simp add: lp1)
  then obtain X S where X: "length X = k"
    and mv: "mem_move lp1 (length A + k) (length A + length E) (length R) = Some (A @ X @ R @ S)"
    using mem_move_split [of A "E @ R @ slack'" lp1 k "length R" "length A + length E"] lp1 len by auto
  obtain S' where S': "(if ?new < ?old then lp_realloc al (A @ X @ R @ S) ?new else A @ X @ R @ S) = A @ X @ R @ S'"
    using lp_realloc_prefix [OF assms(1), of "A @ X @ R" ?new S] X by (cases "?new < ?old") auto
  have "length A \<le> ?old"
    by simp
  then have "lpInsert_move al lp wh (length A) k (length E) ?old ?new = do {
      lp \<leftarrow> (if wh = LP_BEFORE then mem_move lp1 (length A + k) (length A) (?old - length A)
             else mem_move lp1 (length A + k) (length A + length E) (?old - length A - length E));
      Some (if ?new < ?old then lp_realloc al lp ?new else lp) }"
    by (simp only: lpInsert_move_def Let_def lp1_def check_def if_True Option.bind.simps)
  then have "lpInsert_move al lp wh (length A) k (length E) ?old ?new = Some (A @ X @ R @ S')"
    using mv assms(3,4) S' by (cases wh) simp_all
  with X show ?thesis
    by blast
qed

text \<open>The encoded element that is stored.\<close>

definition lp_element :: "byte list option \<Rightarrow> byte list option \<Rightarrow> byte list option" where
  "lp_element elestr eleint = (case elestr of Some s \<Rightarrow> Some (encode_element s) | None \<Rightarrow> eleint)"

lemma lpInsert_encode_len: "lp_element elestr eleint = Some e \<Longrightarrow> snd (lpInsert_encode elestr eleint) = length e"
  by (auto simp: lp_element_def lpInsert_encode_def lpEncodeGetType_enclen split: option.splits)

lemma lpInsert_store_spec:
  assumes "lp_element elestr eleint = Some e" "length X = length (entry_bytes e)"
  shows "lpInsert_store (A @ X @ R) (length A) elestr (fst (lpInsert_encode elestr eleint)) (length e)
    (lpEncodeBacklen (length e)) = Some (A @ entry_bytes e @ R)"
proof -
  let ?b = "lpEncodeBacklen (length e)"
  obtain X1 X2 where X: "X = X1 @ X2" "length X1 = length e" "length X2 = length ?b"
    using assms(2) append_take_drop_id [of "length e" X]
    by (metis add_diff_cancel_left' length_append length_drop length_entry_bytes length_take le_add1 min_absorb2)
  have "(case fst (lpInsert_encode elestr eleint) of Some i \<Rightarrow> mem_write lp p i
      | None \<Rightarrow> (case elestr of Some s \<Rightarrow> mem_write lp p (lpEncodeString s) | None \<Rightarrow> None)) = mem_write lp p e" for lp p
    using assms(1)
    by (auto simp: lp_element_def lpInsert_encode_def lpEncodeGetType_int encode_element_def split: option.splits)
  moreover have "mem_write (A @ X @ R) (length A) e = Some (A @ e @ X2 @ R)"
    using mem_write_append [of X1 e A "X2 @ R"] X by simp
  moreover have "mem_write (A @ e @ X2 @ R) (length A + length e) ?b = Some (A @ e @ ?b @ R)"
    using mem_write_append [of X2 ?b "A @ e" R] X by simp
  ultimately show ?thesis
    by (simp add: lpInsert_store_def entry_bytes_def)
qed

lemma lpInsert_header_spec:
  assumes "n < 65536"
  shows "lpInsert_header (le_encode 4 x @ le_encode 2 (int n) @ B) wh delete new_bytes =
    Some (le_encode 4 (int new_bytes) @
      le_encode 2 (if (wh \<noteq> LP_REPLACE \<or> delete) \<and> n \<noteq> LP_HDR_NUMELE_UNKNOWN
                   then (if delete then int n - 1 else int n + 1) else int n) @ B)"
proof -
  have "mem_read (le_encode 4 x @ le_encode 2 (int n) @ B) 4 2 = Some (le_encode 2 (int n))"
    by (simp add: mem_read_def)
  then have "lpGetNumElements (le_encode 4 x @ le_encode 2 (int n) @ B) = Some n"
    using assms by (simp add: lpGetNumElements_def le_decode_encode take_bit_int_eq_self)
  moreover have "lpSetNumElements (le_encode 4 x @ le_encode 2 (int n) @ B) v = Some (le_encode 4 x @ le_encode 2 v @ B)" for v
    by (simp add: lpSetNumElements_def mem_write_def)
  moreover have "lpSetTotalBytes (le_encode 4 x @ C) v = Some (le_encode 4 (int v) @ C)" for C v
    by (simp add: lpSetTotalBytes_def mem_write_def)
  ultimately show ?thesis
    by (auto simp: lpInsert_header_def)
qed

text \<open>A represented listpack, cut at the entry with index \<open>i\<close> and behind the next \<open>r\<close> entries.\<close>

definition lp_head :: "nat \<Rightarrow> byte list list \<Rightarrow> nat \<Rightarrow> byte list" where
  "lp_head n es i = le_encode 4 (int (7 + length (lp_body es))) @ le_encode 2 (int n) @ lp_body (take i es)"

definition lp_tail :: "byte list list \<Rightarrow> nat \<Rightarrow> byte list" where
  "lp_tail es i = lp_body (drop i es) @ [LP_EOF]"

lemma length_lp_head: "length (lp_head n es i) = lp_pos es i"
  by (simp add: lp_head_def lp_pos_def)

lemma lp_image_cut:
  "lp_image n es = lp_head n es i @ lp_body (take r (drop i es)) @ lp_tail es (i + r)"
proof -
  have "es = take i es @ take r (drop i es) @ drop (i + r) es"
    by (metis append_take_drop_id drop_drop add.commute)
  then have "lp_body es = lp_body (take i es) @ lp_body (take r (drop i es)) @ lp_body (drop (i + r) es)"
    by (metis lp_body_simps(3))
  then show ?thesis
    by (simp add: lp_image_def lp_head_def lp_tail_def)
qed

lemma lpInsert_replaced_spec:
  assumes "lp_repr lp es" "i < length es"
  shows "lpInsert_replaced lp (7 + length (lp_body es)) (lp_pos es i) LP_REPLACE = Some (length (entry_bytes (es ! i)))"
proof -
  obtain a b where a: "lp = a @ entry_bytes (es ! i) @ b" "length a = lp_pos es i"
    by (rule lp_repr_at [OF assms])
  have "lpCurrentEncodedSizeUnsafe lp (lp_pos es i) = Some (length (es ! i))"
    using lp_entry_size [OF lp_repr_ok [OF assms], of a b] a by simp
  moreover have "lp_pos es i + length (entry_bytes (es ! i)) < 7 + length (lp_body es)"
    using lp_pos_lt_total [of es "Suc i"] assms(2) by (simp add: lp_pos_Suc)
  ultimately show ?thesis
    using lp_repr_size [OF assms(1)] lp_pos_ge [of es i]
    by (simp add: lpInsert_replaced_def check_def length_entry_bytes)
qed

text \<open>Storing an element at an index: before the entry there (\<open>r = 0\<close>) or in its place (\<open>r = 1\<close>).\<close>

lemma lpInsert_at:
  assumes repr: "lp_repr lp es" and al: "alloc_ok al"
    and el: "lp_element elestr eleint = Some e" "entry_ok e"
    and wh: "wh = LP_BEFORE \<and> r = 0 \<and> i \<le> length es \<or> wh = LP_REPLACE \<and> r = 1 \<and> i < length es"
  defines "es' \<equiv> take i es @ e # drop (i + r) es"
  shows "7 + length (lp_body es') < 2 ^ 32 \<Longrightarrow>
      \<exists>lp'. lpInsert al lp elestr eleint (lp_pos es i) wh = Some (Some (lp', Some (lp_pos es i))) \<and> lp_repr lp' es'"
    and "\<not> 7 + length (lp_body es') < 2 ^ 32 \<Longrightarrow> lpInsert al lp elestr eleint (lp_pos es i) wh = Some None"
proof -
  from repr obtain n slack where lp: "lp = lp_image n es @ slack" and n: "numele_ok n es" and ok: "entries_ok es"
    by (auto simp: lp_repr_def)
  define A where "A = lp_head n es i"
  define E where "E = lp_body (take r (drop i es))"
  define R where "R = lp_tail es (i + r)"
  have lp': "lp = A @ E @ R @ slack"
    by (simp add: lp A_def E_def R_def lp_image_cut [of n es i r])
  have A: "length A = lp_pos es i"
    by (simp add: A_def length_lp_head)
  have old: "length (A @ E @ R) = 7 + length (lp_body es)"
    using length_lp_image [of n es] by (simp add: lp_image_cut [of n es i r] A_def E_def R_def)
  have E: "wh = LP_BEFORE \<Longrightarrow> E = []" "wh = LP_REPLACE \<Longrightarrow> E = entry_bytes (es ! i)"
    using wh by (auto simp: E_def Cons_nth_drop_Suc [symmetric])
  have rep: "lpInsert_replaced lp (7 + length (lp_body es)) (lp_pos es i) wh = Some (length E)"
    using wh lpInsert_replaced_spec [OF repr, of i] E by (auto simp: lpInsert_replaced_def)
  have not_delete: "\<not> (elestr = None \<and> eleint = None)" and wh1: "wh \<noteq> LP_AFTER"
    using el(1) wh by (auto simp: lp_element_def)
  obtain intenc where enc: "lpInsert_encode elestr eleint = (intenc, length e)"
    by (metis lpInsert_encode_len [OF el(1)] surj_pair snd_conv)
  let ?new = "length A + length (entry_bytes e) + length R"
  have new: "7 + length (lp_body es) + length e + length (lpEncodeBacklen (length e)) - length E = ?new"
    by (simp add: length_entry_bytes flip: old)
  have es': "7 + length (lp_body es') = ?new"
    by (simp add: es'_def A lp_pos_def R_def lp_tail_def)
  have unfold: "lpInsert al lp elestr eleint (lp_pos es i) wh =
      (if ?new > UINT32_MAX then Some None
       else do {
         lp \<leftarrow> lpInsert_move al lp wh (lp_pos es i) (length (entry_bytes e)) (length E) (7 + length (lp_body es)) ?new;
         lp \<leftarrow> lpInsert_store lp (lp_pos es i) elestr intenc (length e) (lpEncodeBacklen (length e));
         lp \<leftarrow> lpInsert_header lp wh False ?new;
         Some (Some (lp, Some (lp_pos es i))) })"
    unfolding lpInsert_def Let_def lp_repr_bytes [OF repr] Option.bind.simps
    by (simp only: not_delete wh1 if_False Option.bind.simps enc rep new prod.case length_entry_bytes simp_thms)
  show "lpInsert al lp elestr eleint (lp_pos es i) wh = Some None" if "\<not> 7 + length (lp_body es') < 2 ^ 32"
    using that by (simp only: unfold es') simp
  show "\<exists>lp'. lpInsert al lp elestr eleint (lp_pos es i) wh = Some (Some (lp', Some (lp_pos es i))) \<and> lp_repr lp' es'"
    if fits: "7 + length (lp_body es') < 2 ^ 32"
  proof -
    obtain X S where X: "length X = length (entry_bytes e)"
      and mv: "lpInsert_move al lp wh (length A) (length (entry_bytes e)) (length E) (length (A @ E @ R)) ?new = Some (A @ X @ R @ S)"
      using lpInsert_move_spec [OF al lp' wh1 E(1)] by blast
    have st: "lpInsert_store (A @ X @ R @ S) (length A) elestr intenc (length e) (lpEncodeBacklen (length e)) =
        Some (A @ entry_bytes e @ R @ S)"
      using lpInsert_store_spec [OF el(1) X, of A "R @ S"] enc by simp
    define n' where "n' = (if wh \<noteq> LP_REPLACE \<and> n \<noteq> LP_HDR_NUMELE_UNKNOWN then n + 1 else n)"
    have buf: "A @ entry_bytes e @ R @ S = le_encode 4 (int (7 + length (lp_body es))) @ le_encode 2 (int n) @ lp_body es' @ LP_EOF # S"
      by (simp add: A_def lp_head_def R_def lp_tail_def es'_def)
    have count: "(if (wh \<noteq> LP_REPLACE \<or> False) \<and> n \<noteq> LP_HDR_NUMELE_UNKNOWN
        then (if False then int n - 1 else int n + 1) else int n) = int n'"
      by (simp add: n'_def)
    have hd: "lpInsert_header (A @ entry_bytes e @ R @ S) wh False ?new = Some (lp_image n' es' @ S)"
      unfolding buf lpInsert_header_spec [OF lp_repr_numele_lt [OF n]] count
      by (simp only: lp_image_def es' append_assoc append_Cons append_Nil)
    have "numele_ok n' es'"
      using n wh by (auto simp: numele_ok_def n'_def es'_def)
    moreover have "entries_ok es'"
      using ok fits el(2) by (auto simp: entries_ok_def es'_def dest: in_set_takeD in_set_dropD)
    ultimately have "lp_repr (lp_image n' es' @ S) es'"
      by (auto simp: lp_repr_def)
    moreover have "\<not> ?new > UINT32_MAX"
      using fits unfolding es' by simp
    ultimately show ?thesis
      using unfold mv [unfolded old] st hd by (simp add: A)
  qed
qed

text \<open>Removal of the entry at an index.\<close>

lemma lpInsert_delete:
  assumes repr: "lp_repr lp es" and al: "alloc_ok al" and i: "i < length es"
  defines "es' \<equiv> take i es @ drop (Suc i) es"
  shows "\<exists>lp'. lpInsert al lp None None (lp_pos es i) wh = Some (Some (lp', lp_ptr es' i)) \<and> lp_repr lp' es'"
proof -
  from repr obtain n slack where lp: "lp = lp_image n es @ slack" and n: "numele_ok n es" and ok: "entries_ok es"
    by (auto simp: lp_repr_def)
  define A where "A = lp_head n es i"
  define E where "E = entry_bytes (es ! i)"
  define R where "R = lp_tail es (Suc i)"
  have cut: "lp_image n es = A @ E @ R"
    using lp_image_cut [of n es i 1] i by (simp add: A_def E_def R_def Cons_nth_drop_Suc [symmetric])
  then have lp': "lp = A @ E @ R @ slack"
    by (simp add: lp)
  have A: "length A = lp_pos es i"
    by (simp add: A_def length_lp_head)
  have old: "length (A @ E @ R) = 7 + length (lp_body es)"
    using length_lp_image [of n es] by (simp add: cut)
  have rep: "lpInsert_replaced lp (7 + length (lp_body es)) (lp_pos es i) LP_REPLACE = Some (length E)"
    using lpInsert_replaced_spec [OF repr i] by (simp add: E_def)
  let ?new = "length A + 0 + length R"
  have new: "7 + length (lp_body es) + 0 + length ([] :: byte list) - length E = ?new"
    by (simp flip: old)
  then have new': "7 + length (lp_body es) - length E = lp_pos es i + length R"
    using A by simp
  have es': "7 + length (lp_body es') = ?new"
    by (simp add: es'_def A lp_pos_def R_def lp_tail_def)
  have enc: "lpInsert_encode None None = (None, 0)"
    by (simp add: lpInsert_encode_def)
  obtain S where mv: "lpInsert_move al lp LP_REPLACE (length A) 0 (length E) (length (A @ E @ R)) ?new = Some (A @ R @ S)"
    using lpInsert_move_spec [OF al lp', of LP_REPLACE 0] by auto
  have "?new \<le> UINT32_MAX"
    using lp_repr_size [OF repr] by (simp flip: old)
  then have unfold: "lpInsert al lp None None (lp_pos es i) wh = do {
         b \<leftarrow> mem_get (A @ R @ S) (lp_pos es i);
         lp \<leftarrow> lpInsert_header (A @ R @ S) LP_REPLACE True ?new;
         Some (Some (lp, if b = LP_EOF then None else Some (lp_pos es i))) }"
    using mv unfolding lpInsert_def Let_def lp_repr_bytes [OF repr] Option.bind.simps
    by (simp only: if_True enc rep new prod.case simp_thms lp_where.distinct if_False Option.bind.simps old A
        add_0_left length_0_conv list.size not_less) (simp add: new')
  define n' where "n' = (if n \<noteq> LP_HDR_NUMELE_UNKNOWN then n - 1 else n)"
  have buf: "A @ R @ S = le_encode 4 (int (7 + length (lp_body es))) @ le_encode 2 (int n) @ lp_body es' @ LP_EOF # S"
    by (simp add: A_def lp_head_def R_def lp_tail_def es'_def)
  have count: "(if (LP_REPLACE \<noteq> LP_REPLACE \<or> True) \<and> n \<noteq> LP_HDR_NUMELE_UNKNOWN
      then (if True then int n - 1 else int n + 1) else int n) = int n'"
    using n i by (auto simp: n'_def numele_ok_def)
  have hd: "lpInsert_header (A @ R @ S) LP_REPLACE True ?new = Some (lp_image n' es' @ S)"
    unfolding buf lpInsert_header_spec [OF lp_repr_numele_lt [OF n]] count
    by (simp only: lp_image_def es' append_assoc append_Cons append_Nil)
  have "numele_ok n' es'"
    using n i by (auto simp: numele_ok_def n'_def es'_def)
  moreover have "entries_ok es'"
    using ok \<open>?new \<le> UINT32_MAX\<close> unfolding entries_ok_def es'
    by (auto simp: es'_def dest: in_set_takeD in_set_dropD)
  ultimately have repr': "lp_repr (lp_image n' es' @ S) es'"
    by (auto simp: lp_repr_def)
  have "mem_get (A @ R @ S) (lp_pos es i) = mem_get (lp_image n' es' @ S) (lp_pos es i)"
    unfolding buf lp_image_def using lp_pos_ge [of es i] by (auto simp: mem_get_def nth_append)
  moreover have "lp_pos es i = lp_pos es' i" "i \<le> length es'"
    using i by (simp_all add: lp_pos_def es'_def)
  ultimately have "mem_get (A @ R @ S) (lp_pos es i) = Some (if i < length es' then hd (es' ! i) else LP_EOF)
      \<and> (i < length es' \<longrightarrow> hd (es' ! i) \<noteq> LP_EOF)"
    using lp_repr_hd [OF repr', of i] lp_repr_hd_eof [OF repr'] by (cases "i = length es'") auto
  then show ?thesis
    using unfold hd repr' \<open>lp_pos es i = lp_pos es' i\<close> by (auto simp: lp_ptr_def)
qed

section \<open>Search in a represented listpack\<close>

definition venc_ok :: "byte list \<Rightarrow> int option option \<Rightarrow> bool" where
  "venc_ok s venc \<longleftrightarrow> venc = None \<or> venc = Some (lpStringToInt64 s)"

lemma lpFind_parse: "(if length s \<ge> 32 \<or> length s = 0 then None else lpStringToInt64 s) = lpStringToInt64 s"
  by (auto simp: lpStringToInt64_def LONG_STR_SIZE_def)

lemma lpFind_advance:
  assumes "lp_repr lp es" "i < length es"
  shows "lpFind_check lp (7 + length (lp_body es)) (lp_pos es (Suc i)) = Some ()"
  using lpAssertValidEntry_repr [OF assms(1), of "Suc i"] assms(2) lp_pos_ge [of es "Suc i"]
    lp_pos_lt_total [of es "Suc i"]
  by (simp add: lpFind_check_def check_def)

lemma lpFind_next_byte:
  assumes "lp_repr lp es" "i < length es"
  shows "\<exists>b. mem_get lp (lp_pos es (Suc i)) = Some b \<and> (b = LP_EOF \<longleftrightarrow> Suc i = length es)"
  using lp_repr_hd [OF assms(1), of "Suc i"] lp_repr_hd_eof [OF assms(1)] assms(2)
  by (cases "Suc i = length es") auto

lemma lpFind_loop_step:
  assumes repr: "lp_repr lp es" and i: "i < length es" and v: "venc_ok s venc"
  shows "\<exists>venc' sz'. venc_ok s venc' \<and>
    lpFind_loop lp (7 + length (lp_body es)) s skip (lp_pos es i) c venc sz =
      (if c = 0 \<and> entry_string (es ! i) = s then Some (Some (lp_pos es i))
       else if Suc i = length es then Some None
       else lpFind_loop lp (7 + length (lp_body es)) s skip (lp_pos es (Suc i))
              (if c = 0 then skip else c - 1) venc' sz')"
proof -
  obtain b where b: "mem_get lp (lp_pos es (Suc i)) = Some b" "b = LP_EOF \<longleftrightarrow> Suc i = length es"
    using lpFind_next_byte [OF repr i] by blast
  note adv = lpFind_advance [OF repr i]
  obtain a t where a: "lp = a @ entry_bytes (es ! i) @ t" "length a = lp_pos es i"
    by (rule lp_repr_at [OF repr i])
  have lp_e: "lp = a @ es ! i @ (lpEncodeBacklen (length (es ! i)) @ t)"
    by (simp add: a entry_bytes_def)
  have pos: "lp_pos es i + length (entry_bytes (es ! i)) = lp_pos es (Suc i)"
    using i by (simp add: lp_pos_Suc)
  show ?thesis
  proof (cases "c = 0")
    case False
    then show ?thesis
      using lpSkip_repr [OF repr i] adv b v
      by (intro exI [of _ venc] exI [of _ sz]) (subst lpFind_loop.simps, simp)
  next
    case True
    from lp_repr_ok [OF repr i] show ?thesis
    proof (cases rule: lpGet_entry)
      case (int ll)
      define venc' where "venc' = (case venc of Some v \<Rightarrow> Some v
        | None \<Rightarrow> Some (if length s \<ge> 32 \<or> length s = 0 then None else lpStringToInt64 s))"
      have venc': "venc' = Some (lpStringToInt64 s)"
        using v unfolding venc'_def lpFind_parse venc_ok_def by auto
      have "lpGetWithSize lp (lp_pos es i) None = Some (IntVal ll, Some (length (entry_bytes (es ! i))))"
        using lpGetWithSize_frame [OF int(2), of a "lpEncodeBacklen (length (es ! i)) @ t"] a(2) lp_e by simp
      moreover have "entry_string (es ! i) = s \<longleftrightarrow> venc' = Some (Some ll)"
        using int(1,3) venc' by (auto simp: lpStringToInt64_iff)
      ultimately show ?thesis
        using True adv b pos venc'
        by (intro exI [of _ venc'] exI [of _ "length (entry_bytes (es ! i))"])
          (subst lpFind_loop.simps, simp add: Let_def venc_ok_def flip: venc'_def)
    next
      case (str p)
      have get: "lpGetWithSize lp (lp_pos es i) None =
          Some (InPlace (lp_pos es i + p) (length (es ! i) - p), Some (length (entry_bytes (es ! i))))"
        using lpGetWithSize_frame [OF str(3), of a "lpEncodeBacklen (length (es ! i)) @ t"] a(2) lp_e by simp
      have rd: "mem_read lp (lp_pos es i + p) (length (es ! i) - p) = Some (drop p (es ! i))"
        using mem_read_frame [of "es ! i" p "length (es ! i) - p" _ a "lpEncodeBacklen (length (es ! i)) @ t"]
          str(2) a(2) by (simp add: mem_read_def flip: lp_e)
      have "(if length s = length (es ! i) - p then map_option (\<lambda>bs. bs = s) (mem_read lp (lp_pos es i + p) (length s))
          else Some False) = Some (entry_string (es ! i) = s)"
        using rd str(4) by auto
      moreover have "check (LP_HDR_SIZE \<le> lp_pos es i \<and> lp_pos es (Suc i) < 7 + length (lp_body es)) = Some ()"
        using lp_pos_ge [of es i] lp_pos_lt_total [of es "Suc i"] by (simp add: check_def)
      ultimately show ?thesis
        using True get adv b pos v
        by (intro exI [of _ venc] exI [of _ "length (entry_bytes (es ! i))"])
          (subst lpFind_loop.simps, simp add: Let_def)
    qed
  qed
qed

text \<open>The indexes \<^verbatim>\<open>lpFind\<close> compares: from \<open>i + c\<close>, every \<open>skip + 1\<close> entries.\<close>

fun probe_indexes :: "nat \<Rightarrow> nat \<Rightarrow> nat \<Rightarrow> nat list" where
  "probe_indexes skip c 0 = []"
| "probe_indexes skip c (Suc n) =
     (if c = 0 then 0 # map Suc (probe_indexes skip skip n) else map Suc (probe_indexes skip (c - 1) n))"

lemma set_probe_indexes: "set (probe_indexes skip c n) = {j. j < n \<and> c \<le> j \<and> (j - c) mod (skip + 1) = 0}"
proof (induction n arbitrary: c)
  case (Suc n)
  have shift: "(\<lambda>j. Suc j) ` {j. j < n \<and> d \<le> j \<and> (j - d) mod (skip + 1) = 0} =
      {j. 0 < j \<and> j < Suc n \<and> Suc d \<le> j \<and> (j - Suc d) mod (skip + 1) = 0}" for d
    by (auto simp: image_iff gr0_conv_Suc)
  show ?case
  proof (cases "c = 0")
    case True
    have "j mod Suc skip = 0 \<longleftrightarrow> Suc skip \<le> j \<and> (j - Suc skip) mod Suc skip = 0" if "0 < j" for j
      using that by (cases "Suc skip \<le> j") (auto simp: le_mod_geq)
    then show ?thesis
      using True Suc shift [of skip] by (auto dest: dvd_imp_le)
  next
    case False
    then show ?thesis
      using Suc shift [of "c - 1"] by auto
  qed
qed simp

lemma sorted_probe_indexes: "sorted_wrt (<) (probe_indexes skip c n)"
  by (induction n arbitrary: c) (auto simp: sorted_wrt_map)

lemma lpFind_loop_repr:
  assumes "lp_repr lp es" "i < length es" "venc_ok s venc"
  shows "lpFind_loop lp (7 + length (lp_body es)) s skip (lp_pos es i) c venc sz =
    Some (map_option (\<lambda>j. lp_pos es (i + j))
      (List.find (\<lambda>j. entry_string (es ! (i + j)) = s) (probe_indexes skip c (length es - i))))"
  using assms(2,3)
proof (induction "length es - i" arbitrary: i c venc sz)
  case (Suc k)
  have len: "length es - i = Suc (length es - Suc i)"
    using Suc.prems(1) by simp
  have find_Suc: "List.find (\<lambda>j. P (i + j)) (map Suc js) = map_option Suc (List.find (\<lambda>j. P (Suc i + j)) js)" for P js
    by (induction js) auto
  have *: "map_option (\<lambda>j. lp_pos es (i + j)) (map_option Suc x) = map_option (\<lambda>j. lp_pos es (Suc i + j)) x" for x
    by (cases x) auto
  obtain venc' sz' where v: "venc_ok s venc'" and eq:
    "lpFind_loop lp (7 + length (lp_body es)) s skip (lp_pos es i) c venc sz =
      (if c = 0 \<and> entry_string (es ! i) = s then Some (Some (lp_pos es i))
       else if Suc i = length es then Some None
       else lpFind_loop lp (7 + length (lp_body es)) s skip (lp_pos es (Suc i))
              (if c = 0 then skip else c - 1) venc' sz')"
    using lpFind_loop_step [OF assms(1) Suc.prems, of skip c sz] by blast
  have IH: "lpFind_loop lp (7 + length (lp_body es)) s skip (lp_pos es (Suc i)) d venc' sz' =
      Some (map_option (\<lambda>j. lp_pos es (Suc i + j))
        (List.find (\<lambda>j. entry_string (es ! (Suc i + j)) = s) (probe_indexes skip d (length es - Suc i))))"
    if "Suc i \<noteq> length es" for d
    using Suc.hyps(1) [of "Suc i" venc' d sz'] Suc.hyps(2) Suc.prems(1) that v by simp
  show ?case
  proof (cases "Suc i = length es")
    case True
    then show ?thesis
      using eq by (simp add: len)
  next
    case False
    then show ?thesis
      using eq IH [OF False] find_Suc [of "\<lambda>j. entry_string (es ! j) = s"] *
      by (cases "c = 0") (simp_all add: len)
  qed
qed simp

text \<open>
  The search from the entry with index \<open>i\<close>: the first of the compared indexes whose entry stands
  for the string.
\<close>

lemma lpFind_repr:
  assumes "lp_repr lp es" "i < length es"
  shows "lpFind lp (lp_pos es i) s skip =
    Some (map_option (lp_pos es) (List.find (\<lambda>j. entry_string (es ! j) = s)
      (filter (\<lambda>j. (j - i) mod (skip + 1) = 0) [i..<length es])))"
proof -
  let ?js = "probe_indexes skip 0 (length es - i)"
  have js: "map ((+) i) ?js = filter (\<lambda>j. (j - i) mod (skip + 1) = 0) [i..<length es]"
  proof (rule strict_sorted_equal)
    show "sorted_wrt (<) (map ((+) i) ?js)"
      using sorted_probe_indexes [of skip 0 "length es - i"] by (simp add: sorted_wrt_map)
    show "sorted_wrt (<) (filter (\<lambda>j. (j - i) mod (skip + 1) = 0) [i..<length es])"
      by (intro sorted_wrt_filter) simp
    have "j \<in> (+) i ` {j. j < length es - i \<and> j mod (skip + 1) = 0}"
      if "i \<le> j" "j < length es" "(j - i) mod (skip + 1) = 0" for j
      using that by (intro image_eqI [of _ _ "j - i"]) auto
    then show "set (map ((+) i) ?js) = set (filter (\<lambda>j. (j - i) mod (skip + 1) = 0) [i..<length es])"
      by (auto simp: set_probe_indexes)
  qed
  have find: "List.find P (map ((+) i) js) = map_option ((+) i) (List.find (\<lambda>j. P (i + j)) js)" for P js
    by (induction js) auto
  show ?thesis
    unfolding js [symmetric] find
    using lpFind_loop_repr [OF assms, of s None skip 0 123456789] lp_repr_bytes [OF assms(1)]
    by (simp add: lpFind_def lpBytes_def venc_ok_def option.map_comp comp_def)
qed

section \<open>Validation\<close>

text \<open>The backward read stays within five bytes, whatever the bytes are.\<close>

lemma lpDecodeBacklen_loop_safe:
  "p < length lp \<Longrightarrow> 28 \<le> 7 * p + shift \<Longrightarrow> lpDecodeBacklen_loop lp p val shift \<noteq> None"
proof (induction lp p val shift rule: lpDecodeBacklen_loop.induct)
  case (1 lp p val shift)
  obtain b where b: "mem_get lp p = Some b"
    using 1(2) by (simp add: mem_get_def)
  show ?case
  proof (cases "b AND 0x80 = 0 \<or> shift + 7 > 28")
    case True
    then show ?thesis
      by (subst lpDecodeBacklen_loop.simps) (auto simp: b Let_def)
  next
    case False
    then have "p \<noteq> 0"
      using 1(3) by auto
    then show ?thesis
      using 1(1) [OF b refl] 1(2,3) False
      by (subst lpDecodeBacklen_loop.simps) (auto simp: b Let_def)
  qed
qed

lemma lpDecodeBacklen_safe: "4 \<le> p \<Longrightarrow> p < length lp \<Longrightarrow> lpDecodeBacklen lp p \<noteq> None"
  unfolding lpDecodeBacklen_def by (intro lpDecodeBacklen_loop_safe) auto

lemma lpCurrentEncodedSizeUnsafe_safe:
  assumes "lpCurrentEncodedSizeBytes lp p = Some k" "p + k < length lp"
  shows "lpCurrentEncodedSizeUnsafe lp p \<noteq> None"
proof -
  obtain b where b: "mem_get lp p = Some b"
    using assms(2) by (simp add: mem_get_def)
  show ?thesis
    using assms unfolding lpCurrentEncodedSizeBytes_def lpCurrentEncodedSizeUnsafe_def b
    by (auto simp: mem_get_def mem_read_def simp del: lp_is_7bit lp_is_6bit lp_is_13bit lp_is_12bit
        split: if_splits)
qed

lemma lpValidateNext_safe:
  assumes "bytes \<le> length lp"
  shows "lpValidateNext lp pp bytes \<noteq> None"
proof (cases pp)
  case (Some p)
  show ?thesis
  proof (cases "lp_out_of_range bytes p")
    case False
    then obtain b where b: "mem_get lp p = Some b" and p: "LP_HDR_SIZE \<le> p"
      using assms by (auto simp: mem_get_def lp_out_of_range_def)
    obtain k where k: "lpCurrentEncodedSizeBytes lp p = Some k"
      by (simp add: lpCurrentEncodedSizeBytes_def b)
    show ?thesis
    proof (cases "k = 0 \<or> lp_out_of_range bytes (p + k)")
      case False
      then have "p + k < length lp"
        using assms by (simp add: lp_out_of_range_def)
      then obtain e where e: "lpCurrentEncodedSizeUnsafe lp p = Some e"
        using lpCurrentEncodedSizeUnsafe_safe [OF k] by blast
      let ?l = "e + length (lpEncodeBacklen e)"
      have "4 \<le> p + ?l - 1" "p + ?l - 1 < p + ?l"
        using p length_lpEncodeBacklen_bounds [of e] by linarith+
      then have "lpDecodeBacklen lp (p + ?l - 1) \<noteq> None" if "\<not> lp_out_of_range bytes (p + ?l)"
        using that assms by (intro lpDecodeBacklen_safe) (auto simp: lp_out_of_range_def)
      then show ?thesis
        using Some b k e by (cases "lp_out_of_range bytes (p + ?l)") (auto simp: lpValidateNext_def Let_def simp del: not_None_eq)
    qed (use Some b k in \<open>auto simp: lpValidateNext_def\<close>)
  qed (use Some in \<open>simp add: lpValidateNext_def\<close>)
qed (simp add: lpValidateNext_def)

lemma lpValidateNext_range:
  "lpValidateNext lp (Some p) bytes = Some (True, Some q) \<Longrightarrow> q < bytes \<and> LP_HDR_SIZE \<le> q"
  by (auto simp: lpValidateNext_def bind_eq_Some_conv Let_def lp_out_of_range_def split: if_splits)

lemma lpValidateNext_some:
  assumes "lpValidateNext lp (Some p) bytes = Some (True, p')" "mem_get lp p = Some b" "b \<noteq> LP_EOF"
  obtains q where "p' = Some q" "p < q" "q < bytes" "lpSkip lp p = Some q"
proof -
  from assms obtain e where "lpCurrentEncodedSizeUnsafe lp p = Some e"
    "p' = Some (p + (e + length (lpEncodeBacklen e)))" "p + (e + length (lpEncodeBacklen e)) < bytes"
    by (auto simp: lpValidateNext_def bind_eq_Some_conv Let_def lp_out_of_range_def split: if_splits)
  then show thesis
    by (intro that) (auto simp: lpSkip_def)
qed

lemma lpValidateIntegrity_loop_safe:
  assumes "bytes \<le> length lp"
  shows "p < bytes \<Longrightarrow> lpValidateIntegrity_loop lp bytes cb numele (Some p) count st \<noteq> None"
proof (induction "length lp - p" arbitrary: p count st rule: less_induct)
  case less
  obtain b where b: "mem_get lp p = Some b"
    using less.prems assms by (simp add: mem_get_def)
  obtain ok p' where v: "lpValidateNext lp (Some p) bytes = Some (ok, p')"
    using lpValidateNext_safe [OF assms] by fast
  show ?case
  proof (cases "b = LP_EOF \<or> \<not> ok")
    case True
    then show ?thesis
      using b v by (subst lpValidateIntegrity_loop.simps) auto
  next
    case False
    then obtain q where q: "p' = Some q" "p < q" "q < bytes"
      using lpValidateNext_some [of lp p bytes p' b] b v by auto
    then have "lpValidateIntegrity_loop lp bytes cb numele (Some q) c s \<noteq> None" for c s
      using less.prems assms by (intro less.hyps) auto
    then show ?thesis
      using False b v q(1) by (subst lpValidateIntegrity_loop.simps) (auto simp: split_def Let_def)
  qed
qed

lemma lpValidateIntegrity_loop_repr:
  assumes "lp_repr lp es"
  shows "i \<le> length es \<Longrightarrow> lpValidateIntegrity_loop lp (7 + length (lp_body es)) None numele (Some (lp_pos es i)) count st =
    Some (Some (Some (lp_pos es (length es)), count + of_nat (length es - i)))"
proof (induction "length es - i" arbitrary: i count)
  case 0
  then have "i = length es"
    by simp
  then show ?case
    using lp_repr_hd_eof [OF assms] by (subst lpValidateIntegrity_loop.simps) simp
next
  case (Suc k)
  then have i: "i < length es" "length es - i = Suc (length es - Suc i)"
    by simp_all
  then show ?case
    using Suc(1) [of "Suc i" "count + 1"] Suc(2) lp_repr_hd [OF assms i(1)] lpValidateNext_repr [OF assms i(1)]
    by (subst lpValidateIntegrity_loop.simps) simp
qed

text \<open>A walk from the position \<open>p\<close>, with the positions \<open>qs\<close> behind its entries: every entry begins where the one before
  ended, \<^verbatim>\<open>lpNext\<close> goes from one to the next, and the walk ends at the last byte of the blob, which is the only
  terminator on it.\<close>

primrec lp_walk :: "byte list \<Rightarrow> nat \<Rightarrow> nat list \<Rightarrow> bool" where
  "lp_walk lp p [] \<longleftrightarrow> p = length lp - 1 \<and> mem_get lp p = Some LP_EOF"
| "lp_walk lp p (q # qs) \<longleftrightarrow> mem_get lp p \<noteq> None \<and> mem_get lp p \<noteq> Some LP_EOF \<and> p < q \<and> lpSkip lp p = Some q \<and>
     lpNext lp p = Some (if qs = [] then None else Some q) \<and> lp_walk lp q qs"

lemma lp_walk_length: "lp_walk lp p qs \<Longrightarrow> p + length qs \<le> length lp - 1"
proof (induction qs arbitrary: p)
  case (Cons q qs)
  then have "q + length qs \<le> length lp - 1" "p < q"
    by auto
  then show ?case
    by simp
qed simp

lemma lp_walk_Nil: "lp_walk lp p qs \<Longrightarrow> mem_get lp p = Some b \<Longrightarrow> qs = [] \<longleftrightarrow> b = LP_EOF"
  by (cases qs) auto

lemma lpLength_scan_walk:
  "lp_walk lp p qs \<Longrightarrow> lpLength_scan lp (if qs = [] then None else Some p) count = Some (count + of_nat (length qs))"
proof (induction qs arbitrary: p count)
  case Nil
  then show ?case
    by (simp add: lpLength_scan.simps)
next
  case (Cons q qs)
  then show ?case
    using Cons.IH [of q "count + 1"] by (subst lpLength_scan.simps) (simp add: add.assoc)
qed

text \<open>What the loop accepts, \<^verbatim>\<open>lpNext\<close> walks through, with the same count.\<close>

lemma lpValidateIntegrity_loop_walk:
  assumes "lpGetTotalBytes lp = Some bytes"
  shows "lpValidateIntegrity_loop lp bytes (None :: (nat \<Rightarrow> nat \<Rightarrow> 's \<Rightarrow> bool \<times> 's) option) numele (Some p) count st =
      Some (Some (Some (length lp - 1), count')) \<Longrightarrow>
    \<exists>qs. lp_walk lp p qs \<and> count' = count + of_nat (length qs)"
proof (induction "length lp - p" arbitrary: p count rule: less_induct)
  case less
  obtain b where b: "mem_get lp p = Some b"
    using less.prems by (subst (asm) lpValidateIntegrity_loop.simps) (auto split: option.splits)
  show ?case
  proof (cases "b = LP_EOF")
    case True
    then have "lp_walk lp p []" "count' = count"
      using less.prems b by (subst (asm) lpValidateIntegrity_loop.simps; simp)+
    then show ?thesis
      by (intro exI [of _ "[]"]) auto
  next
    case False
    from less.prems b False obtain p' where v: "lpValidateNext lp (Some p) bytes = Some (True, p')"
      and rest: "lpValidateIntegrity_loop lp bytes (None :: (nat \<Rightarrow> nat \<Rightarrow> 's \<Rightarrow> bool \<times> 's) option) numele p' (count + 1) st =
        Some (Some (Some (length lp - 1), count'))"
      by (subst (asm) lpValidateIntegrity_loop.simps) (auto split: option.splits if_splits)
    obtain r where r: "p' = Some r" "p < r" "lpSkip lp p = Some r"
      by (rule lpValidateNext_some [OF v b False])
    from rest obtain c where c: "mem_get lp r = Some c"
      unfolding r(1) by (subst (asm) lpValidateIntegrity_loop.simps) (auto split: option.splits)
    then have "r < length lp"
      by (simp add: mem_get_def split: if_splits)
    then have "length lp - r < length lp - p"
      using r(2) by simp
    then obtain qs where qs: "lp_walk lp r qs" "count' = count + 1 + of_nat (length qs)"
      using less.hyps [of r "count + 1"] rest r(1) by auto
    have "lpAssertValidEntry lp bytes r = Some ()" if "c \<noteq> LP_EOF"
      using rest that c unfolding r(1)
      by (subst (asm) lpValidateIntegrity_loop.simps)
        (auto simp: lpAssertValidEntry_def check_def split: option.splits if_splits)
    then have "lpNext lp p = Some (if c = LP_EOF then None else Some r)"
      using r c assms by (simp add: lpNext_def lpBytes_def)
    then have "lp_walk lp p (r # qs)"
      using b False r(2,3) qs(1) lp_walk_Nil [OF qs(1) c] by simp
    moreover have "count' = count + of_nat (length (r # qs))"
      using qs(2) by simp
    ultimately show ?thesis
      by blast
  qed
qed

section \<open>The operations built on insertion\<close>

lemma lpNew_repr:
  assumes "alloc_ok al"
  shows "\<exists>lp. lpNew al capacity = Some lp \<and> lp_repr lp []"
proof -
  define m where "m = lp_malloc al (if capacity > LP_HDR_SIZE + 1 then capacity else LP_HDR_SIZE + 1)"
  have "7 \<le> alloc_usable al k" if "7 \<le> k" for k
    using assms that by (metis alloc_ok_def order_trans)
  then have len: "7 \<le> length m"
    by (simp add: m_def lp_malloc_def)
  have d6: "drop 6 m = m ! 6 # drop 7 m"
    using len Cons_nth_drop_Suc [of 6 m] by simp
  have "lpSetTotalBytes m 7 = Some (le_encode 4 7 @ drop 4 m)"
    using len by (simp add: lpSetTotalBytes_def mem_write_def)
  moreover have "lpSetNumElements (le_encode 4 7 @ drop 4 m) 0 = Some (le_encode 4 7 @ le_encode 2 0 @ drop 6 m)"
    using len by (simp add: lpSetNumElements_def mem_write_def)
  moreover have "mem_put (le_encode 4 7 @ le_encode 2 0 @ drop 6 m) 6 LP_EOF = Some (lp_image 0 [] @ drop 7 m)"
    unfolding d6 by (simp add: mem_put_def list_update_append lp_image_def)
  ultimately have "lpNew al capacity = Some (lp_image 0 [] @ drop 7 m)"
    unfolding lpNew_def Let_def m_def [symmetric] by simp
  moreover have "lp_repr (lp_image 0 [] @ drop 7 m) []"
    by (auto simp: lp_repr_def entries_ok_def numele_ok_def)
  ultimately show ?thesis
    by blast
qed

lemma lpInsert_after:
  assumes "lp_repr lp es" "i < length es" "\<not> (elestr = None \<and> eleint = None)"
  shows "lpInsert al lp elestr eleint (lp_pos es i) LP_AFTER = lpInsert al lp elestr eleint (lp_pos es (Suc i)) LP_BEFORE"
proof -
  have "check (LP_HDR_SIZE \<le> lp_pos es (Suc i) \<and> lp_pos es (Suc i) < 7 + length (lp_body es)) = Some ()"
    using lp_pos_ge [of es "Suc i"] lp_pos_lt_total [of es "Suc i"] by (simp add: check_def)
  then show ?thesis
    unfolding lpInsert_def Let_def lp_repr_bytes [OF assms(1)] Option.bind.simps
    by (simp only: assms(3) if_False if_True lpSkip_repr [OF assms(1,2)] Option.bind.simps prod.case lp_where.distinct simp_thms)
qed

text \<open>The entries after an insertion at an index.\<close>

fun insert_entry :: "lp_where \<Rightarrow> nat \<Rightarrow> 'a \<Rightarrow> 'a list \<Rightarrow> 'a list" where
  "insert_entry LP_BEFORE i e es = take i es @ e # drop i es"
| "insert_entry LP_AFTER i e es = take (Suc i) es @ e # drop (Suc i) es"
| "insert_entry LP_REPLACE i e es = es[i := e]"

lemma map_insert_entry: "map f (insert_entry wh i e es) = insert_entry wh i (f e) (map f es)"
  by (cases wh) (simp_all add: take_map drop_map map_update)

lemma lpInsert_entry:
  assumes "lp_repr lp es" "alloc_ok al" "i < length es" "lp_element elestr eleint = Some e" "entry_ok e"
  shows "if 7 + length (lp_body (insert_entry wh i e es)) < 2 ^ 32
    then \<exists>lp'. lpInsert al lp elestr eleint (lp_pos es i) wh =
           Some (Some (lp', Some (lp_pos es (if wh = LP_AFTER then Suc i else i)))) \<and>
         lp_repr lp' (insert_entry wh i e es)
    else lpInsert al lp elestr eleint (lp_pos es i) wh = Some None"
proof -
  have "\<not> (elestr = None \<and> eleint = None)"
    using assms(4) by (auto simp: lp_element_def)
  note after = lpInsert_after [OF assms(1,3) this]
  note at = lpInsert_at [OF assms(1,2,4,5)]
  show ?thesis
    using at [of LP_BEFORE 0 i] at [of LP_BEFORE 0 "Suc i"] at [of LP_REPLACE 1 i] assms(3) after
    by (cases wh) (auto simp: upd_conv_take_nth_drop)
qed

lemma lpAppend_element:
  assumes "lp_repr lp es" "alloc_ok al" "lp_element elestr eleint = Some e" "entry_ok e"
    "7 + length (lp_body (es @ [e])) < 2 ^ 32"
  shows "\<exists>lp'. lpInsert al lp elestr eleint (7 + length (lp_body es) - 1) LP_BEFORE = Some (Some (lp', Some (lp_pos es (length es))))
    \<and> lp_repr lp' (es @ [e])"
  using lpInsert_at(1) [OF assms(1-4), of LP_BEFORE 0 "length es"] assms(5) by (simp add: lp_pos_end)

lemma lpAppend_repr:
  assumes "lp_repr lp es" "alloc_ok al" "length s + 5 < 2 ^ 32" "7 + length (lp_body (es @ [encode_element s])) < 2 ^ 32"
  shows "\<exists>lp'. lpAppend al lp s = Some (Some lp') \<and> lp_repr lp' (es @ [encode_element s])"
  using lpAppend_element [of lp es al "Some s" None "encode_element s"] assms
    entry_ok_encode_element [OF assms(3)] lp_repr_bytes [OF assms(1)]
  by (auto simp: lpAppend_def lp_element_def check_def)

lemma lpAppendInteger_repr:
  assumes "lp_repr lp es" "alloc_ok al" "is_int64 v"
    "7 + length (lp_body (es @ [lpEncodeIntegerGetType v])) < 2 ^ 32"
  shows "\<exists>lp'. lpAppendInteger al lp v = Some (Some lp') \<and> lp_repr lp' (es @ [lpEncodeIntegerGetType v])"
  using lpAppend_element [of lp es al None "Some (lpEncodeIntegerGetType v)" "lpEncodeIntegerGetType v"] assms
    lpEncodeIntegerGetType_get [OF assms(3)] lp_repr_bytes [OF assms(1)]
  by (auto simp: lpAppendInteger_def lpInsertInteger_def lp_element_def check_def)

lemma lpPrepend_repr:
  assumes "lp_repr lp es" "alloc_ok al" "length s + 5 < 2 ^ 32" "7 + length (lp_body (encode_element s # es)) < 2 ^ 32"
  shows "\<exists>lp'. lpPrepend al lp s = Some (Some lp') \<and> lp_repr lp' (encode_element s # es)"
proof (cases es)
  case Nil
  then show ?thesis
    using lpAppend_repr [OF assms(1-3)] assms(4) lpFirst_repr [OF assms(1)]
    by (simp add: lpPrepend_def lp_ptr_def)
next
  case (Cons e es')
  then show ?thesis
    using lpInsert_entry [OF assms(1,2), of 0 "Some s" None "encode_element s" LP_BEFORE] assms(4)
      entry_ok_encode_element [OF assms(3)] lpFirst_repr [OF assms(1)]
    by (auto simp: lpPrepend_def lp_ptr_def lp_element_def)
qed

lemma lpPrependInteger_repr:
  assumes "lp_repr lp es" "alloc_ok al" "is_int64 v"
    "7 + length (lp_body (lpEncodeIntegerGetType v # es)) < 2 ^ 32"
  shows "\<exists>lp'. lpPrependInteger al lp v = Some (Some lp') \<and> lp_repr lp' (lpEncodeIntegerGetType v # es)"
proof (cases es)
  case Nil
  then show ?thesis
    using lpAppendInteger_repr [OF assms(1-3)] assms(4) lpFirst_repr [OF assms(1)]
    by (simp add: lpPrependInteger_def lp_ptr_def)
next
  case (Cons e es')
  then show ?thesis
    using lpInsert_entry [OF assms(1,2), of 0 None "Some (lpEncodeIntegerGetType v)" "lpEncodeIntegerGetType v" LP_BEFORE] assms(4)
      lpEncodeIntegerGetType_get [OF assms(3)] lpFirst_repr [OF assms(1)]
    by (auto simp: lpPrependInteger_def lpInsertInteger_def lp_ptr_def lp_element_def)
qed

section \<open>Properties\<close>

text \<open>A listpack of an integer and a string, without slack.\<close>

definition lp_sample_entries :: "byte list list" where
  "lp_sample_entries = [[5], [0x82, 97, 98]]"

definition plain_alloc :: allocator where
  "plain_alloc = \<lparr>alloc_usable = (\<lambda>n. n), alloc_fill = (\<lambda>_. 0)\<rparr>"

lemma plain_alloc_ok: "alloc_ok plain_alloc"
  by (simp add: alloc_ok_def plain_alloc_def)

lemma lp_sample_body: "lp_body lp_sample_entries = [5, 1, 0x82, 97, 98, 3]"
  by (simp add: lp_sample_entries_def entry_bytes_def lpEncodeBacklen_def)

lemma lp_sample_repr: "lp_repr (lp_image 2 lp_sample_entries) lp_sample_entries"
proof -
  have "entry_ok [5]" "entry_ok [0x82, 97, 98]"
    by (simp_all add: entry_ok_def lpCurrentEncodedSizeUnsafe_def mem_get_def)
  then have "entries_ok lp_sample_entries"
    unfolding entries_ok_def lp_sample_body by (simp add: lp_sample_entries_def)
  moreover have "numele_ok 2 lp_sample_entries"
    by (simp add: numele_ok_def lp_sample_entries_def)
  ultimately show ?thesis
    unfolding lp_repr_def by (metis append_Nil2)
qed

text \<open>\<^verbatim>\<open>lpSeek\<close> on a listpack with entries \<open>es\<close> never faults and returns the pointer to the entry
  that the index means, counted from the end if negative, and \<^verbatim>\<open>NULL\<close> when it is out of range,
  whether the header knows the number of elements or not, and in whichever direction it walks.\<close>
theorem lpSeek_correct:
  assumes "lp_repr lp es"
  shows "lpSeek lp index = Some (map_option (lp_pos es) (seek_index (length es) index))"
  using assms by (rule lpSeek_repr)

theorem lpSeek_correct_witness: "lpSeek (lp_image 2 lp_sample_entries) (- 1) = Some (Some 8)"
  using lpSeek_correct [OF lp_sample_repr, of "- 1"]
  by (simp add: seek_index_def lp_sample_entries_def lp_pos_def entry_bytes_def)

text \<open>C18: inserting a string before or after an entry, or replacing the entry by it, never faults:
  the result is a well-formed listpack with the element at that place, the pointer to it, and
  the element reads back as the string; \<^verbatim>\<open>NULL\<close> is returned exactly when the new size does not
  fit the 32 bit header.\<close>
theorem lpInsertString_correct:
  fixes wh :: lp_where
  assumes "lp_repr lp es" "alloc_ok al" "i < length es" "length s + 5 < 2 ^ 32"
  defines "es' \<equiv> insert_entry wh i (encode_element s) es"
  shows "(if 7 + length (lp_body es') < 2 ^ 32
     then \<exists>lp'. lpInsertString al lp s (lp_pos es i) wh =
            Some (Some (lp', Some (lp_pos es' (if wh = LP_AFTER then Suc i else i)))) \<and> lp_repr lp' es'
     else lpInsertString al lp s (lp_pos es i) wh = Some None) \<and>
   map entry_string es' = insert_entry wh i s (map entry_string es)"
proof -
  have "lp_pos es' (if wh = LP_AFTER then Suc i else i) = lp_pos es (if wh = LP_AFTER then Suc i else i)"
    using assms(3) by (cases wh) (simp_all add: es'_def lp_pos_def)
  then show ?thesis
    using lpInsert_entry [OF assms(1-3), of "Some s" None "encode_element s" wh]
      entry_ok_encode_element [OF assms(4)] entry_string_encode_element [OF assms(4)]
    unfolding es'_def lpInsertString_def by (simp add: lp_element_def map_insert_entry)
qed

theorem lpInsertString_correct_witness:
  "\<exists>lp'. lpInsertString plain_alloc (lp_image 2 lp_sample_entries) [55] 8 LP_BEFORE =
     Some (Some (lp', Some 8)) \<and> lp_repr lp' [[5], [7], [0x82, 97, 98]]"
proof -
  have "length ''x'' + 5 < (2 :: nat) ^ 32" "encode_element [55] = [7]"
    by (simp_all add: encode_element_def lpStringToInt64_def LONG_STR_SIZE_def lpEncodeIntegerGetType_def)
  then show ?thesis
    using lpInsertString_correct [OF lp_sample_repr plain_alloc_ok, of 1 "[55]" LP_BEFORE]
    by (simp add: lp_sample_entries_def lp_pos_def entry_bytes_def lpEncodeBacklen_def)
qed

text \<open>deleting an entry never faults: the result is a well-formed listpack without the entry, and
  the returned pointer is the one to the next entry, \<^verbatim>\<open>NULL\<close> behind the last.\<close>
theorem lpDelete_correct:
  assumes "lp_repr lp es" "alloc_ok al" "i < length es"
  defines "es' \<equiv> take i es @ drop (Suc i) es"
  shows "\<exists>lp'. lpDelete al lp (lp_pos es i) = Some (Some (lp', lp_ptr es' i)) \<and> lp_repr lp' es'"
  using lpInsert_delete [OF assms(1-3), of LP_REPLACE] by (simp add: lpDelete_def es'_def)

theorem lpDelete_correct_witness:
  "\<exists>lp'. lpDelete plain_alloc (lp_image 2 lp_sample_entries) 6 = Some (Some (lp', Some 6)) \<and> lp_repr lp' [[0x82, 97, 98]]"
  using lpDelete_correct [OF lp_sample_repr plain_alloc_ok, of 0]
  by (simp add: lp_sample_entries_def lp_ptr_def)

text \<open>\<^verbatim>\<open>lpFind\<close> from an entry, comparing one entry and skipping \<open>skip\<close> others, always returns: the
  first compared entry that stands for the string, integers and strings alike, or \<^verbatim>\<open>NULL\<close>.\<close>
theorem lpFind_correct:
  assumes "lp_repr lp es" "i < length es"
  shows "lpFind lp (lp_pos es i) s skip =
    Some (map_option (lp_pos es) (List.find (\<lambda>j. entry_string (es ! j) = s)
      (filter (\<lambda>j. (j - i) mod (skip + 1) = 0) [i..<length es])))"
  using assms by (rule lpFind_repr)

theorem lpFind_correct_witness: "lpFind (lp_image 2 lp_sample_entries) 6 [97, 98] 0 = Some (Some 8)"
proof -
  have "entry_string [5] \<noteq> [97, 98]" "entry_string [0x82, 97, 98] = [97, 98]"
    by (simp_all add: entry_string_def lpGet_def lpGetWithSize_def mem_get_def lpSignedValue_def dec_string_def
        dec_digits_small)
  then show ?thesis
    using lpFind_correct [OF lp_sample_repr, of 0 "[97, 98]" 0]
    by (simp add: lp_sample_entries_def upt_rec lp_pos_def entry_bytes_def)
qed

text \<open>C35: the integrity check of a blob of arbitrary bytes reads only inside of the blob and returns,
  shallow or deep, whatever the callback answers.\<close>
theorem lpValidateIntegrity_safe: "lpValidateIntegrity lp (length lp) deep cb st \<noteq> None"
proof (cases "length lp < LP_HDR_SIZE + 1")
  case False
  then have "mem_get lp (length lp - 1) = Some (lp ! (length lp - 1))"
    by (auto simp: mem_get_def)
  moreover obtain tot n where "lpGetTotalBytes lp = Some tot" "lpGetNumElements lp = Some n"
    using False by (simp add: lpGetTotalBytes_def lpGetNumElements_def mem_read_def)
  moreover obtain r where "lpValidateIntegrity_loop lp (length lp) cb n (Some LP_HDR_SIZE) 0 st = Some r"
    using False lpValidateIntegrity_loop_safe [of "length lp" lp LP_HDR_SIZE cb n 0 st] by fastforce
  ultimately show ?thesis
    by (cases "tot = length lp") (simp_all add: lpValidateIntegrity_def del: not_None_eq)
qed (simp add: lpValidateIntegrity_def)

lemma lpValidateIntegrity_repr:
  assumes "lp_repr lp es" "length lp = 7 + length (lp_body es)"
  shows "lpValidateIntegrity lp (length lp) True None st = Some True"
proof -
  from assms(1) obtain n slack where lp: "lp = lp_image n es @ slack" and n: "numele_ok n es" and ok: "entries_ok es"
    by (auto simp: lp_repr_def)
  have "lpGetNumElements lp = Some n"
    using ok n by (simp add: lp lp_header entries_ok_def lp_repr_numele_lt)
  moreover have "unat (of_nat (length es) :: uint32) = length es"
    using lp_repr_count [OF assms(1)] by (simp add: unat32_of_nat)
  ultimately show ?thesis
    using lpValidateIntegrity_loop_repr [OF assms(1), of 0 n 0 st] lp_repr_bytes [OF assms(1)] n
      lp_repr_hd_eof [OF assms(1)] assms(2)
    by (auto simp: lpValidateIntegrity_def lp_pos_end numele_ok_def)
qed

text \<open>the deep integrity check accepts every listpack that the operations build.\<close>
theorem lpValidateIntegrity_complete:
  assumes "lp_repr lp es" "length lp = 7 + length (lp_body es)"
  shows "lpValidateIntegrity lp (length lp) True None st = Some True"
  using assms by (rule lpValidateIntegrity_repr)

theorem lpValidateIntegrity_complete_witness:
  "lpValidateIntegrity (lp_image 2 lp_sample_entries) 13 True None () = Some True"
  using lpValidateIntegrity_complete [OF lp_sample_repr, of "()"] by (simp add: lp_sample_body)

lemma lpGetTotalBytes_less: "lpGetTotalBytes lp = Some n \<Longrightarrow> n < 2 ^ 32"
proof -
  assume "lpGetTotalBytes lp = Some n"
  then obtain bs where bs: "mem_read lp 0 4 = Some bs" "n = nat (le_decode bs)"
    by (auto simp: lpGetTotalBytes_def bind_eq_Some_conv)
  then have "length bs = 4"
    by (auto simp: mem_read_def split: if_splits)
  then show ?thesis
    using le_decode_less [of bs 4] bs(2) by simp
qed

text \<open>C22: A blob that passes the deep integrity check is covered by its entries: \<^verbatim>\<open>lpFirst\<close> and \<^verbatim>\<open>lpNext\<close> walk, without a
  failed assertion or an access out of bounds, from the header over entries of which each begins where the
  one before ended, and the walk ends exactly at the last byte, the only terminator on it. The number of elements of the header,
  unless it is the value for an unknown number, and the count of \<^verbatim>\<open>lpLength\<close> are the number of these entries.\<close>

theorem lpValidateIntegrity_walk:
  assumes "lpValidateIntegrity lp (length lp) True (None :: (nat \<Rightarrow> nat \<Rightarrow> 's \<Rightarrow> bool \<times> 's) option) st = Some True"
  shows "\<exists>qs numele. lp_walk lp LP_HDR_SIZE qs \<and> lpFirst lp = Some (if qs = [] then None else Some LP_HDR_SIZE) \<and>
    lpLength_scan lp (if qs = [] then None else Some LP_HDR_SIZE) 0 = Some (of_nat (length qs)) \<and>
    lpGetNumElements lp = Some numele \<and> (numele \<noteq> LP_HDR_NUMELE_UNKNOWN \<longrightarrow> numele = length qs)"
proof -
  from assms obtain numele count where tot: "lpGetTotalBytes lp = Some (length lp)"
    and num: "lpGetNumElements lp = Some numele" "numele \<noteq> LP_HDR_NUMELE_UNKNOWN \<longrightarrow> numele = unat count"
    and loop: "lpValidateIntegrity_loop lp (length lp) (None :: (nat \<Rightarrow> nat \<Rightarrow> 's \<Rightarrow> bool \<times> 's) option)
      numele (Some LP_HDR_SIZE) 0 st = Some (Some (Some (length lp - 1), count))"
    by (auto simp: lpValidateIntegrity_def bind_eq_Some_conv split: if_splits option.splits)
  obtain qs where qs: "lp_walk lp LP_HDR_SIZE qs" "count = of_nat (length qs)"
    using lpValidateIntegrity_loop_walk [OF tot loop] by auto
  have "length qs < 2 ^ 32"
    using lp_walk_length [OF qs(1)] lpGetTotalBytes_less [OF tot] by linarith
  then have n: "unat count = length qs"
    unfolding qs(2) by (simp add: unsigned_of_nat take_bit_nat_eq_self)
  obtain b where b: "mem_get lp LP_HDR_SIZE = Some b"
    using loop by (subst (asm) lpValidateIntegrity_loop.simps) (auto split: option.splits)
  have "lpAssertValidEntry lp (length lp) LP_HDR_SIZE = Some ()" if "b \<noteq> LP_EOF"
    using loop that b
    by (subst (asm) lpValidateIntegrity_loop.simps)
      (auto simp: lpAssertValidEntry_def check_def split: option.splits if_splits)
  then have "lpFirst lp = Some (if qs = [] then None else Some LP_HDR_SIZE)"
    using b tot lp_walk_Nil [OF qs(1) b] by (simp add: lpFirst_def lpBytes_def)
  then show ?thesis
    using qs(1) lpLength_scan_walk [OF qs(1), of 0] num n by (intro exI [of _ qs] exI [of _ numele]) simp
qed

theorem lpValidateIntegrity_walk_witness:
  "\<exists>qs numele. lp_walk (lp_image 2 lp_sample_entries) LP_HDR_SIZE qs \<and>
     lpGetNumElements (lp_image 2 lp_sample_entries) = Some numele \<and> numele = length qs"
proof -
  let ?cb = "None :: (nat \<Rightarrow> nat \<Rightarrow> unit \<Rightarrow> bool \<times> unit) option"
  have "lpValidateIntegrity (lp_image 2 lp_sample_entries) (length (lp_image 2 lp_sample_entries)) True ?cb () = Some True"
    by (rule lpValidateIntegrity_repr [OF lp_sample_repr]) simp
  moreover have "lpGetNumElements (lp_image 2 lp_sample_entries) = Some 2"
    using lp_header(2) [of lp_sample_entries 2 "[]"] by (simp add: lp_sample_body)
  ultimately show ?thesis
    using lpValidateIntegrity_walk [of "lp_image 2 lp_sample_entries" "()"] by auto
qed

end
