(* ===== verification/Listpack_Ranges.thy ===== *)
theory Listpack_Ranges
  imports Listpack
begin

text \<open>
  The operations of \<^verbatim>\<open>src/redis-7.2.10/src/listpack.c\<close> on several entries: deletion of a range or of
  a batch of entries, and the merge of two listpacks.
\<close>

text \<open>The loop of \<^verbatim>\<open>lpDeleteRangeWithEntry\<close>: the tail pointer and the number of deleted entries.\<close>

fun lpDeleteRange_skip :: "byte list \<Rightarrow> nat \<Rightarrow> nat \<Rightarrow> nat \<Rightarrow> nat \<Rightarrow> (nat \<times> nat) option" where
  "lpDeleteRange_skip lp bytes 0 tail deleted = Some (tail, deleted)"
| "lpDeleteRange_skip lp bytes (Suc num) tail deleted = do {
     tail \<leftarrow> lpSkip lp tail;
     b \<leftarrow> mem_get lp tail;
     if b = LP_EOF then Some (tail, deleted + 1)
     else do {
       lpAssertValidEntry lp bytes tail;
       lpDeleteRange_skip lp bytes num tail (deleted + 1) } }"

definition lpDeleteRangeWithEntry ::
  "allocator \<Rightarrow> byte list \<Rightarrow> nat \<Rightarrow> nat \<Rightarrow> (byte list \<times> nat option) option" where
  "lpDeleteRangeWithEntry al lp first num =
     (if num = 0 then Some (lp, Some first)
      else do {
        bytes \<leftarrow> lpBytes lp;
        (tail, deleted) \<leftarrow> lpDeleteRange_skip lp bytes num first 0;
        check (tail \<le> bytes);
        lp \<leftarrow> mem_move lp first tail (bytes - tail);
        lp \<leftarrow> lpSetTotalBytes lp (bytes - (tail - first));
        numele \<leftarrow> lpGetNumElements lp;
        lp \<leftarrow> (if numele \<noteq> LP_HDR_NUMELE_UNKNOWN then lpSetNumElements lp (int numele - int deleted) else Some lp);
        lp \<leftarrow> lpShrinkToFit al lp;
        b \<leftarrow> mem_get lp first;
        Some (lp, if b = LP_EOF then None else Some first) })"

text \<open>\<^verbatim>\<open>lpDeleteRange\<close>; the comparison of \<^verbatim>\<open>numele - index\<close> is made after the seek found an entry.\<close>

definition lpDeleteRange :: "allocator \<Rightarrow> byte list \<Rightarrow> int \<Rightarrow> nat \<Rightarrow> byte list option" where
  "lpDeleteRange al lp index num = do {
     numele \<leftarrow> lpGetNumElements lp;
     if num = 0 then Some lp
     else do {
       p \<leftarrow> lpSeek lp index;
       case p of
         None \<Rightarrow> Some lp
       | Some p \<Rightarrow>
           (let index = (if numele \<noteq> LP_HDR_NUMELE_UNKNOWN \<and> index < 0 then int numele + index else index)
            in if numele \<noteq> LP_HDR_NUMELE_UNKNOWN \<and> (int numele - index) mod 2 ^ 64 \<le> int num then do {
                 lp \<leftarrow> mem_put lp p LP_EOF;
                 lp \<leftarrow> lpSetTotalBytes lp (p + 1);
                 lp \<leftarrow> lpSetNumElements lp index;
                 lpShrinkToFit al lp }
               else map_option fst (lpDeleteRangeWithEntry al lp p num)) } }"

text \<open>The loop of \<^verbatim>\<open>lpBatchDelete\<close>: what is between two deleted entries is moved to \<^verbatim>\<open>dst\<close>.\<close>

fun lpBatchDelete_loop :: "byte list \<Rightarrow> nat \<Rightarrow> nat \<Rightarrow> nat list \<Rightarrow> (byte list \<times> nat) option" where
  "lpBatchDelete_loop lp lp_end dst [] = Some (lp, dst)"
| "lpBatchDelete_loop lp lp_end dst (skip # ps) = do {
     b \<leftarrow> mem_get lp skip;
     check (b \<noteq> LP_EOF);
     keep_start \<leftarrow> lpSkip lp skip;
     let keep_end = (case ps of q # _ \<Rightarrow> q | [] \<Rightarrow> lp_end);
     if ps \<noteq> [] \<and> keep_start = keep_end then lpBatchDelete_loop lp lp_end dst ps
     else do {
       check (keep_end > keep_start);
       lp \<leftarrow> mem_move lp dst keep_start (keep_end - keep_start);
       lpBatchDelete_loop lp lp_end (dst + (keep_end - keep_start)) ps } }"

definition lpBatchDelete :: "allocator \<Rightarrow> byte list \<Rightarrow> nat list \<Rightarrow> byte list option" where
  "lpBatchDelete al lp ps =
     (if ps = [] then Some lp
      else do {
        total_bytes \<leftarrow> lpGetTotalBytes lp;
        check (0 < total_bytes);
        b \<leftarrow> mem_get lp (total_bytes - 1);
        check (b = LP_EOF);
        (lp, dst) \<leftarrow> lpBatchDelete_loop lp total_bytes (hd ps) ps;
        let deleted_bytes = int total_bytes - int dst;
        let total_bytes = nat (int total_bytes - deleted_bytes);
        check (0 < total_bytes);
        b \<leftarrow> mem_get lp (total_bytes - 1);
        check (b = LP_EOF);
        lp \<leftarrow> lpSetTotalBytes lp total_bytes;
        numele \<leftarrow> lpGetNumElements lp;
        lp \<leftarrow> (if numele \<noteq> LP_HDR_NUMELE_UNKNOWN then lpSetNumElements lp (int numele - int (length ps)) else Some lp);
        lpShrinkToFit al lp })"

text \<open>The copy of \<^verbatim>\<open>lpMerge\<close>: the entries of the source behind or before those of the target.\<close>

definition lpMerge_copy :: "bool \<Rightarrow> byte list \<Rightarrow> nat \<Rightarrow> byte list \<Rightarrow> nat \<Rightarrow> byte list option" where
  "lpMerge_copy app target target_bytes source source_bytes = do {
     check (LP_HDR_SIZE < source_bytes \<and> LP_HDR_SIZE < target_bytes);
     if app then do {
       bs \<leftarrow> mem_read source LP_HDR_SIZE (source_bytes - LP_HDR_SIZE);
       mem_write target (target_bytes - 1) bs }
     else do {
       target \<leftarrow> mem_move target (source_bytes - 1) LP_HDR_SIZE (target_bytes - LP_HDR_SIZE);
       bs \<leftarrow> mem_read source 0 (source_bytes - 1);
       mem_write target 0 bs } }"

text \<open>
  \<^verbatim>\<open>lpMerge\<close> of two listpacks; the inner \<open>None\<close> is \<^verbatim>\<open>NULL\<close> for a missing argument. The two arguments
  are distinct allocations (the source returns \<^verbatim>\<open>NULL\<close> when they are the same). The result is the
  new value of \<^verbatim>\<open>*first\<close> and \<^verbatim>\<open>*second\<close>: one is the merged listpack, the other is freed.
\<close>

definition lpMerge ::
  "allocator \<Rightarrow> byte list option \<Rightarrow> byte list option \<Rightarrow> (byte list option \<times> byte list option) option option" where
  "lpMerge al first second =
     (case (first, second) of
        (Some first, Some second) \<Rightarrow> do {
          first_bytes \<leftarrow> lpBytes first;
          (first_len, first) \<leftarrow> lpLength first;
          second_bytes \<leftarrow> lpBytes second;
          (second_len, second) \<leftarrow> lpLength second;
          let app = (first_bytes \<ge> second_bytes);
          let (target, target_bytes, source, source_bytes) =
            (if app then (first, first_bytes, second, second_bytes)
             else (second, second_bytes, first, first_bytes));
          check (LP_HDR_SIZE + 1 \<le> first_bytes + second_bytes);
          let lpbytes = first_bytes + second_bytes - LP_HDR_SIZE - 1;
          check (lpbytes < UINT32_MAX);
          let lplength = (if first_len + second_len < 65535 then first_len + second_len else 65535);
          let target = lp_realloc al target lpbytes;
          target \<leftarrow> lpMerge_copy app target target_bytes source source_bytes;
          target \<leftarrow> lpSetNumElements target (int lplength);
          target \<leftarrow> lpSetTotalBytes target lpbytes;
          Some (Some (if app then (Some target, None) else (None, Some target))) }
      | _ \<Rightarrow> Some None)"

section \<open>Header updates\<close>

lemma lp_hdr_get_num:
  "n < 65536 \<Longrightarrow> lpGetNumElements (le_encode 4 x @ le_encode 2 (int n) @ B) = Some n"
proof -
  assume "n < 65536"
  moreover have "mem_read (le_encode 4 x @ le_encode 2 (int n) @ B) 4 2 = Some (le_encode 2 (int n))"
    by (simp add: mem_read_def)
  ultimately show ?thesis
    by (simp add: lpGetNumElements_def le_decode_encode take_bit_int_eq_self)
qed

lemma lp_hdr_set_num:
  "lpSetNumElements (le_encode 4 x @ le_encode 2 y @ B) v = Some (le_encode 4 x @ le_encode 2 v @ B)"
  by (simp add: lpSetNumElements_def mem_write_def)

lemma lp_hdr_set_total: "lpSetTotalBytes (le_encode 4 x @ C) v = Some (le_encode 4 (int v) @ C)"
  by (simp add: lpSetTotalBytes_def mem_write_def)

lemma lpShrinkToFit_image:
  assumes "alloc_ok al" "entries_ok es" "numele_ok n es"
  shows "\<exists>S'. lpShrinkToFit al (lp_image n es @ S) = Some (lp_image n es @ S')"
proof -
  have "lpGetTotalBytes (lp_image n es @ S) = Some (7 + length (lp_body es))"
    using assms by (simp add: lp_header entries_ok_def lp_repr_numele_lt)
  then show ?thesis
    using lp_realloc_prefix [OF assms(1), of "lp_image n es" "7 + length (lp_body es)" S]
    by (auto simp: lpShrinkToFit_def)
qed

text \<open>The common end of the deletions: \<open>d\<close> entries fewer, the new total, the shrink.\<close>

lemma lp_finish:
  fixes x :: int and S :: "byte list"
  assumes "alloc_ok al" "entries_ok es'" "numele_ok n es" "length es = length es' + d"
  defines "lp \<equiv> le_encode 4 x @ le_encode 2 (int n) @ lp_body es' @ LP_EOF # S"
  shows "\<exists>lp'. lp_repr lp' es' \<and> (do {
      lp \<leftarrow> lpSetTotalBytes lp (7 + length (lp_body es'));
      numele \<leftarrow> lpGetNumElements lp;
      lp \<leftarrow> (if numele \<noteq> LP_HDR_NUMELE_UNKNOWN then lpSetNumElements lp (int numele - int d) else Some lp);
      lpShrinkToFit al lp }) = Some lp'"
proof -
  define n' where "n' = (if n \<noteq> LP_HDR_NUMELE_UNKNOWN then n - d else n)"
  have n': "numele_ok n' es'" "n \<noteq> LP_HDR_NUMELE_UNKNOWN \<Longrightarrow> int n - int d = int n'"
    using assms(3,4) by (auto simp: n'_def numele_ok_def)
  obtain S' where S': "lpShrinkToFit al (lp_image n' es' @ S) = Some (lp_image n' es' @ S')"
    using lpShrinkToFit_image [OF assms(1,2) n'(1)] by blast
  have "(if n \<noteq> LP_HDR_NUMELE_UNKNOWN
      then lpSetNumElements (le_encode 4 (int (7 + length (lp_body es'))) @ le_encode 2 (int n) @ lp_body es' @ LP_EOF # S) (int n - int d)
      else Some (le_encode 4 (int (7 + length (lp_body es'))) @ le_encode 2 (int n) @ lp_body es' @ LP_EOF # S))
    = Some (lp_image n' es' @ S)"
  proof (cases "n = LP_HDR_NUMELE_UNKNOWN")
    case False
    then show ?thesis
      using n'(2) by (simp add: lp_hdr_set_num lp_image_def)
  qed (simp add: n'_def lp_image_def)
  then have "(do {
      lp \<leftarrow> lpSetTotalBytes lp (7 + length (lp_body es'));
      numele \<leftarrow> lpGetNumElements lp;
      lp \<leftarrow> (if numele \<noteq> LP_HDR_NUMELE_UNKNOWN then lpSetNumElements lp (int numele - int d) else Some lp);
      lpShrinkToFit al lp }) = Some (lp_image n' es' @ S')"
    using S' by (simp only: lp_def lp_hdr_set_total lp_hdr_get_num [OF lp_repr_numele_lt [OF assms(3)]] Option.bind.simps)
  moreover have "lp_repr (lp_image n' es' @ S') es'"
    using assms(2) n'(1) by (auto simp: lp_repr_def)
  ultimately show ?thesis
    by blast
qed

section \<open>Deletion of a range\<close>

lemma lpDeleteRange_skip_repr:
  assumes "lp_repr lp es"
  shows "i < length es \<Longrightarrow> lpDeleteRange_skip lp (7 + length (lp_body es)) num (lp_pos es i) d =
    Some (lp_pos es (min (i + num) (length es)), d + (min (i + num) (length es) - i))"
proof (induction num arbitrary: i d)
  case (Suc num)
  show ?case
  proof (cases "Suc i = length es")
    case True
    then show ?thesis
      using Suc.prems lpSkip_repr [OF assms Suc.prems] lp_repr_hd_eof [OF assms] by (simp flip: True)
  next
    case False
    then have "Suc i < length es"
      using Suc.prems by simp
    then show ?thesis
      using lpSkip_repr [OF assms Suc.prems] lp_repr_hd [OF assms, of "Suc i"]
        lpAssertValidEntry_repr [OF assms, of "Suc i"] Suc.IH [of "Suc i" "Suc d"]
      by simp
  qed
qed simp

lemma entries_ok_sub:
  assumes "entries_ok es" "set es' \<subseteq> set es" "length (lp_body es') \<le> length (lp_body es)"
  shows "entries_ok es'"
  using assms by (auto simp: entries_ok_def)

lemma lp_body_take_drop: "lp_body (take i es) @ lp_body (drop i es) = lp_body es"
  by (metis append_take_drop_id lp_body_simps(3))

lemma entries_ok_cut:
  assumes "entries_ok es"
  shows "entries_ok (take i es @ drop (i + k) es)"
proof (rule entries_ok_sub [OF assms])
  show "set (take i es @ drop (i + k) es) \<subseteq> set es"
    by (auto dest: in_set_takeD in_set_dropD)
  have "lp_body (take k (drop i es)) @ lp_body (drop (i + k) es) = lp_body (drop i es)"
    using lp_body_take_drop [of k "drop i es"] by (simp add: add.commute)
  then show "length (lp_body (take i es @ drop (i + k) es)) \<le> length (lp_body es)"
    using lp_body_take_drop [of i es] by (metis add_mono le_add2 length_append lp_body_simps(3) order_refl)
qed

lemma lpDeleteRangeWithEntry_repr:
  assumes repr: "lp_repr lp es" and al: "alloc_ok al" and i: "i < length es" and num: "0 < num"
  defines "es' \<equiv> take i es @ drop (i + num) es"
  shows "\<exists>lp'. lpDeleteRangeWithEntry al lp (lp_pos es i) num = Some (lp', lp_ptr es' i) \<and> lp_repr lp' es'"
proof -
  from repr obtain n slack where lp: "lp = lp_image n es @ slack" and n: "numele_ok n es" and ok: "entries_ok es"
    by (auto simp: lp_repr_def)
  define j where "j = min (i + num) (length es)"
  then have j: "i < j" "j \<le> length es" "drop (i + num) es = drop j es"
    using i num by (auto simp: min_def)
  define A where "A = lp_head n es i"
  define E where "E = lp_body (take (j - i) (drop i es))"
  define R where "R = lp_tail es j"
  have cut: "lp_image n es = A @ E @ R"
    using lp_image_cut [of n es i "j - i"] j by (simp add: A_def E_def R_def)
  have A: "length A = lp_pos es i"
    by (simp add: A_def length_lp_head)
  have tail: "lp_pos es j = length A + length E"
  proof -
    have "take j es = take i es @ take (j - i) (drop i es)"
      using j(1) by (metis le_add_diff_inverse less_imp_le take_add)
    then show ?thesis
      by (simp add: lp_pos_def A E_def)
  qed
  have tot: "7 + length (lp_body es) = length A + length E + length R"
    using length_lp_image [of n es] by (simp add: cut)
  obtain S where mv: "mem_move lp (length A) (length A + length E) (length R) = Some (A @ R @ S)"
    using mem_move_split [of A "E @ R @ slack" lp 0 "length R" "length A + length E"] by (auto simp: lp cut)
  have es': "7 + length (lp_body es') = length A + length R" "length es = length es' + (j - i)"
    using j by (simp_all add: es'_def A lp_pos_def R_def lp_tail_def)
  have ok': "entries_ok es'"
    unfolding es'_def by (rule entries_ok_cut [OF ok])
  have buf: "A @ R @ S = le_encode 4 (int (7 + length (lp_body es))) @ le_encode 2 (int n) @ lp_body es' @ LP_EOF # S"
    by (simp add: A_def lp_head_def R_def lp_tail_def es'_def j)
  obtain lp' where lp': "lp_repr lp' es'" and fin: "(do {
      lp \<leftarrow> lpSetTotalBytes (A @ R @ S) (7 + length (lp_body es'));
      numele \<leftarrow> lpGetNumElements lp;
      lp \<leftarrow> (if numele \<noteq> LP_HDR_NUMELE_UNKNOWN then lpSetNumElements lp (int numele - int (j - i)) else Some lp);
      lpShrinkToFit al lp }) = Some lp'"
    using lp_finish [OF al ok' n es'(2), of "int (7 + length (lp_body es))" S] unfolding buf by blast
  have "lp_pos es i = lp_pos es' i" "i \<le> length es'"
    using i by (simp_all add: lp_pos_def es'_def)
  then have hd: "mem_get lp' (lp_pos es i) = Some (if i < length es' then hd (es' ! i) else LP_EOF)
      \<and> (i < length es' \<longrightarrow> hd (es' ! i) \<noteq> LP_EOF)"
    using lp_repr_hd [OF lp', of i] lp_repr_hd_eof [OF lp'] by (cases "i = length es'") auto
  have sk: "lpDeleteRange_skip lp (7 + length (lp_body es)) num (lp_pos es i) 0 = Some (lp_pos es j, j - i)"
    using lpDeleteRange_skip_repr [OF repr i, of num 0] by (simp add: j_def)
  have "lpDeleteRangeWithEntry al lp (length A) num = do {
      lp \<leftarrow> (do {
        lp \<leftarrow> lpSetTotalBytes (A @ R @ S) (7 + length (lp_body es'));
        numele \<leftarrow> lpGetNumElements lp;
        lp \<leftarrow> (if numele \<noteq> LP_HDR_NUMELE_UNKNOWN then lpSetNumElements lp (int numele - int (j - i)) else Some lp);
        lpShrinkToFit al lp });
      b \<leftarrow> mem_get lp (length A);
      Some (lp, if b = LP_EOF then None else Some (length A)) }"
    using num sk [folded A] mv lp_repr_bytes [OF repr] es'(1)
    by (simp add: lpDeleteRangeWithEntry_def lpBytes_def check_def tail tot bind_assoc)
  then show ?thesis
    unfolding A using fin hd lp' \<open>lp_pos es i = lp_pos es' i\<close> by (auto simp: lp_ptr_def)
qed

lemma lpDeleteRange_tail:
  assumes repr: "lp_repr lp es" and al: "alloc_ok al" and i: "i < length es" "i < LP_HDR_NUMELE_UNKNOWN"
  shows "\<exists>lp'. lp_repr lp' (take i es) \<and> (do {
      lp \<leftarrow> mem_put lp (lp_pos es i) LP_EOF;
      lp \<leftarrow> lpSetTotalBytes lp (lp_pos es i + 1);
      lp \<leftarrow> lpSetNumElements lp (int i);
      lpShrinkToFit al lp }) = Some lp'"
proof -
  from repr obtain n slack where lp: "lp = lp_image n es @ slack" and ok: "entries_ok es"
    by (auto simp: lp_repr_def)
  define A where "A = lp_head n es i"
  have "lp_image n es = A @ lp_tail es i"
    using lp_image_cut [of n es i 0] by (simp add: A_def)
  then obtain x T where lpx: "lp = A @ x # T"
    by (cases "lp_tail es i @ slack") (auto simp: lp lp_tail_def)
  have A: "length A = lp_pos es i"
    by (simp add: A_def length_lp_head)
  have put: "mem_put lp (lp_pos es i) LP_EOF = Some (A @ LP_EOF # T)"
    using A by (simp add: lpx mem_put_def list_update_append)
  have buf: "A @ LP_EOF # T = le_encode 4 (int (7 + length (lp_body es))) @ le_encode 2 (int n) @ lp_body (take i es) @ LP_EOF # T"
    by (simp add: A_def lp_head_def)
  have ok': "entries_ok (take i es)" "numele_ok i (take i es)"
    using entries_ok_cut [OF ok, of i "length es"] i by (simp_all add: numele_ok_def)
  obtain S' where "lpShrinkToFit al (lp_image i (take i es) @ T) = Some (lp_image i (take i es) @ S')"
    using lpShrinkToFit_image [OF al ok'] by blast
  moreover have im: "le_encode 4 (int (lp_pos es i + 1)) @ le_encode 2 (int i) @ lp_body (take i es) @ LP_EOF # T = lp_image i (take i es) @ T"
    by (simp add: lp_image_def lp_pos_def)
  moreover have "lp_repr (lp_image i (take i es) @ S') (take i es)"
    using ok' by (auto simp: lp_repr_def)
  ultimately show ?thesis
    unfolding put Option.bind.simps buf lp_hdr_set_total lp_hdr_set_num im by blast
qed

lemma lpDeleteRange_repr:
  assumes repr: "lp_repr lp es" and al: "alloc_ok al"
  shows "\<exists>lp'. lpDeleteRange al lp index num = Some lp' \<and>
    lp_repr lp' (case seek_index (length es) index of Some i \<Rightarrow> take i es @ drop (i + num) es | None \<Rightarrow> es)"
proof -
  from repr obtain n slack where lp: "lp = lp_image n es @ slack" and n: "numele_ok n es" and ok: "entries_ok es"
    by (auto simp: lp_repr_def)
  have get: "lpGetNumElements lp = Some n"
    using ok n by (simp add: lp lp_header entries_ok_def lp_repr_numele_lt)
  show ?thesis
  proof (cases "num = 0 \<or> seek_index (length es) index = None")
    case True
    then show ?thesis
      using get repr lpSeek_repr [OF repr, of index] by (auto simp: lpDeleteRange_def split: option.split)
  next
    case False
    then obtain i where idx: "seek_index (length es) index = Some i" and num: "0 < num"
      by auto
    then have i: "i < length es" "int i = (if index < 0 then int (length es) + index else index)"
      by (auto simp: seek_index_def Let_def split: if_splits)
    have seek: "lpSeek lp index = Some (Some (lp_pos es i))"
      using lpSeek_repr [OF repr, of index] idx by simp
    show ?thesis
    proof (cases "n \<noteq> LP_HDR_NUMELE_UNKNOWN \<and> length es - i \<le> num")
      case True
      then have len: "n = length es" "n < LP_HDR_NUMELE_UNKNOWN" "drop (i + num) es = []"
        using n i by (auto simp: numele_ok_def)
      have "(int n - int i) mod 2 ^ 64 = int (length es - i)"
        using len i(1) by (simp add: of_nat_diff)
      then have "lpDeleteRange al lp index num = do {
          lp \<leftarrow> mem_put lp (lp_pos es i) LP_EOF;
          lp \<leftarrow> lpSetTotalBytes lp (lp_pos es i + 1);
          lp \<leftarrow> lpSetNumElements lp (int i);
          lpShrinkToFit al lp }"
        using get num seek len i True by (simp add: lpDeleteRange_def Let_def)
      then show ?thesis
        using lpDeleteRange_tail [OF repr al, of i] i len idx by auto
    next
      case False
      have "lpDeleteRange al lp index num = map_option fst (lpDeleteRangeWithEntry al lp (lp_pos es i) num)"
      proof (cases "n = LP_HDR_NUMELE_UNKNOWN")
        case True
        then show ?thesis
          using get num seek by (simp add: lpDeleteRange_def Let_def)
      next
        case known: False
        with n have len: "n = length es" "n < LP_HDR_NUMELE_UNKNOWN"
          by (auto simp: numele_ok_def)
        have "\<not> (int n - int i) mod 2 ^ 64 \<le> int num"
          using False known len i(1) by (simp add: of_nat_diff)
        then show ?thesis
          using get num seek len i by (simp add: lpDeleteRange_def Let_def)
      qed
      then show ?thesis
        using lpDeleteRangeWithEntry_repr [OF repr al i(1) num] idx by auto
    qed
  qed
qed

section \<open>Merge\<close>

lemma lp_repr_image: "lp_repr lp es \<Longrightarrow> \<exists>n slack. numele_ok n es \<and> lp = lp_image n es @ slack"
  by (simp add: lp_repr_def)

lemma lp_merged:
  assumes "entries_ok es" "length es = l"
  defines "n \<equiv> if l < 65535 then l else 65535"
  shows "\<exists>t lp'. lpSetNumElements (le_encode 4 x @ le_encode 2 y @ lp_body es @ LP_EOF # S) (int n) = Some t \<and>
    lpSetTotalBytes t (7 + length (lp_body es)) = Some lp' \<and> lp_repr lp' es"
proof -
  have "lp_repr (lp_image n es @ S) es"
    using assms by (auto simp: lp_repr_def numele_ok_def)
  then show ?thesis
    by (simp add: lp_hdr_set_num lp_hdr_set_total lp_image_def)
qed

lemma lpMerge_write:
  assumes "alloc_ok al" "b1 = 7 + length (lp_body es1)" "b2 = 7 + length (lp_body es2)"
  shows "\<exists>S. lpMerge_copy True (lp_realloc al (lp_image n1 es1 @ s1) (b1 + b2 - LP_HDR_SIZE - 1)) b1 (lp_image n2 es2 @ s2) b2
    = Some (le_encode 4 (int b1) @ le_encode 2 (int n1) @ lp_body (es1 @ es2) @ LP_EOF # S)"
    "\<exists>S. lpMerge_copy False (lp_realloc al (lp_image n2 es2 @ s2) (b1 + b2 - LP_HDR_SIZE - 1)) b2 (lp_image n1 es1 @ s1) b1
    = Some (le_encode 4 (int b1) @ le_encode 2 (int n1) @ lp_body (es1 @ es2) @ LP_EOF # S)"
proof -
  let ?H1 = "le_encode 4 (int b1) @ le_encode 2 (int n1)" and ?H2 = "le_encode 4 (int b2) @ le_encode 2 (int n2)"
  have im: "lp_image n1 es1 = ?H1 @ lp_body es1 @ [LP_EOF]" "lp_image n2 es2 = ?H2 @ lp_body es2 @ [LP_EOF]"
    by (simp_all add: lp_image_def assms(2,3))
  have rd1: "mem_read (lp_image n1 es1 @ s1) 0 (b1 - 1) = Some (?H1 @ lp_body es1)"
    using mem_read_append [of "[]" "?H1 @ lp_body es1" "LP_EOF # s1"] by (simp add: im assms(2))
  have rd2: "mem_read (lp_image n2 es2 @ s2) LP_HDR_SIZE (b2 - LP_HDR_SIZE) = Some (lp_body es2 @ [LP_EOF])"
    using mem_read_append [of ?H2 "lp_body es2 @ [LP_EOF]" s2] by (simp add: im assms(3))
  let ?m = "b1 + b2 - LP_HDR_SIZE - 1"
  obtain S1 where S1: "lp_realloc al (lp_image n1 es1 @ s1) ?m = lp_image n1 es1 @ S1" "?m \<le> length (lp_image n1 es1 @ S1)"
    using lp_realloc_prefix [OF assms(1), of "lp_image n1 es1" ?m s1] by (auto simp: assms(2,3))
  then have "length (lp_body es2) \<le> length S1"
    by (simp add: assms(2,3))
  then obtain X T where X: "S1 = X @ T" "length X = length (lp_body es2)"
    by (metis append_take_drop_id length_take min_absorb2)
  have "mem_write (lp_image n1 es1 @ S1) (b1 - 1) (lp_body es2 @ [LP_EOF]) =
      Some (?H1 @ lp_body es1 @ (lp_body es2 @ [LP_EOF]) @ T)"
    using mem_write_append [of "LP_EOF # X" "lp_body es2 @ [LP_EOF]" "?H1 @ lp_body es1" T] X
    by (simp add: im assms(2))
  then show "\<exists>S. lpMerge_copy True (lp_realloc al (lp_image n1 es1 @ s1) ?m) b1 (lp_image n2 es2 @ s2) b2
    = Some (le_encode 4 (int b1) @ le_encode 2 (int n1) @ lp_body (es1 @ es2) @ LP_EOF # S)"
    unfolding lpMerge_copy_def rd2 S1(1) Option.bind.simps by (simp add: check_def assms(2,3))
  obtain S2 where S2: "lp_realloc al (lp_image n2 es2 @ s2) ?m = lp_image n2 es2 @ S2" "?m \<le> length (lp_image n2 es2 @ S2)"
    using lp_realloc_prefix [OF assms(1), of "lp_image n2 es2" ?m s2] by (auto simp: assms(2,3))
  have "take (length (lp_body es2 @ [LP_EOF])) (drop LP_HDR_SIZE (lp_image n2 es2 @ S2)) = lp_body es2 @ [LP_EOF]"
    by (simp add: im)
  then obtain Y T' where Y: "length Y = b1 - 1" and mv: "mem_move (lp_image n2 es2 @ S2) (b1 - 1) LP_HDR_SIZE (b2 - LP_HDR_SIZE) =
      Some (Y @ lp_body es2 @ [LP_EOF] @ T')"
    using mem_move_split [of "[]" _ "lp_image n2 es2 @ S2" "b1 - 1" "b2 - LP_HDR_SIZE" LP_HDR_SIZE] S2(2)
    by (auto simp: assms(2,3))
  have "mem_write (Y @ lp_body es2 @ [LP_EOF] @ T') 0 (?H1 @ lp_body es1) = Some ((?H1 @ lp_body es1) @ lp_body es2 @ [LP_EOF] @ T')"
    using mem_write_append [of Y "?H1 @ lp_body es1" "[]" "lp_body es2 @ [LP_EOF] @ T'"] Y by (simp add: assms(2))
  then show "\<exists>S. lpMerge_copy False (lp_realloc al (lp_image n2 es2 @ s2) ?m) b2 (lp_image n1 es1 @ s1) b1
    = Some (le_encode 4 (int b1) @ le_encode 2 (int n1) @ lp_body (es1 @ es2) @ LP_EOF # S)"
    unfolding lpMerge_copy_def S2(1) mv rd1 Option.bind.simps if_False by (simp add: check_def assms(2,3))
qed

lemma lpMerge_repr:
  assumes "lp_repr a es1" "lp_repr b es2" "alloc_ok al" "7 + length (lp_body (es1 @ es2)) < UINT32_MAX"
  shows "\<exists>lp'. lp_repr lp' (es1 @ es2) \<and> lpMerge al (Some a) (Some b) =
    Some (Some (if length (lp_body es1) \<ge> length (lp_body es2) then (Some lp', None) else (None, Some lp')))"
proof -
  let ?b1 = "7 + length (lp_body es1)" and ?b2 = "7 + length (lp_body es2)"
  obtain a' where a': "lpLength a = Some (length es1, a')" "lp_repr a' es1"
    using lpLength_repr [OF assms(1)] by blast
  obtain b' where b': "lpLength b = Some (length es2, b')" "lp_repr b' es2"
    using lpLength_repr [OF assms(2)] by blast
  obtain n1 s1 where i1: "a' = lp_image n1 es1 @ s1"
    using lp_repr_image [OF a'(2)] by blast
  obtain n2 s2 where i2: "b' = lp_image n2 es2 @ s2"
    using lp_repr_image [OF b'(2)] by blast
  have ok: "entries_ok (es1 @ es2)"
    using assms(1,2,4) by (auto simp: lp_repr_def entries_ok_def)
  let ?m = "?b1 + ?b2 - LP_HDR_SIZE - 1"
  let ?n = "if length es1 + length es2 < 65535 then length es1 + length es2 else 65535"
  have m: "7 + length (lp_body (es1 @ es2)) = ?m"
    by simp
  note fin = lp_merged [OF ok length_append, unfolded m]
  have small: "?m < UINT32_MAX" and large: "LP_HDR_SIZE + 1 \<le> ?b1 + ?b2"
    using assms(4) by simp_all
  show ?thesis
  proof (cases "?b1 \<ge> ?b2")
    case True
    obtain S where w: "lpMerge_copy True (lp_realloc al a' ?m) ?b1 b' ?b2 =
        Some (le_encode 4 (int ?b1) @ le_encode 2 (int n1) @ lp_body (es1 @ es2) @ LP_EOF # S)"
      using lpMerge_write(1) [OF assms(3) refl refl] unfolding i1 i2 by blast
    obtain t lp' where t: "lpSetNumElements (le_encode 4 (int ?b1) @ le_encode 2 (int n1) @ lp_body (es1 @ es2) @ LP_EOF # S) (int ?n) = Some t"
      "lpSetTotalBytes t ?m = Some lp'" "lp_repr lp' (es1 @ es2)"
      using fin by blast
    have "lpMerge al (Some a) (Some b) = Some (Some (Some lp', None))"
      by (simp only: lpMerge_def lpBytes_def lp_repr_bytes [OF assms(1)] lp_repr_bytes [OF assms(2)] a'(1) b'(1)
          Option.bind.simps prod.case option.case Let_def True small large if_True if_False w t check_def simp_thms)
    with True t(3) show ?thesis
      by auto
  next
    case False
    obtain S where w: "lpMerge_copy False (lp_realloc al b' ?m) ?b2 a' ?b1 =
        Some (le_encode 4 (int ?b1) @ le_encode 2 (int n1) @ lp_body (es1 @ es2) @ LP_EOF # S)"
      using lpMerge_write(2) [OF assms(3) refl refl] unfolding i1 i2 by blast
    obtain t lp' where t: "lpSetNumElements (le_encode 4 (int ?b1) @ le_encode 2 (int n1) @ lp_body (es1 @ es2) @ LP_EOF # S) (int ?n) = Some t"
      "lpSetTotalBytes t ?m = Some lp'" "lp_repr lp' (es1 @ es2)"
      using fin by blast
    have "lpMerge al (Some a) (Some b) = Some (Some (None, Some lp'))"
      by (simp only: lpMerge_def lpBytes_def lp_repr_bytes [OF assms(1)] lp_repr_bytes [OF assms(2)] a'(1) b'(1)
          Option.bind.simps prod.case option.case Let_def False small large if_True if_False w t check_def simp_thms)
    with False t(3) show ?thesis
      by auto
  qed
qed

section \<open>Deletion of a batch\<close>

text \<open>The entries from the first deleted index on that are not deleted.\<close>

definition kept :: "byte list list \<Rightarrow> nat list \<Rightarrow> byte list list" where
  "kept es js = map ((!) es) (filter (\<lambda>k. k \<notin> set js) [hd js..<length es])"

lemma map_nth_upt: "i \<le> j \<Longrightarrow> j \<le> length es \<Longrightarrow> map ((!) es) [i..<j] = take (j - i) (drop i es)"
  by (intro nth_equalityI) auto

lemma kept_single: "j < length es \<Longrightarrow> kept es [j] = drop (Suc j) es"
proof -
  assume j: "j < length es"
  then have "filter (\<lambda>k. k \<notin> set [j]) [j..<length es] = [Suc j..<length es]"
    by (auto simp: upt_conv_Cons intro: filter_True)
  then show ?thesis
    using map_nth_upt [of "Suc j" "length es" es] j by (simp add: kept_def)
qed

lemma kept_Cons:
  assumes "sorted_wrt (<) (j # j' # js)" "j' < length es"
  shows "kept es (j # j' # js) = take (j' - Suc j) (drop (Suc j) es) @ kept es (j' # js)"
proof -
  have jj: "j < j'" "\<And>k. k \<in> set js \<Longrightarrow> j' < k"
    using assms(1) by auto
  have "[j..<length es] = j # [Suc j..<j'] @ [j'..<length es]"
    using jj(1) assms(2) upt_add_eq_append [of "Suc j" j' "length es - j'"] by (simp add: upt_conv_Cons)
  moreover have "filter (\<lambda>k. k \<notin> set (j # j' # js)) [Suc j..<j'] = [Suc j..<j']"
    using jj by (intro filter_True) fastforce
  moreover have "filter (\<lambda>k. k \<notin> set (j # j' # js)) [j'..<length es] = filter (\<lambda>k. k \<notin> set (j' # js)) [j'..<length es]"
    using jj(1) by (intro filter_cong) auto
  ultimately show ?thesis
    using map_nth_upt [of "Suc j" j' es] jj(1) assms(2) by (simp add: kept_def)
qed

lemma lp_tail_Cons: "j < length es \<Longrightarrow> lp_tail es j = entry_bytes (es ! j) @ lp_tail es (Suc j)"
  by (simp add: lp_tail_def Cons_nth_drop_Suc [symmetric])

lemma lp_tail_cut: "lp_tail es i = lp_body (take k (drop i es)) @ lp_tail es (i + k)"
  using lp_body_take_drop [of k "drop i es"] by (simp add: lp_tail_def add.commute)

lemma length_lp_tail: "lp_pos es j + length (lp_tail es j) = 7 + length (lp_body es)"
proof -
  have "length (lp_body (take j es)) + length (lp_body (drop j es)) = length (lp_body es)"
    by (metis length_append lp_body_take_drop)
  then show ?thesis
    by (simp add: lp_pos_def lp_tail_def)
qed

declare lpBatchDelete_loop.simps(2) [simp del]

lemma lpBatchDelete_loop_adjacent:
  "mem_get lp skip = Some b \<Longrightarrow> b \<noteq> LP_EOF \<Longrightarrow> lpSkip lp skip = Some q \<Longrightarrow>
    lpBatchDelete_loop lp lp_end dst (skip # q # ps) = lpBatchDelete_loop lp lp_end dst (q # ps)"
  by (subst lpBatchDelete_loop.simps(2)) (simp add: check_def)

lemma lpBatchDelete_loop_move:
  "mem_get lp skip = Some b \<Longrightarrow> b \<noteq> LP_EOF \<Longrightarrow> lpSkip lp skip = Some ks \<Longrightarrow> ks < q \<Longrightarrow>
    mem_move lp dst ks (q - ks) = Some lp' \<Longrightarrow>
    lpBatchDelete_loop lp lp_end dst (skip # q # ps) = lpBatchDelete_loop lp' lp_end (dst + (q - ks)) (q # ps)"
  by (subst lpBatchDelete_loop.simps(2)) (simp add: check_def)

lemma lpBatchDelete_loop_last:
  "mem_get lp skip = Some b \<Longrightarrow> b \<noteq> LP_EOF \<Longrightarrow> lpSkip lp skip = Some ks \<Longrightarrow> ks < lp_end \<Longrightarrow>
    mem_move lp dst ks (lp_end - ks) = Some lp' \<Longrightarrow>
    lpBatchDelete_loop lp lp_end dst [skip] = Some (lp', dst + (lp_end - ks))"
  by (subst lpBatchDelete_loop.simps(2)) (simp add: check_def)

lemma lpBatchDelete_loop_repr:
  assumes ok: "\<forall>e\<in>set es. entry_ok e"
  shows "sorted_wrt (<) (j # js) \<Longrightarrow> \<forall>i\<in>set (j # js). i < length es \<Longrightarrow> length (A @ Y) = lp_pos es j \<Longrightarrow>
    \<exists>S. lpBatchDelete_loop (A @ Y @ lp_tail es j @ slack) (7 + length (lp_body es)) (length A) (map (lp_pos es) (j # js)) =
      Some (A @ lp_body (kept es (j # js)) @ LP_EOF # S, length A + length (lp_body (kept es (j # js))) + 1)"
proof (induction js arbitrary: j A Y)
  case Nil
  then have j: "j < length es" "entry_ok (es ! j)"
    using ok by auto
  let ?buf = "A @ Y @ lp_tail es j @ slack"
  have buf: "?buf = (A @ Y) @ entry_bytes (es ! j) @ lp_tail es (Suc j) @ slack"
    by (simp add: lp_tail_Cons [OF j(1)])
  have pos: "lp_pos es (Suc j) = length ((A @ Y) @ entry_bytes (es ! j))"
    using Nil.prems(3) j(1) by (simp add: lp_pos_Suc)
  have "lpSkip ?buf (lp_pos es j) = Some (lp_pos es (Suc j))"
    unfolding buf using lpSkip_entry [OF j(2), of "A @ Y"] Nil.prems(3) pos by simp
  moreover have "mem_get ?buf (lp_pos es j) = Some (hd (es ! j))" "hd (es ! j) \<noteq> LP_EOF"
    unfolding buf using lp_entry_hd [OF j(2), of "A @ Y"] Nil.prems(3) by simp_all
  moreover have len: "7 + length (lp_body es) - lp_pos es (Suc j) = length (lp_tail es (Suc j))"
    using length_lp_tail [of es "Suc j"] by simp
  moreover have "take (length (lp_tail es (Suc j))) (drop (lp_pos es (Suc j)) ?buf) = lp_tail es (Suc j)"
    unfolding buf pos by simp
  then obtain S where "mem_move ?buf (length A) (lp_pos es (Suc j)) (length (lp_tail es (Suc j))) = Some (A @ lp_tail es (Suc j) @ S)"
    using mem_move_split [of A "Y @ lp_tail es j @ slack" ?buf 0 "length (lp_tail es (Suc j))" "lp_pos es (Suc j)"] pos
    unfolding buf by auto
  ultimately show ?case
    using lp_pos_lt_total [of es "Suc j"] kept_single [OF j(1)]
    by (auto simp: lpBatchDelete_loop_last lp_tail_def)
next
  case (Cons j' js)
  then have j: "j < length es" "entry_ok (es ! j)" "j < j'" "j' < length es"
    using ok by auto
  let ?buf = "A @ Y @ lp_tail es j @ slack" and ?e = "entry_bytes (es ! j)"
  define M where "M = lp_body (take (j' - Suc j) (drop (Suc j) es))"
  have tail: "lp_tail es j = ?e @ M @ lp_tail es j'"
    using lp_tail_Cons [OF j(1)] lp_tail_cut [of es "Suc j" "j' - Suc j"] j(3) by (simp add: M_def)
  have pos: "lp_pos es (Suc j) = length (A @ Y @ ?e)"
    using Cons.prems(3) j(1) by (simp add: lp_pos_Suc)
  have pos': "lp_pos es j' = length (A @ Y @ ?e @ M)"
  proof -
    have "take j' es = take (Suc j) es @ take (j' - Suc j) (drop (Suc j) es)"
      using j(3) by (metis Suc_leI le_add_diff_inverse take_add)
    then have "lp_pos es j' = lp_pos es (Suc j) + length M"
      by (simp add: lp_pos_def M_def)
    then show ?thesis
      using pos by simp
  qed
  have skip: "lpSkip ?buf (lp_pos es j) = Some (lp_pos es (Suc j))"
    using lpSkip_entry [OF j(2), of "A @ Y" "M @ lp_tail es j' @ slack"] Cons.prems(3) pos by (simp add: tail)
  have get: "mem_get ?buf (lp_pos es j) = Some (hd (es ! j))" "hd (es ! j) \<noteq> LP_EOF"
    using lp_entry_hd [OF j(2), of "A @ Y" "M @ lp_tail es j' @ slack"] Cons.prems(3) by (simp_all add: tail)
  note kept = kept_Cons [OF Cons.prems(1) j(4)]
  have IH: "\<exists>S. lpBatchDelete_loop (A' @ Y' @ lp_tail es j' @ slack) (7 + length (lp_body es)) (length A') (map (lp_pos es) (j' # js)) =
      Some (A' @ lp_body (kept es (j' # js)) @ LP_EOF # S, length A' + length (lp_body (kept es (j' # js))) + 1)"
    if "length (A' @ Y') = lp_pos es j'" for A' Y'
    using Cons.IH [of j' A' Y'] Cons.prems that by simp
  show ?case
  proof (cases "Suc j = j'")
    case True
    then have "M = []" "kept es (j # j' # js) = kept es (j' # js)"
      using kept by (simp_all add: M_def)
    then show ?thesis
      using IH [of A "Y @ ?e"] pos' lpBatchDelete_loop_adjacent [OF get skip] True by (simp add: tail)
  next
    case False
    then have "lp_pos es (Suc j) < lp_pos es j'" "lp_pos es j' - lp_pos es (Suc j) = length M"
      using lp_pos_strict [of "Suc j" j' es] j pos pos' by simp_all
    moreover define Y' where "Y' = take (length Y + length ?e) (drop (length M) (Y @ ?e @ M))"
    have "mem_move ?buf (length A) (lp_pos es (Suc j)) (length M) = Some (take (length A) ?buf @ M @ drop (length A + length M) ?buf)"
      using pos by (simp add: mem_move_Some tail)
    moreover have "drop (length A + length M) ?buf = Y' @ lp_tail es j' @ slack" "length Y' = length Y + length ?e"
      by (simp_all add: Y'_def tail)
    ultimately have "mem_move ?buf (length A) (lp_pos es (Suc j)) (length M) = Some ((A @ M) @ Y' @ lp_tail es j' @ slack)"
      by simp
    from lpBatchDelete_loop_move [OF get skip \<open>lp_pos es (Suc j) < lp_pos es j'\<close>, of "length A",
        unfolded \<open>lp_pos es j' - lp_pos es (Suc j) = length M\<close>, OF this]
    show ?thesis
      using IH [of "A @ M" Y'] pos' \<open>length Y' = _\<close> kept by (simp add: M_def add.assoc)
  qed
qed

text \<open>The entries left by the deletion of the indexes \<open>js\<close>.\<close>

definition delete_indexes :: "nat list \<Rightarrow> 'a list \<Rightarrow> 'a list" where
  "delete_indexes js es = map ((!) es) (filter (\<lambda>k. k \<notin> set js) [0..<length es])"

lemma delete_indexes_kept:
  assumes "sorted_wrt (<) (j # js)" "j < length es"
  shows "delete_indexes (j # js) es = take j es @ kept es (j # js)"
proof -
  have "[0..<length es] = [0..<j] @ [j..<length es]"
    using upt_add_eq_append [of 0 j "length es - j"] assms(2) by simp
  moreover have "filter (\<lambda>k. k \<notin> set (j # js)) [0..<j] = [0..<j]"
    using assms(1) by (intro filter_True) fastforce
  ultimately show ?thesis
    using map_nth_upt [of 0 j es] assms(2) by (simp add: delete_indexes_def kept_def)
qed

lemma length_delete_indexes:
  assumes "distinct js" "\<forall>i\<in>set js. i < length es"
  shows "length es = length (delete_indexes js es) + length js"
proof -
  have "length (filter (\<lambda>k. k \<in> set js) [0..<length es]) = card (set js)"
    using assms(2) by (subst distinct_length_filter) (auto intro!: arg_cong [where f = card])
  then show ?thesis
    using assms(1) sum_length_filter_compl [of "\<lambda>k. k \<in> set js" "[0..<length es]"]
    by (simp add: delete_indexes_def distinct_card)
qed

lemma length_lp_body_le:
  "set ks \<subseteq> {..<length es} \<Longrightarrow> distinct ks \<Longrightarrow> length (lp_body (map ((!) es) ks)) \<le> length (lp_body es)"
proof -
  assume ks: "set ks \<subseteq> {..<length es}" "distinct ks"
  have sum: "length (lp_body es) = (\<Sum>k<length es. length (entry_bytes (es ! k)))" for es
    by (simp add: lp_body_def length_concat sum_list_sum_nth atLeast0LessThan)
  have "length (lp_body (map ((!) es) ks)) = (\<Sum>k\<in>set ks. length (entry_bytes (es ! k)))"
    using ks(2) by (simp add: lp_body_def length_concat comp_def sum_list_distinct_conv_sum_set)
  also have "\<dots> \<le> (\<Sum>k<length es. length (entry_bytes (es ! k)))"
    using ks(1) by (intro sum_mono2) auto
  finally show ?thesis
    by (simp add: sum [symmetric])
qed

lemma entries_ok_delete:
  assumes "entries_ok es"
  shows "entries_ok (delete_indexes js es)"
  unfolding delete_indexes_def
  by (rule entries_ok_sub [OF assms]) (auto intro!: length_lp_body_le)

lemma lpBatchDelete_repr:
  assumes repr: "lp_repr lp es" and al: "alloc_ok al" and sorted: "sorted_wrt (<) js" and js: "\<forall>i\<in>set js. i < length es"
  shows "\<exists>lp'. lpBatchDelete al lp (map (lp_pos es) js) = Some lp' \<and> lp_repr lp' (delete_indexes js es)"
proof (cases js)
  case Nil
  then show ?thesis
    using repr by (auto simp: lpBatchDelete_def delete_indexes_def map_nth)
next
  case (Cons j js')
  from repr obtain n slack where lp: "lp = lp_image n es @ slack" and n: "numele_ok n es" and ok: "entries_ok es"
    by (auto simp: lp_repr_def)
  let ?es' = "delete_indexes js es"
  define A where "A = lp_head n es j"
  have A: "length A = lp_pos es j"
    by (simp add: A_def length_lp_head)
  have lpA: "lp = A @ [] @ lp_tail es j @ slack"
    using lp_image_cut [of n es j 0] by (simp add: lp A_def)
  have es': "?es' = take j es @ kept es js"
    using delete_indexes_kept [of j js' es] sorted js Cons by simp
  obtain S where loop: "lpBatchDelete_loop lp (7 + length (lp_body es)) (length A) (map (lp_pos es) js) =
      Some (A @ lp_body (kept es js) @ LP_EOF # S, length A + length (lp_body (kept es js)) + 1)"
    using lpBatchDelete_loop_repr [of es j js' A "[]" slack] ok sorted js Cons A lpA by (auto simp: entries_ok_def)
  have tot: "length A + length (lp_body (kept es js)) + 1 = 7 + length (lp_body ?es')"
    by (simp add: es' A lp_pos_def)
  have buf: "A @ lp_body (kept es js) @ LP_EOF # S =
      le_encode 4 (int (7 + length (lp_body es))) @ le_encode 2 (int n) @ lp_body ?es' @ LP_EOF # S"
    by (simp add: A_def lp_head_def es')
  have "distinct js"
    using sorted by (simp add: strict_sorted_iff)
  then obtain lp' where lp': "lp_repr lp' ?es'" and fin: "(do {
      lp \<leftarrow> lpSetTotalBytes (A @ lp_body (kept es js) @ LP_EOF # S) (7 + length (lp_body ?es'));
      numele \<leftarrow> lpGetNumElements lp;
      lp \<leftarrow> (if numele \<noteq> LP_HDR_NUMELE_UNKNOWN then lpSetNumElements lp (int numele - int (length js)) else Some lp);
      lpShrinkToFit al lp }) = Some lp'"
    using lp_finish [OF al entries_ok_delete [OF ok] n length_delete_indexes, of js "int (7 + length (lp_body es))" S] js
    unfolding buf by blast
  have last: "mem_get lp (7 + length (lp_body es) - 1) = Some LP_EOF"
    using lp_repr_hd_eof [OF repr] by (simp add: lp_pos_end)
  have last': "mem_get (A @ lp_body (kept es js) @ LP_EOF # S) (7 + length (lp_body ?es') - 1) = Some LP_EOF"
    using mem_get_append [of "A @ lp_body (kept es js)" LP_EOF S] by (simp flip: tot)
  have ps: "(map (lp_pos es) js = []) = False" "hd (map (lp_pos es) js) = length A" "length (map (lp_pos es) js) = length js"
    using Cons A by simp_all
  have total: "nat (int t - (int t - int d)) = d" for t d
    by simp
  have positive: "(0 < 7 + length (lp_body fs)) = True" "(LP_EOF = LP_EOF) = True" for fs
    by simp_all
  have "lpBatchDelete al lp (map (lp_pos es) js) = (do {
      lp \<leftarrow> lpSetTotalBytes (A @ lp_body (kept es js) @ LP_EOF # S) (7 + length (lp_body ?es'));
      numele \<leftarrow> lpGetNumElements lp;
      lp \<leftarrow> (if numele \<noteq> LP_HDR_NUMELE_UNKNOWN then lpSetNumElements lp (int numele - int (length js)) else Some lp);
      lpShrinkToFit al lp })"
    by (simp only: lpBatchDelete_def ps if_False if_True lp_repr_bytes [OF repr] Option.bind.simps last loop [unfolded tot]
        prod.case Let_def total last' check_def positive)
  with fin lp' show ?thesis
    by auto
qed

section \<open>Properties\<close>

text \<open>deleting \<open>num\<close> entries from an index, negative from the end, never faults and leaves a
  well-formed listpack of the entries before and behind the range; an index out of range leaves
  the listpack as it is. This covers the shortcut that only moves the end marker and the walk.\<close>
theorem lpDeleteRange_correct:
  assumes "lp_repr lp es" "alloc_ok al"
  shows "\<exists>lp'. lpDeleteRange al lp index num = Some lp' \<and>
    lp_repr lp' (case seek_index (length es) index of Some i \<Rightarrow> take i es @ drop (i + num) es | None \<Rightarrow> es)"
  using assms by (rule lpDeleteRange_repr)

theorem lpDeleteRange_correct_witness:
  "\<exists>lp'. lpDeleteRange plain_alloc (lp_image 2 lp_sample_entries) (- 2) 1 = Some lp' \<and> lp_repr lp' [[0x82, 97, 98]]"
  using lpDeleteRange_correct [OF lp_sample_repr plain_alloc_ok, of "- 2" 1]
  by (simp add: seek_index_def lp_sample_entries_def)

text \<open>deleting a batch of entries, given as increasing pointers, never faults and leaves a
  well-formed listpack of exactly the other entries, in order.\<close>
theorem lpBatchDelete_correct:
  assumes "lp_repr lp es" "alloc_ok al" "sorted_wrt (<) js" "\<forall>i\<in>set js. i < length es"
  shows "\<exists>lp'. lpBatchDelete al lp (map (lp_pos es) js) = Some lp' \<and> lp_repr lp' (delete_indexes js es)"
  using assms by (rule lpBatchDelete_repr)

theorem lpBatchDelete_correct_witness:
  "\<exists>lp'. lpBatchDelete plain_alloc (lp_image 2 lp_sample_entries) [6] = Some lp' \<and> lp_repr lp' [[0x82, 97, 98]]"
  using lpBatchDelete_correct [OF lp_sample_repr plain_alloc_ok, of "[0]"]
  by (simp add: lp_sample_entries_def delete_indexes_def upt_rec)

text \<open>C25: merging two listpacks never faults: the larger one becomes the entries of the first followed
  by those of the second, whichever of the two was reallocated, and the other one is gone.\<close>
theorem lpMerge_correct:
  assumes "lp_repr a es1" "lp_repr b es2" "alloc_ok al" "7 + length (lp_body (es1 @ es2)) < UINT32_MAX"
  shows "\<exists>lp'. lp_repr lp' (es1 @ es2) \<and> lpMerge al (Some a) (Some b) =
    Some (Some (if length (lp_body es1) \<ge> length (lp_body es2) then (Some lp', None) else (None, Some lp')))"
  using assms by (rule lpMerge_repr)

theorem lpMerge_correct_witness:
  "\<exists>lp'. lp_repr lp' (lp_sample_entries @ lp_sample_entries) \<and>
     lpMerge plain_alloc (Some (lp_image 2 lp_sample_entries)) (Some (lp_image 2 lp_sample_entries)) = Some (Some (Some lp', None))"
  using lpMerge_correct [OF lp_sample_repr lp_sample_repr plain_alloc_ok] by (simp add: lp_sample_body)

end
