(* ===== verification/Dict.thy ===== *)
theory Dict
  imports Redis_Prelude "HOL-Library.Multiset"
begin

text \<open>
  The hash table of \<^verbatim>\<open>dict.c\<close>: two tables of chained buckets, incremental rehashing, and the
  operations that find, add, replace and remove entries.

  A chain is the list of entries that \<^verbatim>\<open>dictGetNext\<close> reaches from a bucket, a table the list of
  its chains, and the NULL table the empty list (an allocated table has \<open>1 << exp\<close> buckets, hence
  at least one). A pointer to a bucket is the pair of its table and its index, a pointer to an
  entry adds the position in the chain. A failed \<^verbatim>\<open>assert\<close>, or an access outside of a table,
  is \<open>None\<close>. The counters \<open>ht_used\<close> count entries that exist in memory, so they are natural
  numbers; sizes and hashes keep their 64 bits.
\<close>

section \<open>Data\<close>

text \<open>The three kinds of entries that the tag bits of a \<^verbatim>\<open>dictEntry\<close> pointer tell apart.\<close>

datatype ('k, 'v) dictEntry = EntryKey 'k | EntryNoValue 'k | EntryNormal 'k 'v

primrec entryIsKey :: "('k, 'v) dictEntry \<Rightarrow> bool" where
  "entryIsKey (EntryKey k) = True"
| "entryIsKey (EntryNoValue k) = False"
| "entryIsKey (EntryNormal k v) = False"

primrec entryIsNormal :: "('k, 'v) dictEntry \<Rightarrow> bool" where
  "entryIsNormal (EntryKey k) = False"
| "entryIsNormal (EntryNoValue k) = False"
| "entryIsNormal (EntryNormal k v) = True"

primrec entryIsNoValue :: "('k, 'v) dictEntry \<Rightarrow> bool" where
  "entryIsNoValue (EntryKey k) = False"
| "entryIsNoValue (EntryNoValue k) = True"
| "entryIsNoValue (EntryNormal k v) = False"

definition entryHasValue :: "('k, 'v) dictEntry \<Rightarrow> bool" where
  "entryHasValue de = entryIsNormal de"

primrec dictGetKey :: "('k, 'v) dictEntry \<Rightarrow> 'k" where
  "dictGetKey (EntryKey k) = k"
| "dictGetKey (EntryNoValue k) = k"
| "dictGetKey (EntryNormal k v) = k"

primrec dictGetVal :: "('k, 'v) dictEntry \<Rightarrow> 'v option" where
  "dictGetVal (EntryKey k) = None"
| "dictGetVal (EntryNoValue k) = None"
| "dictGetVal (EntryNormal k v) = Some v"

type_synonym ('k, 'v) chain = "('k, 'v) dictEntry list"

definition dictGetNext :: "('k, 'v) chain \<Rightarrow> ('k, 'v) chain" where
  "dictGetNext de = (case de of [] \<Rightarrow> [] | e # es \<Rightarrow> if entryIsKey e then [] else es)"

definition dictSetNext :: "('k, 'v) dictEntry \<Rightarrow> ('k, 'v) chain \<Rightarrow> ('k, 'v) chain option" where
  "dictSetNext de nxt = (if entryIsKey de then None else Some (de # nxt))"

text \<open>
  The callbacks of a dictionary type. A destructor only matters by whether it is set; its calls
  are recorded as events. \<open>expandAllowed\<close> gets the number of bytes and the two operands of the
  fill ratio. \<open>ptr_lsb\<close> is the least significant bit of a key pointer.
\<close>

record ('k, 'v) dictType =
  hashFunction :: "'k \<Rightarrow> uint64"
  keyDup :: "('k \<Rightarrow> 'k) option"
  valDup :: "('v \<Rightarrow> 'v) option"
  keyCompare :: "('k \<Rightarrow> 'k \<Rightarrow> bool) option"
  keyDestructor :: bool
  valDestructor :: bool
  expandAllowed :: "(nat \<Rightarrow> nat \<Rightarrow> nat \<Rightarrow> bool) option"
  no_value :: bool
  keys_are_odd :: bool
  dictEntryMetadataBytes :: "nat option"
  ptr_lsb :: "'k \<Rightarrow> bool"

record ('k, 'v) hashtab =
  ht_table :: "('k, 'v) chain list"
  ht_used :: nat
  ht_size_exp :: int

record ('k, 'v) dict =
  type_of :: "('k, 'v) dictType"
  ht0 :: "('k, 'v) hashtab"
  ht1 :: "('k, 'v) hashtab"
  rehashidx :: int
  pauserehash :: int

datatype dictResizeEnable = DICT_RESIZE_ENABLE | DICT_RESIZE_AVOID | DICT_RESIZE_FORBID

datatype ('k, 'v) dict_event = FreeKey 'k | FreeVal 'v

type_synonym entry_ref = "nat \<times> nat \<times> nat"

definition DICT_HT_INITIAL_SIZE :: nat where "DICT_HT_INITIAL_SIZE = 2 ^ 2"
definition dict_force_resize_ratio :: nat where "dict_force_resize_ratio = 5"

definition DICTHT_SIZE :: "int \<Rightarrow> nat" where
  "DICTHT_SIZE e = (if e = -1 then 0 else 2 ^ nat e)"

definition DICTHT_SIZE_MASK :: "int \<Rightarrow> uint64" where
  "DICTHT_SIZE_MASK e = (if e = -1 then 0 else push_bit (nat e) 1 - 1)"

definition ht :: "('k, 'v) dict \<Rightarrow> nat \<Rightarrow> ('k, 'v) hashtab" where
  "ht d t = (if t = 0 then ht0 d else ht1 d)"

definition set_ht :: "nat \<Rightarrow> ('k, 'v) hashtab \<Rightarrow> ('k, 'v) dict \<Rightarrow> ('k, 'v) dict" where
  "set_ht t h d = (if t = 0 then d\<lparr>ht0 := h\<rparr> else d\<lparr>ht1 := h\<rparr>)"

definition bucket_get :: "('k, 'v) dict \<Rightarrow> nat \<Rightarrow> nat \<Rightarrow> ('k, 'v) chain option" where
  "bucket_get d t i = (let tb = ht_table (ht d t) in if i < length tb then Some (tb ! i) else None)"

definition bucket_put ::
  "('k, 'v) dict \<Rightarrow> nat \<Rightarrow> nat \<Rightarrow> ('k, 'v) chain \<Rightarrow> ('k, 'v) dict option" where
  "bucket_put d t i c = (let h = ht d t in if i < length (ht_table h)
     then Some (set_ht t (h\<lparr>ht_table := (ht_table h)[i := c]\<rparr>) d) else None)"

definition add_used :: "nat \<Rightarrow> int \<Rightarrow> ('k, 'v) dict \<Rightarrow> ('k, 'v) dict" where
  "add_used t n d = set_ht t ((ht d t)\<lparr>ht_used := nat (int (ht_used (ht d t)) + n)\<rparr>) d"

definition bucket_index :: "('k, 'v) dict \<Rightarrow> uint64 \<Rightarrow> nat \<Rightarrow> nat" where
  "bucket_index d h t = unat (h AND DICTHT_SIZE_MASK (ht_size_exp (ht d t)))"

definition dictHashKey :: "('k, 'v) dict \<Rightarrow> 'k \<Rightarrow> uint64" where
  "dictHashKey d key = hashFunction (type_of d) key"

definition dictCompareKeys :: "('k, 'v) dictType \<Rightarrow> 'k \<Rightarrow> 'k \<Rightarrow> bool" where
  "dictCompareKeys T key1 key2 = (case keyCompare T of Some f \<Rightarrow> f key1 key2 | None \<Rightarrow> key1 = key2)"

definition keys_match :: "('k, 'v) dictType \<Rightarrow> 'k \<Rightarrow> 'k \<Rightarrow> bool" where
  "keys_match T key he_key \<longleftrightarrow> key = he_key \<or> dictCompareKeys T key he_key"

definition dictSize :: "('k, 'v) dict \<Rightarrow> nat" where
  "dictSize d = ht_used (ht d 0) + ht_used (ht d 1)"

definition dictSlots :: "('k, 'v) dict \<Rightarrow> nat" where
  "dictSlots d = DICTHT_SIZE (ht_size_exp (ht d 0)) + DICTHT_SIZE (ht_size_exp (ht d 1))"

definition dictIsRehashing :: "('k, 'v) dict \<Rightarrow> bool" where
  "dictIsRehashing d \<longleftrightarrow> rehashidx d \<noteq> -1"

definition dictPauseRehashing :: "('k, 'v) dict \<Rightarrow> ('k, 'v) dict" where
  "dictPauseRehashing d = d\<lparr>pauserehash := pauserehash d + 1\<rparr>"

definition dictResumeRehashing :: "('k, 'v) dict \<Rightarrow> ('k, 'v) dict" where
  "dictResumeRehashing d = d\<lparr>pauserehash := pauserehash d - 1\<rparr>"

definition dict_check :: "bool \<Rightarrow> unit option" where
  "dict_check b = (if b then Some () else None)"

section \<open>Creation and expansion\<close>

definition empty_ht :: "('k, 'v) hashtab" where
  "empty_ht = \<lparr>ht_table = [], ht_used = 0, ht_size_exp = -1\<rparr>"

definition dictReset :: "('k, 'v) dict \<Rightarrow> nat \<Rightarrow> ('k, 'v) dict" where
  "dictReset d htidx = set_ht htidx empty_ht d"

definition dictInit :: "('k, 'v) dict \<Rightarrow> ('k, 'v) dictType \<Rightarrow> ('k, 'v) dict" where
  "dictInit d T = (dictReset (dictReset d 0) 1)\<lparr>type_of := T, rehashidx := -1, pauserehash := 0\<rparr>"

definition dictCreate :: "('k, 'v) dict \<Rightarrow> ('k, 'v) dictType \<Rightarrow> ('k, 'v) dict" where
  "dictCreate mem T = dictInit mem T"

fun bit_length :: "nat \<Rightarrow> nat" where
  "bit_length n = (if n = 0 then 0 else Suc (bit_length (n div 2)))"

declare bit_length.simps [simp del]

definition builtin_clzl :: "nat \<Rightarrow> nat" where
  "builtin_clzl n = 64 - bit_length n"

definition dictNextExp :: "nat \<Rightarrow> int" where
  "dictNextExp sz = (if sz \<le> DICT_HT_INITIAL_SIZE then 2
     else if 2 ^ 63 - 1 \<le> sz then 8 * 8 - 1
     else int (8 * 8 - builtin_clzl (sz - 1)))"

text \<open>
  The result of \<^verbatim>\<open>_dictExpand\<close> is the dictionary, whether it returns \<^verbatim>\<open>DICT_OK\<close>, and
  \<^verbatim>\<open>*malloc_failed\<close>. The last argument is \<open>None\<close> when \<^verbatim>\<open>malloc_failed\<close> is NULL, and otherwise
  whether \<^verbatim>\<open>ztrycalloc\<close> finds the memory.
\<close>

definition dictExpandInternal ::
  "('k, 'v) dict \<Rightarrow> nat \<Rightarrow> bool option \<Rightarrow> ('k, 'v) dict \<times> bool \<times> bool" where
  "dictExpandInternal d sz malloc =
     (if dictIsRehashing d \<or> ht_used (ht d 0) > sz then (d, False, False)
      else
        let new_exp = dictNextExp sz; newsize = 2 ^ nat new_exp mod 2 ^ 64 in
        if newsize < sz \<or> newsize * 8 mod 2 ^ 64 < newsize then (d, False, False)
        else if new_exp = ht_size_exp (ht d 0) then (d, False, False)
        else if malloc = Some False then (d, False, True)
        else
          let new_ht = \<lparr>ht_table = replicate newsize [], ht_used = 0, ht_size_exp = new_exp\<rparr> in
          if ht_table (ht d 0) = [] then (set_ht 0 new_ht d, True, False)
          else ((set_ht 1 new_ht d)\<lparr>rehashidx := 0\<rparr>, True, False))"

definition dictExpand :: "('k, 'v) dict \<Rightarrow> nat \<Rightarrow> ('k, 'v) dict \<times> bool" where
  "dictExpand d sz = (let (d', ok, _) = dictExpandInternal d sz None in (d', ok))"

definition dictTryExpand :: "('k, 'v) dict \<Rightarrow> nat \<Rightarrow> bool \<Rightarrow> ('k, 'v) dict \<times> bool" where
  "dictTryExpand d sz mem = (let (d', _, malloc_failed) = dictExpandInternal d sz (Some mem) in (d', \<not> malloc_failed))"

definition dictResize :: "dictResizeEnable \<Rightarrow> ('k, 'v) dict \<Rightarrow> ('k, 'v) dict \<times> bool" where
  "dictResize can_resize d =
     (if can_resize \<noteq> DICT_RESIZE_ENABLE \<or> dictIsRehashing d then (d, False)
      else dictExpand d (max (ht_used (ht d 0)) DICT_HT_INITIAL_SIZE))"

definition dictTypeExpandAllowed :: "('k, 'v) dict \<Rightarrow> bool" where
  "dictTypeExpandAllowed d = (case expandAllowed (type_of d) of None \<Rightarrow> True
     | Some f \<Rightarrow> f (DICTHT_SIZE (dictNextExp (ht_used (ht d 0) + 1)) * 8)
                   (ht_used (ht d 0)) (DICTHT_SIZE (ht_size_exp (ht d 0))))"

definition dictExpandIfNeeded :: "dictResizeEnable \<Rightarrow> ('k, 'v) dict \<Rightarrow> ('k, 'v) dict \<times> bool" where
  "dictExpandIfNeeded can_resize d =
     (let used = ht_used (ht d 0); sz = DICTHT_SIZE (ht_size_exp (ht d 0)) in
      if dictIsRehashing d then (d, True)
      else if sz = 0 then dictExpand d DICT_HT_INITIAL_SIZE
      else if can_resize = DICT_RESIZE_ENABLE \<and> used \<ge> sz \<or>
              can_resize \<noteq> DICT_RESIZE_FORBID \<and> used div sz > dict_force_resize_ratio
      then if \<not> dictTypeExpandAllowed d then (d, True) else dictExpand d (used + 1)
      else (d, True))"

section \<open>Incremental rehashing\<close>

text \<open>
  The loop over empty buckets of \<^verbatim>\<open>dictRehash\<close>: the index where it stops, the visits left, and
  whether they ran out.
\<close>

function dictRehash_skip ::
  "('k, 'v) chain list \<Rightarrow> nat \<Rightarrow> int \<Rightarrow> (nat \<times> int \<times> bool) option" where
  "dictRehash_skip tb idx empty_visits =
     (if idx < length tb then
        if tb ! idx = [] then
          if empty_visits - 1 = 0 then Some (idx + 1, 0, True)
          else dictRehash_skip tb (idx + 1) (empty_visits - 1)
        else Some (idx, empty_visits, False)
      else None)"
  by auto
termination by (relation "measure (\<lambda>(tb, idx, _). length tb - idx)") auto

declare dictRehash_skip.simps [simp del]

text \<open>The chain of the destination bucket once the entry \<open>de\<close> is put in front of it.\<close>

definition dictRehash_relink ::
  "('k, 'v) dictType \<Rightarrow> ('k, 'v) dictEntry \<Rightarrow> ('k, 'v) chain \<Rightarrow> ('k, 'v) chain option" where
  "dictRehash_relink T de dst = (let key = dictGetKey de in
     if no_value T then
       if keys_are_odd T \<and> dst = [] then do { dict_check (ptr_lsb T key); Some [EntryKey key] }
       else if entryIsKey de then Some (EntryNoValue key # dst)
       else do { dict_check (entryIsNoValue de); dictSetNext de dst }
     else dictSetNext de dst)"

definition dictRehash_index :: "('k, 'v) dict \<Rightarrow> 'k \<Rightarrow> nat" where
  "dictRehash_index d key =
     (if ht_size_exp (ht d 1) > ht_size_exp (ht d 0) then bucket_index d (dictHashKey d key) 1
      else bucket_index d (word_of_int (rehashidx d)) 1)"

primrec dictRehash_bucket ::
  "('k, 'v) chain \<Rightarrow> ('k, 'v) dict \<Rightarrow> ('k, 'v) dict option" where
  "dictRehash_bucket [] d = Some d"
| "dictRehash_bucket (de # nextde) d = do {
     let h = dictRehash_index d (dictGetKey de);
     dst \<leftarrow> bucket_get d 1 h;
     c \<leftarrow> dictRehash_relink (type_of d) de dst;
     d \<leftarrow> bucket_put d 1 h c;
     dictRehash_bucket nextde (add_used 1 1 (add_used 0 (-1) d))
   }"

text \<open>The outer loop; the flag tells that it left with \<^verbatim>\<open>return 1\<close> out of visits.\<close>

primrec dictRehash_loop ::
  "nat \<Rightarrow> int \<Rightarrow> ('k, 'v) dict \<Rightarrow> (('k, 'v) dict \<times> bool) option" where
  "dictRehash_loop 0 empty_visits d = Some (d, False)"
| "dictRehash_loop (Suc n) empty_visits d =
     (if ht_used (ht d 0) = 0 then Some (d, False)
      else do {
        dict_check (DICTHT_SIZE (ht_size_exp (ht d 0)) > nat (rehashidx d));
        (i, ev, out) \<leftarrow> dictRehash_skip (ht_table (ht d 0)) (nat (rehashidx d)) empty_visits;
        let d = d\<lparr>rehashidx := int i\<rparr>;
        if out then Some (d, True)
        else do {
          de \<leftarrow> bucket_get d 0 i;
          d \<leftarrow> dictRehash_bucket de d;
          d \<leftarrow> bucket_put d 0 i [];
          dictRehash_loop n ev (d\<lparr>rehashidx := int i + 1\<rparr>)
        }
      })"

definition dictRehash_finish :: "('k, 'v) dict \<Rightarrow> ('k, 'v) dict \<times> bool" where
  "dictRehash_finish d =
     (if ht_used (ht d 0) = 0
      then ((dictReset (set_ht 0 (ht d 1) d) 1)\<lparr>rehashidx := -1\<rparr>, False)
      else (d, True))"

definition dictRehash ::
  "dictResizeEnable \<Rightarrow> ('k, 'v) dict \<Rightarrow> nat \<Rightarrow> (('k, 'v) dict \<times> bool) option" where
  "dictRehash can_resize d n =
     (let s0 = DICTHT_SIZE (ht_size_exp (ht d 0)); s1 = DICTHT_SIZE (ht_size_exp (ht d 1)) in
      if can_resize = DICT_RESIZE_FORBID \<or> \<not> dictIsRehashing d then Some (d, False)
      else if can_resize = DICT_RESIZE_AVOID \<and>
              (s1 > s0 \<and> s1 div s0 < dict_force_resize_ratio \<or>
               s1 < s0 \<and> s0 div s1 < dict_force_resize_ratio) then Some (d, False)
      else do {
        (d, out) \<leftarrow> dictRehash_loop n (int n * 10) d;
        Some (if out then (d, True) else dictRehash_finish d)
      })"

text \<open>
  \<^verbatim>\<open>dictRehashMilliseconds\<close> reads the clock: \<open>now i\<close> is the \<open>i\<close>-th reading. The loop ends when the
  rehashing does or when the time is up; a loop without end would be \<open>None\<close>.
\<close>

partial_function (option) dictRehashMilliseconds_loop ::
  "(nat \<Rightarrow> int) \<Rightarrow> dictResizeEnable \<Rightarrow> int \<Rightarrow> nat \<Rightarrow> int \<Rightarrow> ('k, 'v) dict \<Rightarrow> (('k, 'v) dict \<times> int) option" where
  "dictRehashMilliseconds_loop now can_resize ms i rehashes d =
     Option.bind (dictRehash can_resize d 100) (\<lambda>(d, more).
       if \<not> more then Some (d, rehashes)
       else if now i - now 0 > ms then Some (d, rehashes + 100)
       else dictRehashMilliseconds_loop now can_resize ms (Suc i) (rehashes + 100) d)"

definition dictRehashMilliseconds ::
  "(nat \<Rightarrow> int) \<Rightarrow> dictResizeEnable \<Rightarrow> ('k, 'v) dict \<Rightarrow> int \<Rightarrow> (('k, 'v) dict \<times> int) option" where
  "dictRehashMilliseconds now can_resize d ms =
     (if pauserehash d > 0 then Some (d, 0) else dictRehashMilliseconds_loop now can_resize ms 1 0 d)"

definition dictRehashStep :: "dictResizeEnable \<Rightarrow> ('k, 'v) dict \<Rightarrow> ('k, 'v) dict option" where
  "dictRehashStep can_resize d =
     (if pauserehash d = 0 then map_option fst (dictRehash can_resize d 1) else Some d)"

text \<open>Lookups and updates make a rehashing step when a rehashing is in progress.\<close>

definition rehash_if_rehashing :: "dictResizeEnable \<Rightarrow> ('k, 'v) dict \<Rightarrow> ('k, 'v) dict option" where
  "rehash_if_rehashing can_resize d =
     (if dictIsRehashing d then dictRehashStep can_resize d else Some d)"

section \<open>Lookup\<close>

primrec chain_find :: "('k, 'v) dictType \<Rightarrow> 'k \<Rightarrow> ('k, 'v) chain \<Rightarrow> nat option" where
  "chain_find T key [] = None"
| "chain_find T key (he # nxt) =
     (if keys_match T key (dictGetKey he) then Some 0 else map_option Suc (chain_find T key nxt))"

text \<open>The loop over the two tables that the lookups share; the second one is only searched
  during a rehashing.\<close>

definition dict_search :: "('k, 'v) dict \<Rightarrow> uint64 \<Rightarrow> 'k \<Rightarrow> entry_ref option option" where
  "dict_search d h key = do {
     let i0 = bucket_index d h 0;
     c0 \<leftarrow> bucket_get d 0 i0;
     case chain_find (type_of d) key c0 of
       Some p \<Rightarrow> Some (Some (0, i0, p))
     | None \<Rightarrow>
         if \<not> dictIsRehashing d then Some None
         else do {
           let i1 = bucket_index d h 1;
           c1 \<leftarrow> bucket_get d 1 i1;
           Some (map_option (\<lambda>p. (1, i1, p)) (chain_find (type_of d) key c1))
         }
   }"

definition dictFind ::
  "dictResizeEnable \<Rightarrow> ('k, 'v) dict \<Rightarrow> 'k \<Rightarrow> (('k, 'v) dict \<times> entry_ref option) option" where
  "dictFind can_resize d key =
     (if dictSize d = 0 then Some (d, None)
      else do {
        d \<leftarrow> rehash_if_rehashing can_resize d;
        r \<leftarrow> dict_search d (dictHashKey d key) key;
        Some (d, r)
      })"

definition entry_at :: "('k, 'v) dict \<Rightarrow> entry_ref \<Rightarrow> ('k, 'v) dictEntry option" where
  "entry_at d r = (case r of (t, i, p) \<Rightarrow> do {
     c \<leftarrow> bucket_get d t i;
     if p < length c then Some (c ! p) else None
   })"

definition dictFetchValue ::
  "dictResizeEnable \<Rightarrow> ('k, 'v) dict \<Rightarrow> 'k \<Rightarrow> (('k, 'v) dict \<times> 'v option) option" where
  "dictFetchValue can_resize d key = do {
     (d, r) \<leftarrow> dictFind can_resize d key;
     case r of None \<Rightarrow> Some (d, None)
     | Some r \<Rightarrow> do { he \<leftarrow> entry_at d r; v \<leftarrow> dictGetVal he; Some (d, Some v) }
   }"

definition dictGetHash :: "('k, 'v) dict \<Rightarrow> 'k \<Rightarrow> uint64" where
  "dictGetHash d key = dictHashKey d key"

text \<open>The same search by the address of the key, which is not compared with \<open>keyCompare\<close>.\<close>

primrec chain_find_ptr :: "'k \<Rightarrow> ('k, 'v) chain \<Rightarrow> nat option" where
  "chain_find_ptr oldptr [] = None"
| "chain_find_ptr oldptr (he # nxt) =
     (if oldptr = dictGetKey he then Some 0 else map_option Suc (chain_find_ptr oldptr nxt))"

definition dictFindEntryByPtrAndHash :: "('k, 'v) dict \<Rightarrow> 'k \<Rightarrow> uint64 \<Rightarrow> entry_ref option option" where
  "dictFindEntryByPtrAndHash d oldptr h =
     (if dictSize d = 0 then Some None
      else do {
        let i0 = bucket_index d h 0;
        c0 \<leftarrow> bucket_get d 0 i0;
        case chain_find_ptr oldptr c0 of
          Some p \<Rightarrow> Some (Some (0, i0, p))
        | None \<Rightarrow>
            if \<not> dictIsRehashing d then Some None
            else do {
              let i1 = bucket_index d h 1;
              c1 \<leftarrow> bucket_get d 1 i1;
              Some (map_option (\<lambda>p. (1, i1, p)) (chain_find_ptr oldptr c1))
            }
      })"

section \<open>Insertion\<close>

text \<open>
  The position of a new key, or the existing entry. No position and no entry is the failure of
  \<^verbatim>\<open>_dictExpandIfNeeded\<close>.
\<close>

definition dictFindPositionForInsert ::
  "dictResizeEnable \<Rightarrow> ('k, 'v) dict \<Rightarrow> 'k
   \<Rightarrow> (('k, 'v) dict \<times> (nat \<times> nat) option \<times> entry_ref option) option" where
  "dictFindPositionForInsert can_resize d key = do {
     let h = dictHashKey d key;
     d \<leftarrow> rehash_if_rehashing can_resize d;
     let (d, ok) = dictExpandIfNeeded can_resize d;
     if \<not> ok then Some (d, None, None)
     else do {
       r \<leftarrow> dict_search d h key;
       case r of
         Some existing \<Rightarrow> Some (d, None, Some existing)
       | None \<Rightarrow>
           let t = (if dictIsRehashing d then 1 else 0) in
           Some (d, Some (t, bucket_index d h t), None)
     }
   }"

text \<open>The indeterminate value field of a freshly allocated entry is the parameter \<open>junk\<close>.\<close>

definition dictInsertAtPosition ::
  "'v \<Rightarrow> ('k, 'v) dict \<Rightarrow> 'k \<Rightarrow> nat \<times> nat \<Rightarrow> (('k, 'v) dict \<times> entry_ref) option" where
  "dictInsertAtPosition junk d key position = (case position of (t, i) \<Rightarrow> do {
     let htidx = (if dictIsRehashing d then 1 else 0);
     dict_check (t = htidx \<and> i \<le> unat (DICTHT_SIZE_MASK (ht_size_exp (ht d htidx))));
     let metasize = (case dictEntryMetadataBytes (type_of d) of Some n \<Rightarrow> n | None \<Rightarrow> 0);
     bucket \<leftarrow> bucket_get d t i;
     entry \<leftarrow>
       (if no_value (type_of d) then do {
          dict_check (metasize = 0);
          if keys_are_odd (type_of d) \<and> bucket = [] then do {
            dict_check (ptr_lsb (type_of d) key);
            Some (EntryKey key)
          } else Some (EntryNoValue key)
        } else Some (EntryNormal key junk));
     d \<leftarrow> bucket_put d t i (entry # bucket);
     Some (add_used htidx 1 d, (t, i, 0))
   })"

definition dictAddRaw ::
  "'v \<Rightarrow> dictResizeEnable \<Rightarrow> ('k, 'v) dict \<Rightarrow> 'k
   \<Rightarrow> (('k, 'v) dict \<times> entry_ref option \<times> entry_ref option) option" where
  "dictAddRaw junk can_resize d key = do {
     (d, position, existing) \<leftarrow> dictFindPositionForInsert can_resize d key;
     case position of
       None \<Rightarrow> Some (d, None, existing)
     | Some pos \<Rightarrow> do {
         let key = (case keyDup (type_of d) of Some dup \<Rightarrow> dup key | None \<Rightarrow> key);
         (d, r) \<leftarrow> dictInsertAtPosition junk d key pos;
         Some (d, Some r, existing)
       }
   }"

definition dictSetVal :: "('k, 'v) dict \<Rightarrow> entry_ref \<Rightarrow> 'v \<Rightarrow> ('k, 'v) dict option" where
  "dictSetVal d r val = (case r of (t, i, p) \<Rightarrow> do {
     de \<leftarrow> entry_at d r;
     dict_check (entryHasValue de);
     c \<leftarrow> bucket_get d t i;
     bucket_put d t i (c[p := EntryNormal (dictGetKey de)
       (case valDup (type_of d) of Some dup \<Rightarrow> dup val | None \<Rightarrow> val)])
   })"

definition dictAdd ::
  "'v \<Rightarrow> dictResizeEnable \<Rightarrow> ('k, 'v) dict \<Rightarrow> 'k \<Rightarrow> 'v \<Rightarrow> (('k, 'v) dict \<times> bool) option" where
  "dictAdd junk can_resize d key val = do {
     (d, entry, _) \<leftarrow> dictAddRaw junk can_resize d key;
     case entry of
       None \<Rightarrow> Some (d, False)
     | Some r \<Rightarrow> do {
         d \<leftarrow> (if no_value (type_of d) then Some d else dictSetVal d r val);
         Some (d, True)
       }
   }"

definition dictReplace ::
  "'v \<Rightarrow> dictResizeEnable \<Rightarrow> ('k, 'v) dict \<Rightarrow> 'k \<Rightarrow> 'v
   \<Rightarrow> (('k, 'v) dict \<times> bool \<times> ('k, 'v) dict_event list) option" where
  "dictReplace junk can_resize d key val = do {
     (d, entry, existing) \<leftarrow> dictAddRaw junk can_resize d key;
     case entry of
       Some r \<Rightarrow> do { d \<leftarrow> dictSetVal d r val; Some (d, True, []) }
     | None \<Rightarrow> do {
         r \<leftarrow> existing;
         he \<leftarrow> entry_at d r;
         oldval \<leftarrow> dictGetVal he;
         d \<leftarrow> dictSetVal d r val;
         Some (d, False, if valDestructor (type_of d) then [FreeVal oldval] else [])
       }
   }"

definition dictAddOrFind ::
  "'v \<Rightarrow> dictResizeEnable \<Rightarrow> ('k, 'v) dict \<Rightarrow> 'k \<Rightarrow> (('k, 'v) dict \<times> entry_ref option) option" where
  "dictAddOrFind junk can_resize d key = do {
     (d, entry, existing) \<leftarrow> dictAddRaw junk can_resize d key;
     Some (d, if entry \<noteq> None then entry else existing)
   }"

section \<open>Removal\<close>

text \<open>The chain without its entry at a position, and that entry.\<close>

primrec chain_unlink ::
  "nat \<Rightarrow> ('k, 'v) chain \<Rightarrow> (('k, 'v) chain \<times> ('k, 'v) dictEntry) option" where
  "chain_unlink p [] = None"
| "chain_unlink p (he # nxt) = (case p of
     0 \<Rightarrow> Some (dictGetNext (he # nxt), he)
   | Suc q \<Rightarrow> do {
       (c, e) \<leftarrow> chain_unlink q nxt;
       c' \<leftarrow> dictSetNext he c;
       Some (c', e)
     })"

definition free_entry ::
  "('k, 'v) dictType \<Rightarrow> ('k, 'v) dictEntry \<Rightarrow> ('k, 'v) dict_event list option" where
  "free_entry T he = do {
     let ks = (if keyDestructor T then [FreeKey (dictGetKey he)] else []);
     vs \<leftarrow> (if valDestructor T then do { v \<leftarrow> dictGetVal he; Some [FreeVal v] } else Some []);
     Some (ks @ vs)
   }"

definition dictFreeUnlinkedEntry ::
  "('k, 'v) dict \<Rightarrow> ('k, 'v) dictEntry option \<Rightarrow> ('k, 'v) dict_event list option" where
  "dictFreeUnlinkedEntry d he = (case he of None \<Rightarrow> Some [] | Some e \<Rightarrow> free_entry (type_of d) e)"

definition dictGenericDelete ::
  "dictResizeEnable \<Rightarrow> ('k, 'v) dict \<Rightarrow> 'k \<Rightarrow> bool
   \<Rightarrow> (('k, 'v) dict \<times> ('k, 'v) dictEntry option \<times> ('k, 'v) dict_event list) option" where
  "dictGenericDelete can_resize d key nofree =
     (if dictSize d = 0 then Some (d, None, [])
      else do {
        d \<leftarrow> rehash_if_rehashing can_resize d;
        r \<leftarrow> dict_search d (dictHashKey d key) key;
        case r of
          None \<Rightarrow> Some (d, None, [])
        | Some (t, i, p) \<Rightarrow> do {
            c \<leftarrow> bucket_get d t i;
            (c', he) \<leftarrow> chain_unlink p c;
            d \<leftarrow> bucket_put d t i c';
            evs \<leftarrow> (if nofree then Some [] else dictFreeUnlinkedEntry d (Some he));
            Some (add_used t (-1) d, Some he, evs)
          }
      })"

definition dictDelete ::
  "dictResizeEnable \<Rightarrow> ('k, 'v) dict \<Rightarrow> 'k
   \<Rightarrow> (('k, 'v) dict \<times> bool \<times> ('k, 'v) dict_event list) option" where
  "dictDelete can_resize d key = do {
     (d, he, evs) \<leftarrow> dictGenericDelete can_resize d key False;
     Some (d, he \<noteq> None, evs)
   }"

definition dictUnlink ::
  "dictResizeEnable \<Rightarrow> ('k, 'v) dict \<Rightarrow> 'k
   \<Rightarrow> (('k, 'v) dict \<times> ('k, 'v) dictEntry option) option" where
  "dictUnlink can_resize d key = do {
     (d, he, _) \<leftarrow> dictGenericDelete can_resize d key True;
     Some (d, he)
   }"

definition dictTwoPhaseUnlinkFind ::
  "dictResizeEnable \<Rightarrow> ('k, 'v) dict \<Rightarrow> 'k \<Rightarrow> (('k, 'v) dict \<times> entry_ref option) option" where
  "dictTwoPhaseUnlinkFind can_resize d key =
     (if dictSize d = 0 then Some (d, None)
      else do {
        d \<leftarrow> rehash_if_rehashing can_resize d;
        r \<leftarrow> dict_search d (dictHashKey d key) key;
        Some (if r = None then d else dictPauseRehashing d, r)
      })"

definition dictTwoPhaseUnlinkFree ::
  "('k, 'v) dict \<Rightarrow> entry_ref option \<Rightarrow> (('k, 'v) dict \<times> ('k, 'v) dict_event list) option" where
  "dictTwoPhaseUnlinkFree d he = (case he of
     None \<Rightarrow> Some (d, [])
   | Some (t, i, p) \<Rightarrow> do {
       let d = add_used t (-1) d;
       c \<leftarrow> bucket_get d t i;
       (c', e) \<leftarrow> chain_unlink p c;
       d \<leftarrow> bucket_put d t i c';
       evs \<leftarrow> free_entry (type_of d) e;
       Some (dictResumeRehashing d, evs)
     })"

section \<open>Clearing\<close>

primrec dictClear_chain ::
  "('k, 'v) dictType \<Rightarrow> ('k, 'v) chain \<Rightarrow> ('k, 'v) dict_event list option" where
  "dictClear_chain T [] = Some []"
| "dictClear_chain T (he # nextHe) = do {
     evs \<leftarrow> free_entry T he;
     evs' \<leftarrow> dictClear_chain T nextHe;
     Some (evs @ evs')
   }"

primrec dictClear_loop ::
  "nat list \<Rightarrow> nat \<Rightarrow> ('k, 'v) dict \<Rightarrow> (('k, 'v) dict \<times> ('k, 'v) dict_event list) option" where
  "dictClear_loop [] htidx d = Some (d, [])"
| "dictClear_loop (i # is) htidx d =
     (if ht_used (ht d htidx) > 0 then do {
        he \<leftarrow> bucket_get d htidx i;
        evs \<leftarrow> dictClear_chain (type_of d) he;
        (d, evs') \<leftarrow> dictClear_loop is htidx (add_used htidx (- int (length he)) d);
        Some (d, evs @ evs')
      } else Some (d, []))"

definition dictClear ::
  "('k, 'v) dict \<Rightarrow> nat \<Rightarrow> (('k, 'v) dict \<times> ('k, 'v) dict_event list) option" where
  "dictClear d htidx = do {
     (d, evs) \<leftarrow> dictClear_loop [0..<DICTHT_SIZE (ht_size_exp (ht d htidx))] htidx d;
     Some (dictReset d htidx, evs)
   }"

definition dictEmpty :: "('k, 'v) dict \<Rightarrow> (('k, 'v) dict \<times> ('k, 'v) dict_event list) option" where
  "dictEmpty d = do {
     (d, evs) \<leftarrow> dictClear d 0;
     (d, evs') \<leftarrow> dictClear d 1;
     Some (d\<lparr>rehashidx := -1, pauserehash := 0\<rparr>, evs @ evs')
   }"

definition dictRelease :: "('k, 'v) dict \<Rightarrow> ('k, 'v) dict_event list option" where
  "dictRelease d = do {
     (d, evs) \<leftarrow> dictClear d 0;
     (d, evs') \<leftarrow> dictClear d 1;
     Some (evs @ evs')
   }"

section \<open>Contents\<close>

text \<open>What a dictionary holds: the bag of its keys and values.\<close>

definition entry_kv :: "('k, 'v) dictEntry \<Rightarrow> 'k \<times> 'v option" where
  "entry_kv e = (dictGetKey e, dictGetVal e)"

definition table_kvs :: "('k, 'v) chain list \<Rightarrow> ('k \<times> 'v option) multiset" where
  "table_kvs tb = mset (map entry_kv (concat tb))"

definition dict_kvs :: "('k, 'v) dict \<Rightarrow> ('k \<times> 'v option) list" where
  "dict_kvs d = map entry_kv (concat (ht_table (ht d 0)) @ concat (ht_table (ht d 1)))"

definition contents :: "('k, 'v) dict \<Rightarrow> ('k \<times> 'v option) multiset" where
  "contents d = table_kvs (ht_table (ht d 0)) + table_kvs (ht_table (ht d 1))"

text \<open>What a dictionary type promises: matching keys is an equivalence that the hash function
  and \<open>keyDup\<close> respect.\<close>

definition type_ok :: "('k, 'v) dictType \<Rightarrow> bool" where
  "type_ok T \<longleftrightarrow>
     (\<forall>a b. keys_match T a b \<longrightarrow> keys_match T b a \<and> hashFunction T a = hashFunction T b) \<and>
     (\<forall>a b c. keys_match T a b \<longrightarrow> keys_match T b c \<longrightarrow> keys_match T a c) \<and>
     (\<forall>dup a. keyDup T = Some dup \<longrightarrow> keys_match T a (dup a)) \<and>
     (no_value T \<longrightarrow> \<not> valDestructor T \<and> dictEntryMetadataBytes T \<in> {None, Some 0})"

text \<open>Keys of a \<open>keys_are_odd\<close> dictionary are odd pointers, also once duplicated.\<close>

definition dup_key :: "('k, 'v) dictType \<Rightarrow> 'k \<Rightarrow> 'k" where
  "dup_key T k = (case keyDup T of Some dup \<Rightarrow> dup k | None \<Rightarrow> k)"

definition dup_val :: "('k, 'v) dictType \<Rightarrow> 'v \<Rightarrow> 'v" where
  "dup_val T v = (case valDup T of Some dup \<Rightarrow> dup v | None \<Rightarrow> v)"

definition key_ok :: "('k, 'v) dictType \<Rightarrow> 'k \<Rightarrow> bool" where
  "key_ok T k \<longleftrightarrow> (no_value T \<and> keys_are_odd T \<longrightarrow> ptr_lsb T (dup_key T k))"

definition dentry_ok :: "('k, 'v) dictType \<Rightarrow> ('k, 'v) dictEntry \<Rightarrow> bool" where
  "dentry_ok T e \<longleftrightarrow>
     (if no_value T then \<not> entryIsNormal e \<and> (keys_are_odd T \<longrightarrow> ptr_lsb T (dictGetKey e))
      else entryIsNormal e)"

text \<open>A bare key has no next field, so it can only end a chain.\<close>

definition chain_ok :: "('k, 'v) dictType \<Rightarrow> ('k, 'v) chain \<Rightarrow> bool" where
  "chain_ok T c \<longleftrightarrow> (\<forall>e\<in>set c. dentry_ok T e) \<and> (\<forall>e\<in>set (butlast c). \<not> entryIsKey e)"

definition bucket_ok :: "('k, 'v) dictType \<Rightarrow> int \<Rightarrow> nat \<Rightarrow> ('k, 'v) chain \<Rightarrow> bool" where
  "bucket_ok T e i c \<longleftrightarrow> chain_ok T c \<and>
     (\<forall>x\<in>set c. unat (hashFunction T (dictGetKey x) AND DICTHT_SIZE_MASK e) = i)"

definition ht_ok :: "('k, 'v) dictType \<Rightarrow> ('k, 'v) hashtab \<Rightarrow> bool" where
  "ht_ok T h \<longleftrightarrow> 0 \<le> ht_size_exp h \<and> ht_size_exp h \<le> 60 \<and>
     length (ht_table h) = DICTHT_SIZE (ht_size_exp h) \<and>
     ht_used h = length (concat (ht_table h)) \<and>
     (\<forall>i<length (ht_table h). bucket_ok T (ht_size_exp h) i (ht_table h ! i))"

definition distinct_keys :: "('k, 'v) dictType \<Rightarrow> ('k \<times> 'v option) multiset \<Rightarrow> bool" where
  "distinct_keys T M \<longleftrightarrow> (\<forall>a b N. M = add_mset a (add_mset b N) \<longrightarrow> \<not> keys_match T (fst a) (fst b))"

text \<open>
  The invariant: the buckets hold the keys of their index, no two keys match, the counters count,
  and during a rehashing the buckets of the first table below \<open>rehashidx\<close> are empty.
\<close>

definition dict_ok :: "('k, 'v) dict \<Rightarrow> bool" where
  "dict_ok d \<longleftrightarrow> type_ok (type_of d) \<and> distinct_keys (type_of d) (contents d) \<and>
     (if dictIsRehashing d then
        ht_ok (type_of d) (ht d 0) \<and> ht_ok (type_of d) (ht d 1) \<and>
        0 \<le> rehashidx d \<and> nat (rehashidx d) \<le> length (ht_table (ht d 0)) \<and>
        (\<forall>i<nat (rehashidx d). ht_table (ht d 0) ! i = [])
      else (ht d 0 = empty_ht \<or> ht_ok (type_of d) (ht d 0)) \<and> ht d 1 = empty_ht)"

text \<open>The pair of a stored key and its value that a key finds.\<close>

definition dict_lookup :: "('k, 'v) dict \<Rightarrow> 'k \<Rightarrow> ('k \<times> 'v option) option" where
  "dict_lookup d k = find (\<lambda>p. keys_match (type_of d) k (fst p)) (dict_kvs d)"

end
