(* ===== verification/Dict_Correct.thy ===== *)
theory Dict_Correct
  imports Dict
begin

text \<open>
  The dictionary implements a map from keys to values: the invariant \<open>dict_ok\<close> is kept by every
  operation, rehashing does not change the contents, and lookups, insertions and removals do what
  they do on the map.
\<close>

named_theorems dict_simps \<open>projections of the dictionary's state\<close>

section \<open>Sizes and indices\<close>

lemma DICTHT_SIZE_nonneg [simp]: "0 \<le> e \<Longrightarrow> DICTHT_SIZE e = 2 ^ nat e"
  by (simp add: DICTHT_SIZE_def)

lemma and_size_mask: "0 \<le> e \<Longrightarrow> h AND DICTHT_SIZE_MASK e = take_bit (nat e) h"
  by (simp add: DICTHT_SIZE_MASK_def take_bit_eq_mask mask_eq_exp_minus_1)

lemma unat_and_size_mask:
  "0 \<le> e \<Longrightarrow> unat (h AND DICTHT_SIZE_MASK e) = unat h mod 2 ^ nat e"
  by (simp add: and_size_mask unsigned_take_bit_eq flip: take_bit_eq_mod)

lemma index_less: "ht_ok T h \<Longrightarrow> unat (x AND DICTHT_SIZE_MASK (ht_size_exp h)) < length (ht_table h)"
  by (simp add: ht_ok_def unat_and_size_mask)

lemma unat_power64: "n < 64 \<Longrightarrow> unat (2 ^ n :: uint64) = 2 ^ n"
  using unat_of_nat [of "2 ^ n", where 'a = 64] power_strict_increasing [of n 64 "2 :: nat"]
  by simp

lemma unat_size_mask: "0 \<le> e \<Longrightarrow> e \<le> 63 \<Longrightarrow> unat (DICTHT_SIZE_MASK e) = 2 ^ nat e - 1"
  using unat_power64 [of "nat e"]
  by (auto simp: DICTHT_SIZE_MASK_def unat_minus_one)

lemma bit_length_less: "n < 2 ^ bit_length n"
proof (induction n rule: bit_length.induct)
  case (1 n)
  then have "n \<noteq> 0 \<Longrightarrow> n < 2 * 2 ^ bit_length (n div 2)"
    by linarith
  then show ?case
    by (cases "n = 0") (simp_all add: bit_length.simps [of n])
qed

lemma bit_length_le: "n < 2 ^ k \<Longrightarrow> bit_length n \<le> k"
proof (induction n arbitrary: k rule: bit_length.induct)
  case (1 n)
  show ?case
  proof (cases "n = 0")
    case False
    then obtain j where k: "k = Suc j"
      using "1.prems" by (cases k) auto
    with "1.prems" have "n div 2 < 2 ^ j"
      by auto
    with False "1.IH" k show ?thesis
      by (simp add: bit_length.simps [of n])
  qed (simp add: bit_length.simps)
qed

text \<open>\<^verbatim>\<open>_dictNextExp\<close> is the exponent of the next power of two.\<close>

lemma dictNextExp_bounds:
  assumes "sz \<le> 2 ^ 60"
  shows "2 \<le> dictNextExp sz" "dictNextExp sz \<le> 60" "sz \<le> 2 ^ nat (dictNextExp sz)"
proof -
  have len: "bit_length (sz - 1) \<le> 60"
    by (rule bit_length_le) (use assms in auto)
  have "4 < sz \<Longrightarrow> 2 \<le> bit_length (sz - 1)"
  proof (rule ccontr)
    assume "4 < sz" "\<not> 2 \<le> bit_length (sz - 1)"
    then have "2 ^ bit_length (sz - 1) \<le> (2 :: nat) ^ 1"
      by (intro power_increasing) auto
    with bit_length_less [of "sz - 1"] \<open>4 < sz\<close> show False
      by simp
  qed
  with len show "2 \<le> dictNextExp sz" "dictNextExp sz \<le> 60"
    using assms by (auto simp: dictNextExp_def DICT_HT_INITIAL_SIZE_def builtin_clzl_def)
  show "sz \<le> 2 ^ nat (dictNextExp sz)"
    using len assms bit_length_less [of "sz - 1"]
    by (auto simp: dictNextExp_def DICT_HT_INITIAL_SIZE_def builtin_clzl_def)
qed

section \<open>Projections\<close>

lemma ht_set_ht [dict_simps]:
  "ht (set_ht 0 h d) 0 = h" "ht (set_ht 0 h d) (Suc 0) = ht d (Suc 0)"
  "ht (set_ht (Suc 0) h d) 0 = ht d 0" "ht (set_ht (Suc 0) h d) (Suc 0) = h"
  by (simp_all add: ht_def set_ht_def)

lemma set_ht_fields [dict_simps]:
  "type_of (set_ht t h d) = type_of d" "rehashidx (set_ht t h d) = rehashidx d"
  "pauserehash (set_ht t h d) = pauserehash d"
  by (simp_all add: set_ht_def)

lemma ht_upd [dict_simps]:
  "ht (d\<lparr>rehashidx := i\<rparr>) t = ht d t" "ht (d\<lparr>pauserehash := j\<rparr>) t = ht d t"
  "ht (d\<lparr>type_of := T\<rparr>) t = ht d t"
  by (simp_all add: ht_def)

lemma dictIsRehashing_set [dict_simps]:
  "dictIsRehashing (set_ht t h d) = dictIsRehashing d"
  "dictIsRehashing (d\<lparr>pauserehash := j\<rparr>) = dictIsRehashing d"
  by (simp_all add: dictIsRehashing_def dict_simps)

lemma contents_upd [dict_simps]:
  "contents (d\<lparr>rehashidx := i\<rparr>) = contents d" "contents (d\<lparr>pauserehash := j\<rparr>) = contents d"
  by (simp_all add: contents_def dict_simps)

lemma dict_ok_pauserehash: "dict_ok (d\<lparr>pauserehash := j\<rparr>) = dict_ok d"
  by (simp add: dict_ok_def dict_simps)

lemma empty_ht_simps [simp]:
  "ht_table empty_ht = []" "ht_used empty_ht = 0" "ht_size_exp empty_ht = -1"
  by (simp_all add: empty_ht_def)

lemma table_kvs_Nil [simp]: "table_kvs [] = {#}"
  by (simp add: table_kvs_def)

lemma contents_kvs: "contents d = mset (dict_kvs d)"
  by (simp add: contents_def dict_kvs_def table_kvs_def)

lemma dictSize_size:
  assumes "dict_ok d"
  shows "dictSize d = size (contents d)"
  using assms
  by (auto simp: dict_ok_def dictSize_def contents_def table_kvs_def ht_ok_def split: if_splits)

section \<open>Chains\<close>

lemma chain_ok_Nil [simp]: "chain_ok T []"
  by (simp add: chain_ok_def)

lemma chain_ok_Cons:
  "chain_ok T (e # c) \<longleftrightarrow> dentry_ok T e \<and> chain_ok T c \<and> (entryIsKey e \<longrightarrow> c = [])"
  by (auto simp: chain_ok_def)

lemma bucket_ok_Cons:
  "bucket_ok T x i (e # c) \<longleftrightarrow> bucket_ok T x i c \<and> dentry_ok T e \<and> (entryIsKey e \<longrightarrow> c = []) \<and>
     unat (hashFunction T (dictGetKey e) AND DICTHT_SIZE_MASK x) = i"
  by (auto simp: bucket_ok_def chain_ok_Cons)

lemma bucket_ok_Nil [simp]: "bucket_ok T x i []"
  by (simp add: bucket_ok_def)

lemma chain_find_Some:
  "chain_find T k c = Some p \<Longrightarrow> p < length c \<and> keys_match T k (dictGetKey (c ! p))"
  by (induction c arbitrary: p) (auto split: if_splits)

lemma chain_find_None:
  "chain_find T k c = None \<longleftrightarrow> (\<forall>e\<in>set c. \<not> keys_match T k (dictGetKey e))"
  by (induction c) auto

lemma chain_unlink_correct:
  "chain_ok T c \<Longrightarrow> p < length c \<Longrightarrow>
     chain_unlink p c = Some (take p c @ drop (Suc p) c, c ! p) \<and> chain_ok T (take p c @ drop (Suc p) c)"
proof (induction c arbitrary: p)
  case (Cons e c)
  show ?case
  proof (cases p)
    case 0
    with Cons.prems show ?thesis
      by (auto simp: dictGetNext_def chain_ok_Cons)
  next
    case (Suc q)
    with Cons.prems have "q < length c" "\<not> entryIsKey e" "chain_ok T c" "dentry_ok T e"
      by (auto simp: chain_ok_Cons)
    with Cons.IH [of q] Suc show ?thesis
      by (auto simp: dictSetNext_def chain_ok_Cons)
  qed
qed simp

lemma relink_correct:
  assumes "dentry_ok T e" "chain_ok T dst"
  shows "\<exists>e'. dictRehash_relink T e dst = Some (e' # dst) \<and> entry_kv e' = entry_kv e \<and>
     chain_ok T (e' # dst)"
  using assms
  by (cases e; cases "no_value T") (auto simp: dictRehash_relink_def dictSetNext_def dict_check_def
    entry_kv_def dentry_ok_def chain_ok_Cons)

section \<open>Tables\<close>

lemma mset_concat_update:
  "i < length tb \<Longrightarrow> mset (concat (tb[i := c])) + mset (tb ! i) = mset (concat tb) + mset c"
proof (induction tb arbitrary: i)
  case (Cons a tb)
  then show ?case
    by (cases i) (simp_all add: union_ac add.left_commute)
qed simp

lemma table_kvs_update:
  assumes "i < length tb"
  shows "table_kvs (tb[i := c]) + mset (map entry_kv (tb ! i)) = table_kvs tb + mset (map entry_kv c)"
  using arg_cong [OF mset_concat_update [OF assms, of c], of "image_mset entry_kv"]
  by (simp add: table_kvs_def)

lemma length_concat_update:
  "i < length tb \<Longrightarrow> length (concat (tb[i := c])) + length (tb ! i) = length (concat tb) + length c"
  using arg_cong [OF mset_concat_update [of i tb c], of size] by simp

lemma bucket_kvs:
  "i < length tb \<Longrightarrow> e \<in> set (tb ! i) \<Longrightarrow> entry_kv e \<in># table_kvs tb"
  by (auto simp: table_kvs_def intro!: imageI dest: nth_mem)

lemma table_kvs_bucket:
  assumes "p \<in># table_kvs tb"
  obtains i e where "i < length tb" "e \<in> set (tb ! i)" "p = entry_kv e"
proof -
  from assms obtain c e where "c \<in> set tb" "e \<in> set c" "p = entry_kv e"
    by (auto simp: table_kvs_def)
  with that show thesis
    by (metis in_set_conv_nth)
qed

lemma bucket_ok_nth: "ht_ok T h \<Longrightarrow> i < length (ht_table h) \<Longrightarrow> bucket_ok T (ht_size_exp h) i (ht_table h ! i)"
  by (simp add: ht_ok_def)

lemma ht_ok_update:
  assumes "ht_ok T h" "i < length (ht_table h)" "bucket_ok T (ht_size_exp h) i c"
    and "ht_used h + length c = u + length (ht_table h ! i)"
  shows "ht_ok T (h\<lparr>ht_table := (ht_table h)[i := c], ht_used := u\<rparr>)"
  using assms length_concat_update [of i "ht_table h" c]
  by (auto simp: ht_ok_def nth_list_update)

lemma ht_ok_new: "0 \<le> e \<Longrightarrow> e \<le> 60 \<Longrightarrow>
    ht_ok T \<lparr>ht_table = replicate (2 ^ nat e) [], ht_used = 0, ht_size_exp = e\<rparr>"
  by (simp add: ht_ok_def)

section \<open>Rehashing\<close>

lemma nat_int_pm [dict_simps]:
  "nat (int n + 1) = Suc n" "nat (int n - 1) = n - 1" "nat (int n + - 1) = n - 1"
  by simp_all

lemma rehash_index_correct:
  assumes "rehashidx d = int i" "unat (dictHashKey d k AND DICTHT_SIZE_MASK (ht_size_exp (ht d 0))) = i"
    and "0 \<le> ht_size_exp (ht d 0)" "0 \<le> ht_size_exp (ht d 1)"
  shows "dictRehash_index d k = bucket_index d (dictHashKey d k) 1"
proof (cases "ht_size_exp (ht d 1) > ht_size_exp (ht d 0)")
  case False
  have "unat (word_of_int (int i) :: uint64) = i"
    using assms(2) [symmetric] by simp
  then show ?thesis
    using assms False
      mod_mod_cancel [OF le_imp_power_dvd, of "nat (ht_size_exp (ht d 1))" "nat (ht_size_exp (ht d 0))"
        "unat (dictHashKey d k)" 2]
    by (simp add: dictRehash_index_def bucket_index_def unat_and_size_mask)
qed (simp add: dictRehash_index_def)

lemma rehash_bucket_correct:
  assumes "ht_ok (type_of d) (ht d 1)" "0 \<le> ht_size_exp (ht d 0)" "rehashidx d = int i"
    and "\<forall>e\<in>set c. dentry_ok (type_of d) e \<and>
      unat (dictHashKey d (dictGetKey e) AND DICTHT_SIZE_MASK (ht_size_exp (ht d 0))) = i"
    and "length c \<le> ht_used (ht d 0)"
  shows "\<exists>h1. dictRehash_bucket c d =
       Some (set_ht 1 h1 (set_ht 0 ((ht d 0)\<lparr>ht_used := ht_used (ht d 0) - length c\<rparr>) d)) \<and>
     ht_ok (type_of d) h1 \<and> ht_size_exp h1 = ht_size_exp (ht d 1) \<and>
     table_kvs (ht_table h1) = table_kvs (ht_table (ht d 1)) + mset (map entry_kv c)"
  using assms
proof (induction c arbitrary: d)
  case Nil
  have "set_ht 1 (ht d 1) (set_ht 0 ((ht d 0)\<lparr>ht_used := ht_used (ht d 0)\<rparr>) d) = d"
    by (simp add: set_ht_def ht_def)
  with Nil show ?case
    by (intro exI [of _ "ht d 1"]) (simp add: dict_simps)
next
  case (Cons e c)
  let ?T = "type_of d" and ?h = "ht d 1"
  let ?i = "dictRehash_index d (dictGetKey e)"
  have idx: "?i = unat (dictHashKey d (dictGetKey e) AND DICTHT_SIZE_MASK (ht_size_exp ?h))"
    using Cons.prems rehash_index_correct [of d i "dictGetKey e"]
    by (simp add: bucket_index_def ht_ok_def)
  then have i: "?i < length (ht_table ?h)"
    using index_less Cons.prems(1) by metis
  let ?dst = "ht_table ?h ! ?i"
  have dst: "bucket_ok ?T (ht_size_exp ?h) ?i ?dst"
    using Cons.prems(1) i by (rule bucket_ok_nth)
  then obtain e' where e': "dictRehash_relink ?T e ?dst = Some (e' # ?dst)"
    "entry_kv e' = entry_kv e" "chain_ok ?T (e' # ?dst)"
    using relink_correct [of ?T e ?dst] Cons.prems(4) by (auto simp: bucket_ok_def)
  let ?hb = "?h\<lparr>ht_table := (ht_table ?h)[?i := e' # ?dst], ht_used := Suc (ht_used ?h)\<rparr>"
  let ?ha = "(ht d 0)\<lparr>ht_used := ht_used (ht d 0) - 1\<rparr>"
  let ?d = "set_ht 1 ?hb (set_ht 0 ?ha d)"
  have "dictGetKey e' = dictGetKey e"
    using e'(2) by (simp add: entry_kv_def)
  then have "bucket_ok ?T (ht_size_exp ?h) ?i (e' # ?dst)"
    using e'(3) dst idx by (auto simp: bucket_ok_def dictHashKey_def)
  then have ok1: "ht_ok ?T ?hb"
    using Cons.prems(1) i by (intro ht_ok_update) auto
  have kvs: "table_kvs (ht_table ?hb) = table_kvs (ht_table ?h) + {#entry_kv e#}"
    using table_kvs_update [OF i, of "e' # ?dst"] e'(2) by simp
  have "dictRehash_bucket (e # c) d = dictRehash_bucket c ?d"
    using i e' Cons.prems(5)
    by (simp add: bucket_get_def bucket_put_def add_used_def dict_simps Let_def nat_diff_distrib
      set_ht_def ht_def)
  moreover have "\<exists>h1. dictRehash_bucket c ?d =
       Some (set_ht 1 h1 (set_ht 0 ((ht ?d 0)\<lparr>ht_used := ht_used (ht ?d 0) - length c\<rparr>) ?d)) \<and>
     ht_ok (type_of ?d) h1 \<and> ht_size_exp h1 = ht_size_exp (ht ?d 1) \<and>
     table_kvs (ht_table h1) = table_kvs (ht_table (ht ?d 1)) + mset (map entry_kv c)"
    using Cons.prems ok1 by (intro Cons.IH) (auto simp: dict_simps dictHashKey_def)
  ultimately show ?case
    using kvs by (auto simp: dict_simps set_ht_def ht_def)
qed

definition skip_result :: "('k, 'v) chain list \<Rightarrow> nat \<Rightarrow> nat \<Rightarrow> bool \<Rightarrow> bool" where
  "skip_result tb idx i out \<longleftrightarrow> idx \<le> i \<and> i \<le> length tb \<and> (\<forall>l\<in>{idx..<i}. tb ! l = []) \<and>
     (if out then idx < i else i < length tb \<and> tb ! i \<noteq> [])"

lemma skip_result_Suc:
  assumes "skip_result tb (Suc idx) i out" "tb ! idx = []"
  shows "skip_result tb idx i out"
proof -
  from assms(1) have "{idx..<i} = insert idx {Suc idx..<i}"
    by (auto simp: skip_result_def)
  with assms show ?thesis
    by (auto simp: skip_result_def)
qed

lemma skip_correct:
  assumes "idx \<le> j" "j < length tb" "tb ! j \<noteq> []"
  shows "\<exists>i ev' out. dictRehash_skip tb idx ev = Some (i, ev', out) \<and> skip_result tb idx i out"
  using assms
proof (induction tb idx ev rule: dictRehash_skip.induct)
  case (1 tb idx ev)
  have less: "idx < length tb"
    using "1.prems" by simp
  consider "tb ! idx \<noteq> []" | "tb ! idx = []" "ev - 1 = 0" | "tb ! idx = []" "ev - 1 \<noteq> 0"
    by blast
  then show ?case
  proof cases
    case 3
    with "1.prems" have "idx + 1 \<le> j"
      by (metis Suc_eq_plus1 Suc_leI le_neq_implies_less)
    then obtain i ev' out where "dictRehash_skip tb (idx + 1) (ev - 1) = Some (i, ev', out)"
      "skip_result tb (idx + 1) i out"
      using "1.IH" [OF less 3 _ "1.prems"(2,3)] by blast
    with 3 less show ?thesis
      by (simp add: dictRehash_skip.simps [of tb idx] skip_result_Suc)
  qed (use less in \<open>auto simp: dictRehash_skip.simps [of tb idx] skip_result_def le_less_Suc_eq\<close>)
qed

lemma rehash_nonempty_bucket:
  assumes "dict_ok d" "dictIsRehashing d" "ht_used (ht d 0) \<noteq> 0"
  obtains j where "nat (rehashidx d) \<le> j" "j < length (ht_table (ht d 0))" "ht_table (ht d 0) ! j \<noteq> []"
proof -
  from assms have "concat (ht_table (ht d 0)) \<noteq> []"
    by (auto simp: dict_ok_def ht_ok_def)
  then obtain j where "j < length (ht_table (ht d 0))" "ht_table (ht d 0) ! j \<noteq> []"
    by (auto simp: in_set_conv_nth)
  moreover from this assms have "nat (rehashidx d) \<le> j"
    by (metis dict_ok_def not_le)
  ultimately show thesis
    using that by blast
qed

text \<open>What a rehashing leaves alone, and how far it is: the first table and its index.\<close>

definition rehash_frame :: "('k, 'v) dict \<Rightarrow> ('k, 'v) dict \<Rightarrow> bool" where
  "rehash_frame d d' \<longleftrightarrow> dict_ok d' \<and> contents d' = contents d \<and> type_of d' = type_of d \<and>
     pauserehash d' = pauserehash d"

lemma rehash_frame_trans: "rehash_frame d d' \<Longrightarrow> rehash_frame d' d'' \<Longrightarrow> rehash_frame d d''"
  by (simp add: rehash_frame_def)

definition still_rehashing :: "('k, 'v) dict \<Rightarrow> ('k, 'v) dict \<Rightarrow> bool" where
  "still_rehashing d d' \<longleftrightarrow> rehash_frame d d' \<and> dictIsRehashing d' \<and> rehashidx d \<le> rehashidx d' \<and>
     (\<forall>t. ht_size_exp (ht d' t) = ht_size_exp (ht d t))"

lemma still_rehashing_trans:
  "still_rehashing d d' \<Longrightarrow> still_rehashing d' d'' \<Longrightarrow> still_rehashing d d''"
  unfolding still_rehashing_def using rehash_frame_trans by fastforce

lemma dict_ok_rehashing:
  assumes "dict_ok d" "dictIsRehashing d"
  shows "type_ok (type_of d)" "ht_ok (type_of d) (ht d 0)" "ht_ok (type_of d) (ht d 1)"
    "0 \<le> rehashidx d" "nat (rehashidx d) \<le> length (ht_table (ht d 0))"
    "i < nat (rehashidx d) \<Longrightarrow> ht_table (ht d 0) ! i = []"
  using assms by (auto simp: dict_ok_def)

lemma skip_still_rehashing:
  assumes "dict_ok d" "dictIsRehashing d" "skip_result (ht_table (ht d 0)) (nat (rehashidx d)) i out"
  shows "still_rehashing d (d\<lparr>rehashidx := int i\<rparr>)"
proof -
  have "ht_table (ht d 0) ! l = []" if "l < i" for l
    using assms(3) dict_ok_rehashing(6) [OF assms(1,2)] that
    by (cases "l < nat (rehashidx d)") (auto simp: skip_result_def)
  moreover have "rehashidx d \<le> int i" "i \<le> length (ht_table (ht d 0))"
    using assms(3) by (auto simp: skip_result_def)
  ultimately show ?thesis
    using assms(1,2) unfolding still_rehashing_def rehash_frame_def
    by (auto simp: dict_ok_def dictIsRehashing_def dict_simps)
qed

lemma move_bucket_correct:
  assumes "dict_ok d" "rehashidx d = int i" "i < length (ht_table (ht d 0))"
  shows "\<exists>d1 d2. dictRehash_bucket (ht_table (ht d 0) ! i) d = Some d1 \<and> bucket_put d1 0 i [] = Some d2 \<and>
     still_rehashing d (d2\<lparr>rehashidx := int i + 1\<rparr>)"
proof -
  let ?h = "ht d 0" and ?T = "type_of d"
  let ?c = "ht_table ?h ! i"
  have reh: "dictIsRehashing d"
    using assms(2) by (simp add: dictIsRehashing_def)
  note ok = dict_ok_rehashing [OF assms(1) reh]
  have c: "bucket_ok ?T (ht_size_exp ?h) i ?c"
    using ok(2) assms(3) by (rule bucket_ok_nth)
  have len: "length ?c \<le> ht_used ?h"
    using ok(2) length_concat_update [OF assms(3), of "[]"] by (simp add: ht_ok_def)
  have "\<exists>h1. dictRehash_bucket ?c d = Some (set_ht 1 h1 (set_ht 0 (?h\<lparr>ht_used := ht_used ?h - length ?c\<rparr>) d)) \<and>
     ht_ok ?T h1 \<and> ht_size_exp h1 = ht_size_exp (ht d 1) \<and>
     table_kvs (ht_table h1) = table_kvs (ht_table (ht d 1)) + mset (map entry_kv ?c)"
    using ok assms(2) c len
    by (intro rehash_bucket_correct) (auto simp: ht_ok_def bucket_ok_def chain_ok_def dictHashKey_def)
  then obtain h1 where h1: "dictRehash_bucket ?c d = Some (set_ht 1 h1 (set_ht 0 (?h\<lparr>ht_used := ht_used ?h - length ?c\<rparr>) d))"
    "ht_ok ?T h1" "ht_size_exp h1 = ht_size_exp (ht d 1)"
    "table_kvs (ht_table h1) = table_kvs (ht_table (ht d 1)) + mset (map entry_kv ?c)"
    by blast
  let ?new = "?h\<lparr>ht_table := (ht_table ?h)[i := []], ht_used := ht_used ?h - length ?c\<rparr>"
  let ?d = "(set_ht 0 ?new (set_ht 1 h1 d))\<lparr>rehashidx := int i + 1\<rparr>"
  have new: "ht_ok ?T ?new"
    using ok(2) assms(3) len by (intro ht_ok_update) auto
  have cont: "contents ?d = contents d"
    using table_kvs_update [OF assms(3), of "[]"] h1(4)
    by (simp add: contents_def dict_simps union_ac)
  have "ht_table ?new ! l = []" if "l < Suc i" for l
    using that ok(6) assms(2,3) by (auto simp: nth_list_update less_Suc_eq)
  then have "still_rehashing d ?d"
    using assms h1(2,3) new cont unfolding still_rehashing_def rehash_frame_def
    by (auto simp: dict_ok_def dictIsRehashing_def dict_simps ht_def set_ht_def nat_add_distrib)
  moreover have "bucket_put (set_ht 1 h1 (set_ht 0 (?h\<lparr>ht_used := ht_used ?h - length ?c\<rparr>) d)) 0 i []
      = Some (set_ht 0 ?new (set_ht 1 h1 d))"
    using assms(3) by (simp add: bucket_put_def dict_simps set_ht_def ht_def Let_def)
  ultimately show ?thesis
    using h1(1) by blast
qed

lemma rehash_loop_correct:
  assumes "dict_ok d" "dictIsRehashing d"
  shows "\<exists>d' out. dictRehash_loop n ev d = Some (d', out) \<and> still_rehashing d d' \<and>
     (if ht_used (ht d 0) = 0 then d' = d \<and> \<not> out else n \<noteq> 0 \<longrightarrow> rehashidx d < rehashidx d')"
  using assms
proof (induction n arbitrary: d ev)
  case 0
  then show ?case
    by (auto simp: still_rehashing_def rehash_frame_def)
next
  case (Suc n)
  show ?case
  proof (cases "ht_used (ht d 0) = 0")
    case True
    with Suc.prems show ?thesis
      by (auto simp: still_rehashing_def rehash_frame_def)
  next
    case False
    note ok = dict_ok_rehashing [OF Suc.prems]
    obtain j where j: "nat (rehashidx d) \<le> j" "j < length (ht_table (ht d 0))" "ht_table (ht d 0) ! j \<noteq> []"
      using rehash_nonempty_bucket [OF Suc.prems False] .
    then obtain i ev' out where skip: "dictRehash_skip (ht_table (ht d 0)) (nat (rehashidx d)) ev = Some (i, ev', out)"
      "skip_result (ht_table (ht d 0)) (nat (rehashidx d)) i out"
      using skip_correct by blast
    let ?d = "d\<lparr>rehashidx := int i\<rparr>"
    have step: "still_rehashing d ?d"
      using Suc.prems skip(2) by (rule skip_still_rehashing)
    have check: "dict_check (DICTHT_SIZE (ht_size_exp (ht d 0)) > nat (rehashidx d)) = Some ()"
      using ok(2) le_less_trans [OF j(1,2)] by (simp only: dict_check_def ht_ok_def if_True)
    show ?thesis
    proof (cases out)
      case True
      have "dictRehash_loop (Suc n) ev d = Some (?d, True)"
        using False check skip(1) True by (simp add: Let_def)
      moreover have "rehashidx d < rehashidx ?d"
        using skip(2) True ok(4) by (simp add: skip_result_def nat_less_iff)
      ultimately show ?thesis
        using step False by (auto simp del: dictRehash_loop.simps)
    next
      case out: False
      then have i: "i < length (ht_table (ht d 0))" "nat (rehashidx d) \<le> i"
        using skip(2) by (auto simp: skip_result_def)
      have "dict_ok ?d"
        using step by (simp add: still_rehashing_def rehash_frame_def)
      then obtain d1 d2 where d2: "dictRehash_bucket (ht_table (ht d 0) ! i) ?d = Some d1"
        "bucket_put d1 0 i [] = Some d2" "still_rehashing ?d (d2\<lparr>rehashidx := int i + 1\<rparr>)"
        using move_bucket_correct [of ?d i] i by (auto simp: dict_simps)
      let ?e = "d2\<lparr>rehashidx := int i + 1\<rparr>"
      have step2: "still_rehashing d ?e"
        using step d2(3) by (rule still_rehashing_trans)
      then have "dict_ok ?e" "dictIsRehashing ?e"
        by (simp_all add: still_rehashing_def rehash_frame_def)
      from Suc.IH [OF this, of ev'] obtain d' out' where
        d': "dictRehash_loop n ev' ?e = Some (d', out')" "still_rehashing ?e d'"
        by blast
      have "rehashidx d < rehashidx d'"
        using d'(2) i(2) ok(4) by (simp add: still_rehashing_def nat_le_iff)
      moreover have "dictRehash_loop (Suc n) ev d = Some (d', out')"
        using False check skip(1) out i d2(1,2) d'(1) by (simp add: bucket_get_def dict_simps Let_def)
      ultimately show ?thesis
        using still_rehashing_trans [OF step2 d'(2)] False by (simp del: dictRehash_loop.simps)
    qed
  qed
qed

lemma rehash_finish_correct:
  assumes "dict_ok d" "dictIsRehashing d"
  shows "rehash_frame d (fst (dictRehash_finish d))"
    "if snd (dictRehash_finish d) then fst (dictRehash_finish d) = d \<and> ht_used (ht d 0) \<noteq> 0
     else \<not> dictIsRehashing (fst (dictRehash_finish d))"
proof -
  note ok = dict_ok_rehashing [OF assms]
  have "ht_used (ht d 0) = 0 \<Longrightarrow> table_kvs (ht_table (ht d 0)) = {#}"
    using ok(2) by (auto simp: ht_ok_def table_kvs_def)
  then show "rehash_frame d (fst (dictRehash_finish d))"
    using assms
    by (auto simp: rehash_frame_def dictRehash_finish_def dict_ok_def dictReset_def contents_def
      dictIsRehashing_def dict_simps)
qed (auto simp: dictRehash_finish_def dictIsRehashing_def)

text \<open>
  \<^verbatim>\<open>dictRehash\<close> keeps the invariant and the contents. When it asks to be called again it has
  moved the index of the first table forward; otherwise, when resizing is enabled, it is done.
\<close>

lemma dictRehash_step:
  assumes "dict_ok d"
  shows "\<exists>d' b. dictRehash cr d n = Some (d', b) \<and> rehash_frame d d' \<and>
     (\<not> dictIsRehashing d \<longrightarrow> d' = d \<and> \<not> b) \<and>
     (b \<and> n \<noteq> 0 \<longrightarrow> still_rehashing d d' \<and> rehashidx d < rehashidx d') \<and>
     (cr = DICT_RESIZE_ENABLE \<and> \<not> b \<longrightarrow> \<not> dictIsRehashing d')"
proof (cases "dictIsRehashing d")
  case True
  obtain d1 out where d1: "dictRehash_loop n (int n * 10) d = Some (d1, out)" "still_rehashing d d1"
    "if ht_used (ht d 0) = 0 then d1 = d \<and> \<not> out else n \<noteq> 0 \<longrightarrow> rehashidx d < rehashidx d1"
    using rehash_loop_correct [OF assms True] by blast
  then have "dict_ok d1" "dictIsRehashing d1" "rehash_frame d d1"
    by (simp_all add: still_rehashing_def rehash_frame_def)
  note fin = rehash_finish_correct [OF this(1,2)]
  have frame: "rehash_frame d (fst (dictRehash_finish d1))"
    using \<open>rehash_frame d d1\<close> fin(1) by (rule rehash_frame_trans)
  obtain d2 b where d2: "dictRehash_finish d1 = (d2, b)"
    by fastforce
  have refl: "rehash_frame d d"
    using assms by (simp add: rehash_frame_def)
  show ?thesis
  proof (cases out)
    case out: True
    with d1 have "rehash_frame d d1" "ht_used (ht d 0) \<noteq> 0"
      by (auto simp: still_rehashing_def split: if_splits)
    with out d1 True refl show ?thesis
      by (auto simp: dictRehash_def Let_def)
  next
    case False
    with d1 d2 fin(2) frame True refl show ?thesis
      by (auto simp: dictRehash_def Let_def split: if_splits)
  qed
qed (use assms in \<open>auto simp: dictRehash_def Let_def rehash_frame_def\<close>)

lemma rehash_if_rehashing_correct:
  assumes "dict_ok d"
  obtains d' where "rehash_if_rehashing cr d = Some d'" "rehash_frame d d'"
proof -
  obtain d' b where "dictRehash cr d 1 = Some (d', b)" "rehash_frame d d'"
    using dictRehash_step [OF assms, of cr 1] by blast
  moreover have "rehash_frame d d"
    using assms by (simp add: rehash_frame_def)
  ultimately show thesis
    using that by (cases "dictIsRehashing d"; cases "pauserehash d = 0")
      (auto simp: rehash_if_rehashing_def dictRehashStep_def)
qed

section \<open>Expansion\<close>

lemma table_kvs_replicate [simp]: "table_kvs (replicate n []) = {#}"
  by (simp add: table_kvs_def)

lemma size_no_overflow:
  assumes "(n :: nat) \<le> 2 ^ 60" "sz \<le> n"
  shows "n mod 2 ^ 64 = n" "(n < sz \<or> n * 8 mod 2 ^ 64 < n) = False"
  using assms by auto

lemma dictExpand_eq:
  assumes "sz \<le> 2 ^ 60"
  shows "dictExpand d sz =
     (let new = \<lparr>ht_table = replicate (2 ^ nat (dictNextExp sz)) [], ht_used = 0, ht_size_exp = dictNextExp sz\<rparr> in
      if dictIsRehashing d \<or> sz < ht_used (ht d 0) \<or> dictNextExp sz = ht_size_exp (ht d 0) then (d, False)
      else if ht_table (ht d 0) = [] then (set_ht 0 new d, True)
      else ((set_ht 1 new d)\<lparr>rehashidx := 0\<rparr>, True))"
proof -
  have exp: "dictNextExp sz \<le> 60" "sz \<le> 2 ^ nat (dictNextExp sz)"
    using dictNextExp_bounds [OF assms] by auto
  let ?n = "2 ^ nat (dictNextExp sz) :: nat"
  have "?n \<le> 2 ^ 60"
    using exp(1) by (intro power_increasing) auto
  note c = size_no_overflow [OF this exp(2)]
  show ?thesis
    unfolding dictExpand_def dictExpandInternal_def Let_def c by (simp only: if_False) simp
qed

lemma dictExpand_correct:
  assumes "dict_ok d" "sz \<le> 2 ^ 60" "dictExpand d sz = (d', ok)"
  shows "rehash_frame d d'"
    "ok \<longleftrightarrow> \<not> dictIsRehashing d \<and> ht_used (ht d 0) \<le> sz \<and> dictNextExp sz \<noteq> ht_size_exp (ht d 0)"
    "ok \<Longrightarrow> ht_ok (type_of d) (ht d' 0)"
proof -
  have exp: "2 \<le> dictNextExp sz" "dictNextExp sz \<le> 60"
    using dictNextExp_bounds [OF assms(2)] by auto
  let ?new = "\<lparr>ht_table = replicate (2 ^ nat (dictNextExp sz)) [], ht_used = 0, ht_size_exp = dictNextExp sz\<rparr>"
  have new: "ht_ok (type_of d) ?new"
    using exp by (intro ht_ok_new) auto
  let ?bad = "dictIsRehashing d \<or> sz < ht_used (ht d 0) \<or> dictNextExp sz = ht_size_exp (ht d 0)"
  note eq = dictExpand_eq [OF assms(2), of d, unfolded Let_def assms(3)]
  have "rehash_frame d d' \<and> (ok \<longleftrightarrow> \<not> ?bad) \<and> (ok \<longrightarrow> ht_ok (type_of d) (ht d' 0))"
  proof (cases ?bad)
    case True
    then have "d' = d" "\<not> ok"
      using eq by (simp_all only: if_True prod.inject simp_thms)
    with True assms(1) show ?thesis
      by (simp add: rehash_frame_def)
  next
    case bad: False
    show ?thesis
    proof (cases "ht_table (ht d 0) = []")
      case True
      then have "d' = set_ht 0 ?new d" "ok"
        using eq bad by (simp_all only: if_True if_False prod.inject simp_thms)
      with bad assms(1) new True show ?thesis
        by (auto simp: rehash_frame_def dict_ok_def contents_def dict_simps)
    next
      case False
      then have d': "d' = (set_ht 1 ?new d)\<lparr>rehashidx := 0\<rparr>" "ok"
        using eq bad by (simp_all only: if_False prod.inject simp_thms)
      have "ht_ok (type_of d) (ht d 0)" "ht d 1 = empty_ht"
        using assms(1) bad False by (auto simp: dict_ok_def)
      with d' bad assms(1) new show ?thesis
        by (auto simp: rehash_frame_def dict_ok_def contents_def dict_simps dictIsRehashing_def)
    qed
  qed
  then show "rehash_frame d d'"
    "ok \<longleftrightarrow> \<not> dictIsRehashing d \<and> ht_used (ht d 0) \<le> sz \<and> dictNextExp sz \<noteq> ht_size_exp (ht d 0)"
    "ok \<Longrightarrow> ht_ok (type_of d) (ht d' 0)"
    by auto
qed

lemma dict_ok_used: "dict_ok d \<Longrightarrow> ht_used (ht d 0) \<le> size (contents d)"
  using dictSize_size [of d] by (simp add: dictSize_def)

lemma dictExpandIfNeeded_correct:
  assumes "dict_ok d" "size (contents d) < 2 ^ 60" "dictExpandIfNeeded cr d = (d', ok)"
  shows "ok" "rehash_frame d d'" "ht_ok (type_of d) (ht d' 0)"
proof -
  let ?u = "ht_used (ht d 0)" and ?sz = "DICTHT_SIZE (ht_size_exp (ht d 0))"
  have u: "?u + 1 \<le> 2 ^ 60"
    using dict_ok_used [OF assms(1)] assms(2) by simp
  consider "dictIsRehashing d" | "\<not> dictIsRehashing d" "ht d 0 = empty_ht"
    | "\<not> dictIsRehashing d" "ht_ok (type_of d) (ht d 0)"
    using assms(1) by (auto simp: dict_ok_def split: if_splits)
  then have "ok \<and> rehash_frame d d' \<and> ht_ok (type_of d) (ht d' 0)"
  proof cases
    case 1
    with assms show ?thesis
      by (simp add: dictExpandIfNeeded_def Let_def rehash_frame_def dict_ok_def)
  next
    case 2
    with assms(3) have "dictExpand d 4 = (d', ok)"
      by (simp add: dictExpandIfNeeded_def Let_def DICTHT_SIZE_def DICT_HT_INITIAL_SIZE_def)
    from dictExpand_correct [OF assms(1) _ this] 2 dictNextExp_bounds(1) [of 4] show ?thesis
      by simp
  next
    case 3
    then have pos: "0 < ?sz"
      by (simp add: ht_ok_def)
    show ?thesis
    proof (cases "dictExpand d (?u + 1) = (d', ok) \<and> ?sz \<le> ?u")
      case True
      have "dictNextExp (?u + 1) \<noteq> ht_size_exp (ht d 0)"
        using dictNextExp_bounds(3) [OF u] True 3 by (auto simp: ht_ok_def)
      with dictExpand_correct [OF assms(1) u] True 3 show ?thesis
        by simp
    next
      case False
      have "?u div ?sz > dict_force_resize_ratio \<Longrightarrow> ?sz \<le> ?u"
        by (rule ccontr) (simp add: dict_force_resize_ratio_def)
      with False 3 assms(1,3) pos show ?thesis
        by (auto simp: dictExpandIfNeeded_def Let_def rehash_frame_def split: if_splits)
    qed
  qed
  then show "ok" "rehash_frame d d'" "ht_ok (type_of d) (ht d' 0)"
    by blast+
qed

section \<open>Keys\<close>

lemma type_okD:
  assumes "type_ok T"
  shows "keys_match T a b \<Longrightarrow> keys_match T b a" "keys_match T a b \<Longrightarrow> hashFunction T a = hashFunction T b"
    "keys_match T a b \<Longrightarrow> keys_match T b c \<Longrightarrow> keys_match T a c"
    "keys_match T a (dup_key T a)"
  using assms unfolding type_ok_def dup_key_def
  by (blast, blast, blast, cases "keyDup T") (auto simp: keys_match_def)

lemma distinct_keys_empty [simp]: "distinct_keys T {#}"
  by (simp add: distinct_keys_def)

lemma distinct_keysD:
  assumes "distinct_keys T M" "p \<in># M" "q \<in># M" "keys_match T (fst p) (fst q)"
  shows "p = q"
proof (rule ccontr)
  assume "p \<noteq> q"
  with assms(2,3) obtain N where "M = add_mset p (add_mset q N)"
    by (metis insert_noteq_member multi_member_split)
  with assms(1,4) show False
    unfolding distinct_keys_def by blast
qed

lemma distinct_keys_add:
  assumes "type_ok T" "distinct_keys T M" "\<forall>q\<in>#M. \<not> keys_match T (fst p) (fst q)"
  shows "distinct_keys T (add_mset p M)"
  unfolding distinct_keys_def
proof (intro allI impI notI)
  fix a b N
  assume eq: "add_mset p M = add_mset a (add_mset b N)" and match: "keys_match T (fst a) (fst b)"
  have sym: "keys_match T (fst b) (fst a)"
    using type_okD(1) [OF assms(1) match] .
  have "a \<noteq> p"
  proof
    assume "a = p"
    with eq have "b \<in># M"
      by simp
    with assms(3) match \<open>a = p\<close> show False
      by blast
  qed
  moreover have "b \<noteq> p"
  proof
    assume "b = p"
    with eq have "a \<in># M"
      by (simp add: add_mset_commute [of a])
    with assms(3) sym \<open>b = p\<close> show False
      by blast
  qed
  moreover have "p \<in># add_mset a (add_mset b N)"
    using eq by (metis union_single_eq_member)
  ultimately have "p \<in># N"
    by auto
  then obtain N' where "N = add_mset p N'"
    by (rule mset_add)
  with eq have "M = add_mset a (add_mset b N')"
    by (simp add: add_mset_commute [of p])
  with assms(2) match show False
    unfolding distinct_keys_def by blast
qed

lemma distinct_keys_subset:
  assumes "distinct_keys T (M + N)"
  shows "distinct_keys T M"
  using assms unfolding distinct_keys_def by (metis union_mset_add_mset_left)

lemma dict_lookup_None:
  "dict_lookup d k = None \<longleftrightarrow> (\<forall>p\<in>#contents d. \<not> keys_match (type_of d) k (fst p))"
  by (auto simp: dict_lookup_def find_None_iff contents_kvs)

lemma dict_lookup_Some:
  assumes "dict_ok d"
  shows "dict_lookup d k = Some p \<longleftrightarrow> p \<in># contents d \<and> keys_match (type_of d) k (fst p)"
proof
  assume "dict_lookup d k = Some p"
  then show "p \<in># contents d \<and> keys_match (type_of d) k (fst p)"
    by (auto simp: dict_lookup_def find_Some_iff contents_kvs)
next
  assume p: "p \<in># contents d \<and> keys_match (type_of d) k (fst p)"
  then obtain q where q: "dict_lookup d k = Some q"
    using dict_lookup_None [of d k] by blast
  then have "q \<in># contents d" "keys_match (type_of d) k (fst q)"
    by (auto simp: dict_lookup_def find_Some_iff contents_kvs)
  with p assms have "q = p"
    using distinct_keysD type_okD(1,3) unfolding dict_ok_def by metis
  with q show "dict_lookup d k = Some p"
    by simp
qed

lemma dict_lookup_frame: "dict_ok d \<Longrightarrow> rehash_frame d d' \<Longrightarrow> dict_lookup d' = dict_lookup d"
proof
  fix k
  assume "dict_ok d" "rehash_frame d d'"
  then have "dict_ok d'" "contents d' = contents d" "type_of d' = type_of d"
    by (auto simp: rehash_frame_def)
  with \<open>dict_ok d\<close> show "dict_lookup d' k = dict_lookup d k"
    using dict_lookup_None [of d' k] dict_lookup_None [of d k] dict_lookup_Some [of d' k]
      dict_lookup_Some [of d k] by (metis option.exhaust)
qed

section \<open>Search\<close>

definition ref_ok :: "('k, 'v) dict \<Rightarrow> entry_ref \<Rightarrow> bool" where
  "ref_ok d r \<longleftrightarrow> (case r of (t, i, p) \<Rightarrow>
     (t = 0 \<or> t = 1 \<and> dictIsRehashing d) \<and> ht_ok (type_of d) (ht d t) \<and>
     i < length (ht_table (ht d t)) \<and> p < length (ht_table (ht d t) ! i))"

definition ref_entry :: "('k, 'v) dict \<Rightarrow> entry_ref \<Rightarrow> ('k, 'v) dictEntry" where
  "ref_entry d r = (case r of (t, i, p) \<Rightarrow> ht_table (ht d t) ! i ! p)"

lemma entry_at_ref: "ref_ok d r \<Longrightarrow> entry_at d r = Some (ref_entry d r)"
  by (cases r) (auto simp: ref_ok_def ref_entry_def entry_at_def bucket_get_def Let_def)

lemma contents_table: "t \<in> {0, 1} \<Longrightarrow> table_kvs (ht_table (ht d t)) \<subseteq># contents d"
  by (auto simp: contents_def)

lemma ref_in_contents:
  assumes "ref_ok d r"
  shows "entry_kv (ref_entry d r) \<in># contents d"
proof -
  obtain t i p where r: "r = (t, i, p)"
    by (metis prod_cases3)
  with assms have "entry_kv (ref_entry d r) \<in># table_kvs (ht_table (ht d t))" "t \<in> {0, 1}"
    by (auto simp: ref_ok_def ref_entry_def intro!: bucket_kvs)
  then show ?thesis
    using contents_table mset_subset_eqD by metis
qed

lemma bucket_search_None:
  assumes "ht_ok T h" "type_ok T" "i = unat (hashFunction T k AND DICTHT_SIZE_MASK (ht_size_exp h))"
    and "chain_find T k (ht_table h ! i) = None"
  shows "\<forall>p\<in>#table_kvs (ht_table h). \<not> keys_match T k (fst p)"
proof (intro ballI notI)
  fix p
  assume "p \<in># table_kvs (ht_table h)" and m: "keys_match T k (fst p)"
  then obtain j e where e: "j < length (ht_table h)" "e \<in> set (ht_table h ! j)" "p = entry_kv e"
    by (elim table_kvs_bucket)
  with m have m': "keys_match T k (dictGetKey e)"
    by (simp add: entry_kv_def)
  have "unat (hashFunction T (dictGetKey e) AND DICTHT_SIZE_MASK (ht_size_exp h)) = j"
    using bucket_ok_nth [OF assms(1) e(1)] e(2) by (simp add: bucket_ok_def)
  then have "i = j"
    using assms(3) type_okD(2) [OF assms(2) m'] by simp
  with assms(4) e(2) m' show False
    by (auto simp: chain_find_None)
qed

lemma bucket_get_index:
  assumes "ht_ok (type_of d) (ht d t)"
  shows "bucket_get d t (bucket_index d h t) = Some (ht_table (ht d t) ! bucket_index d h t)"
    "bucket_index d h t < length (ht_table (ht d t))"
  using index_less [OF assms] by (simp_all add: bucket_get_def bucket_index_def Let_def)

lemma dict_search_correct:
  assumes "dict_ok d" "ht_ok (type_of d) (ht d 0)"
  obtains (absent) "dict_search d (dictHashKey d k) k = Some None"
      "\<forall>p\<in>#contents d. \<not> keys_match (type_of d) k (fst p)"
  | (found) r where "dict_search d (dictHashKey d k) k = Some (Some r)" "ref_ok d r"
      "keys_match (type_of d) k (dictGetKey (ref_entry d r))"
proof -
  let ?T = "type_of d" and ?h = "dictHashKey d k"
  let ?i = "\<lambda>t. bucket_index d ?h t"
  note b0 = bucket_get_index [OF assms(2), of ?h]
  have T: "type_ok ?T"
    using assms(1) by (simp add: dict_ok_def)
  show thesis
  proof (cases "chain_find ?T k (ht_table (ht d 0) ! ?i 0)")
    case (Some p)
    show thesis
    proof (rule found)
      show "dict_search d ?h k = Some (Some (0, ?i 0, p))"
        using Some b0 by (simp add: dict_search_def Let_def)
      show "ref_ok d (0, ?i 0, p)" "keys_match ?T k (dictGetKey (ref_entry d (0, ?i 0, p)))"
        using chain_find_Some [OF Some] b0 assms(2) by (simp_all add: ref_ok_def ref_entry_def)
    qed
  next
    case None
    have n0: "\<forall>p\<in>#table_kvs (ht_table (ht d 0)). \<not> keys_match ?T k (fst p)"
      using assms(2) T None by (intro bucket_search_None) (auto simp: bucket_index_def dictHashKey_def)
    show thesis
    proof (cases "dictIsRehashing d")
      case False
      then have "ht d 1 = empty_ht"
        using assms(1) by (simp add: dict_ok_def)
      with n0 have "\<forall>p\<in>#contents d. \<not> keys_match ?T k (fst p)"
        by (simp add: contents_def)
      with None False b0 show thesis
        by (intro absent) (simp_all add: dict_search_def Let_def)
    next
      case True
      note ok1 = dict_ok_rehashing(3) [OF assms(1) True]
      note b1 = bucket_get_index [OF ok1, of ?h]
      show thesis
      proof (cases "chain_find ?T k (ht_table (ht d 1) ! ?i 1)")
        case (Some p)
        show thesis
        proof (rule found)
          show "dict_search d ?h k = Some (Some (1, ?i 1, p))"
            using Some None True b0 b1 by (simp add: dict_search_def Let_def)
          show "ref_ok d (1, ?i 1, p)" "keys_match ?T k (dictGetKey (ref_entry d (1, ?i 1, p)))"
            using chain_find_Some [OF Some] b1 ok1 True by (simp_all add: ref_ok_def ref_entry_def)
        qed
      next
        case none1: None
        have "\<forall>p\<in>#table_kvs (ht_table (ht d 1)). \<not> keys_match ?T k (fst p)"
          using ok1 T none1 by (intro bucket_search_None) (auto simp: bucket_index_def dictHashKey_def)
        with n0 have "\<forall>p\<in>#contents d. \<not> keys_match ?T k (fst p)"
          by (auto simp: contents_def)
        with None none1 True b0 b1 show thesis
          by (intro absent) (simp_all add: dict_search_def Let_def)
      qed
    qed
  qed
qed

lemma dict_ok_nonempty:
  assumes "dict_ok d" "dictSize d \<noteq> 0"
  shows "ht_ok (type_of d) (ht d 0)"
  using assms by (auto simp: dict_ok_def dictSize_def split: if_splits)

lemma dict_ok_empty: "dict_ok d \<Longrightarrow> dictSize d = 0 \<Longrightarrow> contents d = {#}"
  by (simp add: dictSize_size)

lemma frame_nonempty:
  assumes "dict_ok d" "rehash_frame d d'" "dictSize d \<noteq> 0"
  shows "ht_ok (type_of d') (ht d' 0)"
  using assms dictSize_size [of d] dictSize_size [of d']
  by (intro dict_ok_nonempty) (auto simp: rehash_frame_def)

section \<open>Updates of one bucket\<close>

definition upd_bucket ::
  "nat \<Rightarrow> nat \<Rightarrow> ('k, 'v) chain \<Rightarrow> nat \<Rightarrow> ('k, 'v) dict \<Rightarrow> ('k, 'v) dict" where
  "upd_bucket t i c u d =
     set_ht t ((ht d t)\<lparr>ht_table := (ht_table (ht d t))[i := c], ht_used := u\<rparr>) d"

definition bucket_at :: "('k, 'v) dict \<Rightarrow> nat \<Rightarrow> nat \<Rightarrow> bool" where
  "bucket_at d t i \<longleftrightarrow> (t = 0 \<or> t = 1 \<and> dictIsRehashing d) \<and> ht_ok (type_of d) (ht d t) \<and>
     i < length (ht_table (ht d t))"

lemma ref_ok_bucket:
  "ref_ok d (t, i, p) \<longleftrightarrow> bucket_at d t i \<and> p < length (ht_table (ht d t) ! i)"
  by (auto simp: ref_ok_def bucket_at_def)

lemma bucket_at_cases:
  assumes "bucket_at d t i"
  shows "t = 0 \<or> t = Suc 0 \<and> dictIsRehashing d" "ht_ok (type_of d) (ht d t)" "i < length (ht_table (ht d t))"
  using assms by (auto simp: bucket_at_def)

lemma upd_bucket_fields [dict_simps]:
  "type_of (upd_bucket t i c u d) = type_of d" "rehashidx (upd_bucket t i c u d) = rehashidx d"
  "pauserehash (upd_bucket t i c u d) = pauserehash d"
  "dictIsRehashing (upd_bucket t i c u d) = dictIsRehashing d"
  by (simp_all add: upd_bucket_def dict_simps)

lemma ht_upd_bucket:
  "bucket_at d t i \<Longrightarrow> ht (upd_bucket t i c u d) t = (ht d t)\<lparr>ht_table := (ht_table (ht d t))[i := c], ht_used := u\<rparr>"
  by (auto simp: upd_bucket_def bucket_at_def dict_simps)

lemma bucket_put_upd:
  "bucket_at d t i \<Longrightarrow> bucket_put d t i c = Some (upd_bucket t i c (ht_used (ht d t)) d)"
  by (simp add: bucket_put_def upd_bucket_def bucket_at_def Let_def)

lemma bucket_get_at: "bucket_at d t i \<Longrightarrow> bucket_get d t i = Some (ht_table (ht d t) ! i)"
  by (simp add: bucket_get_def bucket_at_def Let_def)

lemma add_used_upd:
  "bucket_at d t i \<Longrightarrow> add_used t n (upd_bucket t i c u d) = upd_bucket t i c (nat (int u + n)) d"
  by (auto simp: add_used_def upd_bucket_def bucket_at_def dict_simps) (auto simp: set_ht_def)

lemma contents_upd_bucket:
  assumes "bucket_at d t i"
  shows "contents (upd_bucket t i c u d) + mset (map entry_kv (ht_table (ht d t) ! i)) =
     contents d + mset (map entry_kv c)"
  using bucket_at_cases(1) [OF assms] table_kvs_update [OF bucket_at_cases(3) [OF assms], of c]
  by (auto simp: contents_def upd_bucket_def dict_simps union_ac)

lemma dict_ok_upd_bucket:
  assumes "dict_ok d" "bucket_at d t i" "bucket_ok (type_of d) (ht_size_exp (ht d t)) i c"
    and "ht_used (ht d t) + length c = u + length (ht_table (ht d t) ! i)"
    and "dictIsRehashing d \<Longrightarrow> t = 0 \<Longrightarrow> ht_table (ht d t) ! i \<noteq> []"
    and "distinct_keys (type_of d) (contents (upd_bucket t i c u d))"
  shows "dict_ok (upd_bucket t i c u d)"
proof -
  note at = bucket_at_cases [OF assms(2)]
  let ?new = "(ht d t)\<lparr>ht_table := (ht_table (ht d t))[i := c], ht_used := u\<rparr>"
  have new: "ht_ok (type_of d) ?new"
    using at(2,3) assms(3,4) by (rule ht_ok_update)
  have "ht_table ?new ! l = []" if "dictIsRehashing d" "t = 0" "l < nat (rehashidx d)" for l
    using that assms(1,5) at(3) dict_ok_rehashing(6) [OF assms(1)] by (cases "l = i") auto
  with assms(1,6) new at(1) show ?thesis
    by (auto simp: dict_ok_def upd_bucket_def dict_simps)
qed

lemma dict_check_simps [simp]: "dict_check True = Some ()" "dict_check False = None"
  by (simp_all add: dict_check_def)

lemma type_ok_no_value:
  assumes "type_ok T" "no_value T"
  shows "\<not> valDestructor T" "(case dictEntryMetadataBytes T of Some n \<Rightarrow> n | None \<Rightarrow> 0) = 0"
proof -
  from assms have "\<not> valDestructor T" "dictEntryMetadataBytes T \<in> {None, Some 0}"
    unfolding type_ok_def by blast+
  then show "\<not> valDestructor T" "(case dictEntryMetadataBytes T of Some n \<Rightarrow> n | None \<Rightarrow> 0) = 0"
    by auto
qed

lemma distinct_keys_remove:
  assumes "distinct_keys T (add_mset p M)"
  shows "distinct_keys T M" "\<forall>q\<in>#M. \<not> keys_match T (fst p) (fst q)"
proof -
  show "distinct_keys T M"
    using assms distinct_keys_subset [of T M "{#p#}"] by simp
  show "\<forall>q\<in>#M. \<not> keys_match T (fst p) (fst q)"
    using assms unfolding distinct_keys_def by (metis multi_member_split)
qed

lemma mset_exchange:
  assumes "A + add_mset x R = B + add_mset y R" "B = add_mset x M"
  shows "A = add_mset y M"
proof -
  have "add_mset x (A + R) = add_mset x (add_mset y M + R)"
    using assms by (simp add: add_mset_commute)
  then show ?thesis
    by simp
qed

section \<open>Lookups after an update\<close>

lemma dict_lookupI:
  "dict_ok d \<Longrightarrow> p \<in># contents d \<Longrightarrow> keys_match (type_of d) k (fst p) \<Longrightarrow> dict_lookup d k = Some p"
  by (simp add: dict_lookup_Some)

lemma dict_lookup_add:
  assumes "dict_ok d" "dict_ok d'" "type_of d' = type_of d" "contents d' = add_mset p (contents d)"
  shows "dict_lookup d' k = (if keys_match (type_of d) k (fst p) then Some p else dict_lookup d k)"
proof (cases "keys_match (type_of d) k (fst p)")
  case True
  with assms show ?thesis
    by (simp add: dict_lookupI)
next
  case False
  then show ?thesis
  proof (cases "dict_lookup d k")
    case None
    with False assms have "dict_lookup d' k = None"
      by (simp add: dict_lookup_None)
    with None False show ?thesis
      by simp
  next
    case (Some q)
    with assms have "dict_lookup d' k = Some q"
      by (intro dict_lookupI) (auto simp: dict_lookup_Some)
    with False Some show ?thesis
      by simp
  qed
qed

lemma dict_lookup_remove:
  assumes "dict_ok d" "dict_ok d'" "type_of d' = type_of d" "contents d = add_mset p (contents d')"
  shows "dict_lookup d' k = (if keys_match (type_of d) k (fst p) then None else dict_lookup d k)"
proof (cases "keys_match (type_of d) k (fst p)")
  case True
  have "dict_lookup d' k = None"
    unfolding dict_lookup_None
  proof (intro ballI notI)
    fix q
    assume q: "q \<in># contents d'" "keys_match (type_of d') k (fst q)"
    then obtain N where "contents d' = add_mset q N"
      by (metis multi_member_split)
    with assms(4) have "contents d = add_mset p (add_mset q N)"
      by simp
    moreover have "keys_match (type_of d) (fst p) (fst q)"
      using True q(2) assms(1,3) type_okD(1,3) unfolding dict_ok_def by metis
    ultimately show False
      using assms(1) unfolding dict_ok_def distinct_keys_def by blast
  qed
  with True show ?thesis
    by simp
next
  case False
  then show ?thesis
    using dict_lookup_add [OF assms(2,1) _ assms(4), of k] assms(3) by simp
qed

section \<open>Operations\<close>

lemma dictFind_frame:
  assumes "dict_ok d"
  shows "\<exists>d' r. dictFind cr d k = Some (d', r) \<and> rehash_frame d d' \<and> pred_option (ref_ok d') r \<and>
     dict_lookup d k = map_option (\<lambda>r. entry_kv (ref_entry d' r)) r"
proof (cases "dictSize d = 0")
  case True
  then show ?thesis
    using assms dict_ok_empty [OF assms True] by (auto simp: dictFind_def rehash_frame_def dict_lookup_None)
next
  case False
  obtain d' where d': "rehash_if_rehashing cr d = Some d'" "rehash_frame d d'"
    using rehash_if_rehashing_correct [OF assms] .
  then have ok: "dict_ok d'" "type_of d' = type_of d" "contents d' = contents d"
    by (auto simp: rehash_frame_def)
  have lk: "dict_lookup d' k = dict_lookup d k"
    using dict_lookup_frame [OF assms d'(2)] by simp
  from ok(1) frame_nonempty [OF assms d'(2) False] show ?thesis
  proof (cases rule: dict_search_correct [where k = k])
    case absent
    then have "dict_lookup d' k = None"
      by (simp add: dict_lookup_None)
    with d' False lk absent(1) show ?thesis
      by (simp add: dictFind_def)
  next
    case (found r)
    then have "dict_lookup d' k = Some (entry_kv (ref_entry d' r))"
      by (intro dict_lookupI ok ref_in_contents) (simp_all add: entry_kv_def)
    with d' False lk found show ?thesis
      by (simp add: dictFind_def)
  qed
qed

lemma entry_ok_ref:
  assumes "ref_ok d r"
  shows "dentry_ok (type_of d) (ref_entry d r)"
proof -
  obtain t i p where r: "r = (t, i, p)"
    by (metis prod_cases3)
  with assms bucket_ok_nth [of "type_of d" "ht d t" i] show ?thesis
    by (auto simp: ref_ok_def ref_entry_def bucket_ok_def chain_ok_def)
qed

lemma dictSetVal_step:
  assumes "dict_ok d" "ref_ok d r" "\<not> no_value (type_of d)"
  shows "\<exists>d' M. dictSetVal d r v = Some d' \<and> dict_ok d' \<and> type_of d' = type_of d \<and>
     contents d = add_mset (entry_kv (ref_entry d r)) M \<and>
     contents d' = add_mset (dictGetKey (ref_entry d r), Some (dup_val (type_of d) v)) M"
proof -
  obtain t i p where r: "r = (t, i, p)"
    by (metis prod_cases3)
  let ?e = "ref_entry d r" and ?c = "ht_table (ht d t) ! i"
  let ?e' = "EntryNormal (dictGetKey ?e) (dup_val (type_of d) v)"
  let ?d = "upd_bucket t i (?c[p := ?e']) (ht_used (ht d t)) d"
  have at: "bucket_at d t i" and p: "p < length ?c"
    using assms(2) by (simp_all add: r ref_ok_bucket)
  have e: "?e = ?c ! p"
    by (simp add: r ref_entry_def)
  have normal: "entryIsNormal ?e"
    using entry_ok_ref [OF assms(2)] assms(3) by (simp add: dentry_ok_def)
  have set: "dictSetVal d r v = Some ?d"
    using at entry_at_ref [OF assms(2)] normal unfolding r
    by (simp add: dictSetVal_def dict_check_def entryHasValue_def bucket_get_at bucket_put_upd dup_val_def)
  have c: "?c = take p ?c @ ?e # drop (Suc p) ?c" "?c[p := ?e'] = take p ?c @ ?e' # drop (Suc p) ?c"
    using p by (simp_all add: e id_take_nth_drop [symmetric] upd_conv_take_nth_drop)
  let ?M = "contents d - {#entry_kv ?e#}"
  have M: "contents d = add_mset (entry_kv ?e) ?M"
    using ref_in_contents [OF assms(2)] by simp
  have "mset (map entry_kv ?c) = add_mset (entry_kv ?e) (mset (map entry_kv (take p ?c @ drop (Suc p) ?c)))"
    by (subst c(1)) simp
  moreover have "mset (map entry_kv (?c[p := ?e'])) =
      add_mset (dictGetKey ?e, Some (dup_val (type_of d) v)) (mset (map entry_kv (take p ?c @ drop (Suc p) ?c)))"
    by (subst c(2)) (simp add: entry_kv_def)
  ultimately have cont: "contents ?d = add_mset (dictGetKey ?e, Some (dup_val (type_of d) v)) ?M"
    using contents_upd_bucket [OF at, of "?c[p := ?e']" "ht_used (ht d t)"] M
    by (intro mset_exchange [OF _ M]) simp
  have "bucket_ok (type_of d) (ht_size_exp (ht d t)) i ?c"
    using at bucket_at_cases bucket_ok_nth by blast
  then have "bucket_ok (type_of d) (ht_size_exp (ht d t)) i (?c[p := ?e'])"
    using p assms(3) e by (auto simp: bucket_ok_def chain_ok_def dentry_ok_def butlast_list_update
      dest!: set_update_subset_insert [THEN subsetD] split: if_splits)
  moreover have "distinct_keys (type_of d) (contents ?d)"
  proof -
    have T: "type_ok (type_of d)" and "distinct_keys (type_of d) (contents d)"
      using assms(1) by (auto simp: dict_ok_def)
    then have "distinct_keys (type_of d) ?M" "\<forall>q\<in>#?M. \<not> keys_match (type_of d) (dictGetKey ?e) (fst q)"
      using M distinct_keys_remove [of "type_of d" "entry_kv ?e" ?M] by (simp_all add: entry_kv_def)
    with T cont show ?thesis
      by (simp add: distinct_keys_add)
  qed
  ultimately have "dict_ok ?d"
    using assms(1) at p by (intro dict_ok_upd_bucket) auto
  with set M cont show ?thesis
    by (auto simp: dict_simps)
qed

definition new_kv :: "('k, 'v) dictType \<Rightarrow> 'v \<Rightarrow> 'k \<Rightarrow> 'k \<times> 'v option" where
  "new_kv T v k = (k, if no_value T then None else Some v)"

lemma dictInsertAtPosition_step:
  assumes "dict_ok d" "t = (if dictIsRehashing d then 1 else 0)" "ht_ok (type_of d) (ht d 0)"
    and "i = bucket_index d (dictHashKey d k) t"
    and "no_value (type_of d) \<and> keys_are_odd (type_of d) \<longrightarrow> ptr_lsb (type_of d) k"
    and "\<forall>q\<in>#contents d. \<not> keys_match (type_of d) k (fst q)"
  shows "\<exists>d'. dictInsertAtPosition junk d k (t, i) = Some (d', (t, i, 0)) \<and> dict_ok d' \<and>
     type_of d' = type_of d \<and> pauserehash d' = pauserehash d \<and>
     contents d' = add_mset (new_kv (type_of d) junk k) (contents d) \<and>
     ref_ok d' (t, i, 0) \<and> entry_kv (ref_entry d' (t, i, 0)) = new_kv (type_of d) junk k"
proof -
  let ?T = "type_of d" and ?c = "ht_table (ht d t) ! i"
  have T: "type_ok ?T" "distinct_keys ?T (contents d)"
    using assms(1) by (auto simp: dict_ok_def)
  have okt: "ht_ok ?T (ht d t)"
    using assms(1-3) by (auto simp: dict_ok_def)
  have at: "bucket_at d t i"
    using okt bucket_get_index(2) [OF okt] assms(2,4) by (auto simp: bucket_at_def)
  define e where "e = (if no_value ?T then if keys_are_odd ?T \<and> ?c = [] then EntryKey k else EntryNoValue k
    else EntryNormal k junk)"
  have kv: "entry_kv e = new_kv ?T junk k" and key: "dictGetKey e = k" "entryIsKey e \<Longrightarrow> ?c = []"
    and eok: "dentry_ok ?T e"
    using assms(5) by (auto simp: e_def entry_kv_def new_kv_def dentry_ok_def split: if_splits)
  let ?d = "upd_bucket t i (e # ?c) (Suc (ht_used (ht d t))) d"
  have mask: "i \<le> unat (DICTHT_SIZE_MASK (ht_size_exp (ht d t)))"
    using at okt unat_size_mask [of "ht_size_exp (ht d t)"] by (auto simp: bucket_at_def ht_ok_def)
  have meta: "no_value ?T \<Longrightarrow> (case dictEntryMetadataBytes ?T of Some n \<Rightarrow> n | None \<Rightarrow> 0) = 0"
    using T(1) by (rule type_ok_no_value)
  have entry: "(if no_value ?T then do {
       dict_check ((case dictEntryMetadataBytes ?T of Some n \<Rightarrow> n | None \<Rightarrow> 0) = 0);
       if keys_are_odd ?T \<and> ?c = [] then do { dict_check (ptr_lsb ?T k); Some (EntryKey k) }
       else Some (EntryNoValue k)
     } else Some (EntryNormal k junk)) = Some e"
    using meta assms(5) by (auto simp: e_def dict_check_def)
  have ins: "dictInsertAtPosition junk d k (t, i) = Some (?d, (t, i, 0))"
    unfolding dictInsertAtPosition_def prod.case Let_def assms(2) [symmetric]
    using mask entry at add_used_upd [OF at, of 1 "e # ?c" "ht_used (ht d t)"]
    by (simp add: bucket_get_at bucket_put_upd dict_simps)
  have cont: "contents ?d = add_mset (new_kv ?T junk k) (contents d)"
    using contents_upd_bucket [OF at, of "e # ?c" "Suc (ht_used (ht d t))"] kv by simp
  have "bucket_ok ?T (ht_size_exp (ht d t)) i ?c"
    using okt at by (intro bucket_ok_nth) (auto simp: bucket_at_def)
  then have bok: "bucket_ok ?T (ht_size_exp (ht d t)) i (e # ?c)"
    using assms(4) key eok by (simp add: bucket_ok_Cons bucket_index_def dictHashKey_def)
  have "distinct_keys ?T (contents ?d)"
    unfolding cont using T assms(6) by (intro distinct_keys_add) (auto simp: new_kv_def)
  with bok have "dict_ok ?d"
    using assms(1,2) at by (intro dict_ok_upd_bucket) (auto split: if_splits)
  moreover have h: "ht ?d t = (ht d t)\<lparr>ht_table := (ht_table (ht d t))[i := e # ?c], ht_used := Suc (ht_used (ht d t))\<rparr>"
    using at by (rule ht_upd_bucket)
  have "ht_ok ?T (ht ?d t)"
    unfolding h using okt at bok by (intro ht_ok_update) (auto simp: bucket_at_def)
  then have "ref_ok ?d (t, i, 0)"
    using at h by (auto simp: ref_ok_def bucket_at_def dict_simps)
  moreover have "ref_entry ?d (t, i, 0) = e"
    using at h by (simp add: ref_entry_def bucket_at_def)
  ultimately show ?thesis
    using ins cont kv by (simp add: dict_simps)
qed

lemma dictAddRaw_step:
  assumes "dict_ok d" "size (contents d) < 2 ^ 60" "key_ok (type_of d) k"
  shows "case dict_lookup d k of
     Some p \<Rightarrow> \<exists>d' r. dictAddRaw junk cr d k = Some (d', None, Some r) \<and> rehash_frame d d' \<and> ref_ok d' r \<and>
       entry_kv (ref_entry d' r) = p
   | None \<Rightarrow> \<exists>d' r. dictAddRaw junk cr d k = Some (d', Some r, None) \<and> dict_ok d' \<and> type_of d' = type_of d \<and>
       pauserehash d' = pauserehash d \<and> ref_ok d' r \<and>
       contents d' = add_mset (new_kv (type_of d) junk (dup_key (type_of d) k)) (contents d) \<and>
       entry_kv (ref_entry d' r) = new_kv (type_of d) junk (dup_key (type_of d) k)"
proof -
  let ?T = "type_of d" and ?k = "dup_key (type_of d) k"
  obtain d1 where d1: "rehash_if_rehashing cr d = Some d1" "rehash_frame d d1"
    using rehash_if_rehashing_correct [OF assms(1)] .
  then have ok1: "dict_ok d1" "contents d1 = contents d"
    by (auto simp: rehash_frame_def)
  obtain d2 ok where d2: "dictExpandIfNeeded cr d1 = (d2, ok)"
    by fastforce
  note exp = dictExpandIfNeeded_correct [OF ok1(1) _ d2]
  have "rehash_frame d1 d2" "ok" "ht_ok (type_of d1) (ht d2 0)"
    using exp assms(2) ok1(2) by simp_all
  then have frame: "rehash_frame d d2" and ht0: "ht_ok (type_of d2) (ht d2 0)" and "ok"
    using rehash_frame_trans [OF d1(2)] by (auto simp: rehash_frame_def)
  then have ok2: "dict_ok d2" "type_of d2 = ?T" "contents d2 = contents d" "pauserehash d2 = pauserehash d"
    by (auto simp: rehash_frame_def)
  have lk: "dict_lookup d2 k = dict_lookup d k"
    using dict_lookup_frame [OF assms(1) frame] by simp
  have hash: "dictHashKey d k = dictHashKey d2 k"
    by (simp add: dictHashKey_def ok2)
  have T: "type_ok ?T"
    using assms(1) by (simp add: dict_ok_def)
  from ok2(1) ht0 show ?thesis
  proof (cases rule: dict_search_correct [where k = k])
    case absent
    then have "dict_lookup d2 k = None"
      by (simp add: dict_lookup_None)
    with lk have "dict_lookup d k = None"
      by simp
    define t i where "t = (if dictIsRehashing d2 then 1 else 0 :: nat)" and "i = bucket_index d2 (dictHashKey d2 k) t"
    have "dictFindPositionForInsert cr d k = Some (d2, Some (t, i), None)"
      using d1(1) d2 \<open>ok\<close> absent(1) hash by (simp add: dictFindPositionForInsert_def Let_def t_def i_def)
    moreover have "(case keyDup (type_of d2) of Some dup \<Rightarrow> dup k | None \<Rightarrow> k) = ?k"
      by (simp add: dup_key_def ok2)
    moreover have "\<exists>d'. dictInsertAtPosition junk d2 ?k (t, i) = Some (d', (t, i, 0)) \<and> dict_ok d' \<and>
      type_of d' = type_of d2 \<and> pauserehash d' = pauserehash d2 \<and>
      contents d' = add_mset (new_kv (type_of d2) junk ?k) (contents d2) \<and>
      ref_ok d' (t, i, 0) \<and> entry_kv (ref_entry d' (t, i, 0)) = new_kv (type_of d2) junk ?k"
    proof (rule dictInsertAtPosition_step [OF ok2(1) t_def ht0])
      show "i = bucket_index d2 (dictHashKey d2 ?k) t"
        using type_okD(2) [OF T type_okD(4) [OF T]] by (simp add: i_def dictHashKey_def ok2)
      show "no_value (type_of d2) \<and> keys_are_odd (type_of d2) \<longrightarrow> ptr_lsb (type_of d2) ?k"
        using assms(3) by (simp add: ok2 key_ok_def)
      show "\<forall>q\<in>#contents d2. \<not> keys_match (type_of d2) ?k (fst q)"
        using absent(2) type_okD(3,4) [OF T] unfolding ok2 by blast
    qed
    ultimately show ?thesis
      using \<open>dict_lookup d k = None\<close> by (auto simp: dictAddRaw_def Let_def ok2(2-4))
  next
    case (found r)
    then have "dict_lookup d2 k = Some (entry_kv (ref_entry d2 r))"
      by (intro dict_lookupI ok2 ref_in_contents) (simp_all add: entry_kv_def)
    moreover have "dictFindPositionForInsert cr d k = Some (d2, None, Some r)"
      using d1(1) d2 \<open>ok\<close> found(1) hash by (simp add: dictFindPositionForInsert_def Let_def)
    ultimately show ?thesis
      using frame found(2) lk by (simp add: dictAddRaw_def)
  qed
qed

text \<open>\<^verbatim>\<open>dictAdd\<close>, \<^verbatim>\<open>dictReplace\<close> and the removals on the abstract map of keys to their entries.\<close>

lemma new_kv_value: "\<not> no_value T \<Longrightarrow> new_kv T v k = (k, Some v)"
  by (simp add: new_kv_def)

lemma dup_key_match:
  assumes "type_ok T"
  shows "keys_match T x (dup_key T k) \<longleftrightarrow> keys_match T x k"
  using type_okD [OF assms] by metis

lemma dictAdd_map:
  assumes "dict_ok d" "size (contents d) < 2 ^ 60" "key_ok (type_of d) k"
  shows "\<exists>d'. dictAdd junk cr d k v = Some (d', dict_lookup d k = None) \<and> dict_ok d' \<and>
     type_of d' = type_of d \<and>
     size (contents d') = size (contents d) + (if dict_lookup d k = None then 1 else 0) \<and>
     dict_lookup d' = (\<lambda>x. if dict_lookup d k = None \<and> keys_match (type_of d) x k
       then Some (new_kv (type_of d) (dup_val (type_of d) v) (dup_key (type_of d) k))
       else dict_lookup d x)"
proof (cases "dict_lookup d k")
  case (Some p)
  then obtain d' r where d': "dictAddRaw junk cr d k = Some (d', None, Some r)" "rehash_frame d d'"
    using dictAddRaw_step [OF assms, of junk cr] by auto
  with Some dict_lookup_frame [OF assms(1) d'(2)] show ?thesis
    by (auto simp: dictAdd_def rehash_frame_def)
next
  case None
  let ?T = "type_of d" and ?k = "dup_key (type_of d) k"
  have T: "type_ok ?T"
    using assms(1) by (simp add: dict_ok_def)
  obtain d1 r where d1: "dictAddRaw junk cr d k = Some (d1, Some r, None)" "dict_ok d1" "type_of d1 = ?T"
    "ref_ok d1 r" "contents d1 = add_mset (new_kv ?T junk ?k) (contents d)"
    "entry_kv (ref_entry d1 r) = new_kv ?T junk ?k"
    using dictAddRaw_step [OF assms, of junk cr] None by auto
  have "\<exists>d2. (if no_value ?T then Some d1 else dictSetVal d1 r v) = Some d2 \<and> dict_ok d2 \<and> type_of d2 = ?T \<and>
     contents d2 = add_mset (new_kv ?T (dup_val ?T v) ?k) (contents d)"
  proof (cases "no_value ?T")
    case True
    with d1 show ?thesis
      by (simp add: new_kv_def)
  next
    case False
    then obtain d2 M where "dictSetVal d1 r v = Some d2" "dict_ok d2" "type_of d2 = ?T"
      "contents d1 = add_mset (entry_kv (ref_entry d1 r)) M"
      "contents d2 = add_mset (dictGetKey (ref_entry d1 r), Some (dup_val ?T v)) M"
      using dictSetVal_step [OF d1(2,4), of v] d1(3) by auto
    moreover have "dictGetKey (ref_entry d1 r) = ?k"
      using d1(6) by (simp add: entry_kv_def new_kv_def)
    ultimately show ?thesis
      using False d1(5,6) by (simp add: new_kv_def)
  qed
  then obtain d2 where d2: "(if no_value ?T then Some d1 else dictSetVal d1 r v) = Some d2" "dict_ok d2"
    "type_of d2 = ?T" "contents d2 = add_mset (new_kv ?T (dup_val ?T v) ?k) (contents d)"
    by blast
  have "dict_lookup d2 = (\<lambda>x. if keys_match ?T x k then Some (new_kv ?T (dup_val ?T v) ?k) else dict_lookup d x)"
    using dict_lookup_add [OF assms(1) d2(2,3,4)] dup_key_match [OF T] by (auto simp: new_kv_def fun_eq_iff)
  with None d1(1,3) d2 show ?thesis
    by (simp add: dictAdd_def)
qed

lemma lookup_exchange:
  assumes "dict_ok d" "dict_ok d'" "type_of d' = type_of d" "contents d = add_mset (a, v) M"
    "contents d' = add_mset (a, w) M"
  shows "dict_lookup d' = (\<lambda>x. if keys_match (type_of d) x a then Some (a, w) else dict_lookup d x)"
proof
  fix x
  show "dict_lookup d' x = (if keys_match (type_of d) x a then Some (a, w) else dict_lookup d x)"
  proof (cases "keys_match (type_of d) x a")
    case True
    with assms show ?thesis
      by (simp add: dict_lookupI)
  next
    case False
    have "dict_lookup d' x = dict_lookup d x"
    proof (cases "dict_lookup d x")
      case None
      with False assms(3-5) have "dict_lookup d' x = None"
        by (simp add: dict_lookup_None)
      with None show ?thesis
        by simp
    next
      case (Some q)
      then have q: "q \<in># contents d" "keys_match (type_of d) x (fst q)"
        using dict_lookup_Some [OF assms(1)] by auto
      with False assms(2-5) have "dict_lookup d' x = Some q"
        by (intro dict_lookupI) auto
      with Some show ?thesis
        by simp
    qed
    with False show ?thesis
      by simp
  qed
qed

definition kv_events :: "('k, 'v) dictType \<Rightarrow> 'k \<times> 'v option \<Rightarrow> ('k, 'v) dict_event list" where
  "kv_events T kv = (if keyDestructor T then [FreeKey (fst kv)] else []) @
     (if valDestructor T then case snd kv of Some v \<Rightarrow> [FreeVal v] | None \<Rightarrow> [] else [])"

lemma free_entry_events:
  assumes "type_ok T" "dentry_ok T e"
  shows "free_entry T e = Some (kv_events T (entry_kv e))"
  using assms(2) type_ok_no_value(1) [OF assms(1)]
  by (cases e; cases "no_value T") (auto simp: free_entry_def kv_events_def entry_kv_def dentry_ok_def Let_def)

lemma dictReplace_map:
  assumes "dict_ok d" "size (contents d) < 2 ^ 60" "key_ok (type_of d) k" "\<not> no_value (type_of d)"
  shows "\<exists>d' evs. dictReplace junk cr d k v = Some (d', dict_lookup d k = None, evs) \<and> dict_ok d' \<and>
     type_of d' = type_of d \<and>
     size (contents d') = size (contents d) + (if dict_lookup d k = None then 1 else 0) \<and>
     dict_lookup d' = (\<lambda>x. if keys_match (type_of d) x k
       then Some (case dict_lookup d k of Some p \<Rightarrow> fst p | None \<Rightarrow> dup_key (type_of d) k,
                  Some (dup_val (type_of d) v))
       else dict_lookup d x) \<and>
     evs = (case dict_lookup d k of
              Some (_, Some old) \<Rightarrow> if valDestructor (type_of d) then [FreeVal old] else []
            | _ \<Rightarrow> [])"
proof (cases "dict_lookup d k")
  case (Some p)
  let ?T = "type_of d"
  have T: "type_ok ?T"
    using assms(1) by (simp add: dict_ok_def)
  have pk: "keys_match ?T k (fst p)"
    using Some dict_lookup_Some [OF assms(1)] by blast
  have pm: "keys_match ?T x (fst p) \<longleftrightarrow> keys_match ?T x k" for x
    using pk type_okD [OF T] by metis
  obtain d1 r where d1: "dictAddRaw junk cr d k = Some (d1, None, Some r)" "rehash_frame d d1" "ref_ok d1 r"
    "entry_kv (ref_entry d1 r) = p"
    using dictAddRaw_step [OF assms(1-3), of junk cr] Some by auto
  then have ok1: "dict_ok d1" "type_of d1 = ?T" "contents d1 = contents d"
    by (auto simp: rehash_frame_def)
  obtain old where old: "dictGetVal (ref_entry d1 r) = Some old"
    using entry_ok_ref [OF d1(3)] assms(4) ok1(2) by (cases "ref_entry d1 r") (auto simp: dentry_ok_def)
  have key: "dictGetKey (ref_entry d1 r) = fst p" "p = (fst p, Some old)"
    using d1(4) old by (auto simp: entry_kv_def)
  obtain d2 M where d2: "dictSetVal d1 r v = Some d2" "dict_ok d2" "type_of d2 = ?T"
    "contents d1 = add_mset p M" "contents d2 = add_mset (fst p, Some (dup_val ?T v)) M"
    using dictSetVal_step [OF ok1(1) d1(3), of v] assms(4) ok1(2) d1(4) key(1) by auto
  have "dict_lookup d2 = (\<lambda>x. if keys_match ?T x k then Some (fst p, Some (dup_val ?T v)) else dict_lookup d x)"
    using lookup_exchange [OF ok1(1) d2(2) _ _ d2(5), of "Some old"] d2(3,4) ok1(2) key(2)
    by (simp add: pm dict_lookup_frame [OF assms(1) d1(2)] cong: if_cong)
  moreover have "size (contents d2) = size (contents d)"
    using d2(4,5) ok1(3) by simp
  moreover have "dictReplace junk cr d k v = Some (d2, False, if valDestructor ?T then [FreeVal old] else [])"
    using d1(1) entry_at_ref [OF d1(3)] old d2(1,3) by (simp add: dictReplace_def)
  ultimately show ?thesis
    using Some d2 key(2) by (cases p) (simp cong: if_cong)
next
  case None
  let ?T = "type_of d" and ?k = "dup_key (type_of d) k"
  have T: "type_ok ?T"
    using assms(1) by (simp add: dict_ok_def)
  obtain d1 r where d1: "dictAddRaw junk cr d k = Some (d1, Some r, None)" "dict_ok d1" "type_of d1 = ?T"
    "ref_ok d1 r" "contents d1 = add_mset (new_kv ?T junk ?k) (contents d)"
    "entry_kv (ref_entry d1 r) = new_kv ?T junk ?k"
    using dictAddRaw_step [OF assms(1-3), of junk cr] None by auto
  moreover obtain d2 M where d2: "dictSetVal d1 r v = Some d2" "dict_ok d2" "type_of d2 = ?T"
    "contents d1 = add_mset (entry_kv (ref_entry d1 r)) M"
    "contents d2 = add_mset (dictGetKey (ref_entry d1 r), Some (dup_val ?T v)) M"
    using dictSetVal_step [OF d1(2,4), of v] d1(3) assms(4) by auto
  moreover have "dictGetKey (ref_entry d1 r) = ?k"
    using d1(6) by (simp add: entry_kv_def new_kv_def)
  ultimately have cont: "contents d2 = add_mset (?k, Some (dup_val ?T v)) (contents d)"
    by simp
  have "dict_lookup d2 = (\<lambda>x. if keys_match ?T x k then Some (?k, Some (dup_val ?T v)) else dict_lookup d x)"
    using dict_lookup_add [OF assms(1) d2(2,3) cont] dup_key_match [OF T] by (auto simp: fun_eq_iff)
  with None d1(1) d2(1-3) cont show ?thesis
    by (simp add: dictReplace_def cong: if_cong)
qed

lemma unlink_ref:
  assumes "dict_ok d" "ref_ok d (t, i, p)"
  shows "\<exists>c'. bucket_get d t i = Some (ht_table (ht d t) ! i) \<and>
     chain_unlink p (ht_table (ht d t) ! i) = Some (c', ref_entry d (t, i, p)) \<and>
     0 < ht_used (ht d t) \<and>
     dict_ok (upd_bucket t i c' (ht_used (ht d t) - 1) d) \<and>
     contents d = add_mset (entry_kv (ref_entry d (t, i, p))) (contents (upd_bucket t i c' (ht_used (ht d t) - 1) d))"
proof -
  let ?c = "ht_table (ht d t) ! i"
  let ?c' = "take p ?c @ drop (Suc p) ?c"
  let ?d = "upd_bucket t i ?c' (ht_used (ht d t) - 1) d"
  have at: "bucket_at d t i" and p: "p < length ?c"
    using assms(2) by (simp_all add: ref_ok_bucket)
  note okt = bucket_at_cases [OF at]
  have bok: "bucket_ok (type_of d) (ht_size_exp (ht d t)) i ?c"
    using okt(2,3) by (rule bucket_ok_nth)
  then have un: "chain_unlink p ?c = Some (?c', ?c ! p)" "chain_ok (type_of d) ?c'"
    using chain_unlink_correct [of "type_of d" ?c p] p by (auto simp: bucket_ok_def)
  have used: "length ?c \<le> ht_used (ht d t)"
    using okt(2) length_concat_update [OF okt(3), of "[]"] by (simp add: ht_ok_def)
  have "?c = take p ?c @ ?c ! p # drop (Suc p) ?c"
    using p by (rule id_take_nth_drop)
  then have ms: "mset (map entry_kv ?c) = add_mset (entry_kv (?c ! p)) (mset (map entry_kv ?c'))"
    by (metis (no_types, lifting) list.simps(9) map_append mset.simps(2) mset_append union_mset_add_mset_right)
  have cont: "contents d = add_mset (entry_kv (?c ! p)) (contents ?d)"
    using contents_upd_bucket [OF at, of ?c' "ht_used (ht d t) - 1"] ms by simp
  have "bucket_ok (type_of d) (ht_size_exp (ht d t)) i ?c'"
    using bok un(2) by (auto simp: bucket_ok_def dest: in_set_takeD in_set_dropD)
  moreover have "distinct_keys (type_of d) (contents ?d)"
    using assms(1) cont distinct_keys_remove(1) by (metis dict_ok_def)
  ultimately have "dict_ok ?d"
    using assms(1) at used p by (intro dict_ok_upd_bucket) auto
  with un(1) cont at used p show ?thesis
    by (intro exI [of _ ?c']) (auto simp: bucket_get_at ref_entry_def)
qed

lemma dictGenericDelete_map:
  assumes "dict_ok d"
  shows "\<exists>d' he. dictGenericDelete cr d k nofree = Some (d', he,
       case dict_lookup d k of Some p \<Rightarrow> if nofree then [] else kv_events (type_of d) p | None \<Rightarrow> []) \<and>
     map_option entry_kv he = dict_lookup d k \<and> dict_ok d' \<and> type_of d' = type_of d \<and>
     size (contents d) = size (contents d') + (if dict_lookup d k = None then 0 else 1) \<and>
     dict_lookup d' = (\<lambda>x. if keys_match (type_of d) x k then None else dict_lookup d x)"
proof -
  let ?T = "type_of d"
  have T: "type_ok ?T"
    using assms by (simp add: dict_ok_def)
  have none: "dict_lookup d k = None \<Longrightarrow>
      dict_lookup d = (\<lambda>x. if keys_match ?T x k then None else dict_lookup d x)"
    unfolding fun_eq_iff dict_lookup_None using type_okD [OF T] by (metis dict_lookup_None)
  show ?thesis
  proof (cases "dictSize d = 0")
    case True
    then have "dict_lookup d k = None"
      using dict_ok_empty [OF assms] by (simp add: dict_lookup_None)
    with True none assms show ?thesis
      by (simp add: dictGenericDelete_def)
  next
    case False
    obtain d1 where d1: "rehash_if_rehashing cr d = Some d1" "rehash_frame d d1"
      using rehash_if_rehashing_correct [OF assms] .
    then have ok1: "dict_ok d1" "type_of d1 = ?T" "contents d1 = contents d"
      by (auto simp: rehash_frame_def)
    have lk: "dict_lookup d1 = dict_lookup d"
      using dict_lookup_frame [OF assms d1(2)] .
    from ok1(1) frame_nonempty [OF assms d1(2) False] show ?thesis
    proof (cases rule: dict_search_correct [where k = k])
      case absent
      then have "dict_lookup d1 k = None"
        by (simp add: dict_lookup_None)
      with False none d1(1) absent(1) ok1 lk show ?thesis
        by (simp add: dictGenericDelete_def)
    next
      case (found r)
      obtain t i p where r: "r = (t, i, p)"
        by (metis prod_cases3)
      let ?e = "ref_entry d1 r"
      have some: "dict_lookup d k = Some (entry_kv ?e)"
        unfolding lk [symmetric] using ok1 found by (intro dict_lookupI ref_in_contents) (simp_all add: entry_kv_def)
      have at: "bucket_at d1 t i"
        using found(2) by (simp add: r ref_ok_bucket)
      obtain c' where c': "bucket_get d1 t i = Some (ht_table (ht d1 t) ! i)"
        "chain_unlink p (ht_table (ht d1 t) ! i) = Some (c', ?e)" "0 < ht_used (ht d1 t)"
        "dict_ok (upd_bucket t i c' (ht_used (ht d1 t) - 1) d1)"
        "contents d1 = add_mset (entry_kv ?e) (contents (upd_bucket t i c' (ht_used (ht d1 t) - 1) d1))"
        using unlink_ref [OF ok1(1)] found(2) unfolding r by blast
      let ?d = "upd_bucket t i c' (ht_used (ht d1 t) - 1) d1"
      have used: "add_used t (- 1) (upd_bucket t i c' (ht_used (ht d1 t)) d1) = ?d"
        using add_used_upd [OF at, of "- 1"] by (simp add: dict_simps)
      have free: "free_entry ?T ?e = Some (kv_events ?T (entry_kv ?e))"
        using T entry_ok_ref [OF found(2)] ok1(2) by (intro free_entry_events) simp_all
      have match: "keys_match ?T x (fst (entry_kv ?e)) \<longleftrightarrow> keys_match ?T x k" for x
        using found(3) type_okD [OF T] unfolding ok1 by (metis entry_kv_def fst_conv)
      have "dict_lookup ?d = (\<lambda>x. if keys_match ?T x k then None else dict_lookup d x)"
        using dict_lookup_remove [OF ok1(1) c'(4) _ c'(5)] lk match ok1(2) by (auto simp: fun_eq_iff dict_simps)
      moreover have "dictGenericDelete cr d k nofree = Some (?d, Some ?e, if nofree then [] else kv_events ?T (entry_kv ?e))"
        using False d1(1) found(1) c'(1,2) at used free ok1(2) unfolding r
        by (simp add: dictGenericDelete_def dictFreeUnlinkedEntry_def bucket_put_upd dict_simps)
      moreover have "size (contents d) = Suc (size (contents ?d))"
        using c'(5) ok1(3) by simp
      ultimately show ?thesis
        using some c'(4) ok1(2) by (simp add: dict_simps)
    qed
  qed
qed

end
