(* ===== verification/Map_Interface.thy ===== *)
theory Map_Interface
  imports Redis_Prelude
begin

text \<open>
  The contract of a mutable map from keys to entries as its clients use it: finding, adding,
  replacing and removing keys, and maintenance that does not change what the map holds. Keys are
  compared by an equivalence that depends on the configuration \<open>cfg\<close> of the map. A state of the
  map stands for the function \<open>lookup\<close>; a fault is \<open>None\<close>.
\<close>

datatype ('k, 'v, 'm) map_op = MFind 'k | MAdd 'k 'v | MReplace 'k 'v | MDelete 'k | MMaint 'm

datatype 'e map_res = Found "'e option" | Flag bool | Done

type_synonym ('k, 'e) abs_map = "'k \<Rightarrow> 'e option"

definition abs_put :: "('k \<Rightarrow> 'k \<Rightarrow> bool) \<Rightarrow> ('k, 'e) abs_map \<Rightarrow> 'k \<Rightarrow> 'e option \<Rightarrow> ('k, 'e) abs_map" where
  "abs_put eq m k e = (\<lambda>x. if eq x k then e else m x)"

primrec abs_map_op ::
  "('k \<Rightarrow> 'k \<Rightarrow> bool) \<Rightarrow> ('k \<Rightarrow> 'v \<Rightarrow> 'e) \<Rightarrow> ('e \<Rightarrow> 'v \<Rightarrow> 'e) \<Rightarrow> ('k, 'e) abs_map
   \<Rightarrow> ('k, 'v, 'm) map_op \<Rightarrow> ('k, 'e) abs_map \<times> 'e map_res" where
  "abs_map_op eq ent upd m (MFind k) = (m, Found (m k))"
| "abs_map_op eq ent upd m (MAdd k v) =
     (if m k = None then (abs_put eq m k (Some (ent k v)), Flag True) else (m, Flag False))"
| "abs_map_op eq ent upd m (MReplace k v) =
     (case m k of None \<Rightarrow> (abs_put eq m k (Some (ent k v)), Flag True)
      | Some e \<Rightarrow> (abs_put eq m k (Some (upd e v)), Flag False))"
| "abs_map_op eq ent upd m (MDelete k) = (abs_put eq m k None, Flag (m k \<noteq> None))"
| "abs_map_op eq ent upd m (MMaint x) = (m, Done)"

primrec abs_map_run ::
  "('k \<Rightarrow> 'k \<Rightarrow> bool) \<Rightarrow> ('k \<Rightarrow> 'v \<Rightarrow> 'e) \<Rightarrow> ('e \<Rightarrow> 'v \<Rightarrow> 'e) \<Rightarrow> ('k, 'e) abs_map
   \<Rightarrow> ('k, 'v, 'm) map_op list \<Rightarrow> ('k, 'e) abs_map \<times> 'e map_res list" where
  "abs_map_run eq ent upd m [] = (m, [])"
| "abs_map_run eq ent upd m (p # ps) =
     (let (m', r) = abs_map_op eq ent upd m p; (m'', rs) = abs_map_run eq ent upd m' ps
      in (m'', r # rs))"

primrec exec_map_run ::
  "('s \<Rightarrow> ('k, 'v, 'm) map_op \<Rightarrow> ('s \<times> 'e map_res) option) \<Rightarrow> 's \<Rightarrow> ('k, 'v, 'm) map_op list
   \<Rightarrow> ('s \<times> 'e map_res list) option" where
  "exec_map_run step s [] = Some (s, [])"
| "exec_map_run step s (p # ps) = do {
     (s', r) \<leftarrow> step s p;
     (s'', rs) \<leftarrow> exec_map_run step s' ps;
     Some (s'', r # rs)
   }"

primrec exec_map_op ::
  "('s \<Rightarrow> 'k \<Rightarrow> ('s \<times> 'e option) option) \<Rightarrow> ('s \<Rightarrow> 'k \<Rightarrow> 'v \<Rightarrow> ('s \<times> bool) option)
   \<Rightarrow> ('s \<Rightarrow> 'k \<Rightarrow> 'v \<Rightarrow> ('s \<times> bool) option) \<Rightarrow> ('s \<Rightarrow> 'k \<Rightarrow> ('s \<times> bool) option)
   \<Rightarrow> ('s \<Rightarrow> 'm \<Rightarrow> 's option) \<Rightarrow> 's \<Rightarrow> ('k, 'v, 'm) map_op \<Rightarrow> ('s \<times> 'e map_res) option" where
  "exec_map_op fnd add repl del maint s (MFind k) = map_option (map_prod id Found) (fnd s k)"
| "exec_map_op fnd add repl del maint s (MAdd k v) = map_option (map_prod id Flag) (add s k v)"
| "exec_map_op fnd add repl del maint s (MReplace k v) = map_option (map_prod id Flag) (repl s k v)"
| "exec_map_op fnd add repl del maint s (MDelete k) = map_option (map_prod id Flag) (del s k)"
| "exec_map_op fnd add repl del maint s (MMaint x) = map_option (\<lambda>s'. (s', Done)) (maint s x)"

locale keyed_map =
  fixes wf :: "'s \<Rightarrow> bool" and cfg :: "'s \<Rightarrow> 'c" and lookup :: "'s \<Rightarrow> ('k, 'e) abs_map"
    and count :: "'s \<Rightarrow> nat" and cap :: nat
    and eq :: "'c \<Rightarrow> 'k \<Rightarrow> 'k \<Rightarrow> bool" and ent :: "'c \<Rightarrow> 'k \<Rightarrow> 'v \<Rightarrow> 'e" and upd :: "'c \<Rightarrow> 'e \<Rightarrow> 'v \<Rightarrow> 'e"
    and ok :: "'c \<Rightarrow> ('k, 'v, 'm) map_op \<Rightarrow> bool"
    and fnd :: "'s \<Rightarrow> 'k \<Rightarrow> ('s \<times> 'e option) option"
    and add repl :: "'s \<Rightarrow> 'k \<Rightarrow> 'v \<Rightarrow> ('s \<times> bool) option"
    and del :: "'s \<Rightarrow> 'k \<Rightarrow> ('s \<times> bool) option"
    and maint :: "'s \<Rightarrow> 'm \<Rightarrow> 's option"
  assumes fnd_spec: "wf s \<Longrightarrow>
      \<exists>s'. fnd s k = Some (s', lookup s k) \<and> wf s' \<and> cfg s' = cfg s \<and> count s' = count s \<and>
        lookup s' = lookup s"
    and add_spec: "wf s \<Longrightarrow> ok (cfg s) (MAdd k v) \<Longrightarrow> count s < cap \<Longrightarrow>
      \<exists>s'. add s k v = Some (s', lookup s k = None) \<and> wf s' \<and> cfg s' = cfg s \<and> count s' \<le> Suc (count s) \<and>
        lookup s' = (if lookup s k = None then abs_put (eq (cfg s)) (lookup s) k (Some (ent (cfg s) k v))
                     else lookup s)"
    and repl_spec: "wf s \<Longrightarrow> ok (cfg s) (MReplace k v) \<Longrightarrow> count s < cap \<Longrightarrow>
      \<exists>s'. repl s k v = Some (s', lookup s k = None) \<and> wf s' \<and> cfg s' = cfg s \<and> count s' \<le> Suc (count s) \<and>
        lookup s' = abs_put (eq (cfg s)) (lookup s) k
          (Some (case lookup s k of None \<Rightarrow> ent (cfg s) k v | Some e \<Rightarrow> upd (cfg s) e v))"
    and del_spec: "wf s \<Longrightarrow>
      \<exists>s'. del s k = Some (s', lookup s k \<noteq> None) \<and> wf s' \<and> cfg s' = cfg s \<and> count s' \<le> count s \<and>
        lookup s' = abs_put (eq (cfg s)) (lookup s) k None"
    and maint_spec: "wf s \<Longrightarrow> ok (cfg s) (MMaint x) \<Longrightarrow>
      \<exists>s'. maint s x = Some s' \<and> wf s' \<and> cfg s' = cfg s \<and> count s' = count s \<and> lookup s' = lookup s"
begin

lemma op_correct:
  assumes "wf s" "ok (cfg s) p" "count s < cap"
  shows "\<exists>s' r. exec_map_op fnd add repl del maint s p = Some (s', r) \<and> wf s' \<and> cfg s' = cfg s \<and>
     count s' \<le> Suc (count s) \<and>
     abs_map_op (eq (cfg s)) (ent (cfg s)) (upd (cfg s)) (lookup s) p = (lookup s', r)"
proof (cases p)
  case (MFind k)
  with fnd_spec [OF assms(1), of k] show ?thesis
    by auto
next
  case (MAdd k v)
  with add_spec [OF assms(1) _ assms(3), of k v] assms(2) show ?thesis
    by auto
next
  case (MReplace k v)
  with repl_spec [OF assms(1) _ assms(3), of k v] assms(2) show ?thesis
    by (cases "lookup s k") auto
next
  case (MDelete k)
  with del_spec [OF assms(1), of k] show ?thesis
    by auto
next
  case (MMaint x)
  with maint_spec [OF assms(1), of x] assms(2) show ?thesis
    by auto
qed

text \<open>Any sequence of operations within the capacity runs without a fault and returns what the
  abstract map returns.\<close>

lemma run_correct:
  assumes "wf s" "\<forall>p\<in>set ps. ok (cfg s) p" "count s + length ps \<le> cap"
  shows "\<exists>s' rs. exec_map_run (exec_map_op fnd add repl del maint) s ps = Some (s', rs) \<and> wf s' \<and>
     cfg s' = cfg s \<and> abs_map_run (eq (cfg s)) (ent (cfg s)) (upd (cfg s)) (lookup s) ps = (lookup s', rs)"
  using assms
proof (induction ps arbitrary: s)
  case (Cons p ps)
  then obtain s' r where s': "exec_map_op fnd add repl del maint s p = Some (s', r)" "wf s'" "cfg s' = cfg s"
    "count s' \<le> Suc (count s)"
    "abs_map_op (eq (cfg s)) (ent (cfg s)) (upd (cfg s)) (lookup s) p = (lookup s', r)"
    using op_correct [of s p] by auto
  with Cons.prems Cons.IH [of s'] obtain s'' rs where
    "exec_map_run (exec_map_op fnd add repl del maint) s' ps = Some (s'', rs)" "wf s''" "cfg s'' = cfg s'"
    "abs_map_run (eq (cfg s')) (ent (cfg s')) (upd (cfg s')) (lookup s') ps = (lookup s'', rs)"
    by auto
  with s' show ?case
    by auto
qed simp

end

end
