(* ===== verification/Dict_Map.thy ===== *)
theory Dict_Map
  imports Dict_Correct Map_Interface
begin

text \<open>
  The dictionary as a map: the operations of \<^verbatim>\<open>dict.c\<close> interpret the interface \<open>keyed_map\<close>, with the
  maintenance that the server does between them (rehashing steps, resizing, changes of the global
  resize policy). The properties of the rest of the interface follow: rehashing ends, clearing
  destroys every entry once, the two-phase removal is a removal.
\<close>

section \<open>A dictionary and the resize policy as a map\<close>

type_synonym ('k, 'v) dict_state = "dictResizeEnable \<times> ('k, 'v) dict"

datatype dict_maint = DSetResizeEnabled dictResizeEnable | DRehash nat | DResize | DExpand nat

definition dictSetResizeEnabled :: "dictResizeEnable \<Rightarrow> ('k, 'v) dict_state \<Rightarrow> ('k, 'v) dict_state" where
  "dictSetResizeEnabled enable s = (enable, snd s)"

definition dict_find_kv ::
  "('k, 'v) dict_state \<Rightarrow> 'k \<Rightarrow> (('k, 'v) dict_state \<times> ('k \<times> 'v option) option) option" where
  "dict_find_kv s k = do {
     (d, r) \<leftarrow> dictFind (fst s) (snd s) k;
     case r of None \<Rightarrow> Some ((fst s, d), None)
     | Some r \<Rightarrow> do { he \<leftarrow> entry_at d r; Some ((fst s, d), Some (entry_kv he)) }
   }"

definition dict_add_kv ::
  "'v \<Rightarrow> ('k, 'v) dict_state \<Rightarrow> 'k \<Rightarrow> 'v \<Rightarrow> (('k, 'v) dict_state \<times> bool) option" where
  "dict_add_kv junk s k v = do { (d, b) \<leftarrow> dictAdd junk (fst s) (snd s) k v; Some ((fst s, d), b) }"

definition dict_replace_kv ::
  "'v \<Rightarrow> ('k, 'v) dict_state \<Rightarrow> 'k \<Rightarrow> 'v \<Rightarrow> (('k, 'v) dict_state \<times> bool) option" where
  "dict_replace_kv junk s k v = do { (d, b, _) \<leftarrow> dictReplace junk (fst s) (snd s) k v; Some ((fst s, d), b) }"

definition dict_delete_kv :: "('k, 'v) dict_state \<Rightarrow> 'k \<Rightarrow> (('k, 'v) dict_state \<times> bool) option" where
  "dict_delete_kv s k = do { (d, b, _) \<leftarrow> dictDelete (fst s) (snd s) k; Some ((fst s, d), b) }"

primrec dict_maintain :: "('k, 'v) dict_state \<Rightarrow> dict_maint \<Rightarrow> ('k, 'v) dict_state option" where
  "dict_maintain s (DSetResizeEnabled enable) = Some (dictSetResizeEnabled enable s)"
| "dict_maintain s (DRehash n) = do { (d, _) \<leftarrow> dictRehash (fst s) (snd s) n; Some (fst s, d) }"
| "dict_maintain s DResize = Some (fst s, fst (dictResize (fst s) (snd s)))"
| "dict_maintain s (DExpand n) = Some (fst s, fst (dictExpand (snd s) n))"

definition dict_step ::
  "'v \<Rightarrow> ('k, 'v) dict_state \<Rightarrow> ('k, 'v, dict_maint) map_op
   \<Rightarrow> (('k, 'v) dict_state \<times> ('k \<times> 'v option) map_res) option" where
  "dict_step junk = exec_map_op dict_find_kv (dict_add_kv junk) (dict_replace_kv junk) dict_delete_kv dict_maintain"

definition dict_ent :: "('k, 'v) dictType \<Rightarrow> 'k \<Rightarrow> 'v \<Rightarrow> 'k \<times> 'v option" where
  "dict_ent T k v = new_kv T (dup_val T v) (dup_key T k)"

definition dict_upd :: "('k, 'v) dictType \<Rightarrow> 'k \<times> 'v option \<Rightarrow> 'v \<Rightarrow> 'k \<times> 'v option" where
  "dict_upd T e v = (fst e, Some (dup_val T v))"

definition dict_op_ok :: "('k, 'v) dictType \<Rightarrow> ('k, 'v, dict_maint) map_op \<Rightarrow> bool" where
  "dict_op_ok T p = (case p of
     MAdd k v \<Rightarrow> key_ok T k
   | MReplace k v \<Rightarrow> key_ok T k \<and> \<not> no_value T
   | MMaint (DExpand n) \<Rightarrow> n \<le> 2 ^ 60
   | _ \<Rightarrow> True)"

lemma dictRehash_frame:
  assumes "dict_ok d"
  obtains d' b where "dictRehash cr d n = Some (d', b)" "rehash_frame d d'"
  using dictRehash_step [OF assms, of cr n] by blast

lemma dictExpand_frame:
  assumes "dict_ok d" "n \<le> 2 ^ 60"
  shows "rehash_frame d (fst (dictExpand d n))"
  using assms by (rule dictExpand_correct(1)) (rule prod.collapse [symmetric])

lemma dictResize_frame:
  assumes "dict_ok d" "size (contents d) \<le> 2 ^ 60"
  shows "rehash_frame d (fst (dictResize cr d))"
proof -
  have "ht_used (ht d 0) \<le> 2 ^ 60"
    using dict_ok_used [OF assms(1)] assms(2) by (rule le_trans)
  then have "max (ht_used (ht d 0)) DICT_HT_INITIAL_SIZE \<le> 2 ^ 60"
    by (simp add: DICT_HT_INITIAL_SIZE_def)
  from dictExpand_frame [OF assms(1) this] assms(1) show ?thesis
    unfolding dictResize_def by (cases "cr \<noteq> DICT_RESIZE_ENABLE \<or> dictIsRehashing d") (simp_all add: rehash_frame_def)
qed

definition DICT_MAX_ENTRIES :: nat where "DICT_MAX_ENTRIES = 2 ^ 60"

definition dict_state_ok :: "('k, 'v) dict_state \<Rightarrow> bool" where
  "dict_state_ok s \<longleftrightarrow> dict_ok (snd s) \<and> size (contents (snd s)) \<le> DICT_MAX_ENTRIES"

text \<open>The result of an operation in a state with the same policy, type and contents.\<close>

lemma dict_state_frame:
  assumes "dict_state_ok s" "rehash_frame (snd s) d'"
  shows "dict_state_ok (cr, d')" "type_of d' = type_of (snd s)" "size (contents d') = size (contents (snd s))"
    "dict_lookup d' = dict_lookup (snd s)"
proof -
  show "dict_lookup d' = dict_lookup (snd s)"
    using assms dict_lookup_frame by (auto simp: dict_state_ok_def)
  show "type_of d' = type_of (snd s)" "size (contents d') = size (contents (snd s))" "dict_state_ok (cr, d')"
    using assms by (simp_all add: rehash_frame_def dict_state_ok_def)
qed

lemma dict_find_kv_spec:
  assumes "dict_state_ok s"
  shows "\<exists>s'. dict_find_kv s k = Some (s', dict_lookup (snd s) k) \<and> dict_state_ok s' \<and>
     type_of (snd s') = type_of (snd s) \<and> size (contents (snd s')) = size (contents (snd s)) \<and>
     dict_lookup (snd s') = dict_lookup (snd s)"
proof -
  obtain d' r where d': "dictFind (fst s) (snd s) k = Some (d', r)" "rehash_frame (snd s) d'"
    "pred_option (ref_ok d') r" "dict_lookup (snd s) k = map_option (\<lambda>r. entry_kv (ref_entry d' r)) r"
    using dictFind_frame [of "snd s" "fst s" k] assms unfolding dict_state_ok_def by blast
  have "dict_find_kv s k = Some ((fst s, d'), dict_lookup (snd s) k)"
    using d' by (cases r) (simp_all add: dict_find_kv_def entry_at_ref)
  with dict_state_frame [OF assms d'(2)] show ?thesis
    by auto
qed

lemma dict_add_kv_spec:
  assumes "dict_state_ok s" "dict_op_ok (type_of (snd s)) (MAdd k v)" "size (contents (snd s)) < DICT_MAX_ENTRIES"
  shows "\<exists>s'. dict_add_kv junk s k v = Some (s', dict_lookup (snd s) k = None) \<and> dict_state_ok s' \<and>
     type_of (snd s') = type_of (snd s) \<and> size (contents (snd s')) \<le> Suc (size (contents (snd s))) \<and>
     dict_lookup (snd s') = (if dict_lookup (snd s) k = None
       then abs_put (keys_match (type_of (snd s))) (dict_lookup (snd s)) k (Some (dict_ent (type_of (snd s)) k v))
       else dict_lookup (snd s))"
proof -
  have "dict_ok (snd s)" "size (contents (snd s)) < 2 ^ 60" "key_ok (type_of (snd s)) k"
    using assms by (simp_all add: dict_state_ok_def dict_op_ok_def DICT_MAX_ENTRIES_def)
  from dictAdd_map [OF this, of junk "fst s" v] obtain d' where d': "dictAdd junk (fst s) (snd s) k v = Some (d', dict_lookup (snd s) k = None)"
    "dict_ok d'" "type_of d' = type_of (snd s)"
    "size (contents d') = size (contents (snd s)) + (if dict_lookup (snd s) k = None then 1 else 0)"
    "dict_lookup d' = (\<lambda>x. if dict_lookup (snd s) k = None \<and> keys_match (type_of (snd s)) x k
       then Some (new_kv (type_of (snd s)) (dup_val (type_of (snd s)) v) (dup_key (type_of (snd s)) k))
       else dict_lookup (snd s) x)"
    by blast
  have "dict_add_kv junk s k v = Some ((fst s, d'), dict_lookup (snd s) k = None)"
    using d'(1) by (simp add: dict_add_kv_def)
  moreover have "dict_state_ok (fst s, d')"
    using d'(2,4) assms(3) by (simp add: dict_state_ok_def)
  ultimately show ?thesis
    using d'(3-5) by (auto simp: abs_put_def dict_ent_def fun_eq_iff)
qed

lemma dict_replace_kv_spec:
  assumes "dict_state_ok s" "dict_op_ok (type_of (snd s)) (MReplace k v)" "size (contents (snd s)) < DICT_MAX_ENTRIES"
  shows "\<exists>s'. dict_replace_kv junk s k v = Some (s', dict_lookup (snd s) k = None) \<and> dict_state_ok s' \<and>
     type_of (snd s') = type_of (snd s) \<and> size (contents (snd s')) \<le> Suc (size (contents (snd s))) \<and>
     dict_lookup (snd s') = abs_put (keys_match (type_of (snd s))) (dict_lookup (snd s)) k
       (Some (case dict_lookup (snd s) k of None \<Rightarrow> dict_ent (type_of (snd s)) k v
              | Some e \<Rightarrow> dict_upd (type_of (snd s)) e v))"
proof -
  have ok: "dict_ok (snd s)" "size (contents (snd s)) < 2 ^ 60" "key_ok (type_of (snd s)) k"
    and nv: "\<not> no_value (type_of (snd s))"
    using assms by (simp_all add: dict_state_ok_def dict_op_ok_def DICT_MAX_ENTRIES_def)
  from dictReplace_map [OF ok nv, of junk "fst s" v] obtain d' evs where d': "dictReplace junk (fst s) (snd s) k v = Some (d', dict_lookup (snd s) k = None, evs)"
    "dict_ok d'" "type_of d' = type_of (snd s)"
    "size (contents d') = size (contents (snd s)) + (if dict_lookup (snd s) k = None then 1 else 0)"
    "dict_lookup d' = (\<lambda>x. if keys_match (type_of (snd s)) x k
       then Some (case dict_lookup (snd s) k of Some p \<Rightarrow> fst p | None \<Rightarrow> dup_key (type_of (snd s)) k,
                  Some (dup_val (type_of (snd s)) v))
       else dict_lookup (snd s) x)"
    by blast
  have "dict_replace_kv junk s k v = Some ((fst s, d'), dict_lookup (snd s) k = None)"
    using d'(1) by (simp add: dict_replace_kv_def)
  moreover have "dict_state_ok (fst s, d')"
    using d'(2,4) assms(3) by (simp add: dict_state_ok_def)
  moreover have "dict_lookup d' = abs_put (keys_match (type_of (snd s))) (dict_lookup (snd s)) k
       (Some (case dict_lookup (snd s) k of None \<Rightarrow> dict_ent (type_of (snd s)) k v
              | Some e \<Rightarrow> dict_upd (type_of (snd s)) e v))"
    using d'(5) nv by (cases "dict_lookup (snd s) k")
      (simp_all add: abs_put_def dict_ent_def dict_upd_def new_kv_def fun_eq_iff)
  ultimately show ?thesis
    using d'(3,4) by auto
qed

lemma dict_delete_kv_spec:
  assumes "dict_state_ok s"
  shows "\<exists>s'. dict_delete_kv s k = Some (s', dict_lookup (snd s) k \<noteq> None) \<and> dict_state_ok s' \<and>
     type_of (snd s') = type_of (snd s) \<and> size (contents (snd s')) \<le> size (contents (snd s)) \<and>
     dict_lookup (snd s') = abs_put (keys_match (type_of (snd s))) (dict_lookup (snd s)) k None"
proof -
  obtain d' he evs where d': "dictGenericDelete (fst s) (snd s) k False = Some (d', he, evs)"
    "map_option entry_kv he = dict_lookup (snd s) k" "dict_ok d'" "type_of d' = type_of (snd s)"
    "size (contents (snd s)) = size (contents d') + (if dict_lookup (snd s) k = None then 0 else 1)"
    "dict_lookup d' = (\<lambda>x. if keys_match (type_of (snd s)) x k then None else dict_lookup (snd s) x)"
    using dictGenericDelete_map [of "snd s" "fst s" k False] assms unfolding dict_state_ok_def by blast
  have "dict_delete_kv s k = Some ((fst s, d'), he \<noteq> None)"
    using d'(1) by (simp add: dict_delete_kv_def dictDelete_def)
  moreover have "he \<noteq> None \<longleftrightarrow> dict_lookup (snd s) k \<noteq> None"
    using d'(2) by (metis option.map_disc_iff)
  moreover have "dict_state_ok (fst s, d')"
    using d'(3,5) assms by (simp add: dict_state_ok_def)
  ultimately show ?thesis
    using d'(4-6) by (auto simp: abs_put_def)
qed

lemma dict_maintain_spec:
  assumes "dict_state_ok s" "dict_op_ok (type_of (snd s)) (MMaint x)"
  shows "\<exists>s'. dict_maintain s x = Some s' \<and> dict_state_ok s' \<and>
     type_of (snd s') = type_of (snd s) \<and> size (contents (snd s')) = size (contents (snd s)) \<and>
     dict_lookup (snd s') = dict_lookup (snd s)"
proof -
  have ok: "dict_ok (snd s)" "size (contents (snd s)) \<le> 2 ^ 60"
    using assms(1) by (simp_all add: dict_state_ok_def DICT_MAX_ENTRIES_def)
  have "\<exists>cr d'. dict_maintain s x = Some (cr, d') \<and> rehash_frame (snd s) d'"
  proof (cases x)
    case (DRehash n)
    obtain d' b where "dictRehash (fst s) (snd s) n = Some (d', b)" "rehash_frame (snd s) d'"
      using dictRehash_frame [OF ok(1)] .
    with DRehash show ?thesis
      by simp
  next
    case (DSetResizeEnabled enable)
    with ok(1) show ?thesis
      by (simp add: dictSetResizeEnabled_def rehash_frame_def)
  next
    case DResize
    with dictResize_frame [OF ok] show ?thesis
      by simp
  next
    case (DExpand n)
    with dictExpand_frame [OF ok(1), of n] assms(2) show ?thesis
      by (simp add: dict_op_ok_def)
  qed
  then show ?thesis
    using dict_state_frame [OF assms(1)] by fastforce
qed

interpretation dm: keyed_map
  dict_state_ok "\<lambda>s. type_of (snd s)" "\<lambda>s. dict_lookup (snd s)" "\<lambda>s. size (contents (snd s))" DICT_MAX_ENTRIES
  keys_match dict_ent dict_upd dict_op_ok
  dict_find_kv "dict_add_kv junk" "dict_replace_kv junk" dict_delete_kv dict_maintain
  for junk :: 'v
  by unfold_locales
    (fact dict_find_kv_spec dict_add_kv_spec dict_replace_kv_spec dict_delete_kv_spec dict_maintain_spec)+

section \<open>Rehashing ends\<close>

lemma rehashidx_less:
  assumes "dict_ok d" "dictIsRehashing d" "n = length (ht_table (ht d 0)) - nat (rehashidx d)"
    and "still_rehashing d d'" "rehashidx d < rehashidx d'"
  shows "length (ht_table (ht d' 0)) - nat (rehashidx d') < n"
proof -
  have d': "dict_ok d'" "dictIsRehashing d'" "ht_size_exp (ht d' 0) = ht_size_exp (ht d 0)"
    using assms(4) by (simp_all add: still_rehashing_def rehash_frame_def)
  have "length (ht_table (ht d' 0)) = length (ht_table (ht d 0))"
    using dict_ok_rehashing(2) [OF assms(1,2)] dict_ok_rehashing(2) [OF d'(1,2)] d'(3) by (simp add: ht_ok_def)
  with assms(3,5) dict_ok_rehashing(4,5) [OF d'(1,2)] dict_ok_rehashing(4) [OF assms(1,2)] show ?thesis
    by linarith
qed

lemma rehash_ms_loop:
  assumes "dict_ok d"
  shows "\<exists>d' r. dictRehashMilliseconds_loop now cr ms i c d = Some (d', r) \<and> rehash_frame d d' \<and>
     (cr = DICT_RESIZE_ENABLE \<and> (\<forall>j. now j - now 0 \<le> ms) \<longrightarrow> \<not> dictIsRehashing d')"
  using assms
proof (induction "length (ht_table (ht d 0)) - nat (rehashidx d)" arbitrary: d i c rule: less_induct)
  case less
  obtain d1 more where d1: "dictRehash cr d 100 = Some (d1, more)" "rehash_frame d d1"
    "\<not> dictIsRehashing d \<longrightarrow> d1 = d \<and> \<not> more"
    "more \<longrightarrow> still_rehashing d d1 \<and> rehashidx d < rehashidx d1"
    "cr = DICT_RESIZE_ENABLE \<and> \<not> more \<longrightarrow> \<not> dictIsRehashing d1"
    using dictRehash_step [OF less.prems, of cr 100] by auto
  note unf = dictRehashMilliseconds_loop.simps [of now cr ms i c d]
  consider "\<not> more" | "more" "now i - now 0 > ms" | "more" "now i - now 0 \<le> ms"
    by linarith
  then show ?case
  proof cases
    case 1
    with d1 show ?thesis
      by (simp add: unf)
  next
    case 2
    then have "\<not> (\<forall>j. now j - now 0 \<le> ms)"
      by (metis not_le)
    with 2 d1(1,2) show ?thesis
      by (auto simp: unf)
  next
    case 3
    then have "dictIsRehashing d" "still_rehashing d d1" "rehashidx d < rehashidx d1"
      using d1 by auto
    note lt = rehashidx_less [OF less.prems this(1) refl this(2,3)]
    have "dict_ok d1"
      using d1(2) by (simp add: rehash_frame_def)
    from less.hyps [OF lt this, of "Suc i" "c + 100"] obtain d' r where "dictRehashMilliseconds_loop now cr ms (Suc i) (c + 100) d1 = Some (d', r)"
      "rehash_frame d1 d'" "cr = DICT_RESIZE_ENABLE \<and> (\<forall>j. now j - now 0 \<le> ms) \<longrightarrow> \<not> dictIsRehashing d'"
      by blast
    with 3 d1(1) rehash_frame_trans [OF d1(2)] show ?thesis
      by (auto simp: unf)
  qed
qed

section \<open>Clearing\<close>

definition chain_events :: "('k, 'v) dictType \<Rightarrow> ('k, 'v) chain \<Rightarrow> ('k, 'v) dict_event list" where
  "chain_events T c = concat (map (\<lambda>e. kv_events T (entry_kv e)) c)"

lemma dictClear_chain_events:
  "type_ok T \<Longrightarrow> \<forall>e\<in>set c. dentry_ok T e \<Longrightarrow> dictClear_chain T c = Some (chain_events T c)"
  by (induction c) (simp_all add: chain_events_def free_entry_events)

lemma ht_set_ht_same: "t \<in> {0, 1} \<Longrightarrow> ht (set_ht t h d) t = h"
  by (auto simp: ht_def set_ht_def)

lemma set_ht_twice: "set_ht t h (set_ht t h' d) = set_ht t h d"
  by (simp add: set_ht_def)

lemma set_ht_used_zero:
  assumes "ht_used (ht d t) = 0"
  shows "set_ht t ((ht d t)\<lparr>ht_used := 0\<rparr>) d = d"
proof -
  have "(ht d t)\<lparr>ht_used := 0\<rparr> = ht d t"
    using assms by (metis hashtab.surjective hashtab.update_convs(2))
  then show ?thesis
    by (simp add: set_ht_def ht_def)
qed

lemma dictClear_loop_events:
  assumes "t \<in> {0, 1}" "type_ok (type_of d)" "n = length (ht_table (ht d t))" "i \<le> n"
    and "\<forall>e\<in>set (concat (drop i (ht_table (ht d t)))). dentry_ok (type_of d) e"
    and "ht_used (ht d t) = length (concat (drop i (ht_table (ht d t))))"
  shows "dictClear_loop [i..<n] t d =
     Some (set_ht t ((ht d t)\<lparr>ht_used := 0\<rparr>) d, chain_events (type_of d) (concat (drop i (ht_table (ht d t)))))"
  using assms(4,1-3,5,6)
proof (induction i arbitrary: d rule: inc_induct)
  case base
  then show ?case
    by (simp add: chain_events_def set_ht_used_zero)
next
  case (step i)
  let ?tb = "ht_table (ht d t)"
  have drop: "drop i ?tb = ?tb ! i # drop (Suc i) ?tb"
    using step.hyps step.prems by (simp add: Cons_nth_drop_Suc)
  show ?case
  proof (cases "ht_used (ht d t) = 0")
    case True
    then have "concat (drop i ?tb) = []"
      using step.prems by simp
    then have "chain_events (type_of d) (concat (drop i ?tb)) = []"
      by (simp only: chain_events_def list.map concat.simps)
    with True step.hyps show ?thesis
      by (simp add: upt_conv_Cons set_ht_used_zero)
  next
    case False
    let ?d = "add_used t (- int (length (?tb ! i))) d"
    have u: "ht_used (ht d t) = length (?tb ! i) + length (concat (drop (Suc i) ?tb))"
      using step.prems(5) drop by simp
    then have d: "?d = set_ht t ((ht d t)\<lparr>ht_used := length (concat (drop (Suc i) ?tb))\<rparr>) d"
      by (simp add: add_used_def)
    then have same: "ht_table (ht ?d t) = ?tb" "type_of ?d = type_of d"
      using step.prems(1) by (simp_all add: ht_set_ht_same dict_simps)
    have "dictClear_loop [Suc i..<n] t ?d = Some (set_ht t ((ht ?d t)\<lparr>ht_used := 0\<rparr>) ?d,
        chain_events (type_of ?d) (concat (drop (Suc i) (ht_table (ht ?d t)))))"
      using step.prems drop by (intro step.IH) (auto simp: d ht_set_ht_same dict_simps)
    moreover have "set_ht t ((ht ?d t)\<lparr>ht_used := 0\<rparr>) ?d = set_ht t ((ht d t)\<lparr>ht_used := 0\<rparr>) d"
      using step.prems(1) by (simp add: d ht_set_ht_same set_ht_twice)
    moreover have "dictClear_chain (type_of d) (?tb ! i) = Some (chain_events (type_of d) (?tb ! i))"
      using step.prems drop by (intro dictClear_chain_events) auto
    ultimately show ?thesis
      using False step.hyps step.prems(3) drop same
      by (simp add: upt_conv_Cons bucket_get_def chain_events_def Let_def)
  qed
qed

lemma dictClear_table:
  assumes "t \<in> {0, 1}" "type_ok (type_of d)" "ht d t = empty_ht \<or> ht_ok (type_of d) (ht d t)"
  shows "dictClear d t = Some (set_ht t empty_ht d, chain_events (type_of d) (concat (ht_table (ht d t))))"
proof -
  let ?n = "DICTHT_SIZE (ht_size_exp (ht d t))"
  have n: "?n = length (ht_table (ht d t))" "ht_used (ht d t) = length (concat (ht_table (ht d t)))"
    using assms(3) by (auto simp: ht_ok_def DICTHT_SIZE_def)
  have "\<forall>e\<in>set (concat (ht_table (ht d t))). dentry_ok (type_of d) e"
  proof
    fix e
    assume "e \<in> set (concat (ht_table (ht d t)))"
    then obtain j where "j < length (ht_table (ht d t))" "e \<in> set (ht_table (ht d t) ! j)"
      by (auto simp: in_set_conv_nth [of _ "ht_table (ht d t)"])
    with assms(3) show "dentry_ok (type_of d) e"
      using bucket_ok_nth [of "type_of d" "ht d t" j] by (auto simp: bucket_ok_def chain_ok_def)
  qed
  then have "dictClear_loop [0..<?n] t d = Some (set_ht t ((ht d t)\<lparr>ht_used := 0\<rparr>) d,
      chain_events (type_of d) (concat (drop 0 (ht_table (ht d t)))))"
    using assms(1,2) n by (intro dictClear_loop_events) auto
  then show ?thesis
    by (simp add: dictClear_def dictReset_def set_ht_twice)
qed

lemma chain_events_mset:
  "mset (chain_events T c) = (\<Sum>kv\<in>#mset (map entry_kv c). mset (kv_events T kv))"
  by (induction c) (simp_all add: chain_events_def)

lemma two_phase_step:
  assumes "dict_ok d"
  shows "case dict_lookup d k of
     None \<Rightarrow> \<exists>d1. dictTwoPhaseUnlinkFind cr d k = Some (d1, None) \<and> rehash_frame d d1
   | Some p \<Rightarrow> \<exists>d1 r d2. dictTwoPhaseUnlinkFind cr d k = Some (d1, Some r) \<and>
       pauserehash d1 = pauserehash d + 1 \<and> map_option entry_kv (entry_at d1 r) = Some p \<and>
       dictTwoPhaseUnlinkFree d1 (Some r) = Some (d2, kv_events (type_of d) p) \<and>
       dict_ok d2 \<and> pauserehash d2 = pauserehash d \<and> contents d = add_mset p (contents d2) \<and>
       dict_lookup d2 = (\<lambda>x. if keys_match (type_of d) x k then None else dict_lookup d x)"
proof (cases "dictSize d = 0")
  case True
  then have "dict_lookup d k = None"
    using dict_ok_empty [OF assms] by (simp add: dict_lookup_None)
  with True assms show ?thesis
    by (simp add: dictTwoPhaseUnlinkFind_def rehash_frame_def)
next
  case False
  let ?T = "type_of d"
  have T: "type_ok ?T"
    using assms by (simp add: dict_ok_def)
  obtain d1 where d1: "rehash_if_rehashing cr d = Some d1" "rehash_frame d d1"
    using rehash_if_rehashing_correct [OF assms] .
  then have ok1: "dict_ok d1" "type_of d1 = ?T" "contents d1 = contents d" "pauserehash d1 = pauserehash d"
    by (auto simp: rehash_frame_def)
  have lk: "dict_lookup d1 = dict_lookup d"
    using dict_lookup_frame [OF assms d1(2)] .
  from ok1(1) frame_nonempty [OF assms d1(2) False] show ?thesis
  proof (cases rule: dict_search_correct [where k = k])
    case absent
    then have "dict_lookup d1 k = None"
      by (simp add: dict_lookup_None)
    with False d1 absent(1) lk show ?thesis
      by (simp add: dictTwoPhaseUnlinkFind_def)
  next
    case (found r)
    obtain t i p where r: "r = (t, i, p)"
      by (metis prod_cases3)
    let ?e = "ref_entry d1 r" and ?d = "dictPauseRehashing d1"
    have some: "dict_lookup d k = Some (entry_kv ?e)"
      unfolding lk [symmetric] using ok1 found by (intro dict_lookupI ref_in_contents) (simp_all add: entry_kv_def)
    have at: "bucket_at d1 t i"
      using found(2) by (simp add: r ref_ok_bucket)
    obtain c' where c': "bucket_get d1 t i = Some (ht_table (ht d1 t) ! i)"
      "chain_unlink p (ht_table (ht d1 t) ! i) = Some (c', ?e)" "0 < ht_used (ht d1 t)"
      "dict_ok (upd_bucket t i c' (ht_used (ht d1 t) - 1) d1)"
      "contents d1 = add_mset (entry_kv ?e) (contents (upd_bucket t i c' (ht_used (ht d1 t) - 1) d1))"
      using unlink_ref [OF ok1(1)] found(2) unfolding r by blast
    let ?d2 = "upd_bucket t i c' (ht_used (ht d1 t) - 1) d1"
    have free: "free_entry ?T ?e = Some (kv_events ?T (entry_kv ?e))"
      using T entry_ok_ref [OF found(2)] ok1(2) by (intro free_entry_events) simp_all
    have match: "keys_match ?T x (fst (entry_kv ?e)) \<longleftrightarrow> keys_match ?T x k" for x
      using found(3) type_okD [OF T] unfolding ok1 by (metis entry_kv_def fst_conv)
    have find: "dictTwoPhaseUnlinkFind cr d k = Some (?d, Some r)"
      using False d1(1) found(1) by (simp add: dictTwoPhaseUnlinkFind_def)
    have "entry_at ?d r = entry_at d1 r"
      by (simp add: entry_at_def bucket_get_def dictPauseRehashing_def dict_simps)
    then have entry: "map_option entry_kv (entry_at ?d r) = Some (entry_kv ?e)"
      using entry_at_ref [OF found(2)] by simp
    have un: "dictTwoPhaseUnlinkFree ?d (Some r) = Some (?d2, kv_events ?T (entry_kv ?e))"
      using at c'(1,2) free ok1(2) bucket_at_cases(1) [OF at]
      by (auto simp: dictTwoPhaseUnlinkFree_def r Let_def bucket_get_def bucket_put_def add_used_def upd_bucket_def
        dictPauseRehashing_def dictResumeRehashing_def bucket_at_def dict_simps set_ht_def ht_def)
    have "dict_lookup ?d2 = (\<lambda>x. if keys_match ?T x k then None else dict_lookup d x)"
      using dict_lookup_remove [OF ok1(1) c'(4) _ c'(5)] lk match ok1(2) by (auto simp: fun_eq_iff dict_simps)
    then have "dict_ok ?d2 \<and> pauserehash ?d2 = pauserehash d \<and> contents d = add_mset (entry_kv ?e) (contents ?d2) \<and>
        dict_lookup ?d2 = (\<lambda>x. if keys_match ?T x k then None else dict_lookup d x)"
      using c'(4,5) ok1(3,4) by (simp add: dict_simps)
    moreover have "pauserehash ?d = pauserehash d + 1"
      using ok1(4) by (simp add: dictPauseRehashing_def)
    ultimately show ?thesis
      unfolding some option.case using find entry un by blast
  qed
qed

section \<open>A sample dictionary\<close>

text \<open>Keys that are compared by their last decimal digit.\<close>

definition sample_type :: "(nat, int) dictType" where
  "sample_type = \<lparr>hashFunction = (\<lambda>k. of_nat (k mod 10)), keyDup = None, valDup = None,
     keyCompare = Some (\<lambda>a b. a mod 10 = b mod 10), keyDestructor = True, valDestructor = True,
     expandAllowed = None, no_value = False, keys_are_odd = False, dictEntryMetadataBytes = None,
     ptr_lsb = (\<lambda>k. odd k)\<rparr>"

definition sample_memory :: "(nat, int) dict" where
  "sample_memory = \<lparr>type_of = sample_type, ht0 = empty_ht, ht1 = empty_ht, rehashidx = 7, pauserehash = 3\<rparr>"

lemma sample_match: "keys_match sample_type a b \<longleftrightarrow> a mod 10 = b mod 10"
  by (auto simp: keys_match_def dictCompareKeys_def sample_type_def)

lemma sample_type_ok: "type_ok sample_type"
  unfolding type_ok_def sample_match by (simp add: sample_type_def)

lemma sample_ent: "dict_ent sample_type k v = (k, Some v)" "dict_upd sample_type e v = (fst e, Some v)"
  by (simp_all add: dict_ent_def dict_upd_def new_kv_def dup_key_def dup_val_def sample_type_def)

lemma dictCreate_ok:
  assumes "type_ok T"
  shows "dict_ok (dictCreate mem T)" "contents (dictCreate mem T) = {#}" "type_of (dictCreate mem T) = T"
    "dict_lookup (dictCreate mem T) = (\<lambda>k. None)"
  using assms
  by (simp_all add: dictCreate_def dictInit_def dictReset_def dict_ok_def dictIsRehashing_def contents_def
    dict_lookup_def dict_kvs_def fun_eq_iff ht_def set_ht_def)

section \<open>Properties\<close>

text \<open>C1: A dictionary is a map. From any state that satisfies the invariant, any sequence of finds, additions,
  replacements and removals, interleaved with rehashing steps, resizes, expansions and changes of the
  resize policy, runs without a failed assertion or an access out of a table. It keeps the
  invariant and returns what the same sequence returns on the map of keys to entries, where keys are
  identified by the comparison of the dictionary's type.\<close>

theorem dict_refines_map:
  assumes "dict_ok d" "size (contents d) + length ops \<le> 2 ^ 60" "\<forall>p\<in>set ops. dict_op_ok (type_of d) p"
  shows "\<exists>cr' d' rs. exec_map_run (dict_step junk) (cr, d) ops = Some ((cr', d'), rs) \<and> dict_ok d' \<and>
     type_of d' = type_of d \<and>
     abs_map_run (keys_match (type_of d)) (dict_ent (type_of d)) (dict_upd (type_of d)) (dict_lookup d) ops =
       (dict_lookup d', rs)"
proof -
  have "dict_state_ok (cr, d)" "size (contents d) + length ops \<le> DICT_MAX_ENTRIES"
    using assms(1) assms(2) by (simp_all add: dict_state_ok_def DICT_MAX_ENTRIES_def)
  with dm.run_correct [of "(cr, d)" ops junk] assms(3) obtain s' rs where
    "exec_map_run (dict_step junk) (cr, d) ops = Some (s', rs)" "dict_state_ok s'" "type_of (snd s') = type_of d"
    "abs_map_run (keys_match (type_of d)) (dict_ent (type_of d)) (dict_upd (type_of d)) (dict_lookup d) ops =
       (dict_lookup (snd s'), rs)"
    unfolding dict_step_def snd_conv by blast
  then show ?thesis
    by (cases s') (auto simp: dict_state_ok_def)
qed

definition sample_ops :: "(nat, int, dict_maint) map_op list" where
  "sample_ops = [MAdd 1 10, MAdd 12 20, MAdd 11 30, MReplace 21 40, MAdd 3 30, MAdd 4 40, MAdd 5 50,
     MMaint (DRehash 1), MFind 31, MDelete 2, MFind 12]"

theorem dict_refines_map_witness:
  "\<exists>cr' d' rs. exec_map_run (dict_step 0) (DICT_RESIZE_ENABLE, dictCreate sample_memory sample_type) sample_ops =
     Some ((cr', d'), rs) \<and> dict_ok d' \<and> dict_lookup d' 5 = Some (5, Some 50) \<and>
     rs = [Flag True, Flag True, Flag False, Flag False, Flag True, Flag True, Flag True, Done,
       Found (Some (1, Some 40)), Flag True, Found None]"
proof -
  note c = dictCreate_ok [OF sample_type_ok, of sample_memory]
  have ok: "\<forall>p\<in>set sample_ops. dict_op_ok sample_type p"
    by (simp add: sample_ops_def dict_op_ok_def key_ok_def sample_type_def)
  have len: "size (contents (dictCreate sample_memory sample_type)) + length sample_ops \<le> 2 ^ 60"
    by (simp add: c sample_ops_def)
  have abs: "snd (abs_map_run (keys_match sample_type) (dict_ent sample_type) (dict_upd sample_type) (\<lambda>k. None) sample_ops) =
      [Flag True, Flag True, Flag False, Flag False, Flag True, Flag True, Flag True, Done,
       Found (Some (1, Some 40)), Flag True, Found None]"
    "fst (abs_map_run (keys_match sample_type) (dict_ent sample_type) (dict_upd sample_type) (\<lambda>k. None) sample_ops) 5 =
      Some (5, Some 50)"
    by (simp_all add: sample_ops_def sample_match abs_put_def sample_ent)
  obtain cr' d' rs where "exec_map_run (dict_step 0) (DICT_RESIZE_ENABLE, dictCreate sample_memory sample_type)
      sample_ops = Some ((cr', d'), rs)" "dict_ok d'"
    "abs_map_run (keys_match sample_type) (dict_ent sample_type) (dict_upd sample_type) (\<lambda>k. None) sample_ops =
       (dict_lookup d', rs)"
    using dict_refines_map [OF c(1) len, of 0 DICT_RESIZE_ENABLE] ok unfolding c(3,4) by blast
  with abs show ?thesis
    by simp
qed

text \<open>A dictionary in the middle of a rehashing.\<close>

definition sample_dict :: "(nat, int) dict" where
  "sample_dict = \<lparr>type_of = sample_type,
     ht0 = \<lparr>ht_table = [[], [EntryNormal 1 10], [], [EntryNormal 3 30]], ht_used = 2, ht_size_exp = 2\<rparr>,
     ht1 = \<lparr>ht_table = [[], [], [], [], [EntryNormal 4 40], [], [], []], ht_used = 1, ht_size_exp = 3\<rparr>,
     rehashidx = 1, pauserehash = 0\<rparr>"

lemma sample_dict_contents: "contents sample_dict = {#(1, Some 10), (3, Some 30), (4, Some 40)#}"
  by (simp add: sample_dict_def contents_def table_kvs_def ht_def entry_kv_def)

lemma sample_bucket:
  "bucket_ok sample_type e i [EntryNormal k v] \<longleftrightarrow> unat (of_nat (k mod 10) AND DICTHT_SIZE_MASK e) = i"
  by (simp add: bucket_ok_def chain_ok_def dentry_ok_def sample_type_def)

lemma sample_masks: "DICTHT_SIZE_MASK 2 = 3" "DICTHT_SIZE_MASK 3 = 7"
  by (simp_all add: DICTHT_SIZE_MASK_def)

lemma sample_dict_ok: "dict_ok sample_dict"
proof -
  have "distinct_keys sample_type (contents sample_dict)"
    unfolding sample_dict_contents
    by (intro distinct_keys_add sample_type_ok distinct_keys_empty) (simp_all add: sample_match)
  moreover have "ht_ok sample_type (ht sample_dict 0)"
    by (simp only: ht_ok_def sample_dict_def ht_def dict.simps hashtab.simps if_True)
      (simp add: All_less_Suc2 sample_bucket sample_masks)
  moreover have "ht_ok sample_type (ht sample_dict 1)"
    by (simp only: ht_ok_def sample_dict_def ht_def dict.simps hashtab.simps one_neq_zero if_False)
      (simp add: All_less_Suc2 sample_bucket sample_masks)
  ultimately show ?thesis
    using sample_type_ok by (simp add: dict_ok_def) (simp add: sample_dict_def dictIsRehashing_def ht_def)
qed

text \<open>C9: A rehashing step keeps the dictionary: on any state that satisfies the invariant, \<^verbatim>\<open>dictRehash\<close> with any
  number of steps and under any resize policy does not fail an assertion, keeps the invariant, and
  neither loses, duplicates nor changes an entry. When it returns 1 the rehashing goes on with a
  larger \<^verbatim>\<open>rehashidx\<close>; when resizing is enabled and it returns 0, no rehashing is in progress.\<close>

theorem dictRehash_correct:
  assumes "dict_ok d" "n \<noteq> 0"
  shows "\<exists>d' b. dictRehash cr d n = Some (d', b) \<and> dict_ok d' \<and> contents d' = contents d \<and>
     dict_lookup d' = dict_lookup d \<and>
     (b \<longrightarrow> dictIsRehashing d' \<and> rehashidx d < rehashidx d') \<and>
     (cr = DICT_RESIZE_ENABLE \<and> \<not> b \<longrightarrow> \<not> dictIsRehashing d')"
proof -
  obtain d' b where "dictRehash cr d n = Some (d', b)" "rehash_frame d d'"
    "b \<and> n \<noteq> 0 \<longrightarrow> still_rehashing d d' \<and> rehashidx d < rehashidx d'"
    "cr = DICT_RESIZE_ENABLE \<and> \<not> b \<longrightarrow> \<not> dictIsRehashing d'"
    using dictRehash_step [OF assms(1), of cr n] by blast
  with dict_lookup_frame [OF assms(1)] assms(2) show ?thesis
    by (auto simp: still_rehashing_def rehash_frame_def)
qed

theorem dictRehash_correct_witness:
  "\<exists>d' b. dictRehash DICT_RESIZE_ENABLE sample_dict 1 = Some (d', b) \<and>
     contents d' = {#(1, Some 10), (3, Some 30), (4, Some 40)#}"
  using dictRehash_correct [OF sample_dict_ok, of 1 DICT_RESIZE_ENABLE] unfolding sample_dict_contents by auto

text \<open>C36: \<^verbatim>\<open>dictRehashMilliseconds\<close> always returns, whatever the clock reads and under any resize policy, and
  leaves the contents alone. When resizing is enabled, rehashing is not paused and the clock stays
  within the allowed time, the rehashing is complete when it returns.\<close>

theorem dictRehashMilliseconds_terminates:
  assumes "dict_ok d"
  shows "\<exists>d' r. dictRehashMilliseconds now cr d ms = Some (d', r) \<and> dict_ok d' \<and> contents d' = contents d \<and>
     (cr = DICT_RESIZE_ENABLE \<and> pauserehash d \<le> 0 \<and> (\<forall>j. now j - now 0 \<le> ms) \<longrightarrow> \<not> dictIsRehashing d')"
proof (cases "pauserehash d > 0")
  case True
  with assms show ?thesis
    by (simp add: dictRehashMilliseconds_def)
next
  case False
  obtain d' r where "dictRehashMilliseconds_loop now cr ms 1 0 d = Some (d', r)" "rehash_frame d d'"
    "cr = DICT_RESIZE_ENABLE \<and> (\<forall>j. now j - now 0 \<le> ms) \<longrightarrow> \<not> dictIsRehashing d'"
    using rehash_ms_loop [OF assms, of now cr ms 1 0] by blast
  with False show ?thesis
    by (auto simp: dictRehashMilliseconds_def rehash_frame_def)
qed

theorem dictRehashMilliseconds_terminates_witness:
  "dictIsRehashing sample_dict \<and>
   (\<exists>d' r. dictRehashMilliseconds (\<lambda>i. 0) DICT_RESIZE_ENABLE sample_dict 1 = Some (d', r) \<and>
      dict_ok d' \<and> \<not> dictIsRehashing d' \<and> contents d' = {#(1, Some 10), (3, Some 30), (4, Some 40)#})"
proof -
  have "pauserehash sample_dict \<le> 0" "dictIsRehashing sample_dict"
    by (simp_all add: sample_dict_def dictIsRehashing_def)
  then show ?thesis
    using dictRehashMilliseconds_terminates [OF sample_dict_ok, of "\<lambda>i. 0" DICT_RESIZE_ENABLE 1]
    unfolding sample_dict_contents by auto
qed

text \<open>Emptying a dictionary destroys every entry once: \<^verbatim>\<open>dictEmpty\<close> runs without a fault, the calls of the
  key and value destructors are those of the entries that the dictionary held, each once, and
  what is left is an empty dictionary that is not rehashing and not paused.\<close>

theorem dictEmpty_correct:
  assumes "dict_ok d"
  shows "\<exists>d' evs. dictEmpty d = Some (d', evs) \<and> dict_ok d' \<and> contents d' = {#} \<and> dictSize d' = 0 \<and>
     \<not> dictIsRehashing d' \<and> pauserehash d' = 0 \<and>
     mset evs = (\<Sum>kv\<in>#contents d. mset (kv_events (type_of d) kv))"
proof -
  let ?T = "type_of d"
  let ?a = "set_ht 0 empty_ht d"
  have T: "type_ok ?T"
    using assms by (simp add: dict_ok_def)
  have h: "ht d t = empty_ht \<or> ht_ok ?T (ht d t)" if "t \<in> {0, 1}" for t
    using that assms by (auto simp: dict_ok_def split: if_splits)
  have "dictClear d 0 = Some (?a, chain_events ?T (concat (ht_table (ht d 0))))"
    using dictClear_table [of 0 d] T h [of 0] by simp
  moreover have "dictClear ?a 1 = Some (set_ht 1 empty_ht ?a, chain_events ?T (concat (ht_table (ht d 1))))"
    using dictClear_table [of 1 ?a] T h [of 1] by (simp add: dict_simps)
  ultimately have "dictEmpty d = Some ((set_ht 1 empty_ht ?a)\<lparr>rehashidx := -1, pauserehash := 0\<rparr>,
      chain_events ?T (concat (ht_table (ht d 0))) @ chain_events ?T (concat (ht_table (ht d 1))))"
    by (simp add: dictEmpty_def)
  moreover have "mset (chain_events ?T (concat (ht_table (ht d 0))) @ chain_events ?T (concat (ht_table (ht d 1)))) =
      (\<Sum>kv\<in>#contents d. mset (kv_events ?T kv))"
    by (simp add: chain_events_mset contents_def table_kvs_def)
  ultimately show ?thesis
    using T by (simp add: dict_ok_def dictIsRehashing_def contents_def dictSize_def dict_simps)
qed

theorem dictEmpty_correct_witness:
  "\<exists>d' evs. dictEmpty sample_dict = Some (d', evs) \<and> contents d' = {#} \<and>
     mset evs = {#FreeKey 1, FreeVal 10, FreeKey 3, FreeVal 30, FreeKey 4, FreeVal 40#}"
proof -
  have T: "type_of sample_dict = sample_type"
    by (simp add: sample_dict_def)
  have "(\<Sum>kv\<in>#contents sample_dict. mset (kv_events (type_of sample_dict) kv)) =
      {#FreeKey 1, FreeVal 10, FreeKey 3, FreeVal 30, FreeKey 4, FreeVal 40#}"
    unfolding sample_dict_contents T by (simp add: kv_events_def sample_type_def)
  then show ?thesis
    using dictEmpty_correct [OF sample_dict_ok] by auto
qed

text \<open>The removal in two phases is a removal: when the key is there, \<^verbatim>\<open>dictTwoPhaseUnlinkFind\<close> returns its entry and
  pauses rehashing, and \<^verbatim>\<open>dictTwoPhaseUnlinkFree\<close> then removes that entry alone, calls its destructors
  and resumes rehashing. When the key is not there nothing is paused and nothing changes.\<close>

theorem dictTwoPhaseUnlink_correct:
  assumes "dict_ok d"
  shows "\<exists>d1 r d2 evs. dictTwoPhaseUnlinkFind cr d k = Some (d1, r) \<and>
     dictTwoPhaseUnlinkFree d1 r = Some (d2, evs) \<and> dict_ok d2 \<and> pauserehash d2 = pauserehash d \<and>
     pauserehash d1 = pauserehash d + (if dict_lookup d k = None then 0 else 1) \<and>
     map_option entry_kv (Option.bind r (entry_at d1)) = dict_lookup d k \<and>
     evs = (case dict_lookup d k of None \<Rightarrow> [] | Some p \<Rightarrow> kv_events (type_of d) p) \<and>
     contents d2 = contents d - (case dict_lookup d k of None \<Rightarrow> {#} | Some p \<Rightarrow> {#p#})"
proof (cases "dict_lookup d k")
  case None
  then obtain d1 where "dictTwoPhaseUnlinkFind cr d k = Some (d1, None)" "rehash_frame d d1"
    using two_phase_step [OF assms, of cr k] by auto
  with None show ?thesis
    by (auto simp: dictTwoPhaseUnlinkFree_def rehash_frame_def)
next
  case (Some p)
  then obtain d1 r d2 where "dictTwoPhaseUnlinkFind cr d k = Some (d1, Some r)"
    "pauserehash d1 = pauserehash d + 1" "map_option entry_kv (entry_at d1 r) = Some p"
    "dictTwoPhaseUnlinkFree d1 (Some r) = Some (d2, kv_events (type_of d) p)"
    "dict_ok d2" "pauserehash d2 = pauserehash d" "contents d = add_mset p (contents d2)"
    using two_phase_step [OF assms, of cr k] by auto
  with Some show ?thesis
    by (intro exI [of _ d1] exI [of _ "Some r"] exI [of _ d2] exI [of _ "kv_events (type_of d) p"]) simp
qed

theorem dictTwoPhaseUnlink_correct_witness:
  "\<exists>d1 r d2 evs. dictTwoPhaseUnlinkFind DICT_RESIZE_ENABLE sample_dict 13 = Some (d1, r) \<and>
     pauserehash d1 = 1 \<and> dictTwoPhaseUnlinkFree d1 r = Some (d2, evs) \<and>
     pauserehash d2 = 0 \<and> evs = [FreeKey 3, FreeVal 30] \<and> contents d2 = {#(1, Some 10), (4, Some 40)#}"
proof -
  have lk: "dict_lookup sample_dict 13 = Some (3, Some 30)"
    by (intro dict_lookupI [OF sample_dict_ok]) (simp_all add: sample_dict_contents, simp add: sample_dict_def sample_match)
  have T: "type_of sample_dict = sample_type" and "pauserehash sample_dict = 0"
    by (simp_all add: sample_dict_def)
  with dictTwoPhaseUnlink_correct [OF sample_dict_ok, of DICT_RESIZE_ENABLE 13] show ?thesis
    unfolding lk T sample_dict_contents by (auto simp: kv_events_def sample_type_def)
qed

end
