(* ===== verification/Dict_Scan.thy ===== *)
theory Dict_Scan
  imports Dict_Map
begin

text \<open>
  The stateless cursor of \<^verbatim>\<open>dictScan\<close>. The cursor counts with its bits reversed, so that the buckets of a
  larger table that a bucket of a smaller one splits into have consecutive cursors. \<open>rpos\<close> is the
  position of a hash in this order. One call covers an interval of positions; from one call to the
  next the intervals follow each other whatever the sizes of the tables, which gives the guarantee
  of the function: an element that stays in the dictionary is returned.
\<close>

section \<open>Reversing the bits\<close>

function rev_loop :: "nat \<Rightarrow> uint64 \<Rightarrow> uint64 \<Rightarrow> uint64" where
  "rev_loop s m v =
     (let s = s div 2 in
      if s > 0 then
        let m = m XOR push_bit s m; v = (drop_bit s v AND m) OR (push_bit s v AND NOT m)
        in rev_loop s m v
      else v)"
  by auto
termination by (relation "measure (\<lambda>(s, _, _). s)") auto

declare rev_loop.simps [simp del]

definition rev_bits :: "uint64 \<Rightarrow> uint64" where
  "rev_bits v = rev_loop 64 (NOT 0) v"

section \<open>The cursor\<close>

definition next_cursor :: "uint64 \<Rightarrow> uint64 \<Rightarrow> uint64" where
  "next_cursor m v = rev_bits (rev_bits (v OR NOT m) + 1)"

text \<open>The loop over the expansions of a bucket of the smaller table into the larger one; a loop
  without end would be \<open>None\<close>.\<close>

partial_function (option) dictScan_loop ::
  "('k, 'v) dict \<Rightarrow> nat \<Rightarrow> uint64 \<Rightarrow> uint64 \<Rightarrow> uint64 \<Rightarrow> (uint64 \<times> ('k, 'v) chain) option" where
  "dictScan_loop d t m0 m1 v =
     Option.bind (bucket_get d t (unat (v AND m1))) (\<lambda>de.
       let v = next_cursor m1 v in
       if v AND (m0 XOR m1) \<noteq> 0
       then Option.bind (dictScan_loop d t m0 m1 v) (\<lambda>(v, es). Some (v, de @ es))
       else Some (v, de))"

text \<open>
  The new cursor, the entries that \<^verbatim>\<open>fn\<close> is called with, in their order, and the dictionary, for a
  callback that does not change it.
\<close>

definition dictScan ::
  "('k, 'v) dict \<Rightarrow> uint64 \<Rightarrow> (uint64 \<times> ('k, 'v) chain \<times> ('k, 'v) dict) option" where
  "dictScan d v =
     (if dictSize d = 0 then Some (0, [], d)
      else
        let d = dictPauseRehashing d in
        if \<not> dictIsRehashing d then
          let m0 = DICTHT_SIZE_MASK (ht_size_exp (ht d 0)) in do {
            de \<leftarrow> bucket_get d 0 (unat (v AND m0));
            Some (next_cursor m0 v, de, dictResumeRehashing d)
          }
        else
          let (t0, t1) = (if DICTHT_SIZE (ht_size_exp (ht d 0)) > DICTHT_SIZE (ht_size_exp (ht d 1))
                          then (1, 0) else (0, 1));
              m0 = DICTHT_SIZE_MASK (ht_size_exp (ht d t0));
              m1 = DICTHT_SIZE_MASK (ht_size_exp (ht d t1)) in do {
            de \<leftarrow> bucket_get d t0 (unat (v AND m0));
            (v, es) \<leftarrow> dictScan_loop d t1 m0 m1 v;
            Some (v, de @ es, dictResumeRehashing d)
          })"

text \<open>A scan: one call in each of the states that the dictionary goes through.\<close>

primrec scan_run :: "('k, 'v) dict list \<Rightarrow> uint64 \<Rightarrow> (uint64 \<times> ('k, 'v) chain) option" where
  "scan_run [] v = Some (v, [])"
| "scan_run (d # ds) v = do {
     (v, es, _) \<leftarrow> dictScan d v;
     (v, es') \<leftarrow> scan_run ds v;
     Some (v, es @ es')
   }"

section \<open>Bit reversal\<close>

text \<open>Reversal within blocks of \<open>B\<close> bits; the loop reverses within blocks twice as long as the next step.\<close>

definition block_rev :: "nat \<Rightarrow> nat \<Rightarrow> nat" where
  "block_rev B i = i div B * B + (B - 1 - i mod B)"

definition swap_pos :: "nat \<Rightarrow> nat \<Rightarrow> nat" where
  "swap_pos s i = (if even (i div s) then i + s else i - s)"

lemma block_cases:
  assumes "0 < (s :: nat)"
  obtains q r where "i = 2 * s * q + r" "r < s" "i div s = 2 * q" "i mod s = r"
    "i div (2 * s) = q" "i mod (2 * s) = r"
  | q r where "i = 2 * s * q + s + r" "r < s" "i div s = 2 * q + 1" "i mod s = r"
    "i div (2 * s) = q" "i mod (2 * s) = s + r"
proof -
  define q m where "q = i div (2 * s)" and "m = i mod (2 * s)"
  have i: "i = 2 * s * q + m" and m: "m < 2 * s"
    using assms by (simp_all add: q_def m_def)
  note qm = q_def [symmetric] m_def [symmetric]
  show thesis
  proof (cases "m < s")
    case True
    have e: "i = m + s * (2 * q)"
      using i by simp
    have "i div s = 2 * q"
      unfolding e using True assms by simp
    moreover have "i mod s = m"
      unfolding e using True assms by simp
    ultimately show thesis
      using that(1) [OF i True] qm by blast
  next
    case False
    have e: "i = (m - s) + s * (2 * q + 1)"
      using i False by (simp add: algebra_simps)
    have r: "m - s < s"
      using m False by simp
    have "i div s = 2 * q + 1"
      unfolding e using r assms by (subst div_mult_self2) auto
    moreover have "i mod s = m - s"
      unfolding e using r assms by (subst mod_mult_self2) auto
    moreover have "i = 2 * s * q + s + (m - s)" "m = s + (m - s)"
      using i False by simp_all
    ultimately show thesis
      using that(2) [OF _ r] qm by metis
  qed
qed

lemma swap_block_rev:
  assumes "0 < s"
  shows "swap_pos s (block_rev s i) = block_rev (2 * s) i"
proof (cases rule: block_cases [OF assms, of i])
  case (1 q r)
  have "block_rev s i = s * (2 * q) + (s - 1 - r)"
    using 1 by (simp add: block_rev_def algebra_simps)
  moreover have "(s * (2 * q) + (s - 1 - r)) div s = 2 * q"
    using 1(2) by (intro div_nat_eqI) (auto simp: algebra_simps)
  ultimately show ?thesis
    using 1 by (simp add: swap_pos_def block_rev_def algebra_simps)
next
  case (2 q r)
  have "block_rev s i = s * (2 * q + 1) + (s - 1 - r)"
    using 2 by (simp add: block_rev_def algebra_simps)
  moreover have "(s * (2 * q + 1) + (s - 1 - r)) div s = 2 * q + 1"
    using 2(2) by (intro div_nat_eqI) (auto simp: algebra_simps)
  ultimately show ?thesis
    using 2 by (simp add: swap_pos_def block_rev_def algebra_simps)
qed

definition mask_for :: "nat \<Rightarrow> uint64 \<Rightarrow> bool" where
  "mask_for s m \<longleftrightarrow> (\<forall>i<64. bit m i \<longleftrightarrow> even (i div s))"

lemma mask_step:
  assumes "mask_for (2 * s) m" "0 < s"
  shows "mask_for s (m XOR push_bit s m)"
  unfolding mask_for_def
proof (intro allI impI)
  fix i :: nat
  assume i: "i < 64"
  have "bit (m XOR push_bit s m) i \<longleftrightarrow> even (i div (2 * s)) \<noteq> (s \<le> i \<and> even ((i - s) div (2 * s)))"
    using assms(1) i by (auto simp: mask_for_def bit_simps)
  also have "\<dots> \<longleftrightarrow> even (i div s)"
  proof (cases rule: block_cases [OF assms(2), of i])
    case (1 q r)
    show ?thesis
    proof (cases q)
      case 0
      with 1 show ?thesis
        by simp
    next
      case (Suc p)
      have "(i - s) div (2 * s) = p"
        using 1 Suc by (intro div_nat_eqI) (auto simp: algebra_simps)
      moreover have "s \<le> i"
        using 1 Suc by simp
      ultimately show ?thesis
        using 1(3,5) Suc by simp
    qed
  next
    case (2 q r)
    have "(i - s) div (2 * s) = q"
      using 2(1,2) by (intro div_nat_eqI) (auto simp: algebra_simps)
    with 2 show ?thesis
      by simp
  qed
  finally show "bit (m XOR push_bit s m) i \<longleftrightarrow> even (i div s)" .
qed

lemma swap_stage:
  assumes "mask_for s m" "2 * s dvd 64" "i < 64" "0 < s"
  shows "bit ((drop_bit s v AND m) OR (push_bit s v AND NOT m) :: uint64) i \<longleftrightarrow> bit v (swap_pos s i)"
proof (cases rule: block_cases [OF assms(4), of i])
  case (1 q r)
  from assms(2) obtain c where c: "64 = 2 * s * c"
    by (rule dvdE)
  have "q < c"
    using 1(1) assms(3,4) c by (metis add_lessD1 mult_less_cancel1)
  then have "2 * s * Suc q \<le> 64"
    unfolding c by (intro mult_le_mono2) simp
  then have "i + s < 64"
    using 1(1,2) by simp
  with 1 assms(1,3) show ?thesis
    by (simp add: mask_for_def swap_pos_def bit_simps add.commute)
next
  case (2 q r)
  then show ?thesis
    using assms(1,3) by (simp add: mask_for_def swap_pos_def bit_simps)
qed

lemma block_rev_bound:
  assumes "s dvd 64" "i < 64" "0 < (s :: nat)"
  shows "block_rev s i < 64"
proof -
  from assms(1) obtain c where c: "64 = s * c"
    by (rule dvdE)
  have "i div s < c"
    using assms(2,3) c by (simp add: div_less_iff_less_mult mult.commute)
  then have "s * Suc (i div s) \<le> 64"
    unfolding c by (intro mult_le_mono2) simp
  moreover have "s - 1 - i mod s < s"
    using assms(3) by simp
  ultimately show ?thesis
    by (simp add: block_rev_def mult.commute)
qed

lemma block_rev_less: "block_rev 64 i = 63 - i" if "i < 64"
  using that by (simp add: block_rev_def)

lemma rev_loop_correct:
  assumes "n \<le> 6" "mask_for (2 ^ n) m" "i < 64"
  shows "bit (rev_loop (2 ^ n) m v) i \<longleftrightarrow> bit v (block_rev (2 ^ n) i)"
  using assms
proof (induction n arbitrary: m v)
  case 0
  then show ?case
    by (simp add: rev_loop.simps [of "Suc 0"] block_rev_def)
next
  case (Suc n)
  let ?s = "2 ^ n :: nat"
  let ?m = "m XOR push_bit ?s m"
  let ?v = "(drop_bit ?s v AND ?m) OR (push_bit ?s v AND NOT ?m)"
  have m: "mask_for ?s ?m"
    using Suc.prems(2) by (intro mask_step) simp_all
  have dvd: "2 * ?s dvd 64"
    using le_imp_power_dvd [of "Suc n" 6 "2 :: nat"] Suc.prems(1) by simp
  have "block_rev ?s i < 64"
    using dvd_mult_right [OF dvd] Suc.prems(3) by (intro block_rev_bound) simp_all
  have "bit (rev_loop (2 ^ Suc n) m v) i = bit (rev_loop ?s ?m ?v) i"
    by (simp add: rev_loop.simps [of "2 * ?s"] Let_def)
  also have "\<dots> = bit ?v (block_rev ?s i)"
    using Suc.IH Suc.prems(1,3) m by simp
  also have "\<dots> = bit v (swap_pos ?s (block_rev ?s i))"
    using m dvd \<open>block_rev ?s i < 64\<close> by (intro swap_stage) simp_all
  finally show ?case
    by (simp add: swap_block_rev)
qed

lemma bit_rev_bits: "bit (rev_bits v) i \<longleftrightarrow> i < 64 \<and> bit v (63 - i)"
proof (cases "i < 64")
  case True
  have "mask_for (2 ^ 6) (NOT 0)"
    by (simp add: mask_for_def bit_simps)
  with rev_loop_correct [of 6 "NOT 0" i v] True show ?thesis
    by (simp add: rev_bits_def block_rev_less)
next
  case False
  then show ?thesis
    using bit_imp_le_length [of "rev_bits v" i] by auto
qed

lemma rev_bits_rev_bits [simp]: "rev_bits (rev_bits v) = v"
  by (rule bit_word_eqI) (auto simp: bit_rev_bits)

section \<open>Positions\<close>

definition rpos :: "uint64 \<Rightarrow> nat" where
  "rpos v = unat (rev_bits v)"

lemma rpos_less: "rpos v < 2 ^ 64"
  using unsigned_less [of "rev_bits v"] by (simp add: rpos_def)

lemma rpos_inject: "rpos v = rpos w \<longleftrightarrow> v = w"
  by (metis rev_bits_rev_bits rpos_def unsigned_word_eqI)

lemma size_mask: "0 \<le> e \<Longrightarrow> DICTHT_SIZE_MASK e = mask (nat e)"
  by (simp add: DICTHT_SIZE_MASK_def mask_eq_exp_minus_1)

lemma rev_bits_or_mask:
  "0 \<le> e \<Longrightarrow> e \<le> 64 \<Longrightarrow> rev_bits (v OR NOT (DICTHT_SIZE_MASK e)) = rev_bits v OR mask (64 - nat e)"
  by (rule bit_word_eqI) (auto simp: bit_rev_bits size_mask bit_simps)

lemma rpos_div: "rpos v div 2 ^ k = unat (drop_bit k (rev_bits v))"
proof -
  have "take_bit 64 (unat (rev_bits v)) = unat (rev_bits v)"
    using rpos_less [of v] by (intro take_bit_nat_eq_self) (simp add: rpos_def)
  then show ?thesis
    by (simp add: rpos_def unsigned_drop_bit_eq flip: drop_bit_eq_div)
qed

lemma rpos_mod: "rpos v mod 2 ^ k = unat (take_bit k (rev_bits v))"
  by (simp add: rpos_def unsigned_take_bit_eq flip: take_bit_eq_mod)

lemma nat_or_mask: "(x :: nat) OR mask k = x div 2 ^ k * 2 ^ k + (2 ^ k - 1)"
proof -
  have "x OR mask k = push_bit k (drop_bit k x) OR mask k"
    by (rule bit_eqI) (auto simp: bit_simps)
  also have "\<dots> = 2 ^ k * drop_bit k x + mask k"
    by (intro push_or_add) (simp add: mask_eq_exp_minus_1)
  finally show ?thesis
    by (simp add: drop_bit_eq_div mask_eq_exp_minus_1 mult.commute)
qed

lemma unat_or_mask:
  assumes "k \<le> 64"
  shows "unat ((w :: uint64) OR mask k) = unat w div 2 ^ k * 2 ^ k + (2 ^ k - 1)"
proof -
  have "unat (mask k :: uint64) = mask k"
    using assms unsigned_take_bit_eq [of k "- 1 :: uint64"]
    by (intro bit_eqI) (auto simp: bit_simps)
  then show ?thesis
    by (simp add: unsigned_or_eq nat_or_mask)
qed

lemma unat64_Suc: "unat ((w :: uint64) + 1) = (unat w + 1) mod 2 ^ 64"
proof -
  have "unat (of_nat (unat w + 1) :: uint64) = (unat w + 1) mod 2 ^ 64"
    by (subst unat_of_nat) (simp add: take_bit_eq_mod)
  then show ?thesis
    by (simp add: add.commute)
qed

lemma rpos_next:
  assumes "0 \<le> e" "e \<le> 64"
  shows "rpos (next_cursor (DICTHT_SIZE_MASK e) v) = (rpos v div 2 ^ (64 - nat e) + 1) * 2 ^ (64 - nat e) mod 2 ^ 64"
proof -
  let ?k = "64 - nat e"
  have "rpos (next_cursor (DICTHT_SIZE_MASK e) v) = unat ((rev_bits v OR mask ?k) + 1)"
    using assms by (simp add: rpos_def next_cursor_def rev_bits_or_mask)
  also have "\<dots> = (rpos v div 2 ^ ?k * 2 ^ ?k + (2 ^ ?k - 1) + 1) mod 2 ^ 64"
    by (simp only: unat64_Suc unat_or_mask diff_le_self rpos_def)
  also have "rpos v div 2 ^ ?k * 2 ^ ?k + (2 ^ ?k - 1) + 1 = (rpos v div 2 ^ ?k + 1) * 2 ^ ?k"
    by (simp add: algebra_simps)
  finally show ?thesis .
qed

lemma shift_bound: "(\<forall>n<m. k + n < m \<longrightarrow> P n) \<longleftrightarrow> (\<forall>n. k + n < (m :: nat) \<longrightarrow> P n)"
  by (metis add.commute add_lessD1)

text \<open>A bucket holds the hashes of one interval of positions.\<close>

lemma same_bucket:
  assumes "0 \<le> e" "e \<le> 64"
  shows "v AND DICTHT_SIZE_MASK e = h AND DICTHT_SIZE_MASK e \<longleftrightarrow>
     rpos v div 2 ^ (64 - nat e) = rpos h div 2 ^ (64 - nat e)" (is "?l \<longleftrightarrow> ?r")
proof -
  let ?k = "64 - nat e"
  have "?r \<longleftrightarrow> drop_bit ?k (rev_bits v) = drop_bit ?k (rev_bits h)"
    unfolding rpos_div by (metis unsigned_word_eqI)
  also have "\<dots> \<longleftrightarrow> (\<forall>i<64. ?k + i < 64 \<longrightarrow> bit v (63 - (?k + i)) = bit h (63 - (?k + i)))"
    by (auto simp: bit_eq_iff bit_drop_bit_eq bit_rev_bits)
  also have "\<dots> \<longleftrightarrow> (\<forall>i. ?k + i < 64 \<longrightarrow> bit v (63 - (?k + i)) = bit h (63 - (?k + i)))"
    by (rule shift_bound)
  also have "\<dots> \<longleftrightarrow> (\<forall>j<nat e. bit v j = bit h j)"
  proof safe
    fix j
    assume *: "\<forall>i. ?k + i < 64 \<longrightarrow> bit v (63 - (?k + i)) = bit h (63 - (?k + i))" and j: "j < nat e"
    have "?k + (nat e - 1 - j) < 64" "63 - (?k + (nat e - 1 - j)) = j"
      using j assms by auto
    with * show "bit v j \<Longrightarrow> bit h j" "bit h j \<Longrightarrow> bit v j"
      by metis+
  qed (use assms in auto)
  also have "\<dots> \<longleftrightarrow> ?l"
  proof -
    have "j < 64" if "j < nat e" for j
      using that assms(2) by simp
    then show ?thesis
      using assms(1) by (auto simp: bit_eq_iff bit_simps size_mask)
  qed
  finally show ?thesis
    by simp
qed

lemma scan_continues:
  assumes "0 \<le> e0" "e0 \<le> e1" "e1 \<le> 64" "rpos v mod 2 ^ (64 - nat e1) = 0"
  shows "v AND (DICTHT_SIZE_MASK e0 XOR DICTHT_SIZE_MASK e1) = 0 \<longleftrightarrow> rpos v mod 2 ^ (64 - nat e0) = 0"
proof -
  have "take_bit (64 - nat e1) (rev_bits v) = 0"
    using assms(4) unfolding rpos_mod by (metis unsigned_0 unsigned_word_eqI)
  then have low: "\<not> bit (rev_bits v) i" if "i < 64 - nat e1" for i
    using that by (metis bit_0_eq bit_take_bit_iff bot_apply bot_bool_def)
  have "rpos v mod 2 ^ (64 - nat e0) = 0 \<longleftrightarrow> (\<forall>i<64 - nat e0. \<not> bit (rev_bits v) i)"
  proof -
    have "rpos v mod 2 ^ (64 - nat e0) = 0 \<longleftrightarrow> take_bit (64 - nat e0) (rev_bits v) = 0"
      unfolding rpos_mod by (metis unsigned_0 unsigned_word_eqI)
    also have "\<dots> \<longleftrightarrow> (\<forall>i<64 - nat e0. \<not> bit (rev_bits v) i)"
      by (auto simp: bit_eq_iff bit_simps)
    finally show ?thesis .
  qed
  also have "\<dots> \<longleftrightarrow> (\<forall>i. 64 - nat e1 \<le> i \<and> i < 64 - nat e0 \<longrightarrow> \<not> bit v (63 - i))"
    using low by (auto simp: bit_rev_bits) (metis not_le)
  also have "\<dots> \<longleftrightarrow> (\<forall>j. nat e0 \<le> j \<and> j < nat e1 \<longrightarrow> \<not> bit v j)"
  proof safe
    fix j
    assume *: "\<forall>i. 64 - nat e1 \<le> i \<and> i < 64 - nat e0 \<longrightarrow> \<not> bit v (63 - i)"
      and j: "nat e0 \<le> j" "j < nat e1" "bit v j"
    then have "64 - nat e1 \<le> 63 - j" "63 - j < 64 - nat e0" "63 - (63 - j) = j"
      using assms by auto
    with * j(3) show False
      by metis
  next
    fix i
    assume *: "\<forall>j. nat e0 \<le> j \<and> j < nat e1 \<longrightarrow> \<not> bit v j"
      and i: "64 - nat e1 \<le> i" "i < 64 - nat e0" "bit v (63 - i)"
    then have "nat e0 \<le> 63 - i" "63 - i < nat e1"
      using assms by auto
    with * i(3) show False
      by blast
  qed
  also have "\<dots> \<longleftrightarrow> v AND (DICTHT_SIZE_MASK e0 XOR DICTHT_SIZE_MASK e1) = 0"
  proof -
    have "bit (DICTHT_SIZE_MASK e0 XOR DICTHT_SIZE_MASK e1) n \<longleftrightarrow> nat e0 \<le> n \<and> n < nat e1" for n
      using assms(1-3) by (auto simp: bit_simps size_mask)
    moreover have "n < 64" if "n < nat e1" for n
      using that assms(3) by simp
    ultimately show ?thesis
      by (auto simp: bit_eq_iff bit_and_iff)
  qed
  finally show ?thesis
    by simp
qed

section \<open>The entries of an interval\<close>

definition epos :: "('k, 'v) dictType \<Rightarrow> ('k, 'v) dictEntry \<Rightarrow> nat" where
  "epos T x = rpos (hashFunction T (dictGetKey x))"

lemma filter_mset_none: "\<forall>x\<in>#M. \<not> P x \<Longrightarrow> filter_mset P M = {#}"
  by (induction M) auto

lemma filter_mset_all: "\<forall>x\<in>#M. P x \<Longrightarrow> filter_mset P M = M"
  by (induction M) auto

lemma filter_mset_concat:
  assumes "\<And>j. j < length tb \<Longrightarrow> \<forall>x\<in>set (tb ! j). P x \<longleftrightarrow> j = i" "i < length tb"
  shows "filter_mset P (mset (concat tb)) = mset (tb ! i)"
  using assms
proof (induction tb arbitrary: P i)
  case (Cons c tb)
  have c: "\<forall>x\<in>set c. P x \<longleftrightarrow> 0 = i"
    using Cons.prems(1) [of 0] by simp
  show ?case
  proof (cases i)
    case 0
    have "filter_mset P (mset (concat tb)) = {#}"
    proof (intro filter_mset_none ballI notI)
      fix x
      assume "x \<in># mset (concat tb)" "P x"
      then obtain j where "j < length tb" "x \<in> set (tb ! j)"
        by (auto simp: in_set_conv_nth [of _ tb])
      with Cons.prems(1) [of "Suc j"] \<open>P x\<close> 0 show False
        by simp
    qed
    moreover have "filter_mset P (mset c) = mset c"
      using c 0 by (intro filter_mset_all) simp
    ultimately show ?thesis
      using 0 by simp
  next
    case (Suc l)
    have "\<forall>x\<in>set (tb ! j). P x \<longleftrightarrow> j = l" if "j < length tb" for j
      using Cons.prems(1) [of "Suc j"] that Suc by simp
    then have "filter_mset P (mset (concat tb)) = mset (tb ! l)"
      using Cons.prems(2) Suc by (intro Cons.IH) simp_all
    moreover have "filter_mset P (mset c) = {#}"
      using c Suc by (intro filter_mset_none) simp
    ultimately show ?thesis
      using Suc by simp
  qed
qed simp

lemma bucket_interval:
  assumes "ht_ok T h"
  shows "mset (ht_table h ! unat (v AND DICTHT_SIZE_MASK (ht_size_exp h))) =
     filter_mset (\<lambda>x. epos T x div 2 ^ (64 - nat (ht_size_exp h)) = rpos v div 2 ^ (64 - nat (ht_size_exp h)))
       (mset (concat (ht_table h)))"
proof (rule sym, rule filter_mset_concat)
  let ?e = "ht_size_exp h"
  have e: "0 \<le> ?e" "?e \<le> 64"
    using assms by (simp_all add: ht_ok_def)
  fix j
  assume j: "j < length (ht_table h)"
  show "\<forall>x\<in>set (ht_table h ! j). (epos T x div 2 ^ (64 - nat ?e) = rpos v div 2 ^ (64 - nat ?e)) \<longleftrightarrow>
      j = unat (v AND DICTHT_SIZE_MASK ?e)"
  proof
    fix x
    assume "x \<in> set (ht_table h ! j)"
    then have x: "unat (hashFunction T (dictGetKey x) AND DICTHT_SIZE_MASK ?e) = j"
      using bucket_ok_nth [OF assms j] by (simp add: bucket_ok_def)
    have "(epos T x div 2 ^ (64 - nat ?e) = rpos v div 2 ^ (64 - nat ?e)) \<longleftrightarrow>
        hashFunction T (dictGetKey x) AND DICTHT_SIZE_MASK ?e = v AND DICTHT_SIZE_MASK ?e"
      using same_bucket [OF e] by (simp add: epos_def)
    also have "\<dots> \<longleftrightarrow> j = unat (v AND DICTHT_SIZE_MASK ?e)"
      unfolding x [symmetric] by (metis unsigned_word_eqI)
    finally show "(epos T x div 2 ^ (64 - nat ?e) = rpos v div 2 ^ (64 - nat ?e)) \<longleftrightarrow>
      j = unat (v AND DICTHT_SIZE_MASK ?e)" .
  qed
next
  show "unat (v AND DICTHT_SIZE_MASK (ht_size_exp h)) < length (ht_table h)"
    by (rule index_less [OF assms])
qed

lemma filter_mset_split:
  assumes "\<And>x. x \<in># M \<Longrightarrow> \<not> (P x \<and> Q x)" "\<And>x. x \<in># M \<Longrightarrow> R x \<longleftrightarrow> P x \<or> Q x"
  shows "filter_mset P M + filter_mset Q M = filter_mset R M"
  using assms by (induction M) auto

lemma interval_split:
  assumes "(a :: nat) div w = q" "0 < w"
  shows "filter_mset (\<lambda>x. f x = a) M + filter_mset (\<lambda>x. Suc a \<le> f x \<and> f x div w = q) M =
     filter_mset (\<lambda>x. a \<le> f x \<and> f x div w = q) M"
  using assms by (intro filter_mset_split) auto

lemma interval_last:
  assumes "(a :: nat) div w = q" "Suc a = Suc q * w" "0 < w"
  shows "f = a \<longleftrightarrow> a \<le> f \<and> f div w = q"
proof
  assume "a \<le> f \<and> f div w = q"
  then have "f < Suc q * w"
    using assms(3) dividend_less_times_div [of w f] by (auto simp: mult.commute)
  with assms(2) \<open>a \<le> f \<and> f div w = q\<close> show "f = a"
    by simp
qed (use assms(1) in auto)

section \<open>One call\<close>

text \<open>The arithmetic of one step: intervals of length \<open>K\<close>, \<open>w\<close> of them in an interval of the smaller
  table, \<open>z\<close> of those in all.\<close>

lemma interval_step:
  fixes a w q z K :: nat
  assumes "a div w = q" "q < z" "0 < w" "0 < K" "N = Suc a * K"
  shows "Suc a = Suc q * w \<or> Suc a < Suc q * w \<and> Suc a div w = q"
    "Suc a < Suc q * w \<Longrightarrow> N < K * w * z \<and> N div K = Suc a \<and> N mod (K * w) \<noteq> 0 \<and> N mod K = 0"
    "Suc a = Suc q * w \<Longrightarrow> N = Suc q * (K * w)"
proof -
  have a: "a < Suc q * w" "q * w \<le> a"
    using assms(1,3) dividend_less_times_div [of w a] div_times_less_eq_dividend [of a w] by (auto simp: mult.commute)
  show "Suc a = Suc q * w \<or> Suc a < Suc q * w \<and> Suc a div w = q"
  proof (cases "Suc a = Suc q * w")
    case False
    then have "Suc a < Suc q * w" "q * w \<le> Suc a"
      using a by simp_all
    then have "Suc a div w = q"
      by (intro div_nat_eqI) (simp_all add: mult.commute)
    with \<open>Suc a < Suc q * w\<close> show ?thesis
      by blast
  qed simp
  show "Suc a < Suc q * w \<Longrightarrow> N < K * w * z \<and> N div K = Suc a \<and> N mod (K * w) \<noteq> 0 \<and> N mod K = 0"
  proof (intro conjI)
    assume less: "Suc a < Suc q * w"
    also have "Suc q * w \<le> z * w"
      using assms(2) by (intro mult_le_mono1) simp
    finally have "Suc a * K < z * w * K"
      using assms(4) by (rule mult_strict_right_mono)
    then show "N < K * w * z"
      by (simp add: assms(5) mult.commute mult.left_commute)
    show "N div K = Suc a" "N mod K = 0"
      using assms(4,5) by simp_all
    have "Suc a mod w = Suc a - q * w"
      using less a(2) by (intro mod_nat_eqI) auto
    then have "Suc a mod w \<noteq> 0"
      using a(2) by simp
    moreover have "N mod (K * w) = K * (Suc a mod w)"
      unfolding assms(5) by (metis mult.commute mult_mod_right)
    ultimately show "N mod (K * w) \<noteq> 0"
      using assms(4) by simp
  qed
  show "Suc a = Suc q * w \<Longrightarrow> N = Suc q * (K * w)"
    unfolding assms(5) by (simp add: mult.commute mult.left_commute)
qed

lemma dictScan_loop_correct:
  assumes "ht_ok (type_of d) (ht d t)" "t \<in> {0, 1}" "0 \<le> e0" "e0 \<le> ht_size_exp (ht d t)"
    and "k0 = 64 - nat e0" "k1 = 64 - nat (ht_size_exp (ht d t))"
  shows "\<exists>v' es. dictScan_loop d t (DICTHT_SIZE_MASK e0) (DICTHT_SIZE_MASK (ht_size_exp (ht d t))) v = Some (v', es) \<and>
     rpos v' = (rpos v div 2 ^ k0 + 1) * 2 ^ k0 mod 2 ^ 64 \<and>
     mset es = filter_mset (\<lambda>x. rpos v div 2 ^ k1 \<le> epos (type_of d) x div 2 ^ k1 \<and>
         epos (type_of d) x div 2 ^ k0 = rpos v div 2 ^ k0) (mset (concat (ht_table (ht d t))))"
proof (induction "(rpos v div 2 ^ k0 + 1) * 2 ^ k0 - rpos v" arbitrary: v rule: less_induct)
  case less
  let ?e1 = "ht_size_exp (ht d t)" and ?T = "type_of d" and ?tb = "ht_table (ht d t)"
  let ?m0 = "DICTHT_SIZE_MASK e0" and ?m1 = "DICTHT_SIZE_MASK ?e1"
  define w z a q where "w = (2 :: nat) ^ (k0 - k1)" and "z = (2 :: nat) ^ nat e0"
    and "a = rpos v div 2 ^ k1" and "q = rpos v div 2 ^ k0"
  have e1: "?e1 \<le> 60"
    using assms(1) by (simp add: ht_ok_def)
  have k: "k1 \<le> k0" "k0 \<le> 64"
    using assms(3-6) by auto
  have pw: "(2 :: nat) ^ k0 = 2 ^ k1 * w" "(2 :: nat) ^ 64 = 2 ^ k1 * w * z"
    using k assms(3-5) e1 by (simp_all add: w_def z_def flip: power_add)
  have pos: "0 < w" "0 < (2 :: nat) ^ k1"
    by (simp_all add: w_def)
  have D: "n div 2 ^ k0 = n div 2 ^ k1 div w" for n :: nat
    unfolding pw by (rule div_mult2_eq)
  have "rpos v < z * 2 ^ k0"
    using rpos_less [of v] unfolding pw by (simp only: mult.commute)
  then have q: "a div w = q" "q < z"
    unfolding a_def q_def D [symmetric] by (simp_all add: less_mult_imp_div_less)
  let ?v = "next_cursor ?m1 v"
  let ?c = "?tb ! unat (v AND ?m1)"
  have get: "bucket_get d t (unat (v AND ?m1)) = Some ?c"
    using index_less [OF assms(1)] by (simp add: bucket_get_def Let_def)
  have rv: "rpos ?v = (Suc a * 2 ^ k1) mod 2 ^ 64"
  proof -
    have "0 \<le> ?e1" "?e1 \<le> 64"
      using assms(3,4) e1 by simp_all
    then show ?thesis
      unfolding a_def assms(6) Suc_eq_plus1 by (rule rpos_next)
  qed
  have c: "mset ?c = filter_mset (\<lambda>x. epos ?T x div 2 ^ k1 = a) (mset (concat ?tb))"
    using bucket_interval [OF assms(1), of v] by (simp add: a_def assms(6))
  note st = interval_step [OF q(1,2) pos refl]
  have "Suc a * 2 ^ k1 mod 2 ^ 64 mod 2 ^ k1 = 0"
    unfolding pw by (simp add: mod_mult2_eq)
  then have cont: "?v AND (?m0 XOR ?m1) = 0 \<longleftrightarrow> rpos ?v mod 2 ^ k0 = 0"
    using scan_continues [of e0 ?e1 ?v] assms(3-6) e1 rv by simp
  note unf = dictScan_loop.simps [of d t ?m0 ?m1 v]
  from st(1) show ?case
  proof (elim disjE conjE)
    assume last: "Suc a = Suc q * w"
    then have N: "Suc a * 2 ^ k1 = Suc q * 2 ^ k0"
      using st(3) pw(1) by simp
    then have "rpos ?v mod 2 ^ k0 = 0"
      unfolding rv N pw by (simp add: mod_mult2_eq)
    then have "dictScan_loop d t ?m0 ?m1 v = Some (?v, ?c)"
      using cont by (simp add: unf get Let_def)
    moreover have "mset ?c = filter_mset (\<lambda>x. a \<le> epos ?T x div 2 ^ k1 \<and> epos ?T x div 2 ^ k0 = q) (mset (concat ?tb))"
      unfolding c D using interval_last [OF q(1) last pos(1)] by simp
    ultimately show ?case
      using rv N by (simp add: a_def q_def)
  next
    assume less': "Suc a < Suc q * w" and div: "Suc a div w = q"
    have N: "Suc a * 2 ^ k1 < 2 ^ 64" "Suc a * 2 ^ k1 mod 2 ^ k0 \<noteq> 0"
      using st(2) [OF less'] unfolding pw by blast+
    then have rv': "rpos ?v = Suc a * 2 ^ k1"
      using rv by simp
    have v1: "rpos ?v div 2 ^ k1 = Suc a" "rpos ?v div 2 ^ k0 = q"
      unfolding D rv' using div by simp_all
    have "rpos v < rpos ?v"
      unfolding rv' a_def using dividend_less_div_times [of "2 ^ k1" "rpos v"] by simp
    moreover have "rpos ?v < (q + 1) * 2 ^ k0"
      using mult_strict_right_mono [OF less' pos(2)] unfolding rv' pw by (simp only: Suc_eq_plus1 mult_ac)
    ultimately have "(rpos ?v div 2 ^ k0 + 1) * 2 ^ k0 - rpos ?v < (rpos v div 2 ^ k0 + 1) * 2 ^ k0 - rpos v"
      unfolding v1 by (simp add: q_def)
    from less.hyps [OF this] obtain v' es where es: "dictScan_loop d t ?m0 ?m1 ?v = Some (v', es)"
      "rpos v' = (q + 1) * 2 ^ k0 mod 2 ^ 64"
      "mset es = filter_mset (\<lambda>x. Suc a \<le> epos ?T x div 2 ^ k1 \<and> epos ?T x div 2 ^ k0 = q) (mset (concat ?tb))"
      unfolding v1 by blast
    have "dictScan_loop d t ?m0 ?m1 v = Some (v', ?c @ es)"
      using cont N(2) es(1) rv' by (simp add: unf get Let_def)
    moreover have "mset (?c @ es) = filter_mset (\<lambda>x. a \<le> epos ?T x div 2 ^ k1 \<and> epos ?T x div 2 ^ k0 = q) (mset (concat ?tb))"
      using c es(3) interval_split [OF q(1) pos(1), of "\<lambda>x. epos ?T x div 2 ^ k1"] by (simp add: D)
    ultimately show ?case
      using es(2) by (auto simp: a_def q_def)
  qed
qed

text \<open>A call covers an interval of the table with fewer buckets.\<close>

definition scan_k :: "('k, 'v) dict \<Rightarrow> nat" where
  "scan_k d = 64 - nat (if dictIsRehashing d then min (ht_size_exp (ht d 0)) (ht_size_exp (ht d 1))
     else ht_size_exp (ht d 0))"

definition dict_entries :: "('k, 'v) dict \<Rightarrow> ('k, 'v) dictEntry multiset" where
  "dict_entries d = mset (concat (ht_table (ht d 0))) + mset (concat (ht_table (ht d 1)))"

lemma contents_entries: "contents d = image_mset entry_kv (dict_entries d)"
  by (simp add: contents_def table_kvs_def dict_entries_def)

definition scan_covers :: "('k, 'v) dict \<Rightarrow> uint64 \<Rightarrow> ('k, 'v) dictEntry multiset \<Rightarrow> bool" where
  "scan_covers d v M \<longleftrightarrow>
     (\<forall>x\<in>#dict_entries d. rpos v \<le> epos (type_of d) x \<and>
        epos (type_of d) x div 2 ^ scan_k d = rpos v div 2 ^ scan_k d \<longrightarrow> x \<in># M) \<and>
     (rpos v mod 2 ^ scan_k d = 0 \<longrightarrow>
        M = filter_mset (\<lambda>x. epos (type_of d) x div 2 ^ scan_k d = rpos v div 2 ^ scan_k d) (dict_entries d))"

lemma aligned_le:
  assumes "(r :: nat) mod K = 0" "x div K = r div K"
  shows "r \<le> x"
  using assms by (metis add.right_neutral div_mult_mod_eq div_times_less_eq_dividend)

lemma two_tables_cover:
  assumes "ht_ok (type_of d) (ht d t0)" "ht_ok (type_of d) (ht d t1)" "dictIsRehashing d"
    and "(t0, t1) = (0, 1) \<or> (t0, t1) = (1, 0)" "ht_size_exp (ht d t0) \<le> ht_size_exp (ht d t1)"
    and "k1 = 64 - nat (ht_size_exp (ht d t1))"
    and "mset c = filter_mset (\<lambda>x. epos (type_of d) x div 2 ^ scan_k d = rpos v div 2 ^ scan_k d)
      (mset (concat (ht_table (ht d t0))))"
    and "mset es = filter_mset (\<lambda>x. rpos v div 2 ^ k1 \<le> epos (type_of d) x div 2 ^ k1 \<and>
      epos (type_of d) x div 2 ^ scan_k d = rpos v div 2 ^ scan_k d) (mset (concat (ht_table (ht d t1))))"
  shows "scan_covers d v (mset (c @ es))"
proof -
  have all: "dict_entries d = mset (concat (ht_table (ht d t0))) + mset (concat (ht_table (ht d t1)))"
    using assms(4) by (auto simp: dict_entries_def add.commute)
  have mono: "rpos v div 2 ^ k1 \<le> epos (type_of d) x div 2 ^ k1" if "rpos v \<le> epos (type_of d) x" for x
    using that by (rule div_le_mono)
  have "x \<in># mset (c @ es)" if "x \<in># dict_entries d" "rpos v \<le> epos (type_of d) x"
      "epos (type_of d) x div 2 ^ scan_k d = rpos v div 2 ^ scan_k d" for x
    using that mono [of x] by (auto simp: all assms(7,8))
  moreover have "mset es = filter_mset (\<lambda>x. epos (type_of d) x div 2 ^ scan_k d = rpos v div 2 ^ scan_k d)
      (mset (concat (ht_table (ht d t1))))" if "rpos v mod 2 ^ scan_k d = 0"
    unfolding assms(8) using mono aligned_le [OF that] by (intro filter_mset_cong) auto
  ultimately show ?thesis
    unfolding scan_covers_def using assms(7) by (simp add: all)
qed

lemma resume_pause [simp]: "dictResumeRehashing (dictPauseRehashing d) = d"
  by (simp add: dictResumeRehashing_def dictPauseRehashing_def)

lemma pause_simps [dict_simps]:
  "ht (dictPauseRehashing d) t = ht d t" "type_of (dictPauseRehashing d) = type_of d"
  "dictIsRehashing (dictPauseRehashing d) = dictIsRehashing d"
  "bucket_get (dictPauseRehashing d) t i = bucket_get d t i"
  by (simp_all add: dictPauseRehashing_def dict_simps bucket_get_def)

lemma dictScan_step:
  assumes "dict_ok d" "dictSize d \<noteq> 0"
  shows "\<exists>v' es. dictScan d v = Some (v', es, d) \<and>
     rpos v' = (rpos v div 2 ^ scan_k d + 1) * 2 ^ scan_k d mod 2 ^ 64 \<and> scan_covers d v (mset es)"
proof (cases "dictIsRehashing d")
  case False
  note ok = dict_ok_nonempty [OF assms]
  let ?e = "ht_size_exp (ht d 0)"
  let ?c = "ht_table (ht d 0) ! unat (v AND DICTHT_SIZE_MASK ?e)"
  have e: "0 \<le> ?e" "?e \<le> 64" and k: "scan_k d = 64 - nat ?e"
    using ok False by (simp_all add: ht_ok_def scan_k_def)
  have "dict_entries d = mset (concat (ht_table (ht d 0)))"
    using assms(1) False by (simp add: dict_ok_def dict_entries_def)
  then have "scan_covers d v (mset ?c)"
    using bucket_interval [OF ok, of v] by (simp add: scan_covers_def k)
  moreover have "dictScan d v = Some (next_cursor (DICTHT_SIZE_MASK ?e) v, ?c, d)"
    using False assms(2) index_less [OF ok] by (simp add: dictScan_def dict_simps Let_def) (simp add: bucket_get_def)
  ultimately show ?thesis
    using rpos_next [OF e, of v] unfolding k by blast
next
  case True
  let ?T = "type_of d"
  define t0 t1 :: nat where "t0 = (if DICTHT_SIZE (ht_size_exp (ht d 0)) > DICTHT_SIZE (ht_size_exp (ht d 1)) then 1 else 0)"
    and "t1 = (if DICTHT_SIZE (ht_size_exp (ht d 0)) > DICTHT_SIZE (ht_size_exp (ht d 1)) then 0 else 1)"
  note ok = dict_ok_rehashing(2,3) [OF assms(1) True]
  have tt: "(t0, t1) = (0, 1) \<or> (t0, t1) = (1, 0)"
    by (simp add: t0_def t1_def)
  have okt: "ht_ok ?T (ht d t0)" "ht_ok ?T (ht d t1)" "t1 \<in> {0, 1}"
    using ok tt by auto
  have le: "ht_size_exp (ht d t0) \<le> ht_size_exp (ht d t1)"
    and k: "scan_k d = 64 - nat (ht_size_exp (ht d t0))"
    using ok True by (auto simp: t0_def t1_def ht_ok_def scan_k_def min_def)
  have e0: "0 \<le> ht_size_exp (ht d t0)"
    using okt(1) by (simp add: ht_ok_def)
  let ?m0 = "DICTHT_SIZE_MASK (ht_size_exp (ht d t0))" and ?m1 = "DICTHT_SIZE_MASK (ht_size_exp (ht d t1))"
  let ?c = "ht_table (ht d t0) ! unat (v AND ?m0)"
  have c: "mset ?c = filter_mset (\<lambda>x. epos ?T x div 2 ^ scan_k d = rpos v div 2 ^ scan_k d) (mset (concat (ht_table (ht d t0))))"
    using bucket_interval [OF okt(1), of v] by (simp add: k)
  let ?p = "dictPauseRehashing d"
  have "ht_ok (type_of ?p) (ht ?p t1)" "ht_size_exp (ht d t0) \<le> ht_size_exp (ht ?p t1)"
    using okt le by (simp_all add: dict_simps)
  from dictScan_loop_correct [OF this(1) okt(3) e0 this(2) k refl, of v] obtain v' es where
    es: "dictScan_loop ?p t1 ?m0 ?m1 v = Some (v', es)"
      "rpos v' = (rpos v div 2 ^ scan_k d + 1) * 2 ^ scan_k d mod 2 ^ 64"
      "mset es = filter_mset (\<lambda>x. rpos v div 2 ^ (64 - nat (ht_size_exp (ht d t1))) \<le>
        epos ?T x div 2 ^ (64 - nat (ht_size_exp (ht d t1))) \<and>
        epos ?T x div 2 ^ scan_k d = rpos v div 2 ^ scan_k d) (mset (concat (ht_table (ht d t1))))"
    unfolding pause_simps by blast
  have "scan_covers d v (mset (?c @ es))"
    using okt(1,2) True tt le refl c es(3) by (rule two_tables_cover)
  moreover have "bucket_get d t0 (unat (v AND ?m0)) = Some ?c"
    using index_less [OF okt(1)] by (simp add: bucket_get_def Let_def)
  then have "dictScan d v = Some (v', ?c @ es, d)"
    using es(1) True assms(2) unfolding dictScan_def pause_simps Let_def t0_def t1_def
    by (cases "DICTHT_SIZE (ht_size_exp (ht d 0)) > DICTHT_SIZE (ht_size_exp (ht d 1))") simp_all
  ultimately show ?thesis
    using es(2) by blast
qed

section \<open>Whole scans\<close>

lemma rpos_zero: "rpos v = 0 \<longleftrightarrow> v = 0"
proof -
  have "rev_bits 0 = 0"
    by (rule bit_word_eqI) (simp add: bit_rev_bits)
  then have "rpos 0 = 0"
    by (simp add: rpos_def)
  then show ?thesis
    by (metis rpos_inject)
qed

lemma scan_k_le: "scan_k d \<le> 64"
  by (simp add: scan_k_def)

text \<open>From an interval the cursor goes to the start of the next one, or back to zero.\<close>

lemma next_interval_gen:
  fixes r K z p :: nat
  assumes "r < z * K" "0 < K" "p = (r div K + 1) * K mod (z * K)"
  shows "p = 0 \<longrightarrow> (\<forall>x. r \<le> x \<and> x < z * K \<longrightarrow> x div K = r div K)"
    "p \<noteq> 0 \<longrightarrow> r < p \<and> (\<forall>x. r \<le> x \<and> x < p \<longrightarrow> x div K = r div K)"
proof -
  have q: "r div K < z"
    using assms(1) by (rule less_mult_imp_div_less)
  have r: "r < (r div K + 1) * K"
    using dividend_less_div_times [OF assms(2), of r] by simp
  have same: "x div K = r div K" if "r \<le> x" "x < (r div K + 1) * K" for x
    using div_le_mono [OF that(1), of K] less_mult_imp_div_less [OF that(2)] by simp
  have "(p = 0 \<longrightarrow> (\<forall>x. r \<le> x \<and> x < z * K \<longrightarrow> x div K = r div K)) \<and>
    (p \<noteq> 0 \<longrightarrow> r < p \<and> (\<forall>x. r \<le> x \<and> x < p \<longrightarrow> x div K = r div K))"
  proof (cases "r div K + 1 = z")
    case True
    then have "p = 0"
      unfolding assms(3) by simp
    with same show ?thesis
      unfolding True by blast
  next
    case False
    then have "r div K + 1 < z"
      using q by simp
    then have "(r div K + 1) * K < z * K"
      using assms(2) by (rule mult_strict_right_mono)
    then have "p = (r div K + 1) * K"
      unfolding assms(3) by (rule mod_less)
    moreover have "(r div K + 1) * K \<noteq> 0"
      using assms(2) by simp
    ultimately show ?thesis
      using r same by metis
  qed
  then show "p = 0 \<longrightarrow> (\<forall>x. r \<le> x \<and> x < z * K \<longrightarrow> x div K = r div K)"
    "p \<noteq> 0 \<longrightarrow> r < p \<and> (\<forall>x. r \<le> x \<and> x < p \<longrightarrow> x div K = r div K)"
    by blast+
qed

lemma pow64_split: "k \<le> 64 \<Longrightarrow> (2 :: nat) ^ 64 = 2 ^ (64 - k) * 2 ^ k"
  by (simp only: power_add [symmetric] le_add_diff_inverse2)

lemma next_interval:
  assumes "r < 2 ^ 64" "k \<le> 64" "p = (r div 2 ^ k + 1) * 2 ^ k mod (2 ^ 64 :: nat)"
  shows "p = 0 \<Longrightarrow> r \<le> x \<Longrightarrow> x < 2 ^ 64 \<Longrightarrow> x div 2 ^ k = r div 2 ^ k"
    "p \<noteq> 0 \<Longrightarrow> r \<le> x \<Longrightarrow> x < p \<Longrightarrow> x div 2 ^ k = r div 2 ^ k"
proof -
  have pos: "0 < (2 :: nat) ^ k"
    by simp
  note gen = next_interval_gen [OF assms(1) [unfolded pow64_split [OF assms(2)]] pos
    assms(3) [unfolded pow64_split [OF assms(2)]]]
  show "p = 0 \<Longrightarrow> r \<le> x \<Longrightarrow> x < 2 ^ 64 \<Longrightarrow> x div 2 ^ k = r div 2 ^ k"
    using gen(1) unfolding pow64_split [OF assms(2)] by blast
  show "p \<noteq> 0 \<Longrightarrow> r \<le> x \<Longrightarrow> x < p \<Longrightarrow> x div 2 ^ k = r div 2 ^ k"
    using gen(2) by blast
qed

lemma scan_run_covers:
  assumes "\<forall>d\<in>set ds. dict_ok d \<and> type_of d = T \<and> (\<exists>x\<in>#dict_entries d. keys_match T k (dictGetKey x))"
  shows "\<exists>v' es. scan_run ds v = Some (v', es) \<and>
     (rpos v \<le> rpos (hashFunction T k) \<and> v' = 0 \<and> (ds \<noteq> [] \<or> v \<noteq> 0) \<longrightarrow>
        (\<exists>x\<in>set es. keys_match T k (dictGetKey x)))"
  using assms
proof (induction ds arbitrary: v)
  case Nil
  then show ?case
    by simp
next
  case (Cons d ds)
  let ?r = "rpos (hashFunction T k)"
  obtain x where x: "x \<in># dict_entries d" "keys_match T k (dictGetKey x)" and d: "dict_ok d" "type_of d = T"
    using Cons.prems by auto
  have T: "type_ok T"
    using d by (simp add: dict_ok_def)
  have ex: "epos T x = ?r"
    using type_okD(2) [OF T x(2)] by (simp add: epos_def)
  have "dictSize d \<noteq> 0"
    using dict_ok_empty [OF d(1)] x(1) unfolding contents_entries by fastforce
  from dictScan_step [OF d(1) this, of v] obtain v1 es1 where v1: "dictScan d v = Some (v1, es1, d)"
    "rpos v1 = (rpos v div 2 ^ scan_k d + 1) * 2 ^ scan_k d mod 2 ^ 64" "scan_covers d v (mset es1)"
    by blast
  obtain v' es where es: "scan_run ds v1 = Some (v', es)"
    "rpos v1 \<le> ?r \<and> v' = 0 \<and> (ds \<noteq> [] \<or> v1 \<noteq> 0) \<longrightarrow> (\<exists>x\<in>set es. keys_match T k (dictGetKey x))"
    using Cons.IH [of v1] Cons.prems by auto
  note nxt = next_interval [OF rpos_less scan_k_le v1(2), of "?r"]
  have "\<exists>x\<in>set (es1 @ es). keys_match T k (dictGetKey x)" if "rpos v \<le> ?r" "v' = 0"
  proof (cases "rpos v1 = 0 \<or> ?r < rpos v1")
    case True
    then have "?r div 2 ^ scan_k d = rpos v div 2 ^ scan_k d"
      using nxt that(1) rpos_less [of "hashFunction T k"] by blast
    then have "x \<in> set es1"
      using v1(3) x(1) that(1) unfolding scan_covers_def d(2) ex [symmetric] by auto
    with x(2) show ?thesis
      by auto
  next
    case False
    then have "v1 \<noteq> 0" "rpos v1 \<le> ?r"
      by (simp_all add: rpos_zero)
    with es(2) that(2) show ?thesis
      by auto
  qed
  with v1(1) es(1) show ?case
    by auto
qed

lemma scan_run_append:
  "scan_run (ds @ ds') v = do {
     (v, es) \<leftarrow> scan_run ds v;
     (v, es') \<leftarrow> scan_run ds' v;
     Some (v, es @ es')
   }"
  by (induction ds arbitrary: v) (auto split: bind_splits)

lemma interval_cursor:
  fixes K z j :: nat
  assumes "0 < K" "j < z" "r = j * K mod (z * K)"
  shows "r = j * K" "r div K = j" "r mod K = 0"
proof -
  have "j * K < z * K"
    using assms(2,1) by (rule mult_strict_right_mono)
  then show r: "r = j * K"
    unfolding assms(3) by (rule mod_less)
  show "r div K = j" "r mod K = 0"
    unfolding r using assms(1) by simp_all
qed

lemma filter_interval_Suc:
  "filter_mset (\<lambda>x. f x < Suc j) M = filter_mset (\<lambda>x. f x < j) M + filter_mset (\<lambda>x. f x = j) M"
  by (induction M) auto

lemma scan_repeat:
  assumes "dict_ok d" "dictSize d \<noteq> 0" "j \<le> 2 ^ (64 - scan_k d)"
  shows "\<exists>v es. scan_run (replicate j d) 0 = Some (v, es) \<and>
     rpos v = j * 2 ^ scan_k d mod 2 ^ 64 \<and>
     mset es = filter_mset (\<lambda>x. epos (type_of d) x div 2 ^ scan_k d < j) (dict_entries d)"
  using assms(3)
proof (induction j)
  case 0
  have "rpos 0 = 0"
    by (simp add: rpos_zero)
  then show ?case
    by (simp add: filter_mset_none)
next
  case (Suc j)
  then have j: "j < 2 ^ (64 - scan_k d)" and j': "j \<le> 2 ^ (64 - scan_k d)"
    by linarith+
  from Suc.IH [OF j'] obtain v es where v: "scan_run (replicate j d) 0 = Some (v, es)"
    "rpos v = j * 2 ^ scan_k d mod 2 ^ 64"
    "mset es = filter_mset (\<lambda>x. epos (type_of d) x div 2 ^ scan_k d < j) (dict_entries d)"
    by blast
  have pos: "0 < (2 :: nat) ^ scan_k d"
    by simp
  note r = interval_cursor [OF pos j v(2) [unfolded pow64_split [OF scan_k_le [of d]]]]
  obtain v' es' where v': "dictScan d v = Some (v', es', d)"
    "rpos v' = (rpos v div 2 ^ scan_k d + 1) * 2 ^ scan_k d mod 2 ^ 64" "scan_covers d v (mset es')"
    using dictScan_step [OF assms(1,2), of v] by blast
  have "mset es' = filter_mset (\<lambda>x. epos (type_of d) x div 2 ^ scan_k d = j) (dict_entries d)"
    using v'(3) r(2,3) unfolding scan_covers_def by simp
  then have "mset (es @ es') = filter_mset (\<lambda>x. epos (type_of d) x div 2 ^ scan_k d < Suc j) (dict_entries d)"
    unfolding filter_interval_Suc mset_append v(3) by simp
  moreover have "rpos v' = Suc j * 2 ^ scan_k d mod 2 ^ 64"
    using v'(2) unfolding r(2) Suc_eq_plus1 .
  moreover have "scan_run (replicate (Suc j) d) 0 = Some (v', es @ es')"
    unfolding replicate_Suc replicate_append_same [symmetric] scan_run_append v(1) using v'(1) by simp
  ultimately show ?case
    by blast
qed

lemma epos_bound: "epos T x div 2 ^ scan_k d < 2 ^ (64 - scan_k d)"
proof (rule less_mult_imp_div_less)
  show "epos T x < 2 ^ (64 - scan_k d) * 2 ^ scan_k d"
    unfolding epos_def pow64_split [OF scan_k_le, symmetric] by (rule rpos_less)
qed

lemma scan_size:
  assumes "dict_ok d" "dictSize d \<noteq> 0"
  shows "64 - scan_k d = nat (if dictIsRehashing d then min (ht_size_exp (ht d 0)) (ht_size_exp (ht d 1)) else ht_size_exp (ht d 0))"
proof (cases "dictIsRehashing d")
  case True
  note ok = dict_ok_rehashing(2,3) [OF assms(1) True]
  then have "ht_size_exp (ht d 0) \<le> 64" "ht_size_exp (ht d 1) \<le> 64"
    by (simp_all add: ht_ok_def)
  then show ?thesis
    using True by (simp add: scan_k_def)
next
  case False
  have "ht_size_exp (ht d 0) \<le> 64"
    using dict_ok_nonempty [OF assms] by (simp add: ht_ok_def)
  then show ?thesis
    using False by (simp add: scan_k_def)
qed

text \<open>Bit reversal. The six exchange steps of \<open>rev\<close> put bit \<open>63 - i\<close> of the cursor at position
  \<open>i\<close>, for each of the 64 positions, so reversing twice gives the cursor back.\<close>

theorem rev_bits_reverses: "bit (rev_bits v) i = (i < 64 \<and> bit v (63 - i)) \<and> rev_bits (rev_bits v) = v"
  by (simp add: bit_rev_bits)

text \<open>C10: The guarantee of \<open>dictScan\<close>. Take any sequence of states of a dictionary, one for each call, between
  which it may have grown, shrunk, begun, advanced or ended a rehashing, and lost or gained
  other keys. Every call of the scan succeeds, and if the scan ends, that is if the last cursor is
  0 again, then a key that was present in every one of these states was passed to the callback.\<close>

theorem dictScan_complete:
  assumes "ds \<noteq> []"
    and "\<forall>d\<in>set ds. dict_ok d \<and> type_of d = T \<and> (\<exists>kv\<in>#contents d. keys_match T k (fst kv))"
  shows "\<exists>v es. scan_run ds 0 = Some (v, es) \<and>
     (v = 0 \<longrightarrow> (\<exists>x\<in>set es. keys_match T k (dictGetKey x)))"
proof -
  have "\<forall>d\<in>set ds. dict_ok d \<and> type_of d = T \<and> (\<exists>x\<in>#dict_entries d. keys_match T k (dictGetKey x))"
    using assms(2) unfolding contents_entries by (force simp: entry_kv_def)
  from scan_run_covers [OF this, of 0] obtain v es where v: "scan_run ds 0 = Some (v, es)"
    "rpos 0 \<le> rpos (hashFunction T k) \<and> v = 0 \<and> (ds \<noteq> [] \<or> (0 :: uint64) \<noteq> 0) \<longrightarrow>
        (\<exists>x\<in>set es. keys_match T k (dictGetKey x))"
    by blast
  have "rpos 0 = 0"
    by (simp add: rpos_zero)
  with v assms(1) show ?thesis
    by simp
qed

theorem dictScan_complete_witness:
  "\<exists>v es. scan_run [sample_dict, sample_dict] 0 = Some (v, es) \<and>
     (v = 0 \<longrightarrow> (\<exists>x\<in>set es. keys_match sample_type 13 (dictGetKey x)))"
proof (rule dictScan_complete)
  show "\<forall>d\<in>set [sample_dict, sample_dict]. dict_ok d \<and> type_of d = sample_type \<and>
      (\<exists>kv\<in>#contents d. keys_match sample_type 13 (fst kv))"
    using sample_dict_ok by (simp add: sample_dict_contents sample_match) (simp add: sample_dict_def)
qed simp

text \<open>C20: A scan ends. On a dictionary that does not change, also one in the middle of a rehashing, the
  cursor is 0 again for the first time after as many calls as the smaller of its tables has
  buckets, and by then every entry was passed to the callback exactly once.\<close>

theorem dictScan_ends:
  assumes "dict_ok d" "dictSize d \<noteq> 0"
    and "n = 2 ^ nat (if dictIsRehashing d then min (ht_size_exp (ht d 0)) (ht_size_exp (ht d 1)) else ht_size_exp (ht d 0))"
  shows "(\<exists>es. scan_run (replicate n d) 0 = Some (0, es) \<and> image_mset entry_kv (mset es) = contents d) \<and>
     (\<forall>j\<in>{0<..<n}. \<exists>v es. scan_run (replicate j d) 0 = Some (v, es) \<and> v \<noteq> 0)"
proof -
  let ?z = "2 ^ (64 - scan_k d) :: nat" and ?K = "2 ^ scan_k d :: nat"
  have n: "n = ?z"
    by (simp only: assms(3) scan_size [OF assms(1,2)])
  note pw = pow64_split [OF scan_k_le [of d]]
  obtain v es where v: "scan_run (replicate ?z d) 0 = Some (v, es)" "rpos v = ?z * ?K mod 2 ^ 64"
    "mset es = filter_mset (\<lambda>x. epos (type_of d) x div ?K < ?z) (dict_entries d)"
    using scan_repeat [OF assms(1,2) order_refl] by blast
  have "v = 0"
    using v(2) unfolding pw mod_self rpos_zero .
  moreover have "mset es = dict_entries d"
    unfolding v(3) by (intro filter_mset_all ballI epos_bound)
  ultimately have "\<exists>es. scan_run (replicate n d) 0 = Some (0, es) \<and> image_mset entry_kv (mset es) = contents d"
    using v(1) by (intro exI [of _ es]) (simp only: n contents_entries simp_thms)
  moreover have "\<exists>v es. scan_run (replicate j d) 0 = Some (v, es) \<and> v \<noteq> 0" if j: "j \<in> {0<..<n}" for j
  proof -
    have jz: "j < ?z" "0 < j"
      using j unfolding n greaterThanLessThan_iff by blast+
    obtain v es where v: "scan_run (replicate j d) 0 = Some (v, es)" "rpos v = j * ?K mod 2 ^ 64"
      using scan_repeat [OF assms(1,2) less_imp_le [OF jz(1)]] by blast
    have pos: "0 < ?K"
      by simp
    have "rpos v = j * ?K"
      using interval_cursor(1) [OF pos jz(1) v(2) [unfolded pw]] .
    then have "rpos v \<noteq> 0"
      using jz(2) by simp
    then have "v \<noteq> 0"
      by (simp only: rpos_zero not_False_eq_True)
    with v(1) show ?thesis
      by blast
  qed
  ultimately show ?thesis
    by blast
qed

theorem dictScan_ends_witness:
  "(\<exists>es. scan_run (replicate 4 sample_dict) 0 = Some (0, es) \<and>
      image_mset entry_kv (mset es) = {#(1, Some 10), (3, Some 30), (4, Some 40)#}) \<and>
     (\<exists>v es. scan_run (replicate 3 sample_dict) 0 = Some (v, es) \<and> v \<noteq> 0)"
proof -
  have s: "dictSize sample_dict \<noteq> 0"
    using dict_ok_empty [OF sample_dict_ok] by (auto simp: sample_dict_contents)
  have "(4 :: nat) = 2 ^ nat (if dictIsRehashing sample_dict then min (ht_size_exp (ht sample_dict 0)) (ht_size_exp (ht sample_dict 1)) else ht_size_exp (ht sample_dict 0))"
    by (simp add: sample_dict_def dictIsRehashing_def ht_def)
  note ends = dictScan_ends [OF sample_dict_ok s this, unfolded sample_dict_contents]
  have "(3 :: nat) \<in> {0<..<4}"
    by simp
  with ends show ?thesis
    by blast
qed

end
