(* ===== verification/Stepwise.thy ===== *)
theory Stepwise
  imports Redis_Prelude
begin

text \<open>
  Refinement of a stateful component by a pure one, step by step. A component that simulates each
  operation of its specification, up to a bound on the weight of the specification's state and the cost of the operation,
  simulates every sequence of operations that stays below the bound. The concrete step is a
  partial function whose \<open>None\<close> is a fault.
\<close>

primrec concrete_run :: "('s \<Rightarrow> 'o \<Rightarrow> ('s \<times> 'r) option) \<Rightarrow> 's \<Rightarrow> 'o list \<Rightarrow> ('s \<times> 'r list) option" where
  "concrete_run f s [] = Some (s, [])"
| "concrete_run f s (p # ps) = do {
     (s, r) \<leftarrow> f s p;
     (s, rs) \<leftarrow> concrete_run f s ps;
     Some (s, r # rs)
   }"

primrec abstract_run :: "('a \<Rightarrow> 'o \<Rightarrow> 'a \<times> 'r) \<Rightarrow> 'a \<Rightarrow> 'o list \<Rightarrow> 'a \<times> 'r list" where
  "abstract_run g a [] = (a, [])"
| "abstract_run g a (p # ps) =
     (let (a, r) = g a p; (a, rs) = abstract_run g a ps in (a, r # rs))"

locale stepwise_refinement =
  fixes inv :: "'s \<Rightarrow> 'a \<Rightarrow> bool"
    and weight :: "'a \<Rightarrow> nat"
    and cost :: "'o \<Rightarrow> nat"
    and limit :: nat
    and ok :: "'o \<Rightarrow> bool"
    and cstep :: "'s \<Rightarrow> 'o \<Rightarrow> ('s \<times> 'r) option"
    and astep :: "'a \<Rightarrow> 'o \<Rightarrow> 'a \<times> 'r"
  assumes step: "inv s a \<Longrightarrow> ok p \<Longrightarrow> weight a + cost p \<le> limit \<Longrightarrow>
      \<exists>s'. cstep s p = Some (s', snd (astep a p)) \<and> inv s' (fst (astep a p))"
    and growth: "inv s a \<Longrightarrow> ok p \<Longrightarrow> weight (fst (astep a p)) \<le> weight a + cost p"
begin

lemma run_refines:
  assumes "inv s a" "\<forall>p\<in>set ps. ok p" "weight a + sum_list (map cost ps) \<le> limit"
  shows "\<exists>s'. concrete_run cstep s ps = Some (s', snd (abstract_run astep a ps)) \<and>
    inv s' (fst (abstract_run astep a ps))"
  using assms
proof (induction ps arbitrary: s a)
  case (Cons p ps)
  obtain s1 where s1: "cstep s p = Some (s1, snd (astep a p))" "inv s1 (fst (astep a p))"
    using step [OF Cons.prems(1), of p] Cons.prems(2,3) by auto
  have "weight (fst (astep a p)) + sum_list (map cost ps) \<le> limit"
    using growth [OF Cons.prems(1), of p] Cons.prems(2,3) by auto
  from Cons.IH [OF s1(2) _ this] Cons.prems(2) s1(1) show ?case
    by (auto simp: case_prod_beta Let_def)
qed simp

end

end
