(* ===== verification/Adlist.thy ===== *)
theory Adlist
  imports Stepwise "HOL-Library.Multiset"
begin

text \<open>
  The doubly linked lists of \<^verbatim>\<open>adlist.c\<close>. Nodes live in an explicit heap, a map from addresses to nodes, so
  that every update of a link is an update of the heap and reading a node that was freed is a
  fault, \<open>None\<close>. \<open>list_rep\<close> relates a heap and a list header to the sequence of the nodes' addresses.
  The allocator is a parameter: given the heap, it returns the address of the new node or \<open>None\<close> for
  \<^verbatim>\<open>NULL\<close>. The values passed to the \<^verbatim>\<open>free\<close> method are logged in the heap in their order.
\<close>

section \<open>Data\<close>

type_synonym addr = nat

record 'v listNode =
  nprev :: "addr option"
  nnext :: "addr option"
  nvalue :: 'v

record listIter =
  iter_next :: "addr option"
  direction :: int

record 'v adlist =
  lhead :: "addr option"
  ltail :: "addr option"
  ldup :: "('v \<Rightarrow> 'v option) option"
  lfree :: bool
  lmatch :: "('v \<Rightarrow> 'v \<Rightarrow> bool) option"
  llen :: uint64

record 'v heap =
  mem :: "addr \<rightharpoonup> 'v listNode"
  freed :: "'v list"

definition AL_START_HEAD :: int where "AL_START_HEAD = 0"

definition AL_START_TAIL :: int where "AL_START_TAIL = 1"

definition set_prev :: "'v heap \<Rightarrow> addr \<Rightarrow> addr option \<Rightarrow> 'v heap option" where
  "set_prev h a p = do { n \<leftarrow> mem h a; Some (h\<lparr>mem := (mem h)(a \<mapsto> n\<lparr>nprev := p\<rparr>)\<rparr>) }"

definition set_next :: "'v heap \<Rightarrow> addr \<Rightarrow> addr option \<Rightarrow> 'v heap option" where
  "set_next h a p = do { n \<leftarrow> mem h a; Some (h\<lparr>mem := (mem h)(a \<mapsto> n\<lparr>nnext := p\<rparr>)\<rparr>) }"

text \<open>The node of a new allocation. Its links, which nothing has set yet in the code, start as \<open>NULL\<close>: the function that
  allocates it sets both of them before anything reads them.\<close>

definition new_node :: "'v heap \<Rightarrow> addr \<Rightarrow> 'v \<Rightarrow> 'v heap" where
  "new_node h a v = h\<lparr>mem := (mem h)(a \<mapsto> \<lparr>nprev = None, nnext = None, nvalue = v\<rparr>)\<rparr>"

definition zfree_node :: "'v heap \<Rightarrow> addr \<Rightarrow> 'v heap option" where
  "zfree_node h a = do { _ \<leftarrow> mem h a; Some (h\<lparr>mem := (mem h)(a := None)\<rparr>) }"

definition call_free :: "'v adlist \<Rightarrow> 'v \<Rightarrow> 'v heap \<Rightarrow> 'v heap" where
  "call_free l v h = (if lfree l then h\<lparr>freed := freed h @ [v]\<rparr> else h)"

section \<open>Operations\<close>

definition listCreate :: "'v adlist" where
  "listCreate = \<lparr>lhead = None, ltail = None, ldup = None, lfree = False, lmatch = None, llen = 0\<rparr>"

primrec listEmpty_loop :: "'v adlist \<Rightarrow> nat \<Rightarrow> 'v heap \<Rightarrow> addr option \<Rightarrow> 'v heap option" where
  "listEmpty_loop l 0 h current = Some h"
| "listEmpty_loop l (Suc n) h current = do {
     a \<leftarrow> current;
     nd \<leftarrow> mem h a;
     h \<leftarrow> zfree_node (call_free l (nvalue nd) h) a;
     listEmpty_loop l n h (nnext nd)
   }"

definition listEmpty :: "'v heap \<Rightarrow> 'v adlist \<Rightarrow> ('v heap \<times> 'v adlist) option" where
  "listEmpty h l = do {
     h \<leftarrow> listEmpty_loop l (unat (llen l)) h (lhead l);
     Some (h, l\<lparr>lhead := None, ltail := None, llen := 0\<rparr>)
   }"


definition listLinkNodeHead :: "'v heap \<Rightarrow> 'v adlist \<Rightarrow> addr \<Rightarrow> ('v heap \<times> 'v adlist) option" where
  "listLinkNodeHead h l node = do {
     (h, l) \<leftarrow>
       (if llen l = 0 then do {
          h \<leftarrow> set_next h node None;
          h \<leftarrow> set_prev h node None;
          Some (h, l\<lparr>lhead := Some node, ltail := Some node\<rparr>)
        } else do {
          h \<leftarrow> set_prev h node None;
          h \<leftarrow> set_next h node (lhead l);
          first \<leftarrow> lhead l;
          h \<leftarrow> set_prev h first (Some node);
          Some (h, l\<lparr>lhead := Some node\<rparr>)
        });
     Some (h, l\<lparr>llen := llen l + 1\<rparr>)
   }"

definition listLinkNodeTail :: "'v heap \<Rightarrow> 'v adlist \<Rightarrow> addr \<Rightarrow> ('v heap \<times> 'v adlist) option" where
  "listLinkNodeTail h l node = do {
     (h, l) \<leftarrow>
       (if llen l = 0 then do {
          h \<leftarrow> set_next h node None;
          h \<leftarrow> set_prev h node None;
          Some (h, l\<lparr>lhead := Some node, ltail := Some node\<rparr>)
        } else do {
          h \<leftarrow> set_prev h node (ltail l);
          h \<leftarrow> set_next h node None;
          last \<leftarrow> ltail l;
          h \<leftarrow> set_next h last (Some node);
          Some (h, l\<lparr>ltail := Some node\<rparr>)
        });
     Some (h, l\<lparr>llen := llen l + 1\<rparr>)
   }"

text \<open>The additions also return whether the returned list is not \<^verbatim>\<open>NULL\<close>.\<close>

definition listAddNodeHead ::
  "('v heap \<Rightarrow> addr option) \<Rightarrow> 'v heap \<Rightarrow> 'v adlist \<Rightarrow> 'v \<Rightarrow> ('v heap \<times> 'v adlist \<times> bool) option" where
  "listAddNodeHead zmalloc h l v =
     (case zmalloc h of
        None \<Rightarrow> Some (h, l, False)
      | Some node \<Rightarrow> do {
          (h, l) \<leftarrow> listLinkNodeHead (new_node h node v) l node;
          Some (h, l, True)
        })"

definition listAddNodeTail ::
  "('v heap \<Rightarrow> addr option) \<Rightarrow> 'v heap \<Rightarrow> 'v adlist \<Rightarrow> 'v \<Rightarrow> ('v heap \<times> 'v adlist \<times> bool) option" where
  "listAddNodeTail zmalloc h l v =
     (case zmalloc h of
        None \<Rightarrow> Some (h, l, False)
      | Some node \<Rightarrow> do {
          (h, l) \<leftarrow> listLinkNodeTail (new_node h node v) l node;
          Some (h, l, True)
        })"

definition listInsertNode ::
  "('v heap \<Rightarrow> addr option) \<Rightarrow> 'v heap \<Rightarrow> 'v adlist \<Rightarrow> addr \<Rightarrow> 'v \<Rightarrow> bool \<Rightarrow> ('v heap \<times> 'v adlist \<times> bool) option" where
  "listInsertNode zmalloc h l old_node v after =
     (case zmalloc h of
        None \<Rightarrow> Some (h, l, False)
      | Some node \<Rightarrow> do {
          let h = new_node h node v;
          old \<leftarrow> mem h old_node;
          (h, l) \<leftarrow>
            (if after then do {
               h \<leftarrow> set_prev h node (Some old_node);
               h \<leftarrow> set_next h node (nnext old);
               Some (h, if ltail l = Some old_node then l\<lparr>ltail := Some node\<rparr> else l)
             } else do {
               h \<leftarrow> set_next h node (Some old_node);
               h \<leftarrow> set_prev h node (nprev old);
               Some (h, if lhead l = Some old_node then l\<lparr>lhead := Some node\<rparr> else l)
             });
          nd \<leftarrow> mem h node;
          h \<leftarrow> (case nprev nd of None \<Rightarrow> Some h | Some p \<Rightarrow> set_next h p (Some node));
          nd \<leftarrow> mem h node;
          h \<leftarrow> (case nnext nd of None \<Rightarrow> Some h | Some s \<Rightarrow> set_prev h s (Some node));
          Some (h, l\<lparr>llen := llen l + 1\<rparr>, True)
        })"

definition listUnlinkNode :: "'v heap \<Rightarrow> 'v adlist \<Rightarrow> addr \<Rightarrow> ('v heap \<times> 'v adlist) option" where
  "listUnlinkNode h l node = do {
     nd \<leftarrow> mem h node;
     (h, l) \<leftarrow> (case nprev nd of
                 Some p \<Rightarrow> do { h \<leftarrow> set_next h p (nnext nd); Some (h, l) }
               | None \<Rightarrow> Some (h, l\<lparr>lhead := nnext nd\<rparr>));
     nd \<leftarrow> mem h node;
     (h, l) \<leftarrow> (case nnext nd of
                 Some s \<Rightarrow> do { h \<leftarrow> set_prev h s (nprev nd); Some (h, l) }
               | None \<Rightarrow> Some (h, l\<lparr>ltail := nprev nd\<rparr>));
     h \<leftarrow> set_next h node None;
     h \<leftarrow> set_prev h node None;
     Some (h, l\<lparr>llen := llen l - 1\<rparr>)
   }"

definition listDelNode :: "'v heap \<Rightarrow> 'v adlist \<Rightarrow> addr \<Rightarrow> ('v heap \<times> 'v adlist) option" where
  "listDelNode h l node = do {
     (h, l) \<leftarrow> listUnlinkNode h l node;
     nd \<leftarrow> mem h node;
     h \<leftarrow> zfree_node (call_free l (nvalue nd) h) node;
     Some (h, l)
   }"

definition listGetIterator :: "'v adlist \<Rightarrow> int \<Rightarrow> listIter" where
  "listGetIterator l dir =
     \<lparr>iter_next = (if dir = AL_START_HEAD then lhead l else ltail l), direction = dir\<rparr>"

definition listRewind :: "'v adlist \<Rightarrow> listIter" where
  "listRewind l = \<lparr>iter_next = lhead l, direction = AL_START_HEAD\<rparr>"

definition listRewindTail :: "'v adlist \<Rightarrow> listIter" where
  "listRewindTail l = \<lparr>iter_next = ltail l, direction = AL_START_TAIL\<rparr>"

definition listNext :: "'v heap \<Rightarrow> listIter \<Rightarrow> (addr option \<times> listIter) option" where
  "listNext h iter =
     (case iter_next iter of
        None \<Rightarrow> Some (None, iter)
      | Some current \<Rightarrow> do {
          nd \<leftarrow> mem h current;
          Some (Some current,
                iter\<lparr>iter_next := (if direction iter = AL_START_HEAD then nnext nd else nprev nd)\<rparr>)
        })"



definition node_matches :: "'v adlist \<Rightarrow> 'v \<Rightarrow> 'v \<Rightarrow> bool" where
  "node_matches l v key = (case lmatch l of Some match \<Rightarrow> match v key | None \<Rightarrow> key = v)"

partial_function (option) listSearchKey_loop ::
  "'v heap \<Rightarrow> 'v adlist \<Rightarrow> listIter \<Rightarrow> 'v \<Rightarrow> addr option option" where
  "listSearchKey_loop h l iter key =
     Option.bind (listNext h iter) (\<lambda>(node, iter).
       case node of
         None \<Rightarrow> Some None
       | Some a \<Rightarrow> Option.bind (mem h a) (\<lambda>nd.
           if node_matches l (nvalue nd) key then Some (Some a)
           else listSearchKey_loop h l iter key))"

definition listSearchKey :: "'v heap \<Rightarrow> 'v adlist \<Rightarrow> 'v \<Rightarrow> addr option option" where
  "listSearchKey h l key = listSearchKey_loop h l (listRewind l) key"

fun listIndex_loop :: "('v listNode \<Rightarrow> addr option) \<Rightarrow> 'v heap \<Rightarrow> nat \<Rightarrow> addr option \<Rightarrow> addr option option" where
  "listIndex_loop link h 0 n = Some n"
| "listIndex_loop link h (Suc i) None = Some None"
| "listIndex_loop link h (Suc i) (Some a) = do { nd \<leftarrow> mem h a; listIndex_loop link h i (link nd) }"

text \<open>Negating the least \<^verbatim>\<open>long\<close> overflows, which C leaves undefined: a fault.\<close>

definition listIndex :: "'v heap \<Rightarrow> 'v adlist \<Rightarrow> int \<Rightarrow> addr option option" where
  "listIndex h l index =
     (if index = - (2 ^ 63) then None
      else if index < 0 then listIndex_loop nprev h (nat (- index - 1)) (ltail l)
      else listIndex_loop nnext h (nat index) (lhead l))"

definition listRotateTailToHead :: "'v heap \<Rightarrow> 'v adlist \<Rightarrow> ('v heap \<times> 'v adlist) option" where
  "listRotateTailToHead h l =
     (if llen l \<le> 1 then Some (h, l)
      else do {
        tail \<leftarrow> ltail l;
        nd \<leftarrow> mem h tail;
        let l = l\<lparr>ltail := nprev nd\<rparr>;
        t \<leftarrow> ltail l;
        h \<leftarrow> set_next h t None;
        hd \<leftarrow> lhead l;
        h \<leftarrow> set_prev h hd (Some tail);
        h \<leftarrow> set_prev h tail None;
        h \<leftarrow> set_next h tail (lhead l);
        Some (h, l\<lparr>lhead := Some tail\<rparr>)
      })"

definition listRotateHeadToTail :: "'v heap \<Rightarrow> 'v adlist \<Rightarrow> ('v heap \<times> 'v adlist) option" where
  "listRotateHeadToTail h l =
     (if llen l \<le> 1 then Some (h, l)
      else do {
        head \<leftarrow> lhead l;
        nd \<leftarrow> mem h head;
        let l = l\<lparr>lhead := nnext nd\<rparr>;
        hd \<leftarrow> lhead l;
        h \<leftarrow> set_prev h hd None;
        t \<leftarrow> ltail l;
        h \<leftarrow> set_next h t (Some head);
        h \<leftarrow> set_next h head None;
        h \<leftarrow> set_prev h head (ltail l);
        Some (h, l\<lparr>ltail := Some head\<rparr>)
      })"

text \<open>Two lists with different headers.\<close>

definition listJoin :: "'v heap \<Rightarrow> 'v adlist \<Rightarrow> 'v adlist \<Rightarrow> ('v heap \<times> 'v adlist \<times> 'v adlist) option" where
  "listJoin h l o' =
     (if llen o' = 0 then Some (h, l, o')
      else do {
        first \<leftarrow> lhead o';
        h \<leftarrow> set_prev h first (ltail l);
        (h, l) \<leftarrow> (case ltail l of
                    Some t \<Rightarrow> do { h \<leftarrow> set_next h t (lhead o'); Some (h, l) }
                  | None \<Rightarrow> Some (h, l\<lparr>lhead := lhead o'\<rparr>));
        let l = l\<lparr>ltail := ltail o', llen := llen l + llen o'\<rparr>;
        Some (h, l, o'\<lparr>lhead := None, ltail := None, llen := 0\<rparr>)
      })"

definition listInitNode :: "'v heap \<Rightarrow> addr \<Rightarrow> 'v \<Rightarrow> 'v heap option" where
  "listInitNode h node v = do {
     h \<leftarrow> set_prev h node None;
     h \<leftarrow> set_next h node None;
     nd \<leftarrow> mem h node;
     Some (h\<lparr>mem := (mem h)(node \<mapsto> nd\<lparr>nvalue := v\<rparr>)\<rparr>)
   }"

section \<open>Representation\<close>

definition first_or :: "addr list \<Rightarrow> addr option \<Rightarrow> addr option" where
  "first_or xs q = (case xs of [] \<Rightarrow> q | x # _ \<Rightarrow> Some x)"

definition last_or :: "addr list \<Rightarrow> addr option \<Rightarrow> addr option" where
  "last_or xs p = (if xs = [] then p else Some (last xs))"

lemma first_or_simps [simp]:
  "first_or [] q = q" "first_or (x # xs) q = Some x"
  "first_or (xs @ ys) q = first_or xs (first_or ys q)"
  by (simp_all add: first_or_def split: list.split)

lemma last_or_simps [simp]:
  "last_or [] p = p" "last_or (x # xs) p = last_or xs (Some x)"
  "last_or (xs @ ys) p = last_or ys (last_or xs p)"
  by (auto simp: last_or_def)

lemma ends_in:
  "first_or xs (Some x) = Some a \<Longrightarrow> a = x \<or> a \<in> set xs"
  "last_or xs (Some x) = Some a \<Longrightarrow> a = x \<or> a \<in> set xs"
  by (auto simp: first_or_def last_or_def split: list.splits if_splits)

text \<open>A segment of nodes between the addresses \<open>p\<close> and \<open>q\<close>.\<close>

primrec dll :: "(addr \<rightharpoonup> 'v listNode) \<Rightarrow> addr option \<Rightarrow> addr list \<Rightarrow> addr option \<Rightarrow> bool" where
  "dll m p [] q = True"
| "dll m p (x # xs) q =
     ((\<exists>n. m x = Some n \<and> nprev n = p \<and> nnext n = first_or xs q) \<and> dll m (Some x) xs q)"

definition list_rep :: "'v heap \<Rightarrow> 'v adlist \<Rightarrow> addr list \<Rightarrow> bool" where
  "list_rep h l xs \<longleftrightarrow> distinct xs \<and> dll (mem h) None xs None \<and> lhead l = first_or xs None \<and>
     ltail l = last_or xs None \<and> unat (llen l) = length xs"

definition node_value :: "'v heap \<Rightarrow> addr \<Rightarrow> 'v" where
  "node_value h a = nvalue (the (mem h a))"

definition list_values :: "'v heap \<Rightarrow> addr list \<Rightarrow> 'v list" where
  "list_values h xs = map (node_value h) xs"

lemma dll_append [simp]:
  "dll m p (xs @ ys) q \<longleftrightarrow> dll m p xs (first_or ys q) \<and> dll m (last_or xs p) ys q"
  by (induction xs arbitrary: p) auto

lemma dll_other [simp]: "x \<notin> set xs \<Longrightarrow> dll (m(x := n)) p xs q = dll m p xs q"
  by (induction xs arbitrary: p) auto

lemma dll_mem: "dll m p xs q \<Longrightarrow> x \<in> set xs \<Longrightarrow> m x \<noteq> None"
  by (induction xs arbitrary: p) auto


lemma node_value_simps [simp]:
  "mem h a = Some n \<Longrightarrow> node_value h a = nvalue n"
  by (simp add: node_value_def)

lemma list_values_simps [simp]:
  "list_values h [] = []" "list_values h (x # xs) = node_value h x # list_values h xs"
  "list_values h (xs @ ys) = list_values h xs @ list_values h ys"
  "length (list_values h xs) = length xs"
  by (simp_all add: list_values_def)

lemma list_values_cong:
  "(\<And>x. x \<in> set xs \<Longrightarrow> node_value h x = node_value h' x) \<Longrightarrow> list_values h xs = list_values h' xs"
  by (simp add: list_values_def)

text \<open>The two ends of a segment, the form in which the operations reach them.\<close>

lemma list_cases_ends:
  obtains "xs = []" | y ys where "xs = y # ys"
  by (cases xs) auto

lemma len_zero: "list_rep h l xs \<Longrightarrow> llen l = 0 \<longleftrightarrow> xs = []"
  by (auto simp: list_rep_def unat_eq_0 [symmetric])

lemma unat_inc: "unat (w :: uint64) < 2 ^ 64 - 1 \<Longrightarrow> unat (w + 1) = Suc (unat w)"
  by (subst unat_plus_if_size) (simp add: word_size)

lemma unat_dec: "unat (w :: uint64) = Suc n \<Longrightarrow> unat (w - 1) = n"
  by (subst unat_minus_one) (auto simp: unat_eq_0)

lemmas heap_ops = set_prev_def set_next_def new_node_def zfree_node_def call_free_def

section \<open>Insertion\<close>

lemma listLinkNodeHead_rep:
  assumes "list_rep h l xs" "mem h a = Some n" "a \<notin> set xs" "length xs < 2 ^ 64 - 1"
  shows "\<exists>h' l'. listLinkNodeHead h l a = Some (h', l') \<and> list_rep h' l' (a # xs) \<and>
    (\<forall>b. b \<notin> set (a # xs) \<longrightarrow> mem h' b = mem h b) \<and> (\<forall>b. node_value h' b = node_value h b) \<and>
    freed h' = freed h \<and> l' = l\<lparr>lhead := lhead l', ltail := ltail l', llen := llen l + 1\<rparr>"
proof (cases xs)
  case Nil
  then show ?thesis
    using assms len_zero [OF assms(1)] unat_inc [of "llen l"]
    by (auto simp: listLinkNodeHead_def heap_ops list_rep_def node_value_def)
next
  case (Cons y ys)
  then show ?thesis
    using assms len_zero [OF assms(1)] unat_inc [of "llen l"]
    by (auto simp: listLinkNodeHead_def heap_ops list_rep_def node_value_def)
qed

lemma listLinkNodeTail_rep:
  assumes "list_rep h l xs" "mem h a = Some n" "a \<notin> set xs" "length xs < 2 ^ 64 - 1"
  shows "\<exists>h' l'. listLinkNodeTail h l a = Some (h', l') \<and> list_rep h' l' (xs @ [a]) \<and>
    (\<forall>b. b \<notin> set (a # xs) \<longrightarrow> mem h' b = mem h b) \<and> (\<forall>b. node_value h' b = node_value h b) \<and>
    freed h' = freed h \<and> l' = l\<lparr>lhead := lhead l', ltail := ltail l', llen := llen l + 1\<rparr>"
proof (cases xs rule: rev_cases)
  case Nil
  then show ?thesis
    using assms len_zero [OF assms(1)] unat_inc [of "llen l"]
    by (auto simp: listLinkNodeTail_def heap_ops list_rep_def node_value_def)
next
  case (snoc ys y)
  then show ?thesis
    using assms len_zero [OF assms(1)] unat_inc [of "llen l"]
    by (auto simp: listLinkNodeTail_def heap_ops list_rep_def node_value_def)
qed

text \<open>A node in the middle of a list: its neighbours are the ends of the two parts.\<close>

lemma listUnlinkNode_rep:
  assumes "list_rep h l (xs @ a # ys)"
  shows "\<exists>h' l'. listUnlinkNode h l a = Some (h', l') \<and> list_rep h' l' (xs @ ys) \<and>
    (\<forall>b. b \<notin> set (xs @ a # ys) \<longrightarrow> mem h' b = mem h b) \<and> (\<forall>b. node_value h' b = node_value h b) \<and>
    freed h' = freed h \<and> l' = l\<lparr>lhead := lhead l', ltail := ltail l', llen := llen l - 1\<rparr> \<and>
    (\<exists>n. mem h' a = Some n \<and> nprev n = None \<and> nnext n = None)"
  using assms unat_dec [of "llen l" "length (xs @ ys)"]
  by (cases xs rule: rev_cases; cases ys)
    (auto simp: listUnlinkNode_def heap_ops list_rep_def node_value_def)

lemma listInsertNode_rep:
  assumes "list_rep h l (xs @ a # ys)" "zmalloc h = Some b" "mem h b = None" "length (xs @ a # ys) < 2 ^ 64 - 1"
  shows "\<exists>h' l'. listInsertNode zmalloc h l a v after = Some (h', l', True) \<and>
    list_rep h' l' (if after then xs @ a # b # ys else xs @ b # a # ys) \<and>
    (\<forall>c. c \<notin> set (xs @ a # b # ys) \<longrightarrow> mem h' c = mem h c) \<and>
    (\<forall>c. node_value h' c = (if c = b then v else node_value h c)) \<and>
    freed h' = freed h \<and> l' = l\<lparr>lhead := lhead l', ltail := ltail l', llen := llen l + 1\<rparr>"
proof -
  have b: "b \<notin> set (xs @ a # ys)"
    using assms(1,3) dll_mem [of "mem h" None "xs @ a # ys" None b] unfolding list_rep_def by metis
  show ?thesis
    using assms b unat_inc [of "llen l"]
    by (cases xs rule: rev_cases; cases ys; cases after)
      (auto simp: listInsertNode_def heap_ops list_rep_def node_value_def dest: ends_in)
qed

section \<open>The other operations\<close>

text \<open>A list of at least two nodes, with its two ends.\<close>

lemma two_ends:
  assumes "list_rep h l xs" "\<not> llen l \<le> 1"
  obtains a ys b where "xs = a # ys @ [b]"
proof -
  have "unat (llen l) > 1"
    using assms(2) by (simp add: word_le_nat_alt)
  then have "length xs > 1"
    using assms(1) by (simp add: list_rep_def)
  then show thesis
    by (cases xs; cases "tl xs" rule: rev_cases) (auto intro: that)
qed

lemma rotate_short: "list_rep h l xs \<Longrightarrow> llen l \<le> 1 \<Longrightarrow> rotate1 xs = xs"
  by (cases xs) (auto simp: list_rep_def word_le_nat_alt)

lemma listRotateTailToHead_rep:
  assumes "list_rep h l (rotate1 xs)"
  shows "\<exists>h' l'. listRotateTailToHead h l = Some (h', l') \<and> list_rep h' l' xs \<and>
    (\<forall>b. b \<notin> set xs \<longrightarrow> mem h' b = mem h b) \<and> (\<forall>b. node_value h' b = node_value h b) \<and>
    freed h' = freed h \<and> l' = l\<lparr>lhead := lhead l', ltail := ltail l'\<rparr>"
proof (cases "llen l \<le> 1")
  case True
  then have "length xs \<le> 1"
    using assms by (auto simp: list_rep_def word_le_nat_alt)
  then have "rotate1 xs = xs"
    by (cases xs) auto
  then show ?thesis
    using True assms by (auto simp: listRotateTailToHead_def)
next
  case False
  obtain a ys b where e: "rotate1 xs = a # ys @ [b]"
    using two_ends [OF assms False] .
  then have xs: "xs = b # a # ys"
    by (cases xs) (auto simp: append_eq_Cons_conv)
  show ?thesis
    using assms False unfolding e unfolding xs
    by (cases ys rule: rev_cases)
      (auto simp: listRotateTailToHead_def heap_ops list_rep_def node_value_def)
qed

lemma listRotateHeadToTail_rep:
  assumes "list_rep h l xs"
  shows "\<exists>h' l'. listRotateHeadToTail h l = Some (h', l') \<and> list_rep h' l' (rotate1 xs) \<and>
    (\<forall>b. b \<notin> set xs \<longrightarrow> mem h' b = mem h b) \<and> (\<forall>b. node_value h' b = node_value h b) \<and>
    freed h' = freed h \<and> l' = l\<lparr>lhead := lhead l', ltail := ltail l'\<rparr>"
proof (cases "llen l \<le> 1")
  case True
  then show ?thesis
    using assms rotate_short [OF assms True] by (auto simp: listRotateHeadToTail_def)
next
  case False
  obtain a ys b where e: "xs = a # ys @ [b]"
    using two_ends [OF assms False] .
  show ?thesis
    using assms False unfolding e
    by (cases ys) (auto simp: listRotateHeadToTail_def heap_ops list_rep_def node_value_def)
qed

lemma listJoin_rep:
  assumes "list_rep h l xs" "list_rep h o' ys" "set xs \<inter> set ys = {}" "length xs + length ys < 2 ^ 64"
  shows "\<exists>h' l'. listJoin h l o' = Some (h', l', o'\<lparr>lhead := None, ltail := None, llen := 0\<rparr>) \<and> list_rep h' l' (xs @ ys) \<and>
    (\<forall>b. b \<notin> set (xs @ ys) \<longrightarrow> mem h' b = mem h b) \<and> (\<forall>b. node_value h' b = node_value h b) \<and>
    freed h' = freed h \<and> l' = l\<lparr>lhead := lhead l', ltail := ltail l', llen := llen l + llen o'\<rparr>"
proof (cases "ys = []")
  case True
  then have "llen o' = 0" "lhead o' = None" "ltail o' = None"
    using assms(2) len_zero [OF assms(2)] by (auto simp: list_rep_def)
  then show ?thesis
    using True assms(1) by (auto simp: listJoin_def)
next
  case False
  have len: "unat (llen l + llen o') = length xs + length ys"
    using assms(1,2,4) by (subst unat_plus_if_size) (simp add: list_rep_def word_size)
  show ?thesis
    using False assms len len_zero [OF assms(2)]
    by (cases xs rule: rev_cases; cases ys)
      (auto simp: listJoin_def heap_ops list_rep_def node_value_def)
qed

lemma listDelNode_rep:
  assumes "list_rep h l (xs @ a # ys)"
  shows "\<exists>h' l'. listDelNode h l a = Some (h', l') \<and> list_rep h' l' (xs @ ys) \<and> mem h' a = None \<and>
    (\<forall>b. b \<notin> set (xs @ a # ys) \<longrightarrow> mem h' b = mem h b) \<and> (\<forall>b. b \<noteq> a \<longrightarrow> node_value h' b = node_value h b) \<and>
    freed h' = freed h @ (if lfree l then [node_value h a] else []) \<and>
    l' = l\<lparr>lhead := lhead l', ltail := ltail l', llen := llen l - 1\<rparr>"
proof -
  obtain h1 l1 n where u: "listUnlinkNode h l a = Some (h1, l1)" "list_rep h1 l1 (xs @ ys)" "mem h1 a = Some n"
    and r: "\<forall>b. b \<notin> set (xs @ a # ys) \<longrightarrow> mem h1 b = mem h b" "\<forall>b. node_value h1 b = node_value h b"
      "freed h1 = freed h" "l1 = l\<lparr>lhead := lhead l1, ltail := ltail l1, llen := llen l - 1\<rparr>"
    using listUnlinkNode_rep [OF assms] by blast
  have a: "a \<notin> set xs" "a \<notin> set ys"
    using assms by (auto simp: list_rep_def)
  have f: "lfree l1 = lfree l"
    by (subst r(4)) simp
  have v: "nvalue n = node_value h a"
    using r(2) u(3) by (metis node_value_simps)
  define h2 where "h2 = (call_free l1 (nvalue n) h1)\<lparr>mem := (mem h1)(a := None)\<rparr>"
  have "listDelNode h l a = Some (h2, l1)"
    using u by (simp add: listDelNode_def heap_ops h2_def)
  moreover have "list_rep h2 l1 (xs @ ys)" "mem h2 a = None"
    "\<forall>b. b \<notin> set (xs @ a # ys) \<longrightarrow> mem h2 b = mem h b" "\<forall>b. b \<noteq> a \<longrightarrow> node_value h2 b = node_value h b"
    "freed h2 = freed h @ (if lfree l then [node_value h a] else [])"
    using u a r(1-3) v by (auto simp: h2_def heap_ops list_rep_def node_value_def f)
  ultimately show ?thesis
    using r(4) by blast
qed

section \<open>Emptying, iterating, searching\<close>

lemma listEmpty_loop_rep:
  assumes "dll (mem h) p xs q" "distinct xs"
  shows "\<exists>h'. listEmpty_loop l (length xs) h (first_or xs q) = Some h' \<and>
    mem h' = (\<lambda>a. if a \<in> set xs then None else mem h a) \<and>
    freed h' = freed h @ (if lfree l then list_values h xs else [])"
  using assms
proof (induction xs arbitrary: h p)
  case (Cons x xs)
  then obtain n where n: "mem h x = Some n" "nnext n = first_or xs q" "dll (mem h) (Some x) xs q"
    by auto
  let ?h = "(call_free l (nvalue n) h)\<lparr>mem := (mem h)(x := None)\<rparr>"
  have "dll (mem ?h) (Some x) xs q"
    using n(3) Cons.prems(2) by simp
  from Cons.IH [OF this] Cons.prems(2) obtain h' where
    "listEmpty_loop l (length xs) ?h (first_or xs q) = Some h'"
    "mem h' = (\<lambda>a. if a \<in> set xs then None else mem ?h a)"
    "freed h' = freed ?h @ (if lfree l then list_values ?h xs else [])"
    by auto
  moreover have "list_values ?h xs = list_values h xs"
    using Cons.prems(2) by (intro list_values_cong) (auto simp: node_value_def)
  ultimately show ?case
    using n by (auto simp: heap_ops fun_eq_iff)
qed auto

lemma listEmpty_rep:
  assumes "list_rep h l xs"
  shows "\<exists>h'. listEmpty h l = Some (h', l\<lparr>lhead := None, ltail := None, llen := 0\<rparr>) \<and>
    mem h' = (\<lambda>a. if a \<in> set xs then None else mem h a) \<and>
    freed h' = freed h @ (if lfree l then list_values h xs else [])"
  using assms listEmpty_loop_rep [of h None xs None l] by (auto simp: listEmpty_def list_rep_def)


lemma listSearchKey_loop_rep:
  assumes "dll (mem h) p xs None"
  shows "listSearchKey_loop h l \<lparr>iter_next = first_or xs None, direction = AL_START_HEAD\<rparr> key =
    Some (List.find (\<lambda>a. node_matches l (node_value h a) key) xs)"
  using assms
  by (induction xs arbitrary: p) (subst listSearchKey_loop.simps; fastforce simp: listNext_def)+

lemma listSearchKey_rep:
  assumes "list_rep h l xs"
  shows "listSearchKey h l key = Some (List.find (\<lambda>a. node_matches l (node_value h a) key) xs)"
  using assms listSearchKey_loop_rep [of h None xs l key]
  by (simp add: listSearchKey_def listRewind_def list_rep_def)

lemma listIndex_next:
  assumes "dll (mem h) p xs None"
  shows "listIndex_loop nnext h i (first_or xs None) = Some (if i < length xs then Some (xs ! i) else None)"
  using assms
proof (induction xs arbitrary: i p)
  case Nil
  then show ?case
    by (cases i) auto
next
  case (Cons x xs)
  then show ?case
    by (cases i) auto
qed

lemma listIndex_prev:
  assumes "dll (mem h) None xs q"
  shows "listIndex_loop nprev h i (last_or xs None) = Some (if i < length xs then Some (rev xs ! i) else None)"
  using assms
proof (induction xs arbitrary: i q rule: rev_induct)
  case Nil
  then show ?case
    by (cases i) auto
next
  case (snoc x xs)
  then show ?case
    by (cases i) auto
qed

text \<open>The position an index names, from either end.\<close>

definition index_pos :: "nat \<Rightarrow> int \<Rightarrow> nat option" where
  "index_pos n i =
     (let j = (if i < 0 then int n + i else i) in if 0 \<le> j \<and> j < int n then Some (nat j) else None)"

lemma index_pos_less: "index_pos n i = Some j \<Longrightarrow> j < n"
  by (auto simp: index_pos_def Let_def split: if_splits)

lemma listIndex_rep:
  assumes "list_rep h l xs" "- (2 ^ 63) < i"
  shows "listIndex h l i = Some (map_option ((!) xs) (index_pos (length xs) i))"
proof (cases "i < 0")
  case True
  have d: "dll (mem h) None xs None" and t: "ltail l = last_or xs None"
    using assms(1) by (simp_all add: list_rep_def)
  have "nat (- i - 1) < length xs \<longleftrightarrow> 0 \<le> int (length xs) + i"
    using True by auto
  moreover have "rev xs ! nat (- i - 1) = xs ! nat (int (length xs) + i)" if "0 \<le> int (length xs) + i"
  proof -
    have "length xs - Suc (nat (- i - 1)) = nat (int (length xs) + i)" "nat (- i - 1) < length xs"
      using that True by auto
    then show ?thesis
      by (simp add: rev_nth)
  qed
  ultimately show ?thesis
    using True assms(2) listIndex_prev [OF d, of "nat (- i - 1)"] t
    by (simp add: listIndex_def index_pos_def Let_def)
next
  case False
  have d: "dll (mem h) None xs None" and t: "lhead l = first_or xs None"
    using assms(1) by (simp_all add: list_rep_def)
  show ?thesis
    using False assms(2) listIndex_next [OF d, of "nat i"] t
    by (auto simp: listIndex_def index_pos_def Let_def)
qed

section \<open>Duplication\<close>

definition fresh_alloc :: "('v heap \<Rightarrow> addr option) \<Rightarrow> bool" where
  "fresh_alloc zmalloc \<longleftrightarrow> (\<forall>h a. zmalloc h = Some a \<longrightarrow> mem h a = None)"


lemma list_rep_mem: "list_rep h l xs \<Longrightarrow> x \<in> set xs \<Longrightarrow> mem h x \<noteq> None"
  unfolding list_rep_def using dll_mem by metis

lemma new_node_simps:
  "a \<notin> set xs \<Longrightarrow> list_rep (new_node h a v) l xs = list_rep h l xs"
  "mem (new_node h a v) a = Some \<lparr>nprev = None, nnext = None, nvalue = v\<rparr>"
  "b \<noteq> a \<Longrightarrow> mem (new_node h a v) b = mem h b"
  "node_value (new_node h a v) b = (if b = a then v else node_value h b)"
  "freed (new_node h a v) = freed h"
  by (simp_all add: new_node_def list_rep_def node_value_def)

lemma listAddNodeTail_rep:
  assumes "list_rep h l xs" "zmalloc h = Some a" "mem h a = None" "length xs < 2 ^ 64 - 1"
  shows "\<exists>h' l'. listAddNodeTail zmalloc h l v = Some (h', l', True) \<and> list_rep h' l' (xs @ [a]) \<and>
    (\<forall>b. b \<notin> set (a # xs) \<longrightarrow> mem h' b = mem h b) \<and> (\<forall>b. node_value h' b = (if b = a then v else node_value h b)) \<and>
    freed h' = freed h \<and> l' = l\<lparr>lhead := lhead l', ltail := ltail l', llen := llen l + 1\<rparr>"
proof -
  have a: "a \<notin> set xs"
    using list_rep_mem [OF assms(1)] assms(3) by blast
  then have "list_rep (new_node h a v) l xs"
    using assms(1) by (simp add: new_node_simps)
  from listLinkNodeTail_rep [OF this new_node_simps(2) a assms(4)] show ?thesis
    using assms(2) by (auto simp: listAddNodeTail_def new_node_simps)
qed

lemma listAddNodeHead_rep:
  assumes "list_rep h l xs" "zmalloc h = Some a" "mem h a = None" "length xs < 2 ^ 64 - 1"
  shows "\<exists>h' l'. listAddNodeHead zmalloc h l v = Some (h', l', True) \<and> list_rep h' l' (a # xs) \<and>
    (\<forall>b. b \<notin> set (a # xs) \<longrightarrow> mem h' b = mem h b) \<and> (\<forall>b. node_value h' b = (if b = a then v else node_value h b)) \<and>
    freed h' = freed h \<and> l' = l\<lparr>lhead := lhead l', ltail := ltail l', llen := llen l + 1\<rparr>"
proof -
  have a: "a \<notin> set xs"
    using list_rep_mem [OF assms(1)] assms(3) by blast
  then have "list_rep (new_node h a v) l xs"
    using assms(1) by (simp add: new_node_simps)
  from listLinkNodeHead_rep [OF this new_node_simps(2) a assms(4)] show ?thesis
    using assms(2) by (auto simp: listAddNodeHead_def new_node_simps)
qed






section \<open>Sequences of operations\<close>

text \<open>The operations of a client that names nodes by their index; every call returns the value of
  the node it found, if it looks for one.\<close>

datatype 'v list_op =
    AddHead 'v
  | AddTail 'v
  | InsertAt int 'v bool
  | DelAt int
  | RotateTail
  | RotateHead
  | ValueAt int
  | Search 'v
  | Empty

definition found :: "'v heap \<Rightarrow> addr option \<Rightarrow> 'v option option" where
  "found h n = (case n of None \<Rightarrow> Some None | Some a \<Rightarrow> do { nd \<leftarrow> mem h a; Some (Some (nvalue nd)) })"

fun adlist_step ::
  "('v heap \<Rightarrow> addr option) \<Rightarrow> 'v heap \<times> 'v adlist \<Rightarrow> 'v list_op \<Rightarrow> (('v heap \<times> 'v adlist) \<times> 'v option) option" where
  "adlist_step zmalloc (h, l) (AddHead v) =
     do { (h, l, _) \<leftarrow> listAddNodeHead zmalloc h l v; Some ((h, l), None) }"
| "adlist_step zmalloc (h, l) (AddTail v) =
     do { (h, l, _) \<leftarrow> listAddNodeTail zmalloc h l v; Some ((h, l), None) }"
| "adlist_step zmalloc (h, l) (InsertAt i v after) = do {
     n \<leftarrow> listIndex h l i;
     r \<leftarrow> found h n;
     case n of
       None \<Rightarrow> Some ((h, l), r)
     | Some a \<Rightarrow> do { (h, l, _) \<leftarrow> listInsertNode zmalloc h l a v after; Some ((h, l), r) }
   }"
| "adlist_step zmalloc (h, l) (DelAt i) = do {
     n \<leftarrow> listIndex h l i;
     r \<leftarrow> found h n;
     case n of
       None \<Rightarrow> Some ((h, l), r)
     | Some a \<Rightarrow> do { s \<leftarrow> listDelNode h l a; Some (s, r) }
   }"
| "adlist_step zmalloc (h, l) RotateTail = do { s \<leftarrow> listRotateTailToHead h l; Some (s, None) }"
| "adlist_step zmalloc (h, l) RotateHead = do { s \<leftarrow> listRotateHeadToTail h l; Some (s, None) }"
| "adlist_step zmalloc (h, l) (ValueAt i) =
     do { n \<leftarrow> listIndex h l i; r \<leftarrow> found h n; Some ((h, l), r) }"
| "adlist_step zmalloc (h, l) (Search key) =
     do { n \<leftarrow> listSearchKey h l key; r \<leftarrow> found h n; Some ((h, l), r) }"
| "adlist_step zmalloc (h, l) Empty = do { s \<leftarrow> listEmpty h l; Some (s, None) }"

text \<open>The same operations on the sequence of the values.\<close>

definition value_at :: "'v list \<Rightarrow> int \<Rightarrow> 'v option" where
  "value_at vs i = map_option ((!) vs) (index_pos (length vs) i)"

fun values_step :: "('v \<Rightarrow> 'v \<Rightarrow> bool) \<Rightarrow> 'v list \<Rightarrow> 'v list_op \<Rightarrow> 'v list \<times> 'v option" where
  "values_step eq vs (AddHead v) = (v # vs, None)"
| "values_step eq vs (AddTail v) = (vs @ [v], None)"
| "values_step eq vs (InsertAt i v after) =
     ((case index_pos (length vs) i of
         None \<Rightarrow> vs
       | Some j \<Rightarrow> (let j = (if after then Suc j else j) in take j vs @ v # drop j vs)), value_at vs i)"
| "values_step eq vs (DelAt i) =
     ((case index_pos (length vs) i of None \<Rightarrow> vs | Some j \<Rightarrow> take j vs @ drop (Suc j) vs), value_at vs i)"
| "values_step eq vs RotateTail = (rotate (length vs - 1) vs, None)"
| "values_step eq vs RotateHead = (rotate1 vs, None)"
| "values_step eq vs (ValueAt i) = (vs, value_at vs i)"
| "values_step eq vs (Search key) = (vs, List.find (\<lambda>v. eq v key) vs)"
| "values_step eq vs Empty = ([], None)"

text \<open>A state and its values; the methods of the list do not change.\<close>

definition adlist_inv :: "('v \<Rightarrow> 'v \<Rightarrow> bool) option \<Rightarrow> 'v heap \<times> 'v adlist \<Rightarrow> 'v list \<Rightarrow> bool" where
  "adlist_inv match s vs \<longleftrightarrow> lmatch (snd s) = match \<and>
     (\<exists>xs. list_rep (fst s) (snd s) xs \<and> list_values (fst s) xs = vs)"

fun list_op_ok :: "'v list_op \<Rightarrow> bool" where
  "list_op_ok (InsertAt i v after) = (- (2 ^ 63) < i)"
| "list_op_ok (DelAt i) = (- (2 ^ 63) < i)"
| "list_op_ok (ValueAt i) = (- (2 ^ 63) < i)"
| "list_op_ok p = True"

definition value_eq :: "('v \<Rightarrow> 'v \<Rightarrow> bool) option \<Rightarrow> 'v \<Rightarrow> 'v \<Rightarrow> bool" where
  "value_eq match v key = (case match of Some m \<Rightarrow> m v key | None \<Rightarrow> key = v)"

lemma found_rep:
  assumes "list_rep h l xs" "\<forall>a\<in>set_option n. a \<in> set xs"
  shows "found h n = Some (map_option (node_value h) n)"
proof (cases n)
  case (Some a)
  then have "mem h a \<noteq> None"
    using list_rep_mem [OF assms(1)] assms(2) by simp
  then show ?thesis
    using Some by (auto simp: found_def)
qed (simp add: found_def)

lemma found_index:
  assumes "list_rep h l xs"
  shows "found h (map_option ((!) xs) (index_pos (length xs) i)) = Some (value_at (list_values h xs) i)"
proof (cases "index_pos (length xs) i")
  case (Some j)
  then have "j < length xs"
    by (rule index_pos_less)
  then show ?thesis
    using Some found_rep [OF assms, of "Some (xs ! j)"] by (simp add: value_at_def) (simp add: list_values_def)
qed (simp add: found_def value_at_def)

lemma find_map_option: "List.find P (map f xs) = map_option f (List.find (P \<circ> f) xs)"
  by (induction xs) auto

lemma find_in: "List.find P xs = Some a \<Longrightarrow> a \<in> set xs"
  by (auto simp: find_Some_iff)

lemma split_at: "j < length xs \<Longrightarrow> xs = take j xs @ xs ! j # drop (Suc j) xs"
  by (rule id_take_nth_drop)

lemma list_values_take_drop:
  "list_values h (take j xs) = take j (list_values h xs)" "list_values h (drop j xs) = drop j (list_values h xs)"
  by (simp_all add: list_values_def take_map drop_map)

lemma methods_kept:
  "l' = l\<lparr>lhead := a, ltail := b, llen := c\<rparr> \<Longrightarrow> lmatch l' = lmatch l"
  "l' = l\<lparr>lhead := a, ltail := b\<rparr> \<Longrightarrow> lmatch l' = lmatch l"
  by simp_all
text \<open>The simulation, one operation at a time.\<close>

definition simulates ::
  "('v \<Rightarrow> 'v \<Rightarrow> bool) option \<Rightarrow> ('v heap \<Rightarrow> addr option) \<Rightarrow> 'v heap \<Rightarrow> 'v adlist \<Rightarrow> 'v list_op \<Rightarrow> 'v list \<Rightarrow> bool" where
  "simulates match zmalloc h l p vs \<longleftrightarrow>
     (\<exists>s. adlist_step zmalloc (h, l) p = Some (s, snd (values_step (value_eq match) vs p)) \<and>
        adlist_inv match s (fst (values_step (value_eq match) vs p)) \<and>
        (finite (dom (mem h)) \<longrightarrow> finite (dom (mem (fst s)))))"

lemma finite_dom_frame:
  assumes "\<forall>b. b \<notin> set xs \<longrightarrow> m' b = m b" "finite (dom m)"
  shows "finite (dom m')"
proof (rule finite_subset)
  show "dom m' \<subseteq> dom m \<union> set xs"
    using assms(1) by (force simp: dom_def)
qed (use assms(2) in simp)

lemma simulatesI:
  assumes "adlist_step zmalloc (h, l) p = Some ((h', l'), r)" "lmatch l' = match" "list_rep h' l' xs"
    "\<forall>b. b \<notin> set ys \<longrightarrow> mem h' b = mem h b" "values_step (value_eq match) vs p = (list_values h' xs, r)"
  shows "simulates match zmalloc h l p vs"
  using assms(1-3,5) finite_dom_frame [OF assms(4)] by (auto simp: simulates_def adlist_inv_def)

lemma simulates_AddHead:
  assumes "list_rep h l xs" "zmalloc h = Some a" "mem h a = None" "length xs < 2 ^ 64 - 1"
  shows "simulates (lmatch l) zmalloc h l (AddHead v) (list_values h xs)"
proof -
  obtain h' l' where r: "listAddNodeHead zmalloc h l v = Some (h', l', True)" "list_rep h' l' (a # xs)"
    "\<forall>b. node_value h' b = (if b = a then v else node_value h b)"
    "l' = l\<lparr>lhead := lhead l', ltail := ltail l', llen := llen l + 1\<rparr>" "\<forall>b. b \<notin> set (a # xs) \<longrightarrow> mem h' b = mem h b"
    using listAddNodeHead_rep [where zmalloc = zmalloc, OF assms, of v] by blast
  have "a \<notin> set xs"
    using list_rep_mem [OF assms(1)] assms(3) by blast
  then have "list_values h' xs = list_values h xs"
    using r(3) by (intro list_values_cong) auto
  then show ?thesis
    using r(1,3) by (intro simulatesI [OF _ methods_kept(1) [OF r(4)] r(2,5)]) auto
qed

lemma simulates_AddTail:
  assumes "list_rep h l xs" "zmalloc h = Some a" "mem h a = None" "length xs < 2 ^ 64 - 1"
  shows "simulates (lmatch l) zmalloc h l (AddTail v) (list_values h xs)"
proof -
  obtain h' l' where r: "listAddNodeTail zmalloc h l v = Some (h', l', True)" "list_rep h' l' (xs @ [a])"
    "\<forall>b. node_value h' b = (if b = a then v else node_value h b)"
    "l' = l\<lparr>lhead := lhead l', ltail := ltail l', llen := llen l + 1\<rparr>" "\<forall>b. b \<notin> set (a # xs) \<longrightarrow> mem h' b = mem h b"
    using listAddNodeTail_rep [where zmalloc = zmalloc, OF assms, of v] by blast
  have "a \<notin> set xs"
    using list_rep_mem [OF assms(1)] assms(3) by blast
  then have "list_values h' xs = list_values h xs"
    using r(3) by (intro list_values_cong) auto
  then show ?thesis
    using r(1,3) by (intro simulatesI [OF _ methods_kept(1) [OF r(4)] r(2,5)]) auto
qed

lemma simulates_InsertAt:
  assumes "list_rep h l xs" "zmalloc h = Some b" "mem h b = None" "length xs < 2 ^ 64 - 1" "- (2 ^ 63) < i"
  shows "simulates (lmatch l) zmalloc h l (InsertAt i v after) (list_values h xs)"
proof (cases "index_pos (length xs) i")
  case None
  then show ?thesis
    using listIndex_rep [OF assms(1,5)] found_index [OF assms(1), of i] assms(1)
    by (intro simulatesI [of _ _ _ _ h l]) auto
next
  case (Some j)
  then have j: "j < length xs"
    by (rule index_pos_less)
  let ?ys = "take j xs" and ?zs = "drop (Suc j) xs"
  note e = split_at [OF j]
  have rep: "list_rep h l (?ys @ xs ! j # ?zs)" and len: "length (?ys @ xs ! j # ?zs) < 2 ^ 64 - 1"
    using assms(1,4) unfolding e [symmetric] by simp_all
  obtain h' l' where r: "listInsertNode zmalloc h l (xs ! j) v after = Some (h', l', True)"
    "list_rep h' l' (if after then ?ys @ xs ! j # b # ?zs else ?ys @ b # xs ! j # ?zs)"
    "\<forall>c. node_value h' c = (if c = b then v else node_value h c)"
    "l' = l\<lparr>lhead := lhead l', ltail := ltail l', llen := llen l + 1\<rparr>"
    "\<forall>c. c \<notin> set (?ys @ xs ! j # b # ?zs) \<longrightarrow> mem h' c = mem h c"
    using listInsertNode_rep [where zmalloc = zmalloc, OF rep assms(2,3) len, of v after] by blast
  have b: "b \<notin> set xs"
    using list_rep_mem [OF assms(1)] assms(3) by blast
  have same: "list_values h' us = list_values h us" if "set us \<subseteq> set xs" for us
    using r(3) b that by (intro list_values_cong) auto
  have "list_values h' (if after then ?ys @ xs ! j # b # ?zs else ?ys @ b # xs ! j # ?zs) =
    (let j = (if after then Suc j else j) in take j (list_values h xs) @ v # drop j (list_values h xs))"
  proof (cases after)
    case True
    have "list_values h' (?ys @ [xs ! j]) = take (Suc j) (list_values h xs)"
      using j by (subst same) (auto simp: list_values_take_drop [symmetric] take_Suc_conv_app_nth dest: in_set_takeD)
    then show ?thesis
      using True r(3) same [of ?zs] by (simp add: list_values_take_drop set_drop_subset)
  next
    case False
    have "list_values h' (xs ! j # ?zs) = drop j (list_values h xs)"
      using j by (subst same) (auto simp: list_values_take_drop [symmetric] Cons_nth_drop_Suc dest: in_set_dropD)
    then show ?thesis
      using False r(3) same [of ?ys] by (simp add: list_values_take_drop set_take_subset)
  qed
  then show ?thesis
    using r(1) Some listIndex_rep [OF assms(1,5)] found_index [OF assms(1), of i]
    by (intro simulatesI [OF _ methods_kept(1) [OF r(4)] r(2,5)]) auto
qed

lemma simulates_DelAt:
  assumes "list_rep h l xs" "- (2 ^ 63) < i"
  shows "simulates (lmatch l) zmalloc h l (DelAt i) (list_values h xs)"
proof (cases "index_pos (length xs) i")
  case None
  then show ?thesis
    using listIndex_rep [OF assms] found_index [OF assms(1), of i] assms(1)
    by (intro simulatesI [of _ _ _ _ h l]) auto
next
  case (Some j)
  then have j: "j < length xs"
    by (rule index_pos_less)
  let ?ys = "take j xs" and ?zs = "drop (Suc j) xs"
  note e = split_at [OF j]
  have rep: "list_rep h l (?ys @ xs ! j # ?zs)"
    using assms(1) unfolding e [symmetric] .
  obtain h' l' where r: "listDelNode h l (xs ! j) = Some (h', l')" "list_rep h' l' (?ys @ ?zs)"
    "\<forall>b. b \<noteq> xs ! j \<longrightarrow> node_value h' b = node_value h b"
    "l' = l\<lparr>lhead := lhead l', ltail := ltail l', llen := llen l - 1\<rparr>"
    "\<forall>b. b \<notin> set (?ys @ xs ! j # ?zs) \<longrightarrow> mem h' b = mem h b"
    using listDelNode_rep [OF rep] by blast
  have "xs ! j \<notin> set (?ys @ ?zs)"
    using rep by (simp add: list_rep_def)
  then have "list_values h' (?ys @ ?zs) = list_values h (?ys @ ?zs)"
    using r(3) by (intro list_values_cong) metis
  then show ?thesis
    using r(1) Some listIndex_rep [OF assms] found_index [OF assms(1), of i]
    by (intro simulatesI [OF _ methods_kept(1) [OF r(4)] r(2,5)]) (auto simp: list_values_take_drop)
qed

lemma rotate1_last: "rotate1 (rotate (length xs - 1) xs) = xs"
proof (cases xs)
  case (Cons x ys)
  then show ?thesis
    using rotate_id [of "length xs" xs] by (simp flip: rotate_Suc)
qed simp

lemma list_values_rotate: "list_values h (rotate n xs) = rotate n (list_values h xs)"
  "list_values h (rotate1 xs) = rotate1 (list_values h xs)"
  by (simp_all add: list_values_def rotate_map rotate1_map)

lemma simulates_RotateTail:
  assumes "list_rep h l xs"
  shows "simulates (lmatch l) zmalloc h l RotateTail (list_values h xs)"
proof -
  have "list_rep h l (rotate1 (rotate (length xs - 1) xs))"
    using assms by (simp only: rotate1_last)
  from listRotateTailToHead_rep [OF this] obtain h' l' where
    r: "listRotateTailToHead h l = Some (h', l')" "list_rep h' l' (rotate (length xs - 1) xs)"
    "\<forall>b. node_value h' b = node_value h b" "l' = l\<lparr>lhead := lhead l', ltail := ltail l'\<rparr>"
    and f: "\<forall>b. b \<notin> set xs \<longrightarrow> mem h' b = mem h b"
    unfolding set_rotate by blast
  have "list_values h' ys = list_values h ys" for ys
    using r(3) by (intro list_values_cong) simp
  then show ?thesis
    using r(1) by (intro simulatesI [OF _ methods_kept(2) [OF r(4)] r(2) f]) (auto simp: list_values_rotate)
qed

lemma simulates_RotateHead:
  assumes "list_rep h l xs"
  shows "simulates (lmatch l) zmalloc h l RotateHead (list_values h xs)"
proof -
  from listRotateHeadToTail_rep [OF assms] obtain h' l' where
    r: "listRotateHeadToTail h l = Some (h', l')" "list_rep h' l' (rotate1 xs)"
    "\<forall>b. node_value h' b = node_value h b" "l' = l\<lparr>lhead := lhead l', ltail := ltail l'\<rparr>"
    and f: "\<forall>b. b \<notin> set xs \<longrightarrow> mem h' b = mem h b"
    unfolding set_rotate by blast
  have "list_values h' ys = list_values h ys" for ys
    using r(3) by (intro list_values_cong) simp
  then show ?thesis
    using r(1) by (intro simulatesI [OF _ methods_kept(2) [OF r(4)] r(2) f]) (auto simp: list_values_rotate)
qed

lemma simulates_others:
  assumes "list_rep h l xs"
  shows "- (2 ^ 63) < i \<Longrightarrow> simulates (lmatch l) zmalloc h l (ValueAt i) (list_values h xs)"
    "simulates (lmatch l) zmalloc h l (Search key) (list_values h xs)"
    "simulates (lmatch l) zmalloc h l Empty (list_values h xs)"
proof -
  show "simulates (lmatch l) zmalloc h l (ValueAt i) (list_values h xs)" if "- (2 ^ 63) < i"
    using listIndex_rep [OF assms that] found_index [OF assms, of i] assms
    by (intro simulatesI [of _ _ _ _ h l]) auto
  let ?n = "List.find (\<lambda>a. node_matches l (node_value h a) key) xs"
  have "found h ?n = Some (map_option (node_value h) ?n)"
    using find_in by (intro found_rep [OF assms]) fastforce
  moreover have "map_option (node_value h) ?n = List.find (\<lambda>v. value_eq (lmatch l) v key) (list_values h xs)"
    by (simp add: list_values_def find_map_option comp_def node_matches_def value_eq_def)
  ultimately show "simulates (lmatch l) zmalloc h l (Search key) (list_values h xs)"
    using listSearchKey_rep [OF assms, of key] assms by (intro simulatesI [of _ _ _ _ h l]) auto
  obtain h' where "listEmpty h l = Some (h', l\<lparr>lhead := None, ltail := None, llen := 0\<rparr>)"
    "mem h' = (\<lambda>a. if a \<in> set xs then None else mem h a)"
    using listEmpty_rep [OF assms] by blast
  then show "simulates (lmatch l) zmalloc h l Empty (list_values h xs)"
    by (intro simulatesI [of _ _ _ _ h' "l\<lparr>lhead := None, ltail := None, llen := 0\<rparr>" _ _ "[]" xs]) (auto simp: list_rep_def)
qed

section \<open>Refinement of the list of the values\<close>

text \<open>Allocation succeeds while only finitely many addresses are in use.\<close>

definition never_null :: "('v heap \<Rightarrow> addr option) \<Rightarrow> bool" where
  "never_null zmalloc \<longleftrightarrow> (\<forall>h. finite (dom (mem h)) \<longrightarrow> zmalloc h \<noteq> None)"

lemma simulates_all:
  assumes "list_rep h l xs" "fresh_alloc zmalloc" "never_null zmalloc" "finite (dom (mem h))"
    "length xs < 2 ^ 64 - 1" "list_op_ok p"
  shows "simulates (lmatch l) zmalloc h l p (list_values h xs)"
proof -
  obtain a where a: "zmalloc h = Some a"
    using assms(3,4) unfolding never_null_def by blast
  then have f: "mem h a = None"
    using assms(2) unfolding fresh_alloc_def by blast
  note add = assms(1) a f assms(5)
  show ?thesis
  proof (cases p)
    case (AddHead v)
    then show ?thesis
      using add by (simp only: simulates_AddHead)
  next
    case (AddTail v)
    then show ?thesis
      using add by (simp only: simulates_AddTail)
  next
    case (InsertAt i v after)
    then have "- (2 ^ 63) < i"
      using assms(6) by (simp only: list_op_ok.simps)
    then show ?thesis
      unfolding InsertAt using add by (intro simulates_InsertAt)
  next
    case (DelAt i)
    then have "- (2 ^ 63) < i"
      using assms(6) by (simp only: list_op_ok.simps)
    then show ?thesis
      unfolding DelAt using assms(1) by (intro simulates_DelAt)
  next
    case RotateTail
    then show ?thesis
      using assms(1) by (simp only: simulates_RotateTail)
  next
    case RotateHead
    then show ?thesis
      using assms(1) by (simp only: simulates_RotateHead)
  next
    case (ValueAt i)
    then have "- (2 ^ 63) < i"
      using assms(6) by (simp only: list_op_ok.simps)
    then show ?thesis
      unfolding ValueAt using assms(1) by (intro simulates_others(1))
  next
    case (Search key)
    then show ?thesis
      using assms(1) by (simp only: simulates_others(2))
  next
    case Empty
    then show ?thesis
      using assms(1) by (simp only: simulates_others(3))
  qed
qed

text \<open>The two sides with what stays fixed: the allocator, and the comparison of the values.\<close>

type_synonym 'v adlist_state = "('v heap \<Rightarrow> addr option) \<times> 'v heap \<times> 'v adlist"

definition adlist_machine :: "'v adlist_state \<Rightarrow> 'v list_op \<Rightarrow> ('v adlist_state \<times> 'v option) option" where
  "adlist_machine s p = do { (s', r) \<leftarrow> adlist_step (fst s) (snd s) p; Some ((fst s, s'), r) }"

definition values_machine ::
  "('v \<Rightarrow> 'v \<Rightarrow> bool) option \<times> 'v list \<Rightarrow> 'v list_op \<Rightarrow> (('v \<Rightarrow> 'v \<Rightarrow> bool) option \<times> 'v list) \<times> 'v option" where
  "values_machine a p = (let (vs, r) = values_step (value_eq (fst a)) (snd a) p in ((fst a, vs), r))"

definition machine_inv :: "'v adlist_state \<Rightarrow> ('v \<Rightarrow> 'v \<Rightarrow> bool) option \<times> 'v list \<Rightarrow> bool" where
  "machine_inv s a \<longleftrightarrow> fresh_alloc (fst s) \<and> never_null (fst s) \<and> finite (dom (mem (fst (snd s)))) \<and>
     adlist_inv (fst a) (snd s) (snd a)"

lemma values_step_length: "length (fst (values_step eq vs p)) \<le> Suc (length vs)"
proof (cases p)
  case (InsertAt i v after)
  then show ?thesis
    by (auto simp: Let_def split: option.split)
next
  case (DelAt i)
  then show ?thesis
    by (auto split: option.split)
qed auto

interpretation adl: stepwise_refinement machine_inv "\<lambda>a. length (snd a)" "\<lambda>p. 1" "2 ^ 64 - 1" list_op_ok adlist_machine values_machine
proof (unfold_locales, goal_cases)
  case (1 s a p)
  note inv = 1(1) and ok = 1(2,3)
  obtain zmalloc h l where s: "s = (zmalloc, h, l)"
    by (cases s) auto
  obtain xs where xs: "list_rep h l xs" "list_values h xs = snd a" "lmatch l = fst a"
    using inv by (auto simp: machine_inv_def adlist_inv_def s)
  have "length xs < 2 ^ 64 - 1"
    using ok(2) unfolding xs(2) [symmetric] list_values_simps(4) by simp
  then have "simulates (fst a) zmalloc h l p (snd a)"
    using simulates_all [OF xs(1)] inv ok(1) xs(2,3) by (simp add: machine_inv_def s)
  then obtain s' where "adlist_step zmalloc (h, l) p = Some (s', snd (values_step (value_eq (fst a)) (snd a) p))"
      "adlist_inv (fst a) s' (fst (values_step (value_eq (fst a)) (snd a) p))" "finite (dom (mem (fst s')))"
    using inv unfolding simulates_def by (auto simp: machine_inv_def s)
  then show ?case
    using inv by (auto simp: adlist_machine_def values_machine_def machine_inv_def s case_prod_beta Let_def)
next
  case (2 s a p)
  show ?case
    using values_step_length [of "value_eq (fst a)" "snd a" p] by (simp add: values_machine_def case_prod_beta Let_def)
qed

text \<open>C5: Any sequence of additions at both ends, insertions next to and removals of a node found by its
  index, rotations, lookups by index, searches by key and emptying, on a doubly linked list in the heap,
  runs without touching freed memory, keeps the links, both ends and the length of the list
  consistent, and returns what the same operations on the plain sequence of the values return.\<close>

theorem adlist_refines_sequence:
  assumes "fresh_alloc zmalloc" "never_null zmalloc" "finite (dom (mem h))" "list_rep h l xs"
    and "\<forall>p\<in>set ps. list_op_ok p" "length xs + length ps \<le> 2 ^ 64 - 1"
  shows "\<exists>h' l' rs ys. concrete_run adlist_machine (zmalloc, h, l) ps = Some ((zmalloc, h', l'), rs) \<and>
     list_rep h' l' ys \<and>
     abstract_run values_machine (lmatch l, list_values h xs) ps = ((lmatch l, list_values h' ys), rs)"
proof -
  let ?a = "(lmatch l, list_values h xs)"
  let ?r = "abstract_run values_machine ?a ps"
  have "machine_inv (zmalloc, h, l) ?a"
    using assms(1-4) by (auto simp: machine_inv_def adlist_inv_def)
  moreover have "sum_list (map (\<lambda>p. 1) ps) = length ps"
    by (simp add: map_replicate_const sum_list_replicate)
  then have "length (snd ?a) + sum_list (map (\<lambda>p. 1) ps) \<le> 2 ^ 64 - 1"
    using assms(6) unfolding snd_conv list_values_simps(4) by (simp only:)
  ultimately obtain s where s: "concrete_run adlist_machine (zmalloc, h, l) ps = Some (s, snd ?r)"
      "machine_inv s (fst ?r)"
    using adl.run_refines [OF _ assms(5)] by blast
  have keep_z: "concrete_run adlist_machine t ps = Some (t', rs) \<Longrightarrow> fst t' = fst t" for t t' :: "'a adlist_state" and rs ps
    by (induction ps arbitrary: t rs) (auto simp: adlist_machine_def split: bind_splits)
  have keep_m: "fst (fst (abstract_run values_machine b ps)) = fst b" for b :: "('a \<Rightarrow> 'a \<Rightarrow> bool) option \<times> 'a list" and ps
    by (induction ps arbitrary: b) (auto simp: values_machine_def case_prod_beta Let_def)
  obtain h' l' where s': "s = (zmalloc, h', l')"
    using keep_z [OF s(1)] by (cases s) auto
  obtain ys where "list_rep h' l' ys" "snd (fst ?r) = list_values h' ys"
    using s(2) by (auto simp: machine_inv_def adlist_inv_def s')
  then show ?thesis
    using s(1) keep_m [of ?a ps] s' by (metis fst_conv prod.collapse)
qed

definition least_free :: "'v heap \<Rightarrow> addr option" where
  "least_free h = (if finite (dom (mem h)) then Some (Suc (Max (insert 0 (dom (mem h))))) else None)"

lemma least_free_ok: "fresh_alloc least_free" "never_null least_free"
proof -
  have "mem h (Suc (Max (insert 0 (dom (mem h))))) = None" if "finite (dom (mem h))" for h :: "'v heap"
  proof (rule ccontr)
    assume "mem h (Suc (Max (insert 0 (dom (mem h))))) \<noteq> None"
    then have "Suc (Max (insert 0 (dom (mem h)))) \<le> Max (insert 0 (dom (mem h)))"
      using that by (intro Max_ge) auto
    then show False
      by simp
  qed
  then show "fresh_alloc (least_free :: 'v heap \<Rightarrow> _)"
    by (auto simp: fresh_alloc_def least_free_def split: if_splits)
  show "never_null (least_free :: 'v heap \<Rightarrow> _)"
    by (simp add: never_null_def least_free_def)
qed

theorem adlist_refines_sequence_witness:
  "\<exists>h' l' rs ys. concrete_run adlist_machine (least_free, \<lparr>mem = Map.empty, freed = []\<rparr>, listCreate)
       [AddTail 1, AddTail 2, AddHead (3 :: nat), RotateTail, InsertAt (-1) 4 False, Search 4, DelAt 1, ValueAt 0] =
     Some ((least_free, h', l'), rs) \<and> list_rep h' l' ys \<and> list_values h' ys = [2, 4, 1] \<and>
     rs = [None, None, None, None, Some 1, Some 4, Some 3, Some 2]"
proof -
  let ?ps = "[AddTail 1, AddTail 2, AddHead (3 :: nat), RotateTail, InsertAt (-1) 4 False, Search 4, DelAt 1, ValueAt 0]"
  let ?h = "\<lparr>mem = Map.empty, freed = []\<rparr> :: nat heap"
  have rep: "list_rep ?h listCreate []" and fin: "finite (dom (mem ?h))"
    by (simp_all add: list_rep_def listCreate_def)
  have "abstract_run values_machine (lmatch (listCreate :: nat adlist), list_values ?h []) ?ps =
      ((None, [2, 4, 1]), [None, None, None, None, Some 1, Some 4, Some 3, Some 2])"
    by (simp add: values_machine_def listCreate_def value_eq_def value_at_def index_pos_def rotate_def)
  with adlist_refines_sequence [OF least_free_ok fin rep, of ?ps] show ?thesis
    by (auto simp: listCreate_def)
qed



end
