(* ===== verification/Siphash.thy ===== *)
theory Siphash
  imports Redis_Prelude
begin

text \<open>
  The keyed hash function of the dictionaries, \<^verbatim>\<open>siphash.c\<close> (SipHash 1-2), and its variant that ignores
  the case of letters. Words are 64 bits wide, additions wrap around. Reading outside of the input or of
  the key is a fault.
\<close>

section \<open>Bytes and words\<close>

definition siptlw :: "int \<Rightarrow> int" where
  "siptlw c = (if c \<ge> 65 \<and> c \<le> 90 then c + (97 - 65) else c)"

definition ROTL :: "uint64 \<Rightarrow> nat \<Rightarrow> uint64" where
  "ROTL x b = push_bit b x OR drop_bit (64 - b) x"

definition U32TO8_LE :: "byte list \<Rightarrow> nat \<Rightarrow> uint32 \<Rightarrow> byte list option" where
  "U32TO8_LE buf p v = do {
     buf \<leftarrow> mem_put buf p (ucast v);
     buf \<leftarrow> mem_put buf (p + 1) (ucast (drop_bit 8 v));
     buf \<leftarrow> mem_put buf (p + 2) (ucast (drop_bit 16 v));
     mem_put buf (p + 3) (ucast (drop_bit 24 v))
   }"

definition U64TO8_LE :: "byte list \<Rightarrow> nat \<Rightarrow> uint64 \<Rightarrow> byte list option" where
  "U64TO8_LE buf p v = do {
     buf \<leftarrow> U32TO8_LE buf p (ucast v);
     U32TO8_LE buf (p + 4) (ucast (drop_bit 32 v))
   }"

definition U8TO64_LE :: "byte list \<Rightarrow> nat \<Rightarrow> uint64 option" where
  "U8TO64_LE buf p = do {
     p0 \<leftarrow> mem_get buf p;
     p1 \<leftarrow> mem_get buf (p + 1);
     p2 \<leftarrow> mem_get buf (p + 2);
     p3 \<leftarrow> mem_get buf (p + 3);
     p4 \<leftarrow> mem_get buf (p + 4);
     p5 \<leftarrow> mem_get buf (p + 5);
     p6 \<leftarrow> mem_get buf (p + 6);
     p7 \<leftarrow> mem_get buf (p + 7);
     Some (ucast p0 OR push_bit 8 (ucast p1) OR push_bit 16 (ucast p2) OR push_bit 24 (ucast p3) OR
           push_bit 32 (ucast p4) OR push_bit 40 (ucast p5) OR push_bit 48 (ucast p6) OR push_bit 56 (ucast p7))
   }"

text \<open>A byte read as an \<^verbatim>\<open>int\<close>, lowered, and cast to 64 bits.\<close>

definition low64 :: "byte \<Rightarrow> uint64" where
  "low64 c = word_of_int (siptlw (uint c))"

definition U8TO64_LE_NOCASE :: "byte list \<Rightarrow> nat \<Rightarrow> uint64 option" where
  "U8TO64_LE_NOCASE buf p = do {
     p0 \<leftarrow> mem_get buf p;
     p1 \<leftarrow> mem_get buf (p + 1);
     p2 \<leftarrow> mem_get buf (p + 2);
     p3 \<leftarrow> mem_get buf (p + 3);
     p4 \<leftarrow> mem_get buf (p + 4);
     p5 \<leftarrow> mem_get buf (p + 5);
     p6 \<leftarrow> mem_get buf (p + 6);
     p7 \<leftarrow> mem_get buf (p + 7);
     Some (low64 p0 OR push_bit 8 (low64 p1) OR push_bit 16 (low64 p2) OR push_bit 24 (low64 p3) OR
           push_bit 32 (low64 p4) OR push_bit 40 (low64 p5) OR push_bit 48 (low64 p6) OR push_bit 56 (low64 p7))
   }"

section \<open>The hash\<close>

record sip =
  v0 :: uint64
  v1 :: uint64
  v2 :: uint64
  v3 :: uint64

definition SIPROUND :: "sip \<Rightarrow> sip" where
  "SIPROUND s =
     (let s = s\<lparr>v0 := v0 s + v1 s\<rparr>;
          s = s\<lparr>v1 := ROTL (v1 s) 13\<rparr>;
          s = s\<lparr>v1 := v1 s XOR v0 s\<rparr>;
          s = s\<lparr>v0 := ROTL (v0 s) 32\<rparr>;
          s = s\<lparr>v2 := v2 s + v3 s\<rparr>;
          s = s\<lparr>v3 := ROTL (v3 s) 16\<rparr>;
          s = s\<lparr>v3 := v3 s XOR v2 s\<rparr>;
          s = s\<lparr>v0 := v0 s + v3 s\<rparr>;
          s = s\<lparr>v3 := ROTL (v3 s) 21\<rparr>;
          s = s\<lparr>v3 := v3 s XOR v0 s\<rparr>;
          s = s\<lparr>v2 := v2 s + v1 s\<rparr>;
          s = s\<lparr>v1 := ROTL (v1 s) 17\<rparr>;
          s = s\<lparr>v1 := v1 s XOR v2 s\<rparr>
      in s\<lparr>v2 := ROTL (v2 s) 32\<rparr>)"

definition sip_init :: "uint64 \<Rightarrow> uint64 \<Rightarrow> sip" where
  "sip_init k0 k1 =
     (let s = \<lparr>v0 = 0x736f6d6570736575, v1 = 0x646f72616e646f6d, v2 = 0x6c7967656e657261, v3 = 0x7465646279746573\<rparr>;
          s = s\<lparr>v3 := v3 s XOR k1\<rparr>;
          s = s\<lparr>v2 := v2 s XOR k0\<rparr>;
          s = s\<lparr>v1 := v1 s XOR k1\<rparr>
      in s\<lparr>v0 := v0 s XOR k0\<rparr>)"

text \<open>The absorption of one word, and the loop over the whole words of the input, whose number the bound
  \<^verbatim>\<open>end\<close> fixes. \<open>load\<close> is the macro that reads a word.\<close>

definition sip_absorb :: "uint64 \<Rightarrow> sip \<Rightarrow> sip" where
  "sip_absorb m s =
     (let s = SIPROUND (s\<lparr>v3 := v3 s XOR m\<rparr>) in s\<lparr>v0 := v0 s XOR m\<rparr>)"

primrec sip_loop ::
  "(byte list \<Rightarrow> nat \<Rightarrow> uint64 option) \<Rightarrow> byte list \<Rightarrow> nat \<Rightarrow> nat \<Rightarrow> sip \<Rightarrow> (sip \<times> nat) option" where
  "sip_loop load buf 0 p s = Some (s, p)"
| "sip_loop load buf (Suc n) p s = do {
     m \<leftarrow> load buf p;
     sip_loop load buf n (p + 8) (sip_absorb m s)
   }"

text \<open>One label of the \<^verbatim>\<open>switch\<close>, which falls through to the labels below it.\<close>

definition sip_label ::
  "(byte \<Rightarrow> uint64) \<Rightarrow> byte list \<Rightarrow> nat \<Rightarrow> nat \<Rightarrow> nat \<Rightarrow> nat \<Rightarrow> uint64 \<Rightarrow> uint64 option" where
  "sip_label conv buf p left i sh b =
     (if left \<ge> i + 1 then do { c \<leftarrow> mem_get buf (p + i); Some (b OR push_bit sh (conv c)) } else Some b)"

definition sip_tail :: "(byte \<Rightarrow> uint64) \<Rightarrow> byte list \<Rightarrow> nat \<Rightarrow> nat \<Rightarrow> uint64 \<Rightarrow> uint64 option" where
  "sip_tail conv buf p left b = do {
     b \<leftarrow> sip_label conv buf p left 6 48 b;
     b \<leftarrow> sip_label conv buf p left 5 40 b;
     b \<leftarrow> sip_label conv buf p left 4 32 b;
     b \<leftarrow> sip_label conv buf p left 3 24 b;
     b \<leftarrow> sip_label conv buf p left 2 16 b;
     b \<leftarrow> sip_label conv buf p left 1 8 b;
     sip_label conv buf p left 0 0 b
   }"

definition sip_finish :: "uint64 \<Rightarrow> sip \<Rightarrow> uint64" where
  "sip_finish b s =
     (let s = sip_absorb b s;
          s = s\<lparr>v2 := v2 s XOR 0xff\<rparr>;
          s = SIPROUND (SIPROUND s)
      in v0 s XOR v1 s XOR v2 s XOR v3 s)"

definition siphash :: "byte list \<Rightarrow> nat \<Rightarrow> byte list \<Rightarrow> uint64 option" where
  "siphash inp inlen k = do {
     k0 \<leftarrow> U8TO64_LE k 0;
     k1 \<leftarrow> U8TO64_LE k 8;
     let b = push_bit 56 (of_nat inlen);
     (s, p) \<leftarrow> sip_loop U8TO64_LE inp (inlen div 8) 0 (sip_init k0 k1);
     b \<leftarrow> sip_tail ucast inp p (inlen mod 8) b;
     Some (sip_finish b s)
   }"

definition siphash_nocase :: "byte list \<Rightarrow> nat \<Rightarrow> byte list \<Rightarrow> uint64 option" where
  "siphash_nocase inp inlen k = do {
     k0 \<leftarrow> U8TO64_LE k 0;
     k1 \<leftarrow> U8TO64_LE k 8;
     let b = push_bit 56 (of_nat inlen);
     (s, p) \<leftarrow> sip_loop U8TO64_LE_NOCASE inp (inlen div 8) 0 (sip_init k0 k1);
     b \<leftarrow> sip_tail low64 inp p (inlen mod 8) b;
     Some (sip_finish b s)
   }"

section \<open>Loads and stores\<close>

definition tolower8 :: "byte \<Rightarrow> byte" where
  "tolower8 c = (if 65 \<le> c \<and> c \<le> 90 then c + 32 else c)"

lemma low64_tolower: "low64 c = ucast (tolower8 c)"
proof (cases "65 \<le> c \<and> c \<le> 90")
  case True
  then have u: "65 \<le> uint c" "uint c \<le> 90"
    by (simp_all add: word_le_def)
  then have "uint (c + 32) = uint c + 32"
    by (simp add: uint_word_ariths)
  then have "low64 c = word_of_int (uint (c + 32))"
    using u by (simp add: low64_def siptlw_def)
  then show ?thesis
    using True by (simp add: tolower8_def)
next
  case False
  then have "\<not> (65 \<le> uint c \<and> uint c \<le> 90)"
    by (simp add: word_le_def)
  then show ?thesis
    using False by (auto simp: low64_def siptlw_def tolower8_def)
qed

lemma mem_get_map: "mem_get (map f buf) i = map_option f (mem_get buf i)"
  by (simp add: mem_get_def)

lemma bind_map_option: "Option.bind (map_option f x) g = Option.bind x (\<lambda>a. g (f a))"
  by (cases x) simp_all

lemma load_nocase: "U8TO64_LE_NOCASE buf p = U8TO64_LE (map tolower8 buf) p"
  by (simp only: U8TO64_LE_NOCASE_def U8TO64_LE_def mem_get_map low64_tolower bind_map_option comp_def)

lemma sip_loop_nocase: "sip_loop U8TO64_LE_NOCASE buf n p s = sip_loop U8TO64_LE (map tolower8 buf) n p s"
  by (induction n arbitrary: p s) (simp_all add: load_nocase)

lemma sip_label_nocase: "sip_label low64 buf p left i sh b = sip_label ucast (map tolower8 buf) p left i sh b"
  by (cases "mem_get buf (p + i)") (simp_all add: sip_label_def mem_get_map low64_tolower)

lemma sip_load_ok: "p + 8 \<le> length buf \<Longrightarrow> \<exists>m. U8TO64_LE buf p = Some m"
  by (simp add: U8TO64_LE_def mem_simps)

lemma sip_loop_ok: "p + 8 * n \<le> length buf \<Longrightarrow> \<exists>s'. sip_loop U8TO64_LE buf n p s = Some (s', p + 8 * n)"
proof (induction n arbitrary: p s)
  case (Suc n)
  then show ?case
    using sip_load_ok [of p buf] Suc.IH [of "p + 8"] by (auto simp: add.assoc)
qed simp

lemma sip_label_ok: "p + left \<le> length buf \<Longrightarrow> sip_label conv buf p left i sh b \<noteq> None"
  by (simp add: sip_label_def mem_simps)

lemma bind_total: "x \<noteq> None \<Longrightarrow> (\<And>a. f a \<noteq> None) \<Longrightarrow> Option.bind x f \<noteq> None"
  by (cases x) simp_all

lemma sip_tail_ok: "p + left \<le> length buf \<Longrightarrow> sip_tail conv buf p left b \<noteq> None"
  unfolding sip_tail_def by (intro bind_total sip_label_ok)

lemma siphash_ok:
  assumes "inlen \<le> length inp" "16 \<le> length k"
  shows "\<exists>r. siphash inp inlen k = Some r"
proof -
  obtain k0 k1 where k: "U8TO64_LE k 0 = Some k0" "U8TO64_LE k 8 = Some k1"
    using sip_load_ok [of 0 k] sip_load_ok [of 8 k] assms(2) by auto
  have "0 + 8 * (inlen div 8) \<le> length inp"
    using assms(1) times_div_less_eq_dividend [of 8 inlen] by linarith
  then obtain s where s: "sip_loop U8TO64_LE inp (inlen div 8) 0 (sip_init k0 k1) = Some (s, 8 * (inlen div 8))"
    using sip_loop_ok [of 0 "inlen div 8" inp "sip_init k0 k1"] by auto
  have "8 * (inlen div 8) + inlen mod 8 \<le> length inp"
    using assms(1) by simp
  from sip_tail_ok [OF this, of ucast "push_bit 56 (of_nat inlen)"] k s show ?thesis
    by (auto simp: siphash_def)
qed

section \<open>A permutation\<close>

text \<open>Every step of the round can be undone, so absorbing a word loses nothing of the state.\<close>

lemma ROTL_inj: "b \<le> 64 \<Longrightarrow> ROTL x b = ROTL y b \<longleftrightarrow> x = y"
proof
  assume b: "b \<le> 64" and e: "ROTL x b = ROTL y b"
  show "x = y"
  proof (rule bit_word_eqI)
    fix n
    assume "n < LENGTH(64)"
    then have n: "n < 64"
      by simp
    have r: "bit (ROTL z b) (if n + b < 64 then n + b else n + b - 64) = bit z n" for z :: uint64
    proof (cases "n + b < 64")
      case True
      have "\<not> bit z (64 - b + (n + b))"
        using b by (intro notI) (drule bit_imp_le_length, simp)
      then show ?thesis
        using True by (simp add: ROTL_def bit_or_iff bit_push_bit_iff bit_drop_bit_eq)
    next
      case False
      then have "64 - b + (n + b - 64) = n" "n + b - 64 < b"
        using n b by simp_all
      then show ?thesis
        using False by (simp add: ROTL_def bit_or_iff bit_push_bit_iff bit_drop_bit_eq)
    qed
    show "bit x n = bit y n"
      using e r [of x] r [of y] by simp
  qed
qed simp

lemma xor_right_cancel: "(x :: uint64) XOR z = y XOR z \<longleftrightarrow> x = y"
proof
  assume "x XOR z = y XOR z"
  then have "(x XOR z) XOR z = (y XOR z) XOR z"
    by (simp only:)
  then show "x = y"
    by (simp only: xor.assoc xor_self_eq xor.right_neutral)
qed simp

lemma SIPROUND_inj: "SIPROUND s = SIPROUND t \<longleftrightarrow> s = t"
proof
  assume e: "SIPROUND s = SIPROUND t"
  have v: "v0 (SIPROUND s) = v0 (SIPROUND t)" "v1 (SIPROUND s) = v1 (SIPROUND t)"
    "v2 (SIPROUND s) = v2 (SIPROUND t)" "v3 (SIPROUND s) = v3 (SIPROUND t)"
    by (simp_all only: e)
  define a b c d where "a = ROTL (v0 s + v1 s) 32" and "b = ROTL (v1 s) 13 XOR (v0 s + v1 s)"
    and "c = v2 s + v3 s" and "d = ROTL (v3 s) 16 XOR c"
  define a' b' c' d' where "a' = ROTL (v0 t + v1 t) 32" and "b' = ROTL (v1 t) 13 XOR (v0 t + v1 t)"
    and "c' = v2 t + v3 t" and "d' = ROTL (v3 t) 16 XOR c'"
  have "a + d = a' + d'" "ROTL b 17 XOR (c + b) = ROTL b' 17 XOR (c' + b')" "c + b = c' + b'"
    "ROTL d 21 XOR (a + d) = ROTL d' 21 XOR (a' + d')"
    using v by (simp_all add: SIPROUND_def Let_def ROTL_inj a_def b_def c_def d_def a'_def b'_def c'_def d'_def)
  then have "a = a'" "b = b'" "c = c'" "d = d'"
    by (simp_all add: xor_right_cancel ROTL_inj)
  then have "v0 s + v1 s = v0 t + v1 t" "v1 s = v1 t" "v2 s + v3 s = v2 t + v3 t" "v3 s = v3 t"
    by (simp_all add: a_def a'_def b_def b'_def c_def c'_def d_def d'_def ROTL_inj xor_right_cancel)
  then show "s = t"
    by simp
qed simp

text \<open>C14: The hash that ignores case. For every input of the given length and every key of sixteen bytes both
  functions return without reading outside of their arguments, and \<open>siphash_nocase\<close> of an
  input is \<open>siphash\<close> of the input with its ASCII letters lowered; so keys that differ only in the
  case of their letters have the same hash.\<close>

theorem siphash_nocase_lowers:
  assumes "inlen \<le> length inp" "16 \<le> length k"
  shows "\<exists>r. siphash_nocase inp inlen k = Some r \<and> siphash (map tolower8 inp) inlen k = Some r"
proof -
  have "siphash_nocase inp inlen k = siphash (map tolower8 inp) inlen k"
    by (simp add: siphash_nocase_def siphash_def sip_loop_nocase sip_tail_def sip_label_nocase)
  then show ?thesis
    using siphash_ok [of inlen "map tolower8 inp" k] assms by simp
qed

theorem siphash_nocase_lowers_witness:
  "map tolower8 [0x47, 0x65, 0x54, 0x7b] = [0x67, 0x65, 0x74, 0x7b] \<and>
   (\<exists>r. siphash_nocase [0x47, 0x65, 0x54, 0x7b] 4 (replicate 16 7) = Some r \<and>
     siphash (map tolower8 [0x47, 0x65, 0x54, 0x7b]) 4 (replicate 16 7) = Some r)"
proof -
  have "map tolower8 [0x47, 0x65, 0x54, 0x7b] = [0x67, 0x65, 0x74, 0x7b]"
    by (simp add: tolower8_def)
  moreover have "4 \<le> length [0x47, 0x65, 0x54, 0x7b :: byte]" "16 \<le> length (replicate 16 (7 :: byte))"
    by simp_all
  ultimately show ?thesis
    using siphash_nocase_lowers [of 4 "[0x47, 0x65, 0x54, 0x7b]" "replicate 16 7"] by blast
qed

lemma word_from_bytes:
  fixes v :: uint64
  shows "ucast (ucast (ucast v :: uint32) :: byte) OR push_bit 8 (ucast (ucast (drop_bit 8 (ucast v :: uint32)) :: byte)) OR
    push_bit 16 (ucast (ucast (drop_bit 16 (ucast v :: uint32)) :: byte)) OR
    push_bit 24 (ucast (ucast (drop_bit 24 (ucast v :: uint32)) :: byte)) OR
    push_bit 32 (ucast (ucast (ucast (drop_bit 32 v) :: uint32) :: byte)) OR
    push_bit 40 (ucast (ucast (drop_bit 8 (ucast (drop_bit 32 v) :: uint32)) :: byte)) OR
    push_bit 48 (ucast (ucast (drop_bit 16 (ucast (drop_bit 32 v) :: uint32)) :: byte)) OR
    push_bit 56 (ucast (ucast (drop_bit 24 (ucast (drop_bit 32 v) :: uint32)) :: byte)) = v"
proof (rule bit_word_eqI)
  fix n
  assume "n < LENGTH(64)"
  then have n: "n < 64"
    by simp
  have c: "n < 8 \<or> 8 \<le> n \<and> n < 16 \<or> 16 \<le> n \<and> n < 24 \<or> 24 \<le> n \<and> n < 32 \<or> 32 \<le> n \<and> n < 40 \<or>
      40 \<le> n \<and> n < 48 \<or> 48 \<le> n \<and> n < 56 \<or> 56 \<le> n"
    by linarith
  show "bit (ucast (ucast (ucast v :: uint32) :: byte) OR push_bit 8 (ucast (ucast (drop_bit 8 (ucast v :: uint32)) :: byte)) OR
    push_bit 16 (ucast (ucast (drop_bit 16 (ucast v :: uint32)) :: byte)) OR
    push_bit 24 (ucast (ucast (drop_bit 24 (ucast v :: uint32)) :: byte)) OR
    push_bit 32 (ucast (ucast (ucast (drop_bit 32 v) :: uint32) :: byte)) OR
    push_bit 40 (ucast (ucast (drop_bit 8 (ucast (drop_bit 32 v) :: uint32)) :: byte)) OR
    push_bit 48 (ucast (ucast (drop_bit 16 (ucast (drop_bit 32 v) :: uint32)) :: byte)) OR
    push_bit 56 (ucast (ucast (drop_bit 24 (ucast (drop_bit 32 v) :: uint32)) :: byte)) :: uint64) n = bit v n"
    using n c by (elim disjE) (auto simp: bit_or_iff bit_push_bit_iff bit_unsigned_iff bit_drop_bit_eq)
qed

lemma store_load:
  assumes "p + 8 \<le> length buf"
  shows "\<exists>buf'. U64TO8_LE buf p v = Some buf' \<and> U8TO64_LE buf' p = Some v"
  using assms word_from_bytes [of v]
  by (simp add: U64TO8_LE_def U32TO8_LE_def U8TO64_LE_def mem_put_def mem_get_def nth_list_update add.commute)

end
