(* ===== verification/Bitops.thy ===== *)
theory Bitops
  imports Redis_Prelude
begin

text \<open>
  The bit fields of \<^verbatim>\<open>bitops.c\<close>: reading and writing an integer of any width at any bit
  offset of a string, the detection of overflows of such an integer, and the search for the first bit of
  a value. Offsets and values are 64-bit words, signed comparisons read them by \<^const>\<open>sint\<close>.
\<close>

section \<open>Reading and writing\<close>

text \<open>The loops count the bits left; bit \<open>bits - 1 - j\<close> of the value is written in step \<open>j\<close>.\<close>

primrec setUnsignedBitfield_loop :: "nat \<Rightarrow> byte list \<Rightarrow> uint64 \<Rightarrow> uint64 \<Rightarrow> byte list option" where
  "setUnsignedBitfield_loop 0 p offset v = Some p"
| "setUnsignedBitfield_loop (Suc n) p offset v = do {
     let bitval = (if v AND push_bit n 1 \<noteq> 0 then 1 else 0 :: uint64);
     let byte = unat (drop_bit 3 offset);
     let bt = 7 - unat (offset AND 7);
     b \<leftarrow> mem_get p byte;
     let byteval = (ucast b :: uint64);
     let byteval = byteval AND NOT (push_bit bt 1);
     let byteval = byteval OR push_bit bt bitval;
     p \<leftarrow> mem_put p byte (ucast (byteval AND 0xff));
     setUnsignedBitfield_loop n p (offset + 1) v
   }"

definition setUnsignedBitfield :: "byte list \<Rightarrow> uint64 \<Rightarrow> nat \<Rightarrow> uint64 \<Rightarrow> byte list option" where
  "setUnsignedBitfield p offset bits v = setUnsignedBitfield_loop bits p offset v"

definition setSignedBitfield :: "byte list \<Rightarrow> uint64 \<Rightarrow> nat \<Rightarrow> uint64 \<Rightarrow> byte list option" where
  "setSignedBitfield p offset bits v = (let uv = v in setUnsignedBitfield p offset bits uv)"

primrec getUnsignedBitfield_loop :: "nat \<Rightarrow> byte list \<Rightarrow> uint64 \<Rightarrow> uint64 \<Rightarrow> uint64 option" where
  "getUnsignedBitfield_loop 0 p offset v = Some v"
| "getUnsignedBitfield_loop (Suc n) p offset v = do {
     let byte = unat (drop_bit 3 offset);
     let bt = 7 - unat (offset AND 7);
     b \<leftarrow> mem_get p byte;
     let bitval = drop_bit bt (ucast b) AND 1;
     getUnsignedBitfield_loop n p (offset + 1) (push_bit 1 v OR bitval)
   }"

definition getUnsignedBitfield :: "byte list \<Rightarrow> uint64 \<Rightarrow> nat \<Rightarrow> uint64 option" where
  "getUnsignedBitfield p offset bits = getUnsignedBitfield_loop bits p offset 0"

definition getSignedBitfield :: "byte list \<Rightarrow> uint64 \<Rightarrow> nat \<Rightarrow> uint64 option" where
  "getSignedBitfield p offset bits = do {
     v \<leftarrow> getUnsignedBitfield p offset bits;
     Some (if bits < 64 \<and> v AND push_bit (bits - 1) 1 \<noteq> 0 then v OR push_bit bits (- 1) else v)
   }"

section \<open>Overflow\<close>

datatype bfoverflow = BFOVERFLOW_WRAP | BFOVERFLOW_SAT | BFOVERFLOW_FAIL

text \<open>The result of the check and what it stores through \<^verbatim>\<open>limit\<close>, if anything; \<open>limit\<close> says whether the pointer
  is not \<^verbatim>\<open>NULL\<close>.\<close>

definition checkUnsignedBitfieldOverflow ::
  "uint64 \<Rightarrow> uint64 \<Rightarrow> nat \<Rightarrow> bfoverflow \<Rightarrow> bool \<Rightarrow> int \<times> uint64 option" where
  "checkUnsignedBitfieldOverflow v incr bits owtype limit =
     (let mx = (if bits = 64 then - 1 else push_bit bits 1 - 1);
          maxincr = mx - v;
          minincr = - v;
          wrap = (let msk = push_bit bits (- 1); res = v + incr; res = res AND NOT msk in (1, Some res)) in
      if v > mx \<or> (sint incr > 0 \<and> sint incr > sint maxincr) then
        if limit \<and> owtype = BFOVERFLOW_WRAP then wrap
        else if limit \<and> owtype = BFOVERFLOW_SAT then (1, Some mx)
        else (1, None)
      else if sint incr < 0 \<and> sint incr < sint minincr then
        if limit \<and> owtype = BFOVERFLOW_WRAP then wrap
        else if limit \<and> owtype = BFOVERFLOW_SAT then (-1, Some 0)
        else (-1, None)
      else (0, None))"

text \<open>\<^verbatim>\<open>min-value\<close> is a subtraction of signed numbers, which C leaves undefined where it overflows; the
  cast that the comment before it mentions is only on the line of \<^verbatim>\<open>maxincr\<close>. The parameter \<open>ov\<close> is what the compiled
  subtraction gives there.\<close>

definition ssub64 :: "(uint64 \<Rightarrow> uint64 \<Rightarrow> uint64) \<Rightarrow> uint64 \<Rightarrow> uint64 \<Rightarrow> uint64" where
  "ssub64 ov a b = (if - (2 ^ 63) \<le> sint a - sint b \<and> sint a - sint b < 2 ^ 63 then a - b else ov a b)"

definition checkSignedBitfieldOverflow ::
  "(uint64 \<Rightarrow> uint64 \<Rightarrow> uint64) \<Rightarrow> uint64 \<Rightarrow> uint64 \<Rightarrow> nat \<Rightarrow> bfoverflow \<Rightarrow> bool \<Rightarrow> int \<times> uint64 option" where
  "checkSignedBitfieldOverflow ov v incr bits owtype limit =
     (let mx = (if bits = 64 then 0x7fffffffffffffff else push_bit (bits - 1) 1 - 1);
          mn = (- mx) - 1;
          maxincr = mx - v;
          minincr = ssub64 ov mn v;
          wrap = (let msb = push_bit (bits - 1) 1; c = v + incr;
                      c = (if bits < 64 then
                             let msk = push_bit bits (- 1) in
                             if c AND msb \<noteq> 0 then c OR msk else c AND NOT msk
                           else c)
                  in (1, Some c)) in
      if sint v > sint mx \<or> (bits \<noteq> 64 \<and> sint incr > sint maxincr) \<or>
         (sint v \<ge> 0 \<and> sint incr > 0 \<and> sint incr > sint maxincr) then
        if limit \<and> owtype = BFOVERFLOW_WRAP then wrap
        else if limit \<and> owtype = BFOVERFLOW_SAT then (1, Some mx)
        else (1, None)
      else if sint v < sint mn \<or> (bits \<noteq> 64 \<and> sint incr < sint minincr) \<or>
         (sint v < 0 \<and> sint incr < 0 \<and> sint incr < sint minincr) then
        if limit \<and> owtype = BFOVERFLOW_WRAP then wrap
        else if limit \<and> owtype = BFOVERFLOW_SAT then (-1, Some mn)
        else (-1, None)
      else (0, None))"

section \<open>Bits of a string\<close>

text \<open>Bit 0 is the most significant bit of the first byte.\<close>

definition bitat :: "byte list \<Rightarrow> nat \<Rightarrow> bool" where
  "bitat p i \<longleftrightarrow> bit (p ! (i div 8)) (7 - i mod 8)"

lemma unat_div8: "unat (drop_bit 3 (w :: uint64)) = unat w div 8"
  by (simp add: drop_bit_eq_div unat_div_distrib)

lemma unat_mod8: "unat ((w :: uint64) AND 7) = unat w mod 8"
proof -
  have "(7 :: uint64) = mask 3"
    by (simp add: mask_eq_exp_minus_1)
  then have "unat (w AND 7) = take_bit 3 (unat w)"
    by (simp only: take_bit_eq_mask [symmetric] unsigned_take_bit_eq)
  then show ?thesis
    by (simp add: take_bit_eq_mod)
qed

lemma and_single: "(w :: uint64) AND push_bit n 1 \<noteq> 0 \<longleftrightarrow> bit w n"
proof
  assume "w AND push_bit n 1 \<noteq> 0"
  then obtain i where "bit (w AND push_bit n 1) i"
    by (auto simp: bit_eq_iff)
  then show "bit w n"
    by (auto simp: bit_and_iff bit_exp_iff)
next
  assume b: "bit w n"
  then have "n < 64"
    using bit_imp_le_length by fastforce
  with b have "bit (w AND push_bit n 1) n"
    by (simp add: bit_and_iff bit_exp_iff)
  then show "w AND push_bit n 1 \<noteq> 0"
    by (metis bit_0_eq bot_apply bot_bool_def)
qed

lemma set_bit_byte:
  assumes "k \<le> 7" "i < 8"
  shows "bit (ucast (((ucast (b :: byte) :: uint64) AND NOT (push_bit k 1) OR push_bit k (if c then 1 else 0)) AND 0xff) :: byte) i =
    (if i = k then c else bit b i)"
proof -
  have m: "(0xff :: uint64) = mask 8"
    by (simp add: mask_eq_exp_minus_1)
  show ?thesis
    unfolding m using assms
    by (auto simp: bit_unsigned_iff bit_and_iff bit_or_iff bit_not_iff bit_exp_iff bit_mask_iff)
qed

lemma bitat_update:
  assumes "j < 8 * length p" "i < 8 * length p"
    and "\<And>k. k < 8 \<Longrightarrow> bit b k = (if k = 7 - j mod 8 then c else bit (p ! (j div 8)) k)"
  shows "bitat (p[j div 8 := b]) i = (if i = j then c else bitat p i)"
proof (cases "i div 8 = j div 8")
  case True
  have "7 - i mod 8 = 7 - j mod 8 \<longleftrightarrow> i mod 8 = j mod 8"
    using mod_less_divisor [of 8 i] mod_less_divisor [of 8 j] by linarith
  also have "\<dots> \<longleftrightarrow> i = j"
    using True by (metis div_mult_mod_eq)
  finally show ?thesis
    using True assms(1) assms(3) [of "7 - i mod 8"] by (simp add: bitat_def less_mult_imp_div_less mult.commute)
next
  case False
  then show ?thesis
    by (auto simp: bitat_def)
qed

lemma unat64_Suc_less: "unat (w :: uint64) + 1 < 2 ^ 64 \<Longrightarrow> unat (w + 1) = unat w + 1"
  by (subst unat_plus_if_size) (simp add: word_size)

lemma setUnsignedBitfield_loop_bits:
  assumes "unat offset + n \<le> 8 * length p" "8 * length p < 2 ^ 64"
  shows "\<exists>p'. setUnsignedBitfield_loop n p offset v = Some p' \<and> length p' = length p \<and>
    (\<forall>i<8 * length p. bitat p' i =
      (if unat offset \<le> i \<and> i < unat offset + n then bit v (unat offset + n - 1 - i) else bitat p i))"
  using assms
proof (induction n arbitrary: p offset)
  case (Suc n)
  let ?o = "unat offset"
  let ?b = "p ! (?o div 8)"
  let ?b' = "ucast (((ucast ?b :: uint64) AND NOT (push_bit (7 - ?o mod 8) 1) OR
    push_bit (7 - ?o mod 8) (if bit v n then 1 else 0)) AND 0xff) :: byte"
  let ?p = "p[?o div 8 := ?b']"
  have lt: "?o < 8 * length p" and dv: "?o div 8 < length p"
    using Suc.prems(1) by simp_all
  have "?o + 1 < 2 ^ 64"
    using Suc.prems by linarith
  then have nxt: "unat (offset + 1) = ?o + 1"
    by (rule unat64_Suc_less)
  have upd: "bitat ?p i = (if i = ?o then bit v n else bitat p i)" if "i < 8 * length p" for i
    using lt that by (rule bitat_update) (rule set_bit_byte, simp)
  have "unat (offset + 1) + n \<le> 8 * length ?p" "8 * length ?p < 2 ^ 64"
    unfolding nxt using Suc.prems by simp_all
  from Suc.IH [OF this] obtain p' where p': "setUnsignedBitfield_loop n ?p (offset + 1) v = Some p'"
    "length p' = length p"
    "\<forall>i<8 * length p. bitat p' i =
      (if ?o + 1 \<le> i \<and> i < ?o + 1 + n then bit v (?o + 1 + n - 1 - i) else bitat ?p i)"
    unfolding nxt by auto
  have "bitat p' i = (if ?o \<le> i \<and> i < ?o + Suc n then bit v (?o + Suc n - 1 - i) else bitat p i)"
    if "i < 8 * length p" for i
    using p'(3) upd that by auto
  moreover have "setUnsignedBitfield_loop (Suc n) p offset v = Some p'"
    using p'(1) dv by (simp only: setUnsignedBitfield_loop.simps Let_def unat_div8 unat_mod8 and_single
        mem_get_Some mem_put_Some Option.bind.simps)
  ultimately show ?case
    using p'(2) by blast
qed auto

lemma getUnsignedBitfield_loop_bits:
  assumes "unat offset + n \<le> 8 * length p" "8 * length p < 2 ^ 64"
  shows "\<exists>r. getUnsignedBitfield_loop n p offset v = Some r \<and>
    (\<forall>k<64. bit r k = (if k < n then bitat p (unat offset + n - 1 - k) else bit v (k - n)))"
  using assms
proof (induction n arbitrary: v offset)
  case (Suc n)
  let ?o = "unat offset"
  let ?v = "push_bit 1 v OR (drop_bit (7 - ?o mod 8) (ucast (p ! (?o div 8))) AND 1)"
  have dv: "?o div 8 < length p"
    using Suc.prems(1) by simp
  have "?o + 1 < 2 ^ 64"
    using Suc.prems by linarith
  then have nxt: "unat (offset + 1) = ?o + 1"
    by (rule unat64_Suc_less)
  have bv: "bit ?v k = (if k = 0 then bitat p ?o else bit v (k - 1))" if "k < 64" for k
    using that unfolding bit_or_iff bit_and_iff bit_push_bit_iff bit_drop_bit_eq bit_1_iff bit_unsigned_iff
    by (auto simp: bitat_def bit_unsigned_iff)
  have "unat (offset + 1) + n \<le> 8 * length p"
    unfolding nxt using Suc.prems by simp
  from Suc.IH [OF this Suc.prems(2), of ?v] obtain r where r: "getUnsignedBitfield_loop n p (offset + 1) ?v = Some r"
    "\<forall>k<64. bit r k = (if k < n then bitat p (?o + 1 + n - 1 - k) else bit ?v (k - n))"
    unfolding nxt by auto
  have "bit r k = (if k < Suc n then bitat p (?o + Suc n - 1 - k) else bit v (k - Suc n))" if "k < 64" for k
  proof (cases "k < n")
    case False
    have "bit r k = bit ?v (k - n)"
      using r(2) that False by (simp only: if_False)
    also have "\<dots> = (if k - n = 0 then bitat p ?o else bit v (k - n - 1))"
      by (rule bv) (use that in simp)
    finally have r: "bit r k = (if k - n = 0 then bitat p ?o else bit v (k - n - 1))" .
    show ?thesis
    proof (cases "k = n")
      case True
      then show ?thesis
        using r by simp
    next
      case ne: False
      then have "k - n \<noteq> 0" "k - n - 1 = k - Suc n" "\<not> k < Suc n"
        using False by simp_all
      then show ?thesis
        using r by (simp only: if_False)
    qed
  next
    case True
    then show ?thesis
      using r(2) that by simp
  qed
  moreover have "getUnsignedBitfield_loop (Suc n) p offset v = Some r"
    using r(1) dv by (simp only: getUnsignedBitfield_loop.simps Let_def unat_div8 unat_mod8 mem_get_Some Option.bind.simps)
  ultimately show ?case
    by blast
qed simp

section \<open>Overflow checks\<close>

lemma sint_in_range: "- (2 ^ 63) \<le> sint (w :: uint64)" "sint (w :: uint64) < 2 ^ 63"
  using sint_greater_eq [of w] sint_lt [of w] by simp_all

lemma sint64_word_of_int:
  assumes "- (2 ^ 63) \<le> k" "k < 2 ^ 63"
  shows "sint (word_of_int k :: uint64) = k"
proof -
  have "sint (word_of_int k :: uint64) = signed_take_bit 63 k"
    by (simp add: signed_of_int)
  also have "\<dots> = k"
    using assms by (rule signed_take_bit_int_eq_self)
  finally show ?thesis .
qed

lemma uint64_word_of_int: "0 \<le> k \<Longrightarrow> k < 2 ^ 64 \<Longrightarrow> uint (word_of_int k :: uint64) = k"
  by (simp add: unsigned_of_int take_bit_int_eq_self)

lemma word_sum: "(v :: uint64) + w = word_of_int (uint v + sint w)" "(v :: uint64) + w = word_of_int (sint v + sint w)"
  by simp_all

text \<open>What the comment before the two functions promises, over the integers: the verdict on the value \<open>x\<close> and the sum
  \<open>x + y\<close> in the range from \<open>lo\<close> to \<open>hi\<close>, 1 for an overflow, -1 for an underflow and 0 otherwise, and the value to
  store, where \<open>wrap\<close> reduces a sum into the range.\<close>

definition overflow_store :: "bfoverflow \<Rightarrow> bool \<Rightarrow> int \<Rightarrow> int \<Rightarrow> int option" where
  "overflow_store owtype limit wrapped bound =
     (if limit then
        (case owtype of BFOVERFLOW_WRAP \<Rightarrow> Some wrapped | BFOVERFLOW_SAT \<Rightarrow> Some bound | BFOVERFLOW_FAIL \<Rightarrow> None)
      else None)"

definition overflow_spec ::
  "int \<Rightarrow> int \<Rightarrow> (int \<Rightarrow> int) \<Rightarrow> int \<Rightarrow> int \<Rightarrow> bfoverflow \<Rightarrow> bool \<Rightarrow> int \<times> int option" where
  "overflow_spec lo hi wrap x y owtype limit =
     (if x > hi \<or> x + y > hi then (1, overflow_store owtype limit (wrap (x + y)) hi)
      else if x < lo \<or> x + y < lo then
        (- 1, overflow_store owtype limit (wrap (x + y)) lo)
      else (0, None))"

text \<open>The verdict that the code returns: its label \<^verbatim>\<open>handle_wrap\<close> returns 1 for an underflow too.\<close>

definition wrap_verdict :: "bfoverflow \<Rightarrow> bool \<Rightarrow> int \<Rightarrow> int" where
  "wrap_verdict owtype limit r = (if limit \<and> owtype = BFOVERFLOW_WRAP then \<bar>r\<bar> else r)"

lemmas overflow_defs = overflow_spec_def overflow_store_def wrap_verdict_def

lemma wrap_unsigned: "(c :: uint64) AND NOT (push_bit k (- 1)) = take_bit k c"
  by (rule bit_word_eqI) (auto simp: bit_and_iff bit_not_iff bit_push_bit_iff bit_take_bit_iff bit_minus_1_iff bit_mask_iff)

lemma uint_take_sum: "k \<le> 64 \<Longrightarrow> uint (take_bit k ((v :: uint64) + w)) = (uint v + sint w) mod 2 ^ k"
proof -
  assume k: "k \<le> 64"
  have "uint (take_bit k (v + w)) = take_bit k (uint (v + w))"
    by (simp add: unsigned_take_bit_eq)
  also have "uint (v + w) = take_bit 64 (uint v + sint w)"
    unfolding word_sum(1) [of v w] unsigned_of_int by (simp only: len_of_numeral_defs) simp
  finally show ?thesis
    using k by (simp add: take_bit_eq_mod [symmetric] min_def)
qed

text \<open>The extremes that the checks compute.\<close>

lemma unsigned_extremes:
  assumes "bits \<le> 63" "B = (2 :: int) ^ bits" "mx = (push_bit bits 1 - 1 :: uint64)"
  shows "1 \<le> B" "B \<le> 2 ^ 63" "uint mx = B - 1" "mx - v = word_of_int (B - 1 - uint v)"
proof -
  show B: "1 \<le> B" "B \<le> 2 ^ 63"
    using assms(1) unfolding assms(2) by (simp, intro power_increasing) simp_all
  have m: "mx = word_of_int (B - 1)"
    unfolding assms(2,3) by simp
  show "uint mx = B - 1"
    unfolding m using B by (intro uint64_word_of_int) simp_all
  show "mx - v = word_of_int (B - 1 - uint v)"
    unfolding m by simp
qed

lemma checkUnsigned_correct:
  assumes "bits \<le> 63"
  shows "map_prod id (map_option uint) (checkUnsignedBitfieldOverflow v incr bits owtype limit) =
     map_prod (wrap_verdict owtype limit) id
       (overflow_spec 0 (2 ^ bits - 1) (\<lambda>s. s mod 2 ^ bits) (uint v) (sint incr) owtype limit)"
proof -
  define B mx where "B = (2 :: int) ^ bits" and "mx = (push_bit bits 1 - 1 :: uint64)"
  note ext = unsigned_extremes [OF assms B_def mx_def]
  have gt: "v > mx \<longleftrightarrow> uint v > B - 1"
    by (simp add: word_less_def ext(3))
  have mxi: "sint (mx - v) = B - 1 - uint v" if "uint v \<le> B - 1"
    unfolding ext(4)
  proof (rule sint64_word_of_int)
    show "- (2 ^ 63) \<le> B - 1 - uint v"
      using that by simp
    show "B - 1 - uint v < 2 ^ 63"
      using ext(2) uint_ge_0 [of v] by linarith
  qed
  have mni: "sint (- v) = - uint v" if "uint v \<le> B - 1"
  proof -
    have "- v = word_of_int (- uint v)"
      by simp
    moreover have "- (2 ^ 63) \<le> - uint v" "- uint v < 2 ^ 63"
      using that ext(2) uint_ge_0 [of v] by linarith+
    ultimately show ?thesis
      by (simp only: sint64_word_of_int)
  qed
  have over: "(v > mx \<or> (sint incr > 0 \<and> sint incr > sint (mx - v))) \<longleftrightarrow>
      (uint v > B - 1 \<or> uint v + sint incr > B - 1)"
    using gt mxi by (cases "uint v > B - 1") auto
  have under: "(sint incr < 0 \<and> sint incr < sint (- v)) \<longleftrightarrow> (uint v < 0 \<or> uint v + sint incr < 0)"
    if "uint v \<le> B - 1"
    using mni [OF that] uint_ge_0 [of v] by linarith
  have wr: "uint ((v + incr) AND NOT (push_bit bits (- 1))) = (uint v + sint incr) mod B"
    unfolding wrap_unsigned B_def using assms by (intro uint_take_sum) simp
  have b64: "bits \<noteq> 64"
    using assms by simp
  have ez: "uint (0 :: uint64) = 0"
    by simp
  show ?thesis
  proof (cases "uint v > B - 1 \<or> uint v + sint incr > B - 1")
    case True
    then show ?thesis
      using over wr ext(3) b64
      unfolding checkUnsignedBitfieldOverflow_def Let_def overflow_defs
        mx_def [symmetric] B_def [symmetric]
      by (cases owtype) auto
  next
    case False
    then show ?thesis
      using over under wr b64
      unfolding checkUnsignedBitfieldOverflow_def Let_def overflow_defs
        mx_def [symmetric] B_def [symmetric]
      by (cases owtype) auto
  qed
qed

lemma signed_extremes:
  assumes "1 \<le> bits" "bits \<le> 64" "H = (2 :: int) ^ (bits - 1)"
    "mx = (if bits = 64 then 0x7fffffffffffffff else push_bit (bits - 1) 1 - 1 :: uint64)"
  shows "1 \<le> H" "H \<le> 2 ^ 63" "mx = word_of_int (H - 1)" "sint mx = H - 1" "sint (- mx - 1) = - H"
    "mx - v = word_of_int (H - 1 - sint v)" "(- mx - 1) - v = word_of_int (- H - sint v)" "bits = 64 \<Longrightarrow> H = 2 ^ 63"
proof -
  show H: "1 \<le> H" "H \<le> 2 ^ 63"
    using assms(2) unfolding assms(3) by (simp, intro power_increasing) simp_all
  show h64: "H = 2 ^ 63" if "bits = 64"
    using that unfolding assms(3) by simp
  show m: "mx = word_of_int (H - 1)"
  proof (cases "bits = 64")
    case True
    then show ?thesis
      unfolding assms(4) h64 [OF True] by simp
  next
    case False
    then show ?thesis
      unfolding assms(3,4) by simp
  qed
  have m1: "- mx - 1 = word_of_int (- H)"
    unfolding m by simp
  show "sint mx = H - 1"
    unfolding m using H by (intro sint64_word_of_int) simp_all
  show "sint (- mx - 1) = - H"
    unfolding m1 using H by (intro sint64_word_of_int) simp_all
  show "mx - v = word_of_int (H - 1 - sint v)" "(- mx - 1) - v = word_of_int (- H - sint v)"
    unfolding m by simp_all
qed

lemma sint_sign_extended:
  assumes "\<And>i. i < 64 \<Longrightarrow> bit d i = bit (c :: uint64) (min i k)" "k \<le> 63"
  shows "sint (d :: uint64) = signed_take_bit k (sint c)"
proof (rule bit_eqI)
  fix n
  have "bit d (min n 63) = bit c (min (min n 63) k)"
    by (rule assms(1)) simp
  then show "bit (sint d) n = bit (signed_take_bit k (sint c)) n"
    by (simp add: bit_signed_iff bit_signed_take_bit_iff min.commute min.left_commute min.assoc)
qed

lemma wrap_signed:
  assumes "1 \<le> bits" "bits \<le> 64"
  shows "sint (if bits < 64 then
      if (c :: uint64) AND push_bit (bits - 1) 1 \<noteq> 0 then c OR push_bit bits (- 1) else c AND NOT (push_bit bits (- 1))
    else c) = signed_take_bit (bits - 1) (sint c)" (is "sint ?c = _")
proof (rule sint_sign_extended)
  fix i :: nat
  assume i: "i < 64"
  show "bit ?c i = bit c (min i (bits - 1))"
  proof (cases "bits < 64")
    case True
    show ?thesis
      unfolding and_single using True assms i
      by (auto simp: bit_or_iff bit_and_iff bit_not_iff bit_push_bit_iff bit_minus_1_iff bit_mask_iff min_def le_eq_less_or_eq)
  next
    case False
    then show ?thesis
      using assms i by (simp add: min_def)
  qed
next
  show "bits - 1 \<le> 63"
    using assms by simp
qed

lemma sint_sum: "signed_take_bit k (sint ((v :: uint64) + w)) = signed_take_bit k (sint v + sint w)" if "k \<le> 63"
proof -
  have "sint (v + w) = signed_take_bit 63 (sint v + sint w)"
    unfolding word_sum(2) [of v w] by (simp only: signed_of_int len_of_numeral_defs) simp
  then show ?thesis
    using that by (simp add: min_def)
qed

lemma checkSigned_correct:
  assumes "1 \<le> bits" "bits \<le> 64" "bits \<noteq> 64 \<longrightarrow> 2 ^ (bits - 1) - 2 ^ 63 \<le> sint v"
  shows "map_prod id (map_option sint) (checkSignedBitfieldOverflow ov v incr bits owtype limit) =
     map_prod (wrap_verdict owtype limit) id
       (overflow_spec (- (2 ^ (bits - 1))) (2 ^ (bits - 1) - 1) (signed_take_bit (bits - 1)) (sint v) (sint incr) owtype limit)"
proof -
  define H mx where "H = (2 :: int) ^ (bits - 1)"
    and "mx = (if bits = 64 then 0x7fffffffffffffff else push_bit (bits - 1) 1 - 1 :: uint64)"
  define c where "c = (if bits < 64 then
      if (v + incr) AND push_bit (bits - 1) 1 \<noteq> 0 then (v + incr) OR push_bit bits (- 1)
      else (v + incr) AND NOT (push_bit bits (- 1)) else v + incr)"
  note ext = signed_extremes [OF assms(1,2) H_def mx_def]
  note rng = sint_in_range [of v] sint_in_range [of incr]
  have lo: "H - 2 ^ 63 \<le> sint v" if "bits \<noteq> 64"
    using assms(3) that unfolding H_def by blast
  have mxi: "sint (mx - v) = H - 1 - sint v" if "bits \<noteq> 64 \<or> 0 \<le> sint v" "sint v \<le> H - 1"
    unfolding ext(6) using that ext(1,2) rng lo by (intro sint64_word_of_int) linarith+
  have mni: "sint (ssub64 ov (- mx - 1) v) = - H - sint v" if "bits \<noteq> 64 \<or> sint v < 0" "sint v \<le> H - 1" "- H \<le> sint v"
  proof -
    have "H \<le> 2 ^ 62" if "bits \<noteq> 64"
      unfolding H_def using assms(1,2) that by (intro power_increasing) auto
    then have "- (2 ^ 63) \<le> - H - sint v" "- H - sint v < 2 ^ 63"
      using that ext(1,2) rng by (auto split: if_splits)
    then show ?thesis
      unfolding ssub64_def ext(5,7) by (simp only: if_True simp_thms sint64_word_of_int)
  qed
  have over: "(sint v > sint mx \<or> (bits \<noteq> 64 \<and> sint incr > sint (mx - v)) \<or>
      (sint v \<ge> 0 \<and> sint incr > 0 \<and> sint incr > sint (mx - v))) \<longleftrightarrow> (sint v > H - 1 \<or> sint v + sint incr > H - 1)"
    using mxi ext(4,8) rng by (cases "sint v \<le> H - 1"; cases "bits = 64") auto
  have under: "(sint v < sint (- mx - 1) \<or> (bits \<noteq> 64 \<and> sint incr < sint (ssub64 ov (- mx - 1) v)) \<or>
      (sint v < 0 \<and> sint incr < 0 \<and> sint incr < sint (ssub64 ov (- mx - 1) v))) \<longleftrightarrow> (sint v < - H \<or> sint v + sint incr < - H)"
    if "sint v \<le> H - 1"
    using mni that ext(5,8) rng by (cases "- H \<le> sint v"; cases "bits = 64") auto
  have wr: "sint c = signed_take_bit (bits - 1) (sint v + sint incr)"
    unfolding c_def wrap_signed [OF assms(1,2)] using assms(2) by (intro sint_sum) simp
  have mn: "sint (- mx - 1) = - H"
    by (rule ext(5))
  show ?thesis
  proof (cases "sint v > H - 1 \<or> sint v + sint incr > H - 1")
    case True
    then show ?thesis
      using over wr ext(4)
      unfolding checkSignedBitfieldOverflow_def Let_def overflow_defs
        mx_def [symmetric] H_def [symmetric] c_def [symmetric]
      by (cases owtype) auto
  next
    case False
    then show ?thesis
      using over under wr mn
      unfolding checkSignedBitfieldOverflow_def Let_def overflow_defs
        mx_def [symmetric] H_def [symmetric] c_def [symmetric]
      by (cases owtype) auto
  qed
qed

section \<open>Properties\<close>

text \<open>C11: Round trip of bit fields. Writing a value of \<open>bits\<close> bits at an offset of a string stays inside of the
  string and changes exactly these bits of it. Reading the field back gives the low bits of the value,
  as an unsigned number, and extended by their sign as a signed one.\<close>

theorem bitfield_roundtrip:
  assumes "1 \<le> bits" "bits \<le> 64" "unat offset + bits \<le> 8 * length p" "8 * length p < 2 ^ 64"
  shows "\<exists>p'. setUnsignedBitfield p offset bits v = Some p' \<and> setSignedBitfield p offset bits v = Some p' \<and>
     length p' = length p \<and>
     (\<forall>i<8 * length p. i < unat offset \<or> unat offset + bits \<le> i \<longrightarrow> bitat p' i = bitat p i) \<and>
     getUnsignedBitfield p' offset bits = Some (take_bit bits v) \<and>
     map_option sint (getSignedBitfield p' offset bits) = Some (signed_take_bit (bits - 1) (sint v))"
proof -
  obtain p' where p': "setUnsignedBitfield_loop bits p offset v = Some p'" "length p' = length p"
    "\<forall>i<8 * length p. bitat p' i =
      (if unat offset \<le> i \<and> i < unat offset + bits then bit v (unat offset + bits - 1 - i) else bitat p i)"
    using setUnsignedBitfield_loop_bits [OF assms(3,4), of v] by blast
  have "unat offset + bits \<le> 8 * length p'" "8 * length p' < 2 ^ 64"
    unfolding p'(2) by (rule assms(3,4))+
  from getUnsignedBitfield_loop_bits [OF this, of 0] obtain r where
    r: "getUnsignedBitfield_loop bits p' offset 0 = Some r"
      "\<forall>k<64. bit r k = (if k < bits then bitat p' (unat offset + bits - 1 - k) else bit (0 :: uint64) (k - bits))"
    by blast
  have bv: "bit r k = (k < bits \<and> bit v k)" if "k < 64" for k
  proof (cases "k < bits")
    case True
    then have i: "unat offset + bits - 1 - k < 8 * length p" "unat offset \<le> unat offset + bits - 1 - k"
      "unat offset + bits - 1 - k < unat offset + bits" "unat offset + bits - 1 - (unat offset + bits - 1 - k) = k"
      using assms(1,3) by linarith+
    have "bitat p' (unat offset + bits - 1 - k) = bit v k"
      using p'(3) i by (simp only: simp_thms if_True)
    then show ?thesis
      using r(2) that True by simp
  qed (use r(2) that in simp)
  then have rv: "r = take_bit bits v"
    by (intro bit_word_eqI) (simp add: bit_take_bit_iff)
  have sx: "sint (if bits < 64 \<and> r AND push_bit (bits - 1) 1 \<noteq> 0 then r OR push_bit bits (- 1) else r) =
      signed_take_bit (bits - 1) (sint v)"
  proof (rule sint_sign_extended)
    show "bits - 1 \<le> 63"
      using assms(2) by simp
    fix i :: nat
    assume "i < 64"
    then show "bit (if bits < 64 \<and> r AND push_bit (bits - 1) 1 \<noteq> 0 then r OR push_bit bits (- 1) else r) i =
        bit v (min i (bits - 1))"
      unfolding and_single using bv [of i] bv [of "bits - 1"] assms(1,2)
      by (auto simp: bit_or_iff bit_push_bit_iff bit_minus_1_iff bit_not_iff bit_mask_iff min_def le_eq_less_or_eq)
  qed
  have "map_option sint (getSignedBitfield p' offset bits) = Some (signed_take_bit (bits - 1) (sint v))"
    by (simp only: getSignedBitfield_def getUnsignedBitfield_def r(1) Option.bind.simps option.map sx)
  moreover have "\<forall>i<8 * length p. i < unat offset \<or> unat offset + bits \<le> i \<longrightarrow> bitat p' i = bitat p i"
    using p'(3) by auto
  ultimately show ?thesis
    using p'(1,2) r(1) rv
    by (simp add: setUnsignedBitfield_def setSignedBitfield_def getUnsignedBitfield_def)
qed

theorem bitfield_roundtrip_witness:
  "\<exists>p'. setSignedBitfield [0x12, 0x34, 0x56] 5 9 (- 3) = Some p' \<and> length p' = 3 \<and>
     map_option sint (getSignedBitfield p' 5 9) = Some (- 3)"
proof -
  have "signed_take_bit 8 (sint (- 3 :: uint64)) = - 3"
    by simp
  then show ?thesis
    using bitfield_roundtrip [of 9 5 "[0x12, 0x34, 0x56]" "- 3"] by auto
qed

text \<open>C15: The overflow check of unsigned fields of up to 63 bits decides whether the value, or its exact sum with the
  increment, leaves the range of the field, and stores the sum modulo the range, the violated
  bound, or nothing, as the overflow type asks. The verdict is the documented one, 1 for an overflow and -1 for an
  underflow, except that an underflow whose wrapped value is stored is reported as 1.\<close>

theorem checkUnsignedBitfieldOverflow_correct:
  assumes "bits \<le> 63"
  shows "map_prod id (map_option uint) (checkUnsignedBitfieldOverflow v incr bits owtype limit) =
     map_prod (wrap_verdict owtype limit) id
       (overflow_spec 0 (2 ^ bits - 1) (\<lambda>s. s mod 2 ^ bits) (uint v) (sint incr) owtype limit)"
  using assms by (rule checkUnsigned_correct)

theorem checkUnsignedBitfieldOverflow_correct_witness:
  "map_prod id (map_option uint) (checkUnsignedBitfieldOverflow 5 (- 10) 8 BFOVERFLOW_WRAP True) = (1, Some 251) \<and>
   map_prod id (map_option uint) (checkUnsignedBitfieldOverflow 5 (- 10) 8 BFOVERFLOW_SAT True) = (- 1, Some 0)"
  using checkUnsignedBitfieldOverflow_correct [of 8 5 "- 10" BFOVERFLOW_WRAP True]
    checkUnsignedBitfieldOverflow_correct [of 8 5 "- 10" BFOVERFLOW_SAT True]
  by (simp add: overflow_defs)

text \<open>C16: The overflow check of signed fields of 1 to 64 bits, for a value that is not less than
  \<open>2^(bits-1) - 2^63\<close>, in particular for every value of the field itself, decides whether the value
  or its exact sum with the increment leaves the range of the field, and stores the wrapped sum, the violated
  bound, or nothing, with the verdict of the unsigned check. This holds whatever an overflowing signed subtraction
  gives: the result of \<^verbatim>\<open>min-value\<close> is not used where it overflows.\<close>

theorem checkSignedBitfieldOverflow_correct:
  assumes "1 \<le> bits" "bits \<le> 64" "bits \<noteq> 64 \<longrightarrow> 2 ^ (bits - 1) - 2 ^ 63 \<le> sint v"
  shows "map_prod id (map_option sint) (checkSignedBitfieldOverflow ov v incr bits owtype limit) =
     map_prod (wrap_verdict owtype limit) id
       (overflow_spec (- (2 ^ (bits - 1))) (2 ^ (bits - 1) - 1) (signed_take_bit (bits - 1)) (sint v) (sint incr) owtype limit)"
  using assms by (rule checkSigned_correct)

theorem checkSignedBitfieldOverflow_correct_witness:
  "map_prod id (map_option sint) (checkSignedBitfieldOverflow (\<lambda>a b. 0) (- 100) (- 100) 8 BFOVERFLOW_SAT True) = (- 1, Some (- 128))"
  using checkSignedBitfieldOverflow_correct [of 8 "- 100" "\<lambda>a b. 0" "- 100" BFOVERFLOW_SAT True]
  by (simp add: overflow_defs)

text \<open>C37: The bound on the value is needed. Below it the distance to the maximum wraps around, so that the
  check of a field of less than 64 bits reports an overflow and saturates to the maximum of the field, for every
  increment that is not negative, although the value is below the minimum of the field.\<close>

theorem checkSignedBitfieldOverflow_saturates_up:
  assumes "1 \<le> bits" "bits < 64" "sint v < 2 ^ (bits - 1) - 2 ^ 63" "0 \<le> sint incr"
  shows "sint v < - (2 ^ (bits - 1)) \<and>
     map_prod id (map_option sint) (checkSignedBitfieldOverflow ov v incr bits BFOVERFLOW_SAT True) =
       (1, Some (2 ^ (bits - 1) - 1))"
proof -
  define H mx where "H = (2 :: int) ^ (bits - 1)"
    and "mx = (if bits = 64 then 0x7fffffffffffffff else push_bit (bits - 1) 1 - 1 :: uint64)"
  have b: "bits \<le> 64" "bits \<noteq> 64"
    using assms(2) by simp_all
  note ext = signed_extremes [OF assms(1) b(1) H_def mx_def]
  have H: "H \<le> 2 ^ 62"
    unfolding H_def using assms(1,2) by (intro power_increasing) auto
  have "sint v < - (2 ^ (bits - 1))"
    using assms(3) H unfolding H_def [symmetric] by simp
  have "mx - v = word_of_int (H - 1 - sint v - 2 ^ 64)"
    unfolding ext(6) wi_hom_sub [symmetric, of "H - 1 - sint v" "2 ^ 64"] by simp
  moreover have "sint (word_of_int (H - 1 - sint v - 2 ^ 64) :: uint64) = H - 1 - sint v - 2 ^ 64"
    using ext(1) H sint_in_range [of v] assms(3) unfolding H_def [symmetric] by (intro sint64_word_of_int) simp_all
  moreover have "H - 1 - sint v - 2 ^ 64 < sint incr"
    using assms(4) H sint_in_range [of v] by simp
  ultimately have "sint (mx - v) < sint incr"
    by (simp only:)
  then have "map_prod id (map_option sint) (checkSignedBitfieldOverflow ov v incr bits BFOVERFLOW_SAT True) =
      (1, Some (2 ^ (bits - 1) - 1))"
    using b(2) ext(4) unfolding checkSignedBitfieldOverflow_def Let_def mx_def [symmetric] H_def [symmetric] by simp
  with \<open>sint v < - (2 ^ (bits - 1))\<close> show ?thesis
    by (rule conjI)
qed

theorem checkSignedBitfieldOverflow_saturates_up_witness:
  "map_prod id (map_option sint) (checkSignedBitfieldOverflow (\<lambda>a b. 0) 0x8000000000000000 0 8 BFOVERFLOW_SAT True) =
     (1, Some 127)"
  using checkSignedBitfieldOverflow_saturates_up [of 8 "0x8000000000000000" 0 "\<lambda>a b. 0"] by simp

end
