(* ===== verification/Sds_Args.thy ===== *)
theory Sds_Args
  imports Redis_Prelude
begin

text \<open>
  Quoting and splitting of command lines in \<^verbatim>\<open>sds.c\<close>: \<^verbatim>\<open>sdscatrepr\<close>, \<^verbatim>\<open>sdsneedsrepr\<close> and \<^verbatim>\<open>sdssplitargs\<close>.
  The strings are their contents, lists of bytes; appending to a string is appending to the list.
  The line to split is a C string: \<open>char_at\<close> reads the terminating zero byte behind the last one, and
  the position in the line is the rest of it.
\<close>

section \<open>Characters\<close>

definition char_at :: "byte list \<Rightarrow> nat \<Rightarrow> byte" where
  "char_at p i = (if i < length p then p ! i else 0)"

text \<open>The classifications of the C locale.\<close>

definition isspace :: "byte \<Rightarrow> bool" where
  "isspace c \<longleftrightarrow> c = 32 \<or> 9 \<le> c \<and> c \<le> 13"

definition isprint :: "byte \<Rightarrow> bool" where
  "isprint c \<longleftrightarrow> 32 \<le> c \<and> c \<le> 126"

definition is_hex_digit :: "byte \<Rightarrow> bool" where
  "is_hex_digit c \<longleftrightarrow> (c \<ge> 48 \<and> c \<le> 57) \<or> (c \<ge> 97 \<and> c \<le> 102) \<or> (c \<ge> 65 \<and> c \<le> 70)"

definition hex_digit_to_int :: "byte \<Rightarrow> nat" where
  "hex_digit_to_int c =
     (if c = 48 then 0 else if c = 49 then 1 else if c = 50 then 2 else if c = 51 then 3
      else if c = 52 then 4 else if c = 53 then 5 else if c = 54 then 6 else if c = 55 then 7
      else if c = 56 then 8 else if c = 57 then 9
      else if c = 97 \<or> c = 65 then 10
      else if c = 98 \<or> c = 66 then 11
      else if c = 99 \<or> c = 67 then 12
      else if c = 100 \<or> c = 68 then 13
      else if c = 101 \<or> c = 69 then 14
      else if c = 102 \<or> c = 70 then 15
      else 0)"

text \<open>A hexadecimal digit of the format \<^verbatim>\<open>%02x\<close>.\<close>

definition hex_digit :: "nat \<Rightarrow> byte" where
  "hex_digit n = of_nat (if n < 10 then 48 + n else 87 + n)"

section \<open>Quoting\<close>

definition repr_char :: "byte \<Rightarrow> byte list" where
  "repr_char c =
     (if c = 92 \<or> c = 34 then [92, c]
      else if c = 10 then [92, 110]
      else if c = 13 then [92, 114]
      else if c = 9 then [92, 116]
      else if c = 7 then [92, 97]
      else if c = 8 then [92, 98]
      else if isprint c then [c]
      else [92, 120, hex_digit (unat c div 16), hex_digit (unat c mod 16)])"

primrec sdscatrepr_loop :: "byte list \<Rightarrow> byte list \<Rightarrow> byte list" where
  "sdscatrepr_loop s [] = s"
| "sdscatrepr_loop s (c # p) = sdscatrepr_loop (s @ repr_char c) p"

definition sdscatrepr :: "byte list \<Rightarrow> byte list \<Rightarrow> byte list" where
  "sdscatrepr s p = (let s = s @ [34]; s = sdscatrepr_loop s p in s @ [34])"

primrec sdsneedsrepr :: "byte list \<Rightarrow> bool" where
  "sdsneedsrepr [] = False"
| "sdsneedsrepr (c # p) =
     (if c = 92 \<or> c = 34 \<or> c = 10 \<or> c = 13 \<or> c = 9 \<or> c = 7 \<or> c = 8 \<or> \<not> isprint c \<or> isspace c then True
      else sdsneedsrepr p)"

section \<open>Splitting\<close>

definition unescape :: "byte \<Rightarrow> byte" where
  "unescape c =
     (if c = 110 then 10 else if c = 114 then 13 else if c = 116 then 9
      else if c = 98 then 8 else if c = 97 then 7 else c)"

lemma char_at_nonzero: "char_at p 0 \<noteq> 0 \<Longrightarrow> p \<noteq> []"
  by (auto simp: char_at_def)

text \<open>The loop over one token: the rest of the line and the token, or \<open>None\<close> for the jump to \<^verbatim>\<open>err\<close>.\<close>

function split_token :: "bool \<Rightarrow> bool \<Rightarrow> byte list \<Rightarrow> byte list \<Rightarrow> (byte list \<times> byte list) option" where
  "split_token inq insq p current =
     (if inq then
        if char_at p 0 = 92 \<and> char_at p 1 = 120 \<and> is_hex_digit (char_at p 2) \<and> is_hex_digit (char_at p 3) then
          let byte = of_nat (hex_digit_to_int (char_at p 2) * 16 + hex_digit_to_int (char_at p 3))
          in split_token inq insq (drop 4 p) (current @ [byte])
        else if char_at p 0 = 92 \<and> char_at p 1 \<noteq> 0 then
          split_token inq insq (drop 2 p) (current @ [unescape (char_at p 1)])
        else if char_at p 0 = 34 then
          if char_at p 1 \<noteq> 0 \<and> \<not> isspace (char_at p 1) then None else Some (drop 1 p, current)
        else if char_at p 0 = 0 then None
        else split_token inq insq (drop 1 p) (current @ [char_at p 0])
      else if insq then
        if char_at p 0 = 92 \<and> char_at p 1 = 39 then
          split_token inq insq (drop 2 p) (current @ [39])
        else if char_at p 0 = 39 then
          if char_at p 1 \<noteq> 0 \<and> \<not> isspace (char_at p 1) then None else Some (drop 1 p, current)
        else if char_at p 0 = 0 then None
        else split_token inq insq (drop 1 p) (current @ [char_at p 0])
      else
        if char_at p 0 = 32 \<or> char_at p 0 = 10 \<or> char_at p 0 = 13 \<or> char_at p 0 = 9 then Some (drop 1 p, current)
        else if char_at p 0 = 0 then Some (p, current)
        else if char_at p 0 = 34 then split_token True insq (drop 1 p) current
        else if char_at p 0 = 39 then split_token inq True (drop 1 p) current
        else split_token inq insq (drop 1 p) (current @ [char_at p 0]))"
  by pat_completeness auto
termination
  by (relation "measure (\<lambda>(_, _, p, _). length p)") (auto dest!: char_at_nonzero [rotated] simp: char_at_def split: if_splits)

declare split_token.simps [simp del]

lemma split_token_length: "split_token inq insq p current = Some (p', t) \<Longrightarrow> length p' \<le> length p"
proof (induction "length p" arbitrary: p inq insq current rule: less_induct)
  case less
  show ?case
  proof (cases "p = []")
    case True
    then show ?thesis
      using less.prems by (subst (asm) split_token.simps) (auto simp: char_at_def split: if_splits)
  next
    case False
    have IH: "length p' \<le> length p" if "split_token q i (drop k p) c = Some (p', t)" "0 < k" for q i k c
    proof -
      have "length (drop k p) < length p"
        using False that(2) by (simp add: diff_less)
      then show ?thesis
        using less.hyps [OF _ that(1)] by fastforce
    qed
    show ?thesis
      using less.prems by (subst (asm) split_token.simps) (auto simp: Let_def split: if_splits dest: IH)
  qed
qed

lemma split_token_shorter:
  assumes "split_token False False p current = Some (p', t)" "char_at p 0 \<noteq> 0" "\<not> isspace (char_at p 0)"
  shows "length p' < length p"
proof -
  have "char_at p 0 \<noteq> 32 \<and> char_at p 0 \<noteq> 10 \<and> char_at p 0 \<noteq> 13 \<and> char_at p 0 \<noteq> 9"
    using assms(3) by (auto simp: isspace_def)
  then obtain q i c where "split_token q i (drop 1 p) c = Some (p', t)"
    using assms(1,2) by (subst (asm) split_token.simps) (auto split: if_splits)
  then have "length p' \<le> length (drop 1 p)"
    by (rule split_token_length)
  then show ?thesis
    using char_at_nonzero [OF assms(2)] by (cases p) auto
qed

definition skip_blanks :: "byte list \<Rightarrow> byte list" where
  "skip_blanks p = dropWhile (\<lambda>c. c \<noteq> 0 \<and> isspace c) p"

lemma skip_blanks_length: "length (skip_blanks p) \<le> length p"
  by (simp add: skip_blanks_def length_dropWhile_le)

lemma skip_blanks_char: "char_at (skip_blanks p) 0 \<noteq> 0 \<Longrightarrow> \<not> isspace (char_at (skip_blanks p) 0)"
  by (induction p) (auto simp: skip_blanks_def char_at_def split: if_splits)

lemma splitargs_step:
  "split_token False False (skip_blanks p) [] = Some (p', t) \<Longrightarrow> char_at (skip_blanks p) 0 \<noteq> 0 \<Longrightarrow> length p' < length p"
  using split_token_shorter [OF _ _ skip_blanks_char] skip_blanks_length [of p] by (meson less_le_trans)

function sdssplitargs_loop :: "byte list \<Rightarrow> byte list list \<Rightarrow> byte list list option" where
  "sdssplitargs_loop p vector =
     (let q = skip_blanks p in
      if char_at q 0 \<noteq> 0 then
        case split_token False False q [] of
          None \<Rightarrow> None
        | Some (p', current) \<Rightarrow> sdssplitargs_loop p' (vector @ [current])
      else Some vector)"
  by pat_completeness auto
termination
  by (relation "measure (\<lambda>(p, _). length p)")
    (auto dest: splitargs_step)

declare sdssplitargs_loop.simps [simp del]

definition sdssplitargs :: "byte list \<Rightarrow> byte list list option" where
  "sdssplitargs line = sdssplitargs_loop line []"

section \<open>Reading back what was quoted\<close>

lemma char_at_Cons [simp]:
  "char_at (c # p) 0 = c" "char_at (c # p) (Suc i) = char_at p i" "char_at [] i = 0"
  by (simp_all add: char_at_def)

lemma char_at_numeral [simp]: "char_at (c # p) (numeral k) = char_at p (pred_numeral k)"
  by (simp add: numeral_eq_Suc)

lemma hex_digit_roundtrip:
  assumes "n < 16"
  shows "is_hex_digit (hex_digit n)" "hex_digit_to_int (hex_digit n) = n"
proof -
  have "n \<in> {10, 11, 12, 13, 14, 15} \<or> n \<in> {0, 2, 4, 6, 8} \<or> n \<in> {1, 3, 5, 7, 9}"
    unfolding insert_iff empty_iff using assms by presburger
  then have "is_hex_digit (hex_digit n) \<and> hex_digit_to_int (hex_digit n) = n"
    by (elim disjE insertE emptyE) (simp_all add: is_hex_digit_def hex_digit_def hex_digit_to_int_def)
  then show "is_hex_digit (hex_digit n)" "hex_digit_to_int (hex_digit n) = n"
    by simp_all
qed

lemma byte_from_digits: "(of_nat (unat c div 16 * 16 + unat c mod 16) :: byte) = c"
  by (simp only: div_mult_mod_eq) simp

lemma split_hex:
  assumes "is_hex_digit a" "is_hex_digit b"
  shows "split_token True insq (92 # 120 # a # b # rest) current =
    split_token True insq rest (current @ [of_nat (hex_digit_to_int a * 16 + hex_digit_to_int b)])"
  using assms by (subst split_token.simps) (simp add: Let_def)

lemma split_escape:
  assumes "e \<noteq> 0" "e \<noteq> 120"
  shows "split_token True insq (92 # e # rest) current = split_token True insq rest (current @ [unescape e])"
  using assms by (subst split_token.simps) simp

lemma split_plain:
  assumes "c \<noteq> 0" "c \<noteq> 92" "c \<noteq> 34"
  shows "split_token True insq (c # rest) current = split_token True insq rest (current @ [c])"
  using assms by (subst split_token.simps) simp

lemma split_quoted_char: "split_token True insq (repr_char c @ rest) current = split_token True insq rest (current @ [c])"
proof (cases "c = 92 \<or> c = 34 \<or> c = 10 \<or> c = 13 \<or> c = 9 \<or> c = 7 \<or> c = 8")
  case True
  then show ?thesis
    by (elim disjE) (simp_all add: repr_char_def split_escape unescape_def)
next
  case False
  show ?thesis
  proof (cases "isprint c")
    case True
    then have "c \<noteq> 0"
      by (auto simp: isprint_def)
    then show ?thesis
      using True False by (simp add: repr_char_def split_plain)
  next
    case np: False
    have "unat c div 16 < 16" "unat c mod 16 < 16"
      using unat_byte_less [of c] by simp_all
    note hx = hex_digit_roundtrip [OF this(1)] hex_digit_roundtrip [OF this(2)]
    have "repr_char c @ rest = 92 # 120 # hex_digit (unat c div 16) # hex_digit (unat c mod 16) # rest"
      using False np by (simp add: repr_char_def)
    then show ?thesis
      using split_hex [OF hx(1,3), of insq rest current] by (simp only: hx byte_from_digits)
  qed
qed

lemma split_quoted:
  "split_token True insq (concat (map repr_char p) @ 34 # rest) current =
     (if char_at rest 0 \<noteq> 0 \<and> \<not> isspace (char_at rest 0) then None else Some (rest, current @ p))"
proof (induction p arbitrary: current)
  case Nil
  show ?case
    by (subst split_token.simps) simp
next
  case (Cons c p)
  then show ?case
    by (simp add: split_quoted_char)
qed

lemma sdscatrepr_eq: "sdscatrepr s p = s @ 34 # concat (map repr_char p) @ [34]"
proof -
  have "sdscatrepr_loop s p = s @ concat (map repr_char p)" for s
    by (induction p arbitrary: s) simp_all
  then show ?thesis
    by (simp add: sdscatrepr_def)
qed

text \<open>A line of quoted arguments, each behind a space.\<close>

definition repr_line :: "byte list list \<Rightarrow> byte list" where
  "repr_line args = foldl (\<lambda>line a. sdscatrepr (line @ [32]) a) [] args"

lemma repr_line_eq: "repr_line args = concat (map (\<lambda>a. 32 # 34 # concat (map repr_char a) @ [34]) args)"
proof -
  have "foldl (\<lambda>line a. sdscatrepr (line @ [32]) a) l args = l @ concat (map (\<lambda>a. 32 # 34 # concat (map repr_char a) @ [34]) args)" for l
    by (induction args arbitrary: l) (simp_all add: sdscatrepr_eq)
  then show ?thesis
    by (simp add: repr_line_def)
qed

lemma splitargs_repr:
  "sdssplitargs_loop (concat (map (\<lambda>a. 32 # 34 # concat (map repr_char a) @ [34]) args)) vector = Some (vector @ args)"
proof (induction args arbitrary: vector)
  case Nil
  show ?case
    by (subst sdssplitargs_loop.simps) (simp add: skip_blanks_def)
next
  case (Cons a args)
  let ?rest = "concat (map (\<lambda>a. 32 # 34 # concat (map repr_char a) @ [34]) args)"
  have sp: "skip_blanks (32 # 34 # concat (map repr_char a) @ 34 # ?rest) = 34 # concat (map repr_char a) @ 34 # ?rest"
    by (simp add: skip_blanks_def isspace_def)
  have "char_at ?rest 0 = 0 \<or> isspace (char_at ?rest 0)"
    by (cases args) (simp_all add: isspace_def)
  then have "split_token False False (34 # concat (map repr_char a) @ 34 # ?rest) [] = Some (?rest, a)"
    by (subst split_token.simps) (simp add: split_quoted)
  then show ?case
    by (subst sdssplitargs_loop.simps) (simp add: sp Cons.IH)
qed

text \<open>C12: Quoting and splitting are inverse to each other. A line built by appending the quoted form of each
  argument, whatever bytes it consists of, is split into exactly these arguments.\<close>

theorem sdscatrepr_sdssplitargs_roundtrip: "sdssplitargs (repr_line args) = Some args"
  by (simp add: sdssplitargs_def repr_line_eq splitargs_repr)

text \<open>The strings that \<^verbatim>\<open>sdsneedsrepr\<close> lets through, and how they are split: without a quote they are a token, and a
  single quote opens a quotation that has to be closed by the last byte.\<close>

lemma not_needs_repr: "\<not> sdsneedsrepr p \<Longrightarrow> c \<in> set p \<Longrightarrow> c \<noteq> 92 \<and> c \<noteq> 34 \<and> c \<noteq> 0 \<and> \<not> isspace c"
  by (induction p) (auto simp: isprint_def split: if_splits)

lemma split_unquoted:
  assumes "\<forall>c\<in>set u. c \<noteq> 34 \<and> c \<noteq> 0 \<and> c \<noteq> 39 \<and> \<not> isspace c"
  shows "split_token False False (u @ rest) current = split_token False False rest (current @ u)"
  using assms
proof (induction u arbitrary: current)
  case (Cons c u)
  then have "split_token False False (c # u @ rest) current = split_token False False (u @ rest) (current @ [c])"
    by (subst split_token.simps) (auto simp: isspace_def)
  then show ?case
    using Cons by simp
qed simp

lemma split_single_quoted:
  assumes "\<forall>c\<in>set u. c \<noteq> 92 \<and> c \<noteq> 0 \<and> c \<noteq> 39"
  shows "split_token False True (u @ rest) current = split_token False True rest (current @ u)"
  using assms
proof (induction u arbitrary: current)
  case (Cons c u)
  then have "split_token False True (c # u @ rest) current = split_token False True (u @ rest) (current @ [c])"
    by (subst split_token.simps) simp
  then show ?case
    using Cons by simp
qed simp

lemma split_ends:
  "split_token False False [] current = Some ([], current)"
  "split_token False True [] current = None"
  "split_token False False (39 # rest) current = split_token False True rest current"
  "\<forall>c\<in>set rest. c \<noteq> 0 \<and> \<not> isspace c \<Longrightarrow>
    split_token False True (39 # rest) current = (if rest = [] then Some ([], current) else None)"
proof -
  show "split_token False False [] current = Some ([], current)" "split_token False True [] current = None"
    by (subst split_token.simps; simp)+
  show "split_token False False (39 # rest) current = split_token False True rest current"
    by (subst split_token.simps) simp
  show "split_token False True (39 # rest) current = (if rest = [] then Some ([], current) else None)"
    if "\<forall>c\<in>set rest. c \<noteq> 0 \<and> \<not> isspace c"
    using that by (subst split_token.simps) (cases rest; simp)
qed

lemma splitargs_one:
  assumes "p \<noteq> []" "\<forall>c\<in>set p. c \<noteq> 0 \<and> \<not> isspace c"
  shows "split_token False False p [] = None \<Longrightarrow> sdssplitargs p = None"
    and "split_token False False p [] = Some ([], t) \<Longrightarrow> sdssplitargs p = Some [t]"
proof -
  have sk: "skip_blanks p = p" and c: "char_at p 0 \<noteq> 0"
    using assms by (cases p; simp add: skip_blanks_def)+
  have e: "sdssplitargs_loop [] v = Some v" for v
    by (subst sdssplitargs_loop.simps) (simp add: skip_blanks_def)
  show "split_token False False p [] = None \<Longrightarrow> sdssplitargs p = None"
    "split_token False False p [] = Some ([], t) \<Longrightarrow> sdssplitargs p = Some [t]"
    unfolding sdssplitargs_def by (subst sdssplitargs_loop.simps, simp add: sk c e)+
qed

text \<open>C38: What splitting does to a string of which \<^verbatim>\<open>sdsneedsrepr\<close> says that it needs no quoting. It is read back as the
  single argument that it is if it is not empty and has no single quote. The empty string is read as no
  argument at all. With a single quote the line is rejected, unless the first quote is closed by another one at the
  very end, and then the argument is read without the two quotes.\<close>

theorem sdsneedsrepr_incompatible:
  assumes "\<not> sdsneedsrepr p"
  shows "sdssplitargs p =
    (if p = [] then Some []
     else if 39 \<notin> set p then Some [p]
     else let u = takeWhile (\<lambda>c. c \<noteq> 39) p; v = tl (dropWhile (\<lambda>c. c \<noteq> 39) p)
          in if v \<noteq> [] \<and> last v = 39 \<and> 39 \<notin> set (butlast v) then Some [u @ butlast v] else None)"
proof -
  have ok: "\<forall>c\<in>set p. c \<noteq> 92 \<and> c \<noteq> 34 \<and> c \<noteq> 0 \<and> \<not> isspace c"
    using not_needs_repr [OF assms] by blast
  consider "p = []" | "p \<noteq> []" "39 \<notin> set p" | "p \<noteq> []" "39 \<in> set p"
    by blast
  then show ?thesis
  proof cases
    case 1
    then show ?thesis
      unfolding sdssplitargs_def by (subst sdssplitargs_loop.simps) (simp add: skip_blanks_def)
  next
    case 2
    have "split_token False False (p @ []) [] = Some ([], p)"
      using ok 2(2) by (subst split_unquoted) (auto simp: split_ends)
    then show ?thesis
      using splitargs_one(2) [OF 2(1)] ok 2 by simp
  next
    case 3
    define u v where "u = takeWhile (\<lambda>c. c \<noteq> 39) p" and "v = tl (dropWhile (\<lambda>c. c \<noteq> 39) p)"
    have p: "p = u @ 39 # v"
      using 3(2) hd_dropWhile [of "\<lambda>c. c \<noteq> 39" p] takeWhile_dropWhile_id [of "\<lambda>c. c \<noteq> 39" p]
      unfolding u_def v_def by (metis (mono_tags, lifting) dropWhile_eq_Nil_conv list.collapse)
    have "split_token False False (u @ 39 # v) [] = split_token False True v u"
      using ok unfolding p by (subst split_unquoted) (auto simp: split_ends u_def dest: set_takeWhileD)
    then have st: "split_token False False p [] = split_token False True v u"
      unfolding p .
    have okv: "\<forall>c\<in>set v. c \<noteq> 92 \<and> c \<noteq> 0 \<and> \<not> isspace c"
      using ok unfolding p by simp
    have one: "split_token False True v u = None \<Longrightarrow> sdssplitargs p = None"
      "split_token False True v u = Some ([], t) \<Longrightarrow> sdssplitargs p = Some [t]" for t
      using splitargs_one [OF 3(1)] ok unfolding st by blast+
    show ?thesis
    proof (cases "39 \<in> set v")
      case False
      then have "split_token False True (v @ []) u = None"
        using okv by (subst split_single_quoted) (auto simp: split_ends)
      then have "sdssplitargs p = None"
        using one(1) by simp
      moreover have "\<not> (v \<noteq> [] \<and> last v = 39)"
        using False by (metis last_in_set)
      ultimately show ?thesis
        using 3 unfolding u_def [symmetric] v_def [symmetric] Let_def by auto
    next
      case True
      then obtain a b where v: "v = a @ 39 # b" "39 \<notin> set a"
        by (meson split_list_first)
      have "split_token False True (a @ 39 # b) u = (if b = [] then Some ([], u @ a) else None)"
        using okv v by (subst split_single_quoted) (auto simp: split_ends)
      then have r: "sdssplitargs p = (if b = [] then Some [u @ a] else None)"
        using one unfolding v(1) by auto
      have "v \<noteq> [] \<and> last v = 39 \<and> 39 \<notin> set (butlast v) \<longleftrightarrow> b = []"
        using v by (auto simp: butlast_append)
      moreover have "butlast v = a" if "b = []"
        using that v(1) by simp
      ultimately show ?thesis
        using r 3 unfolding u_def [symmetric] v_def [symmetric] Let_def by simp
    qed
  qed
qed

theorem sdsneedsrepr_incompatible_witness:
  "sdssplitargs [105, 116, 39, 115] = None \<and> sdssplitargs [] = Some [] \<and> sdssplitargs [105, 39, 116, 39] = Some [[105, 116]]"
  using sdsneedsrepr_incompatible [of "[105, 116, 39, 115]"] sdsneedsrepr_incompatible [of "[]"]
    sdsneedsrepr_incompatible [of "[105, 39, 116, 39]"]
  by (simp add: isprint_def isspace_def)

end
