(* ===== verification/Sds.thy ===== *)
theory Sds
  imports Stepwise
begin

text \<open>
  The dynamic strings of \<^verbatim>\<open>sds.c\<close> and \<^verbatim>\<open>sds.h\<close>. A string is the type of its header, the fields of the header, and
  the bytes of the allocation behind the header. The fields have the width of the type: a value
  that does not fit is truncated, as a store to the field truncates it. The allocator is a parameter: how many
  bytes an allocation of a given size has, or \<open>None\<close> for \<^verbatim>\<open>NULL\<close>, and which bytes fresh memory holds.
  Sizes are natural numbers, and sums wrap around at \<open>2^64\<close> where the code checks for it.
\<close>

section \<open>Headers\<close>

datatype sdstype = SDS_TYPE_5 | SDS_TYPE_8 | SDS_TYPE_16 | SDS_TYPE_32 | SDS_TYPE_64

record sds =
  stype :: sdstype
  hlen :: nat
  halloc :: nat
  sbuf :: "byte list"

primrec type_no :: "sdstype \<Rightarrow> nat" where
  "type_no SDS_TYPE_5 = 0"
| "type_no SDS_TYPE_8 = 1"
| "type_no SDS_TYPE_16 = 2"
| "type_no SDS_TYPE_32 = 3"
| "type_no SDS_TYPE_64 = 4"

text \<open>The width of the length field.\<close>

primrec field_bits :: "sdstype \<Rightarrow> nat" where
  "field_bits SDS_TYPE_5 = 5"
| "field_bits SDS_TYPE_8 = 8"
| "field_bits SDS_TYPE_16 = 16"
| "field_bits SDS_TYPE_32 = 32"
| "field_bits SDS_TYPE_64 = 64"

primrec sdsHdrSize :: "sdstype \<Rightarrow> nat" where
  "sdsHdrSize SDS_TYPE_5 = 1"
| "sdsHdrSize SDS_TYPE_8 = 3"
| "sdsHdrSize SDS_TYPE_16 = 5"
| "sdsHdrSize SDS_TYPE_32 = 9"
| "sdsHdrSize SDS_TYPE_64 = 17"

definition sdsReqType :: "nat \<Rightarrow> sdstype" where
  "sdsReqType string_size =
     (if string_size < 2 ^ 5 then SDS_TYPE_5
      else if string_size < 2 ^ 8 then SDS_TYPE_8
      else if string_size < 2 ^ 16 then SDS_TYPE_16
      else if string_size < 2 ^ 32 then SDS_TYPE_32
      else SDS_TYPE_64)"

definition sdsTypeMaxSize :: "sdstype \<Rightarrow> nat" where
  "sdsTypeMaxSize t =
     (if t = SDS_TYPE_5 then 2 ^ 5 - 1
      else if t = SDS_TYPE_8 then 2 ^ 8 - 1
      else if t = SDS_TYPE_16 then 2 ^ 16 - 1
      else if t = SDS_TYPE_32 then 2 ^ 32 - 1
      else 2 ^ 64 - 1)"

definition sdslen :: "sds \<Rightarrow> nat" where
  "sdslen s = hlen s"

definition sdsavail :: "sds \<Rightarrow> nat" where
  "sdsavail s =
     (case stype s of
        SDS_TYPE_5 \<Rightarrow> 0
      | SDS_TYPE_32 \<Rightarrow> nat ((int (halloc s) - int (hlen s)) mod 2 ^ 32)
      | _ \<Rightarrow> nat ((int (halloc s) - int (hlen s)) mod 2 ^ 64))"

definition sdssetlen :: "sds \<Rightarrow> nat \<Rightarrow> sds" where
  "sdssetlen s newlen = s\<lparr>hlen := newlen mod 2 ^ field_bits (stype s)\<rparr>"

definition sdsinclen :: "sds \<Rightarrow> nat \<Rightarrow> sds" where
  "sdsinclen s inc = s\<lparr>hlen := (hlen s + inc) mod 2 ^ field_bits (stype s)\<rparr>"

definition sdsalloc :: "sds \<Rightarrow> nat" where
  "sdsalloc s = (if stype s = SDS_TYPE_5 then hlen s else halloc s)"

definition sdssetalloc :: "sds \<Rightarrow> nat \<Rightarrow> sds" where
  "sdssetalloc s newlen =
     (if stype s = SDS_TYPE_5 then s else s\<lparr>halloc := newlen mod 2 ^ field_bits (stype s)\<rparr>)"

text \<open>Stores into the bytes of the string.\<close>

definition sput :: "sds \<Rightarrow> nat \<Rightarrow> byte \<Rightarrow> sds option" where
  "sput s i c = do { b \<leftarrow> mem_put (sbuf s) i c; Some (s\<lparr>sbuf := b\<rparr>) }"

definition swrite :: "sds \<Rightarrow> nat \<Rightarrow> byte list \<Rightarrow> sds option" where
  "swrite s i bs = do { b \<leftarrow> mem_write (sbuf s) i bs; Some (s\<lparr>sbuf := b\<rparr>) }"

section \<open>Allocation\<close>

record sds_alloc =
  usable :: "nat \<Rightarrow> nat option"
  junk :: "nat \<Rightarrow> byte"
  nallocx :: "nat \<Rightarrow> nat option"

datatype sds_init = InitNull | InitNoinit | InitData "byte list"

definition SDS_MAX_PREALLOC :: nat where
  "SDS_MAX_PREALLOC = 1024 * 1024"

definition sdsnewlen :: "sds_alloc \<Rightarrow> sds_init \<Rightarrow> nat \<Rightarrow> sds option option" where
  "sdsnewlen al init initlen =
     (let t = sdsReqType initlen;
          t = (if t = SDS_TYPE_5 \<and> initlen = 0 then SDS_TYPE_8 else t);
          hdrlen = sdsHdrSize t in
      if \<not> (initlen + hdrlen + 1) mod 2 ^ 64 > initlen then None
      else case usable al (hdrlen + initlen + 1) of
             None \<Rightarrow> Some None
           | Some us \<Rightarrow> do {
               let buf = map (junk al) [0..<us - hdrlen];
               buf \<leftarrow> (if init = InitNull then mem_write buf 0 (replicate (initlen + 1) 0) else Some buf);
               let us = us - hdrlen - 1;
               let us = (if us > sdsTypeMaxSize t then sdsTypeMaxSize t else us);
               let s = sdssetalloc (sdssetlen \<lparr>stype = t, hlen = 0, halloc = 0, sbuf = buf\<rparr> initlen) us;
               s \<leftarrow> (case init of
                       InitData d \<Rightarrow> if initlen \<noteq> 0 then do { bs \<leftarrow> mem_read d 0 initlen; swrite s 0 bs } else Some s
                     | _ \<Rightarrow> Some s);
               s \<leftarrow> sput s initlen 0;
               Some (Some s)
             })"

definition sdsempty :: "sds_alloc \<Rightarrow> sds option option" where
  "sdsempty al = sdsnewlen al (InitData []) 0"

definition sdsdup :: "sds_alloc \<Rightarrow> sds \<Rightarrow> sds option option" where
  "sdsdup al s = sdsnewlen al (InitData (sbuf s)) (sdslen s)"

definition sdsMakeRoomFor_gen :: "sds_alloc \<Rightarrow> sds \<Rightarrow> nat \<Rightarrow> bool \<Rightarrow> sds option option" where
  "sdsMakeRoomFor_gen al s addlen greedy =
     (if sdsavail s \<ge> addlen then Some (Some s)
      else
        let len = sdslen s;
            newlen = (len + addlen) mod 2 ^ 64;
            reqlen = newlen in
        if \<not> newlen > len then None
        else
          let newlen = (if greedy then
                          (if newlen < SDS_MAX_PREALLOC then newlen * 2 else newlen + SDS_MAX_PREALLOC) mod 2 ^ 64
                        else newlen);
              t = sdsReqType newlen;
              t = (if t = SDS_TYPE_5 then SDS_TYPE_8 else t);
              hdrlen = sdsHdrSize t in
          if \<not> (hdrlen + newlen + 1) mod 2 ^ 64 > reqlen then None
          else case usable al (hdrlen + newlen + 1) of
                 None \<Rightarrow> Some None
               | Some us \<Rightarrow> do {
                   s \<leftarrow> (if stype s = t then Some (s\<lparr>sbuf := mem_realloc (junk al) (us - hdrlen) (sbuf s)\<rparr>)
                         else do {
                           bs \<leftarrow> mem_read (sbuf s) 0 (len + 1);
                           buf \<leftarrow> mem_write (map (junk al) [0..<us - hdrlen]) 0 bs;
                           Some (sdssetlen \<lparr>stype = t, hlen = 0, halloc = 0, sbuf = buf\<rparr> len)
                         });
                   let us = us - hdrlen - 1;
                   let us = (if us > sdsTypeMaxSize t then sdsTypeMaxSize t else us);
                   Some (Some (sdssetalloc s us))
                 })"

definition sdsMakeRoomFor :: "sds_alloc \<Rightarrow> sds \<Rightarrow> nat \<Rightarrow> sds option option" where
  "sdsMakeRoomFor al s addlen = sdsMakeRoomFor_gen al s addlen True"

definition sdsMakeRoomForNonGreedy :: "sds_alloc \<Rightarrow> sds \<Rightarrow> nat \<Rightarrow> sds option option" where
  "sdsMakeRoomForNonGreedy al s addlen = sdsMakeRoomFor_gen al s addlen False"

text \<open>With Jemalloc the size of an allocation of \<open>n\<close> bytes is known in advance, \<^verbatim>\<open>je_nallocx\<close>; other allocators
  have no \<open>nallocx\<close>.\<close>

definition sdsResize :: "sds_alloc \<Rightarrow> sds \<Rightarrow> nat \<Rightarrow> bool \<Rightarrow> sds option option" where
  "sdsResize al s sz would_regrow =
     (let oldtype = stype s; oldhdrlen = sdsHdrSize oldtype; len = sdslen s in
      if sdsalloc s = sz then Some (Some s)
      else
        let len = (if sz < len then sz else len);
            t = sdsReqType sz;
            t = (if would_regrow \<and> t = SDS_TYPE_5 then SDS_TYPE_8 else t);
            hdrlen = sdsHdrSize t;
            use_realloc = (oldtype = t \<or> (type_no t < type_no oldtype \<and> type_no t > type_no SDS_TYPE_8));
            newlen = (if use_realloc then oldhdrlen + sz + 1 else hdrlen + sz + 1) in do {
          r \<leftarrow> (if use_realloc then
                  if nallocx al newlen = Some (oldhdrlen + length (sbuf s)) then Some (Some s)
                  else case usable al newlen of
                         None \<Rightarrow> Some None
                       | Some us \<Rightarrow> Some (Some (s\<lparr>sbuf := mem_realloc (junk al) (us - oldhdrlen) (sbuf s)\<rparr>))
                else case usable al newlen of
                       None \<Rightarrow> Some None
                     | Some us \<Rightarrow> do {
                         bs \<leftarrow> mem_read (sbuf s) 0 len;
                         buf \<leftarrow> mem_write (map (junk al) [0..<us - hdrlen]) 0 bs;
                         Some (Some \<lparr>stype = t, hlen = 0, halloc = 0, sbuf = buf\<rparr>)
                       });
          case r of
            None \<Rightarrow> Some None
          | Some s \<Rightarrow> do {
              s \<leftarrow> sput s len 0;
              Some (Some (sdssetalloc (sdssetlen s len) sz))
            }
        })"

definition sdsRemoveFreeSpace :: "sds_alloc \<Rightarrow> sds \<Rightarrow> bool \<Rightarrow> sds option option" where
  "sdsRemoveFreeSpace al s would_regrow = sdsResize al s (sdslen s) would_regrow"

section \<open>Changing the contents\<close>

definition sdsclear :: "sds \<Rightarrow> sds option" where
  "sdsclear s = sput (sdssetlen s 0) 0 0"

definition sdsgrowzero :: "sds_alloc \<Rightarrow> sds \<Rightarrow> nat \<Rightarrow> sds option option" where
  "sdsgrowzero al s len =
     (let curlen = sdslen s in
      if len \<le> curlen then Some (Some s)
      else do {
        r \<leftarrow> sdsMakeRoomFor al s (len - curlen);
        case r of
          None \<Rightarrow> Some None
        | Some s \<Rightarrow> do {
            s \<leftarrow> swrite s curlen (replicate (len - curlen + 1) 0);
            Some (Some (sdssetlen s len))
          }
      })"

definition sdscatlen :: "sds_alloc \<Rightarrow> sds \<Rightarrow> byte list \<Rightarrow> sds option option" where
  "sdscatlen al s t =
     (let curlen = sdslen s; len = length t in do {
        r \<leftarrow> sdsMakeRoomFor al s len;
        case r of
          None \<Rightarrow> Some None
        | Some s \<Rightarrow> do {
            s \<leftarrow> swrite s curlen t;
            let s = sdssetlen s (curlen + len);
            s \<leftarrow> sput s (curlen + len) 0;
            Some (Some s)
          }
      })"

definition sdscpylen :: "sds_alloc \<Rightarrow> sds \<Rightarrow> byte list \<Rightarrow> sds option option" where
  "sdscpylen al s t =
     (let len = length t in do {
        r \<leftarrow> (if sdsalloc s < len then sdsMakeRoomFor al s (len - sdslen s) else Some (Some s));
        case r of
          None \<Rightarrow> Some None
        | Some s \<Rightarrow> do {
            s \<leftarrow> swrite s 0 t;
            s \<leftarrow> sput s len 0;
            Some (Some (sdssetlen s len))
          }
      })"

text \<open>\<^verbatim>\<open>strchr\<close> finds the terminator of the set, so a zero byte counts as a member.\<close>

definition in_cset :: "byte list \<Rightarrow> byte \<Rightarrow> bool" where
  "in_cset cset c \<longleftrightarrow> c \<in> set cset \<or> c = 0"

text \<open>The two loops; the second one returns the position behind \<^verbatim>\<open>ep\<close>.\<close>

primrec sdstrim_sp :: "byte list \<Rightarrow> byte list \<Rightarrow> nat \<Rightarrow> nat" where
  "sdstrim_sp cset [] sp = sp"
| "sdstrim_sp cset (c # cs) sp = (if in_cset cset c then sdstrim_sp cset cs (sp + 1) else sp)"

primrec sdstrim_ep :: "byte list \<Rightarrow> byte list \<Rightarrow> nat \<Rightarrow> nat \<Rightarrow> nat" where
  "sdstrim_ep cset cs sp 0 = 0"
| "sdstrim_ep cset cs sp (Suc ep) = (if ep > sp \<and> in_cset cset (cs ! ep) then sdstrim_ep cset cs sp ep else Suc ep)"

definition sdstrim :: "sds \<Rightarrow> byte list \<Rightarrow> sds option" where
  "sdstrim s cset = do {
     cs \<leftarrow> mem_read (sbuf s) 0 (sdslen s);
     let sp = sdstrim_sp cset cs 0;
     let len = sdstrim_ep cset cs sp (sdslen s) - sp;
     bs \<leftarrow> mem_read (sbuf s) sp len;
     s \<leftarrow> (if sp \<noteq> 0 then swrite s 0 bs else Some s);
     s \<leftarrow> sput s len 0;
     Some (sdssetlen s len)
   }"

definition sdssubstr :: "sds \<Rightarrow> nat \<Rightarrow> nat \<Rightarrow> sds option" where
  "sdssubstr s start len =
     (let oldlen = sdslen s;
          (start, len) = (if start \<ge> oldlen then (0, 0) else (start, len));
          len = (if len > oldlen - start then oldlen - start else len) in do {
        s \<leftarrow> (if len \<noteq> 0 then do { bs \<leftarrow> mem_read (sbuf s) start len; swrite s 0 bs } else Some s);
        s \<leftarrow> sput s len 0;
        Some (sdssetlen s len)
      })"

text \<open>Indices are signed; a negative one counts from the end, and one that is still negative is a huge
  number as an unsigned argument.\<close>

definition sdsrange :: "sds \<Rightarrow> int \<Rightarrow> int \<Rightarrow> sds option" where
  "sdsrange s start end' =
     (let len = int (sdslen s) in
      if len = 0 then Some s
      else
        let start = (if start < 0 then len + start else start);
            end' = (if end' < 0 then len + end' else end');
            newlen = (if start > end' then 0 else (end' - start) + 1)
        in sdssubstr s (nat (start mod 2 ^ 64)) (nat (newlen mod 2 ^ 64)))"

section \<open>Invariant\<close>

definition sds_ok :: "sds \<Rightarrow> bool" where
  "sds_ok s \<longleftrightarrow> hlen s < 2 ^ field_bits (stype s) \<and> sdslen s \<le> sdsalloc s \<and>
     sdsalloc s < 2 ^ field_bits (stype s) \<and> sdsalloc s < length (sbuf s) \<and> sbuf s ! sdslen s = 0"

definition content :: "sds \<Rightarrow> byte list" where
  "content s = take (sdslen s) (sbuf s)"

definition alloc_ok :: "sds_alloc \<Rightarrow> bool" where
  "alloc_ok al \<longleftrightarrow> (\<forall>n us. usable al n = Some us \<longrightarrow> n \<le> us) \<and> (\<forall>n m. nallocx al n = Some m \<longrightarrow> n \<le> m)"

section \<open>Headers fit\<close>

lemma field_bits_le: "field_bits t \<le> 64"
  by (cases t) simp_all

lemma field_power_le: "(2 :: nat) ^ field_bits t \<le> 2 ^ 64"
  by (rule power_increasing) (simp_all add: field_bits_le)

lemma sdsTypeMaxSize_bits: "sdsTypeMaxSize t = 2 ^ field_bits t - 1"
  by (cases t) (simp_all add: sdsTypeMaxSize_def)

lemma sdsReqType_fits: "n < 2 ^ 64 \<Longrightarrow> n < 2 ^ field_bits (sdsReqType n)"
  by (simp add: sdsReqType_def)

lemma no_type_5_fits: "(n :: nat) < 2 ^ field_bits t \<Longrightarrow> n < 2 ^ field_bits (if t = SDS_TYPE_5 \<and> P then SDS_TYPE_8 else t)"
  by auto

lemma sdsHdrSize_bounds: "0 < sdsHdrSize t" "sdsHdrSize t \<le> 17"
  by (cases t; simp)+

lemma sdsavail_eq: "sds_ok s \<Longrightarrow> sdsavail s = sdsalloc s - sdslen s"
proof -
  assume ok: "sds_ok s"
  let ?d = "int (halloc s) - int (hlen s)"
  have d: "0 \<le> ?d" "?d < 2 ^ field_bits (stype s)" if "stype s \<noteq> SDS_TYPE_5"
  proof -
    have "hlen s \<le> halloc s" "halloc s < 2 ^ field_bits (stype s)"
      using ok that by (simp_all add: sds_ok_def sdslen_def sdsalloc_def)
    moreover from this(2) have "int (halloc s) < 2 ^ field_bits (stype s)"
      by (metis of_nat_less_iff of_nat_numeral of_nat_power)
    ultimately show "0 \<le> ?d" "?d < 2 ^ field_bits (stype s)"
      by linarith+
  qed
  have m: "?d mod 2 ^ k = ?d" if "stype s \<noteq> SDS_TYPE_5" "field_bits (stype s) \<le> k" for k
  proof (rule mod_pos_pos_trivial)
    have "(2 :: int) ^ field_bits (stype s) \<le> 2 ^ k"
      using that(2) by (rule power_increasing) simp
    then show "?d < 2 ^ k"
      using d(2) [OF that(1)] by linarith
  qed (rule d(1) [OF that(1)])
  show ?thesis
    using m [of 32] m [of 64] field_bits_le [of "stype s"] ok
    by (cases "stype s") (simp_all add: sdsavail_def sdsalloc_def sdslen_def sds_ok_def nat_minus_as_int)
qed

text \<open>A header that was just written.\<close>

definition mk_sds :: "sdstype \<Rightarrow> nat \<Rightarrow> nat \<Rightarrow> byte list \<Rightarrow> sds" where
  "mk_sds t len a b = sdssetalloc (sdssetlen \<lparr>stype = t, hlen = 0, halloc = 0, sbuf = b\<rparr> len) a"

lemma mk_sds_simps:
  assumes "len < 2 ^ field_bits t" "a < 2 ^ field_bits t"
  shows "stype (mk_sds t len a b) = t" "sdslen (mk_sds t len a b) = len" "sbuf (mk_sds t len a b) = b"
    "sdsalloc (mk_sds t len a b) = (if t = SDS_TYPE_5 then len else a)"
  using assms by (simp_all add: mk_sds_def sdssetalloc_def sdssetlen_def sdslen_def sdsalloc_def)

lemma mk_sds_ok:
  assumes "len < 2 ^ field_bits t" "a < 2 ^ field_bits t" "len \<le> a" "a < length b" "b ! len = 0"
  shows "sds_ok (mk_sds t len a b)" "content (mk_sds t len a b) = take len b"
  using assms mk_sds_simps [OF assms(1,2), of b]
  by (auto simp: sds_ok_def content_def sdslen_def)

lemma mk_sds_store:
  "swrite (mk_sds t len a b) i bs = map_option (mk_sds t len a) (mem_write b i bs)"
  "sput (mk_sds t len a b) i c = map_option (mk_sds t len a) (mem_put b i c)"
  by (simp_all add: mk_sds_def swrite_def sput_def sdssetalloc_def sdssetlen_def mem_write_def mem_put_def)

text \<open>A new length, and new bytes, in a string with enough room.\<close>

lemma set_len_ok:
  assumes "sds_ok s" "n \<le> sdsalloc s" "length b = length (sbuf s)" "b ! n = 0"
  shows "sds_ok (sdssetlen (s\<lparr>sbuf := b\<rparr>) n)" "content (sdssetlen (s\<lparr>sbuf := b\<rparr>) n) = take n b"
proof -
  have n: "n < 2 ^ field_bits (stype s)"
    using assms(1,2) by (simp add: sds_ok_def)
  then show "sds_ok (sdssetlen (s\<lparr>sbuf := b\<rparr>) n)"
    using assms by (auto simp: sds_ok_def sdssetlen_def sdslen_def sdsalloc_def)
  show "content (sdssetlen (s\<lparr>sbuf := b\<rparr>) n) = take n b"
    using n by (simp add: content_def sdssetlen_def sdslen_def)
qed

lemma content_length: "sds_ok s \<Longrightarrow> length (content s) = sdslen s"
  by (simp add: content_def sds_ok_def)

section \<open>Allocation keeps the contents\<close>

text \<open>What an operation that may reallocate returns: \<open>NULL\<close> only if the allocator does, and otherwise a well-formed
  string with the given contents.\<close>

definition sds_result :: "sds_alloc \<Rightarrow> sds option option \<Rightarrow> byte list \<Rightarrow> bool" where
  "sds_result al r bs \<longleftrightarrow>
     (\<exists>r'. r = Some r' \<and> (\<forall>s. r' = Some s \<longrightarrow> sds_ok s \<and> content s = bs) \<and>
        ((\<forall>n. usable al n \<noteq> None) \<longrightarrow> r' \<noteq> None))"

lemma sds_resultI: "sds_ok s \<Longrightarrow> content s = bs \<Longrightarrow> sds_result al (Some (Some s)) bs"
  by (simp add: sds_result_def)

lemma sds_result_NULL: "usable al n = None \<Longrightarrow> sds_result al (Some None) bs"
  by (auto simp: sds_result_def)

lemma sdsnewlen_result:
  assumes "alloc_ok al" "length d < 2 ^ 63"
  shows "sds_result al (sdsnewlen al (InitData d) (length d)) d"
proof -
  define n t h where "n = length d"
    and "t = (if sdsReqType n = SDS_TYPE_5 \<and> n = 0 then SDS_TYPE_8 else sdsReqType n)" and "h = sdsHdrSize t"
  have n: "n < 2 ^ field_bits t"
    unfolding t_def using assms(2) by (intro no_type_5_fits sdsReqType_fits) (simp add: n_def)
  have h: "0 < h" "h \<le> 17"
    unfolding h_def by (rule sdsHdrSize_bounds)+
  have asrt: "(n + h + 1) mod 2 ^ 64 > n"
    using assms(2) h by (subst mod_less) (simp_all add: n_def)
  show ?thesis
  proof (cases "usable al (h + n + 1)")
    case None
    have "sdsnewlen al (InitData d) (length d) = Some None"
      using None asrt unfolding sdsnewlen_def Let_def n_def [symmetric] t_def [symmetric] h_def [symmetric]
      by (simp only: not_not if_True if_False option.case simp_thms)
    then show ?thesis
      using sds_result_NULL [OF None] by simp
  next
    case (Some us)
    then have us: "h + n + 1 \<le> us"
      using assms(1) by (simp add: alloc_ok_def)
    define m where "m = (if us - h - 1 > sdsTypeMaxSize t then sdsTypeMaxSize t else us - h - 1)"
    define b where "b = map (junk al) [0..<us - h]"
    have b: "length b = us - h"
      by (simp add: b_def)
    have pos: "0 < (2 :: nat) ^ field_bits t"
      by simp
    have m: "m < 2 ^ field_bits t" "n \<le> m" "m < length b"
      using us n pos h by (auto simp: m_def sdsTypeMaxSize_bits b)
    have dr: "mem_read d 0 n = Some d"
      by (simp add: mem_read_def n_def)
    define b' where "b' = (if n \<noteq> 0 then d @ drop n b else b)[n := 0]"
    have "n < length b"
      using m by linarith
    then have b': "length b' = length b" "b' ! n = 0" "take n b' = d"
      by (auto simp: b'_def n_def)
    have "sdsnewlen al (InitData d) (length d) = Some (Some (mk_sds t n m b'))"
    proof -
      have "sdsnewlen al (InitData d) (length d) =
          do {
            s \<leftarrow> (if n \<noteq> 0 then do { bs \<leftarrow> mem_read d 0 n; swrite (mk_sds t n m b) 0 bs } else Some (mk_sds t n m b));
            s \<leftarrow> sput s n 0;
            Some (Some s)
          }"
        using Some asrt unfolding sdsnewlen_def Let_def n_def [symmetric] t_def [symmetric] h_def [symmetric] mk_sds_def
        by (simp only: m_def b_def if_False if_True not_not simp_thms option.case sds_init.case sds_init.distinct Option.bind.simps)
      moreover have "mem_write b 0 d = Some (d @ drop n b)" "n < length (d @ drop n b)" "n < length b"
        using m by (simp_all add: mem_write_def n_def)
      ultimately show ?thesis
        by (auto simp: dr mk_sds_store mem_put_def b'_def)
    qed
    moreover have "sds_ok (mk_sds t n m b')" "content (mk_sds t n m b') = d"
      using mk_sds_ok [OF n m(1,2), of b'] m(3) b' by simp_all
    ultimately show ?thesis
      by (simp add: sds_resultI)
  qed
qed

lemma sdsMakeRoomFor_result:
  assumes "sds_ok s" "alloc_ok al" "sdslen s + addlen < 2 ^ 62"
  shows "\<exists>r. sdsMakeRoomFor_gen al s addlen greedy = Some r \<and>
    (\<forall>s'. r = Some s' \<longrightarrow> sds_ok s' \<and> content s' = content s \<and> sdslen s' = sdslen s \<and> sdslen s + addlen \<le> sdsalloc s') \<and>
    ((\<forall>n. usable al n \<noteq> None) \<longrightarrow> r \<noteq> None)"
proof (cases "sdsavail s \<ge> addlen")
  case True
  then have "sdslen s + addlen \<le> sdsalloc s"
    using sdsavail_eq [OF assms(1)] assms(1) unfolding sds_ok_def by linarith
  then show ?thesis
    using True assms(1) by (simp add: sdsMakeRoomFor_gen_def)
next
  case False
  define l q n where "l = sdslen s" and "q = l + addlen"
    and "n = (if greedy then (if q < SDS_MAX_PREALLOC then q * 2 else q + SDS_MAX_PREALLOC) else q)"
  define t h where "t = (if sdsReqType n = SDS_TYPE_5 then SDS_TYPE_8 else sdsReqType n)" and "h = sdsHdrSize t"
  have add: "0 < addlen"
    using False by simp
  have lq: "l < q" "q < 2 ^ 62"
    using assms(3) add by (simp_all add: l_def q_def)
  have qn: "q \<le> n" "n < 2 ^ 63"
    using lq(2) by (simp_all add: n_def SDS_MAX_PREALLOC_def)
  have md: "(l + addlen) mod 2 ^ 64 = q" "(if greedy then (if q < SDS_MAX_PREALLOC then q * 2 else q + SDS_MAX_PREALLOC) mod 2 ^ 64 else q) = n"
    using lq(2) qn(2) by (simp_all add: q_def n_def)
  have nt: "n < 2 ^ field_bits t" and t5: "t \<noteq> SDS_TYPE_5"
    using sdsReqType_fits [of n] qn(2) by (auto simp: t_def)
  have h: "0 < h" "h \<le> 17"
    unfolding h_def by (rule sdsHdrSize_bounds)+
  have asrt: "(h + n + 1) mod 2 ^ 64 > q"
    using qn h by (subst mod_less) simp_all
  have eq: "sdsMakeRoomFor_gen al s addlen greedy =
      (case usable al (h + n + 1) of
         None \<Rightarrow> Some None
       | Some us \<Rightarrow> do {
           s \<leftarrow> (if stype s = t then Some (s\<lparr>sbuf := mem_realloc (junk al) (us - h) (sbuf s)\<rparr>)
                 else do {
                   bs \<leftarrow> mem_read (sbuf s) 0 (l + 1);
                   buf \<leftarrow> mem_write (map (junk al) [0..<us - h]) 0 bs;
                   Some (sdssetlen \<lparr>stype = t, hlen = 0, halloc = 0, sbuf = buf\<rparr> l)
                 });
           Some (Some (sdssetalloc s (if us - h - 1 > sdsTypeMaxSize t then sdsTypeMaxSize t else us - h - 1)))
         })"
    using False lq(1) asrt
    unfolding sdsMakeRoomFor_gen_def Let_def l_def [symmetric] md t_def [symmetric] h_def [symmetric]
    by (simp only: if_False if_True not_not simp_thms)
  show ?thesis
  proof (cases "usable al (h + n + 1)")
    case None
    then show ?thesis
      unfolding eq by auto
  next
    case (Some us)
    then have us: "h + n + 1 \<le> us"
      using assms(2) by (simp add: alloc_ok_def)
    define m where "m = (if us - h - 1 > sdsTypeMaxSize t then sdsTypeMaxSize t else us - h - 1)"
    have pos: "0 < (2 :: nat) ^ field_bits t"
      by simp
    have m: "m < 2 ^ field_bits t" "n \<le> m" "m < us - h"
      using us nt pos h by (auto simp: m_def sdsTypeMaxSize_bits)
    have ls: "l < length (sbuf s)" "l < us - h" "l < 2 ^ field_bits t" "sbuf s ! l = 0"
      using assms(1) m lq(1) qn(1) nt by (auto simp: sds_ok_def l_def)
    define b where "b = (if stype s = t then mem_realloc (junk al) (us - h) (sbuf s)
      else take (l + 1) (sbuf s) @ drop (l + 1) (map (junk al) [0..<us - h]))"
    have b: "length b = us - h" "b ! l = 0" "take l b = take l (sbuf s)"
      using ls by (auto simp: b_def mem_realloc_def nth_append min_def)
    have "sdsMakeRoomFor_gen al s addlen greedy = Some (Some (mk_sds t l m b))"
    proof (cases "stype s = t")
      case True
      have "hlen s = l" "halloc s mod 2 ^ field_bits t < 2 ^ field_bits t"
        by (simp_all add: l_def sdslen_def)
      then have "sdssetalloc (s\<lparr>sbuf := b\<rparr>) m = mk_sds t l m b"
        using True t5 m(1) ls(3) by (simp add: mk_sds_def sdssetalloc_def sdssetlen_def)
      then show ?thesis
        using True Some unfolding eq by (simp add: b_def m_def)
    next
      case False
      have "mem_read (sbuf s) 0 (l + 1) = Some (take (l + 1) (sbuf s))"
        using ls(1) by (simp add: mem_read_def)
      moreover have "mem_write (map (junk al) [0..<us - h]) 0 (take (l + 1) (sbuf s)) = Some b"
      proof -
        have "length (take (l + 1) (sbuf s)) = l + 1"
          using ls(1) by simp
        then show ?thesis
          using False ls(2) by (simp only: mem_write_def b_def) simp
      qed
      ultimately show ?thesis
        using False Some unfolding eq m_def [symmetric] by (simp add: mk_sds_def m_def)
    qed
    moreover have "sds_ok (mk_sds t l m b)" "content (mk_sds t l m b) = take l b"
      using mk_sds_ok [OF ls(3) m(1), of b] m lq(1) qn(1) b by simp_all
    moreover have "sdslen (mk_sds t l m b) = l" "sdsalloc (mk_sds t l m b) = m"
      using mk_sds_simps [OF ls(3) m(1), of b] t5 by simp_all
    ultimately show ?thesis
      using b(3) m(2) qn(1) by (simp add: content_def l_def q_def)
  qed
qed
section \<open>The operations on the contents\<close>

text \<open>An operation that makes room and then stores: the rest of it, on a string with enough room.\<close>

lemma after_room:
  assumes "sds_ok s" "alloc_ok al" "sdslen s + addlen < 2 ^ 62"
    and "\<And>s'. sds_ok s' \<Longrightarrow> content s' = content s \<Longrightarrow> sdslen s' = sdslen s \<Longrightarrow> sdslen s + addlen \<le> sdsalloc s' \<Longrightarrow>
      sds_result al (f s') bs"
  shows "sds_result al (do { r \<leftarrow> sdsMakeRoomFor_gen al s addlen greedy; case r of None \<Rightarrow> Some None | Some s \<Rightarrow> f s }) bs"
proof -
  obtain r where r: "sdsMakeRoomFor_gen al s addlen greedy = Some r"
    "\<forall>s'. r = Some s' \<longrightarrow> sds_ok s' \<and> content s' = content s \<and> sdslen s' = sdslen s \<and> sdslen s + addlen \<le> sdsalloc s'"
    "(\<forall>n. usable al n \<noteq> None) \<longrightarrow> r \<noteq> None"
    using sdsMakeRoomFor_result [OF assms(1-3)] by blast
  show ?thesis
  proof (cases r)
    case None
    then show ?thesis
      using r(1,3) by (simp add: sds_result_def)
  next
    case (Some s')
    then show ?thesis
      using r(1,2) assms(4) [of s'] by simp
  qed
qed

lemma sput_setlen: "sput (sdssetlen s n) i c = map_option (\<lambda>s. sdssetlen s n) (sput s i c)"
  by (cases s) (simp add: sput_def sdssetlen_def mem_put_def)

text \<open>A string whose bytes and length were set.\<close>

lemma stored_result:
  assumes "sds_ok s" "n \<le> sdsalloc s" "length b = length (sbuf s)" "b ! n = 0" "take n b = bs"
  shows "sds_result al (Some (Some (sdssetlen (s\<lparr>sbuf := b\<rparr>) n))) bs"
  using set_len_ok [OF assms(1-4)] assms(5) by (simp add: sds_resultI)

lemma sds_fields: "sds_ok s \<Longrightarrow> sdslen s \<le> sdsalloc s" "sds_ok s \<Longrightarrow> sdsalloc s < length (sbuf s)"
  by (simp_all add: sds_ok_def)

lemma sdscatlen_result:
  assumes "sds_ok s" "alloc_ok al" "sdslen s + length t < 2 ^ 62"
  shows "sds_result al (sdscatlen al s t) (content s @ t)"
  unfolding sdscatlen_def Let_def sdsMakeRoomFor_def
proof (rule after_room [OF assms])
  fix s'
  assume ok: "sds_ok s'" and c: "content s' = content s" and l: "sdslen s' = sdslen s" and room: "sdslen s + length t \<le> sdsalloc s'"
  let ?n = "sdslen s + length t"
  let ?b = "(take (sdslen s) (sbuf s') @ t @ drop ?n (sbuf s'))[?n := 0]"
  have n: "?n < length (sbuf s')"
    using room sds_fields(2) [OF ok] by linarith
  then have w: "swrite s' (sdslen s) t = Some (s'\<lparr>sbuf := take (sdslen s) (sbuf s') @ t @ drop ?n (sbuf s')\<rparr>)"
    by (simp add: swrite_def mem_write_def)
  have len: "length (take (sdslen s) (sbuf s') @ t @ drop ?n (sbuf s')) = length (sbuf s')"
    using n by simp
  have "take ?n ?b = content s @ t"
    using n c l sds_fields [OF assms(1)] by (simp add: content_def min_def)
  moreover have "?b ! ?n = 0"
    using n len by (metis nth_list_update_eq)
  ultimately have "sds_result al (Some (Some (sdssetlen (s'\<lparr>sbuf := ?b\<rparr>) ?n))) (content s @ t)"
    using stored_result [OF ok room] len by simp
  then show "sds_result al (do { s \<leftarrow> swrite s' (sdslen s) t; s \<leftarrow> sput (sdssetlen s ?n) ?n 0; Some (Some s) }) (content s @ t)"
    using w len n by (simp add: sput_setlen) (simp add: sput_def mem_put_def)
qed

lemma sdsgrowzero_result:
  assumes "sds_ok s" "alloc_ok al" "n < 2 ^ 62"
  shows "sds_result al (sdsgrowzero al s n) (content s @ replicate (n - sdslen s) 0)"
proof (cases "n \<le> sdslen s")
  case True
  then show ?thesis
    using assms(1) by (simp add: sdsgrowzero_def sds_resultI)
next
  case False
  have "sds_result al (do { r \<leftarrow> sdsMakeRoomFor_gen al s (n - sdslen s) True;
      case r of None \<Rightarrow> Some None | Some s' \<Rightarrow> do { s' \<leftarrow> swrite s' (sdslen s) (replicate (n - sdslen s + 1) 0); Some (Some (sdssetlen s' n)) } })
      (content s @ replicate (n - sdslen s) 0)"
  proof (rule after_room [OF assms(1,2)])
    show "sdslen s + (n - sdslen s) < 2 ^ 62"
      using assms(3) False by simp
  next
    fix s'
    assume ok: "sds_ok s'" and c: "content s' = content s" and l: "sdslen s' = sdslen s" and room: "sdslen s + (n - sdslen s) \<le> sdsalloc s'"
    let ?z = "replicate (n - sdslen s + 1) 0 :: byte list"
    let ?b = "take (sdslen s) (sbuf s') @ ?z @ drop (sdslen s + (n - sdslen s + 1)) (sbuf s')"
    have n: "n \<le> sdsalloc s'" "n < length (sbuf s')" "sdslen s < length (sbuf s')"
      using room sds_fields(2) [OF ok] False by linarith+
    have "swrite s' (sdslen s) ?z = Some (s'\<lparr>sbuf := ?b\<rparr>)"
      using n False by (simp add: swrite_def mem_write_def)
    moreover have "length ?b = length (sbuf s')"
      using n False by simp
    moreover have "?b ! n = 0"
      using n False by (simp add: nth_append min_def del: replicate_Suc)
    moreover have "take n ?b = content s @ replicate (n - sdslen s) 0"
      using n False c l sds_fields [OF assms(1)] by (simp add: content_def min_def del: replicate_Suc)
    ultimately show "sds_result al (do { s' \<leftarrow> swrite s' (sdslen s) ?z; Some (Some (sdssetlen s' n)) })
        (content s @ replicate (n - sdslen s) 0)"
      using stored_result [OF ok n(1), of ?b] by simp
  qed
  then show ?thesis
    using False unfolding sdsgrowzero_def Let_def sdsMakeRoomFor_def by (simp only: if_False)
qed

lemma sdscpylen_store:
  assumes "sds_ok s" "length t \<le> sdsalloc s"
  shows "sds_result al (do { s \<leftarrow> swrite s 0 t; s \<leftarrow> sput s (length t) 0; Some (Some (sdssetlen s (length t))) }) t"
proof -
  let ?b = "(t @ drop (length t) (sbuf s))[length t := 0]"
  have n: "length t < length (sbuf s)"
    using assms sds_fields(2) [OF assms(1)] by linarith
  then have w: "swrite s 0 t = Some (s\<lparr>sbuf := t @ drop (length t) (sbuf s)\<rparr>)"
    by (simp add: swrite_def mem_write_def)
  have "?b ! length t = 0" "length ?b = length (sbuf s)" "take (length t) ?b = t"
    using n by simp_all
  then have "sds_result al (Some (Some (sdssetlen (s\<lparr>sbuf := ?b\<rparr>) (length t)))) t"
    using stored_result [OF assms] by blast
  then show ?thesis
    using n by (simp add: w sput_def mem_put_def)
qed

lemma sdscpylen_result:
  assumes "sds_ok s" "alloc_ok al" "length t < 2 ^ 62"
  shows "sds_result al (sdscpylen al s t) t"
proof (cases "sdsalloc s < length t")
  case True
  then have sum: "sdslen s + (length t - sdslen s) = length t"
    using sds_fields(1) [OF assms(1)] by linarith
  have "sds_result al (do { r \<leftarrow> sdsMakeRoomFor_gen al s (length t - sdslen s) True;
      case r of None \<Rightarrow> Some None
      | Some s \<Rightarrow> do { s \<leftarrow> swrite s 0 t; s \<leftarrow> sput s (length t) 0; Some (Some (sdssetlen s (length t))) } }) t"
    using assms sum by (intro after_room) (simp_all add: sdscpylen_store)
  then show ?thesis
    using True by (simp add: sdscpylen_def sdsMakeRoomFor_def Let_def)
next
  case False
  then show ?thesis
    using sdscpylen_store [OF assms(1), of t al] by (simp add: sdscpylen_def Let_def)
qed

lemma sdsclear_result: "sds_ok s \<Longrightarrow> \<exists>s'. sdsclear s = Some s' \<and> sds_ok s' \<and> content s' = []"
  using set_len_ok [of s 0 "(sbuf s) [0 := 0]"] sds_fields(2) [of s]
  by (simp add: sdsclear_def sput_setlen) (auto simp: sput_def mem_put_def)

lemma sdssubstr_result:
  assumes "sds_ok s"
  shows "\<exists>s'. sdssubstr s start len = Some s' \<and> sds_ok s' \<and> content s' = take len (drop start (content s))"
proof -
  define st ln where "st = (if start \<ge> sdslen s then 0 else start)"
    and "ln = min (if start \<ge> sdslen s then 0 else len) (sdslen s - st)"
  let ?b = "(take ln (drop st (sbuf s)) @ drop ln (sbuf s)) [ln := 0]"
  note f = sds_fields [OF assms]
  have ln: "st + ln \<le> sdslen s" "ln \<le> sdsalloc s" "ln < length (sbuf s)"
    using f by (auto simp: st_def ln_def)
  have "ln \<le> length (sbuf s) - st"
    using ln f by linarith
  then have tl: "length (take ln (drop st (sbuf s))) = ln"
    by simp
  have b: "length ?b = length (sbuf s)" "?b ! ln = 0" "take ln ?b = take ln (drop st (sbuf s))"
    using ln tl by (simp_all del: length_take)
  have "take ln (drop st (sbuf s)) = take len (drop start (content s))"
    by (auto simp: st_def ln_def content_def drop_take min_def)
  moreover have "sdssubstr s start len = Some (sdssetlen (s\<lparr>sbuf := ?b\<rparr>) ln)"
  proof -
    have "(if start \<ge> sdslen s then (0, 0) else (start, len)) = (st, if start \<ge> sdslen s then 0 else len)"
      by (simp add: st_def)
    moreover have "(if (if start \<ge> sdslen s then 0 else len) > sdslen s - st then sdslen s - st else (if start \<ge> sdslen s then 0 else len)) = ln"
      by (simp add: ln_def min_def)
    moreover have "mem_read (sbuf s) st ln = Some (take ln (drop st (sbuf s)))"
      using ln f by (simp add: mem_read_def)
    moreover have "swrite s 0 (take ln (drop st (sbuf s))) = Some (s\<lparr>sbuf := take ln (drop st (sbuf s)) @ drop ln (sbuf s)\<rparr>)"
      using ln tl by (simp add: swrite_def mem_write_def del: length_take)
    moreover have "ln < length (take ln (drop st (sbuf s)) @ drop ln (sbuf s))"
      using ln tl by (simp del: length_take)
    ultimately show ?thesis
      using ln unfolding sdssubstr_def Let_def by (auto simp: sput_def mem_put_def)
  qed
  ultimately show ?thesis
    using set_len_ok [OF assms ln(2) b(1,2)] b(3) by simp
qed

text \<open>What a range of indices selects.\<close>

definition range_spec :: "byte list \<Rightarrow> int \<Rightarrow> int \<Rightarrow> byte list" where
  "range_spec bs start end' =
     (let n = int (length bs);
          i = (if start < 0 then n + start else start);
          j = (if end' < 0 then n + end' else end') in
      if 0 \<le> i \<and> i \<le> j then take (nat (j - i + 1)) (drop (nat i) bs) else [])"

lemma sdsrange_result:
  assumes "sds_ok s" "- (2 ^ 62) \<le> start" "start < 2 ^ 62" "- (2 ^ 62) \<le> end'" "end' < 2 ^ 62" "sdslen s < 2 ^ 62"
  shows "\<exists>s'. sdsrange s start end' = Some s' \<and> sds_ok s' \<and> content s' = range_spec (content s) start end'"
proof (cases "sdslen s = 0")
  case True
  then show ?thesis
    using assms(1) by (simp add: sdsrange_def range_spec_def content_def Let_def)
next
  case False
  define i j where "i = (if start < 0 then int (sdslen s) + start else start)"
    and "j = (if end' < 0 then int (sdslen s) + end' else end')"
  have ij: "- (2 ^ 62) \<le> i" "i < 2 ^ 62" "- (2 ^ 62) \<le> j" "j < 2 ^ 62"
    using assms(2-6) by (auto simp: i_def j_def)
  obtain s' where s': "sdssubstr s (nat (i mod 2 ^ 64)) (nat ((if i > j then 0 else j - i + 1) mod 2 ^ 64)) = Some s'"
    "sds_ok s'" "content s' = take (nat ((if i > j then 0 else j - i + 1) mod 2 ^ 64)) (drop (nat (i mod 2 ^ 64)) (content s))"
    using sdssubstr_result [OF assms(1)] by blast
  have "sdsrange s start end' = Some s'"
    using s'(1) False unfolding sdsrange_def Let_def i_def [symmetric] j_def [symmetric] by (simp only: of_nat_eq_0_iff if_False)
  moreover have "content s' = range_spec (content s) start end'"
  proof (cases "i < 0")
    case True
    then have "i mod 2 ^ 64 = i + 2 ^ 64"
      using ij(1) by (subst mod_add_self2 [symmetric], intro mod_pos_pos_trivial) simp_all
    then have "length (content s) \<le> nat (i mod 2 ^ 64)"
      using ij(1) assms(6) content_length [OF assms(1)] by simp
    then show ?thesis
      using True s'(3) content_length [OF assms(1)] by (simp add: range_spec_def Let_def i_def j_def)
  next
    case nn: False
    then have "i mod 2 ^ 64 = i" "(j - i + 1) mod 2 ^ 64 = j - i + 1" if "i \<le> j"
      using ij that by (simp_all add: mod_pos_pos_trivial)
    then show ?thesis
      using nn s'(3) content_length [OF assms(1)] by (auto simp: range_spec_def Let_def i_def [symmetric] j_def [symmetric])
  qed
  ultimately show ?thesis
    using s'(2) by blast
qed

definition trim_spec :: "byte list \<Rightarrow> byte list \<Rightarrow> byte list" where
  "trim_spec cset bs = rev (dropWhile (in_cset cset) (rev (dropWhile (in_cset cset) bs)))"

lemma sdstrim_sp_eq: "sdstrim_sp cset cs sp = sp + length (takeWhile (in_cset cset) cs)"
  by (induction cs arbitrary: sp) simp_all

lemma sdstrim_ep_eq:
  assumes "n \<le> length cs" "sp \<le> n" "sp < n \<longrightarrow> \<not> in_cset cset (cs ! sp)"
  shows "take (sdstrim_ep cset cs sp n - sp) (drop sp cs) = rev (dropWhile (in_cset cset) (rev (take (n - sp) (drop sp cs)))) \<and>
    sdstrim_ep cset cs sp n \<le> n"
  using assms
proof (induction n)
  case (Suc n)
  show ?case
  proof (cases "sp < Suc n")
    case True
    then have split: "take (Suc n - sp) (drop sp cs) = take (n - sp) (drop sp cs) @ [cs ! n]"
      using Suc.prems(1) by (simp add: Suc_diff_le take_Suc_conv_app_nth)
    show ?thesis
    proof (cases "n > sp \<and> in_cset cset (cs ! n)")
      case t: True
      then show ?thesis
        using Suc.IH Suc.prems split by auto
    next
      case f: False
      then have "\<not> in_cset cset (cs ! n)"
        using True Suc.prems(3) by (cases "n = sp") auto
      then show ?thesis
        using f split by auto
    qed
  next
    case False
    then show ?thesis
      using Suc.prems(2) by auto
  qed
qed simp

lemma takeWhile_boundary: "sp = length (takeWhile P cs) \<Longrightarrow> sp < length cs \<Longrightarrow> \<not> P (cs ! sp)"
  by (simp add: nth_length_takeWhile)

lemma sdstrim_result:
  assumes "sds_ok s"
  shows "\<exists>s'. sdstrim s cset = Some s' \<and> sds_ok s' \<and> content s' = trim_spec cset (content s)"
proof -
  note f = sds_fields [OF assms]
  let ?c = "content s"
  define sp where "sp = length (takeWhile (in_cset cset) ?c)"
  define ln where "ln = sdstrim_ep cset ?c sp (sdslen s) - sp"
  have c: "mem_read (sbuf s) 0 (sdslen s) = Some ?c" "length ?c = sdslen s"
    using f by (simp_all add: mem_read_def content_def)
  have sp: "sp \<le> sdslen s"
    using c(2) length_takeWhile_le [of "in_cset cset" ?c] by (simp add: sp_def)
  have "sp < sdslen s \<longrightarrow> \<not> in_cset cset (?c ! sp)"
    using takeWhile_boundary [OF sp_def] c(2) by simp
  then have ep: "take ln (drop sp ?c) = rev (dropWhile (in_cset cset) (rev (take (sdslen s - sp) (drop sp ?c))))"
    "sdstrim_ep cset ?c sp (sdslen s) \<le> sdslen s"
    using sdstrim_ep_eq [of "sdslen s" ?c sp cset] sp c(2) unfolding ln_def by simp_all
  have dw: "drop sp ?c = dropWhile (in_cset cset) ?c"
    unfolding sp_def by (metis dropWhile_eq_drop)
  have "take (sdslen s - sp) (drop sp ?c) = drop sp ?c"
    using c(2) by simp
  then have tr: "take ln (drop sp ?c) = trim_spec cset ?c"
    using ep(1) unfolding trim_spec_def dw [symmetric] by simp
  have ln: "sp + ln \<le> sdslen s" "ln \<le> sdsalloc s" "ln < length (sbuf s)" "ln \<le> length (sbuf s) - sp"
    using ep(2) sp f unfolding ln_def by linarith+
  have tk: "take ln (drop sp (sbuf s)) = take ln (drop sp ?c)"
    using ln(1) by (simp add: content_def drop_take)
  let ?b = "(if sp \<noteq> 0 then take ln (drop sp (sbuf s)) @ drop ln (sbuf s) else sbuf s) [ln := 0]"
  have tl: "length (take ln (drop sp (sbuf s))) = ln"
    using ln(4) by simp
  have b: "length ?b = length (sbuf s)" "?b ! ln = 0" "take ln ?b = take ln (drop sp (sbuf s))"
    using ln tl by (simp_all del: length_take)
  have "mem_read (sbuf s) sp ln = Some (take ln (drop sp (sbuf s)))"
    using ln f by (simp add: mem_read_def)
  moreover have "swrite s 0 (take ln (drop sp (sbuf s))) = Some (s\<lparr>sbuf := take ln (drop sp (sbuf s)) @ drop ln (sbuf s)\<rparr>)"
    using ln tl by (simp add: swrite_def mem_write_def del: length_take)
  moreover have "ln < length (take ln (drop sp (sbuf s)) @ drop ln (sbuf s))"
    using ln tl by (simp del: length_take)
  moreover have sp0: "sdstrim_sp cset ?c 0 = sp"
    by (simp add: sdstrim_sp_eq sp_def)
  have "sdstrim s cset = do {
      bs \<leftarrow> mem_read (sbuf s) sp ln;
      s \<leftarrow> (if sp \<noteq> 0 then swrite s 0 bs else Some s);
      s \<leftarrow> sput s ln 0;
      Some (sdssetlen s ln)
    }"
    by (simp only: sdstrim_def Let_def c(1) Option.bind.simps sp0 ln_def)
  ultimately have "sdstrim s cset = Some (sdssetlen (s\<lparr>sbuf := ?b\<rparr>) ln)"
    using ln(3) by (cases "sp = 0") (auto simp: sput_def mem_put_def)
  then show ?thesis
    using set_len_ok [OF assms ln(2) b(1,2)] b(3) tk tr by simp
qed

text \<open>The end of a resizing: the length and the size are set.\<close>

lemma resized_result:
  assumes "sz < 2 ^ field_bits (stype s)" "len \<le> sz" "sz < length (sbuf s)" "take len (sbuf s) = bs"
  shows "sds_result al (do { s \<leftarrow> sput s len 0; Some (Some (sdssetalloc (sdssetlen s len) sz)) }) bs"
proof -
  have "sds_ok (sdssetalloc (sdssetlen (s\<lparr>sbuf := (sbuf s)[len := 0]\<rparr>) len) sz)"
    "content (sdssetalloc (sdssetlen (s\<lparr>sbuf := (sbuf s)[len := 0]\<rparr>) len) sz) = bs"
    using assms by (auto simp: sds_ok_def content_def sdssetalloc_def sdssetlen_def sdslen_def sdsalloc_def)
  then have "sds_result al (Some (Some (sdssetalloc (sdssetlen (s\<lparr>sbuf := (sbuf s)[len := 0]\<rparr>) len) sz))) bs"
    by (rule sds_resultI)
  then show ?thesis
    using assms(2,3) by (simp add: sput_def mem_put_def)
qed

lemma smaller_type_fits: "type_no t < type_no t' \<Longrightarrow> n < 2 ^ field_bits t \<Longrightarrow> n < (2 :: nat) ^ field_bits t'"
  by (cases t; cases t') simp_all

lemma sdsResize_result:
  assumes "sds_ok s" "alloc_ok al" "sz < 2 ^ 62"
  shows "sds_result al (sdsResize al s sz would_regrow) (take sz (content s))"
proof (cases "sdsalloc s = sz")
  case True
  then have "take sz (content s) = content s"
    using sds_fields(1) [OF assms(1)] by (simp add: content_def)
  then show ?thesis
    using True assms(1) by (simp add: sdsResize_def sds_resultI)
next
  case False
  define l len t h oh where "l = sdslen s" and "len = (if sz < l then sz else l)"
    and "t = (if would_regrow \<and> sdsReqType sz = SDS_TYPE_5 then SDS_TYPE_8 else sdsReqType sz)"
    and "h = sdsHdrSize t" and "oh = sdsHdrSize (stype s)"
  define ur where "ur = (stype s = t \<or> (type_no t < type_no (stype s) \<and> type_no t > type_no SDS_TYPE_8))"
  define nl where "nl = (if ur then oh + sz + 1 else h + sz + 1)"
  note f = sds_fields [OF assms(1)]
  have len: "len \<le> sz" "len < length (sbuf s)" "len \<le> l"
    using f by (auto simp: len_def l_def)
  have tc: "take len (sbuf s) = take sz (content s)"
    by (simp add: content_def len_def l_def)
  have szt: "sz < 2 ^ field_bits t"
    using sdsReqType_fits [of sz] assms(3) by (auto simp: t_def)
  define fin where "fin = (\<lambda>s. do { s \<leftarrow> sput s len 0; Some (Some (sdssetalloc (sdssetlen s len) sz)) })"
  define step where "step =
      (if ur then
         if nallocx al nl = Some (oh + length (sbuf s)) then Some (Some s)
         else case usable al nl of
                None \<Rightarrow> Some None
              | Some us \<Rightarrow> Some (Some (s\<lparr>sbuf := mem_realloc (junk al) (us - oh) (sbuf s)\<rparr>))
       else case usable al nl of
              None \<Rightarrow> Some None
            | Some us \<Rightarrow> do {
                bs \<leftarrow> mem_read (sbuf s) 0 len;
                buf \<leftarrow> mem_write (map (junk al) [0..<us - h]) 0 bs;
                Some (Some \<lparr>stype = t, hlen = 0, halloc = 0, sbuf = buf\<rparr>)
              })"
  have eq: "sdsResize al s sz would_regrow = do { r \<leftarrow> step; case r of None \<Rightarrow> Some None | Some s \<Rightarrow> fin s }"
    using False unfolding sdsResize_def Let_def step_def fin_def nl_def ur_def h_def oh_def t_def len_def l_def
    by (simp only: if_False conj_commute)
  have us: "n \<le> u" if "usable al n = Some u" for n u
    using assms(2) that by (simp add: alloc_ok_def)
  show ?thesis
  proof (cases ur)
    case True
    have szs: "sz < 2 ^ field_bits (stype s)"
      using True szt smaller_type_fits by (auto simp: ur_def)
    show ?thesis
    proof (cases "nallocx al nl = Some (oh + length (sbuf s))")
      case opt: True
      then have "nl \<le> oh + length (sbuf s)"
        using assms(2) by (simp add: alloc_ok_def)
      then have "sds_result al (fin s) (take sz (content s))"
        unfolding fin_def using True szs len(1) tc by (intro resized_result) (simp_all add: nl_def)
      then show ?thesis
        using True opt by (simp add: eq step_def)
    next
      case nopt: False
      show ?thesis
      proof (cases "usable al nl")
        case None
        then show ?thesis
          using True nopt by (simp add: eq step_def sds_result_NULL)
      next
        case (Some u)
        have u: "sz < u - oh"
          using us [OF Some] True by (simp add: nl_def)
        let ?s = "s\<lparr>sbuf := mem_realloc (junk al) (u - oh) (sbuf s)\<rparr>"
        have "sds_result al (fin ?s) (take sz (content s))"
          unfolding fin_def using szs len u tc by (intro resized_result) simp_all
        then show ?thesis
          using True nopt Some by (simp add: eq step_def)
      qed
    qed
  next
    case nur: False
    show ?thesis
    proof (cases "usable al nl")
      case None
      then show ?thesis
        using nur by (simp add: eq step_def sds_result_NULL)
    next
      case (Some u)
      have u: "sz < u - h"
        using us [OF Some] nur by (simp add: nl_def)
      let ?b = "take len (sbuf s) @ drop len (map (junk al) [0..<u - h])"
      let ?s = "\<lparr>stype = t, hlen = 0, halloc = 0, sbuf = ?b\<rparr>"
      have tl: "length (take len (sbuf s)) = len"
        using len(2) by simp
      have "mem_write (map (junk al) [0..<u - h]) 0 (take len (sbuf s)) = Some ?b"
        using tl len(1) u by (simp add: mem_write_def del: length_take)
      moreover have "mem_read (sbuf s) 0 len = Some (take len (sbuf s))"
        using len(2) by (simp add: mem_read_def)
      ultimately have "step = Some (Some ?s)"
        using nur Some by (simp add: step_def)
      moreover have "take len ?b = take sz (content s)"
        using tl by (simp only: take_append tc diff_self_eq_0 take_0 append_Nil2 take_all order_refl)
      then have "sds_result al (fin ?s) (take sz (content s))"
        unfolding fin_def using szt len(1) u tl by (intro resized_result) (simp_all del: length_take take_append)
      ultimately show ?thesis
        by (simp add: eq)
    qed
  qed
qed

section \<open>Sequences of operations\<close>

datatype sds_op =
    CatLen "byte list"
  | CpyLen "byte list"
  | GrowZero nat
  | MakeRoom nat bool
  | Resize nat bool
  | Clear
  | Trim "byte list"
  | Range int int

definition in_place :: "sds option \<Rightarrow> sds option option" where
  "in_place r = map_option Some r"

fun sds_step :: "sds_alloc \<Rightarrow> sds \<Rightarrow> sds_op \<Rightarrow> sds option option" where
  "sds_step al s (CatLen t) = sdscatlen al s t"
| "sds_step al s (CpyLen t) = sdscpylen al s t"
| "sds_step al s (GrowZero n) = sdsgrowzero al s n"
| "sds_step al s (MakeRoom n greedy) = sdsMakeRoomFor_gen al s n greedy"
| "sds_step al s (Resize n regrow) = sdsResize al s n regrow"
| "sds_step al s Clear = in_place (sdsclear s)"
| "sds_step al s (Trim cset) = in_place (sdstrim s cset)"
| "sds_step al s (Range i j) = in_place (sdsrange s i j)"

fun bytes_step :: "byte list \<Rightarrow> sds_op \<Rightarrow> byte list" where
  "bytes_step bs (CatLen t) = bs @ t"
| "bytes_step bs (CpyLen t) = t"
| "bytes_step bs (GrowZero n) = bs @ replicate (n - length bs) 0"
| "bytes_step bs (MakeRoom n greedy) = bs"
| "bytes_step bs (Resize n regrow) = take n bs"
| "bytes_step bs Clear = []"
| "bytes_step bs (Trim cset) = trim_spec cset bs"
| "bytes_step bs (Range i j) = range_spec bs i j"

text \<open>The memory that an operation asks for, and the arguments it accepts.\<close>

fun op_cost :: "sds_op \<Rightarrow> nat" where
  "op_cost (CatLen t) = length t"
| "op_cost (CpyLen t) = length t"
| "op_cost (GrowZero n) = n"
| "op_cost (MakeRoom n greedy) = n"
| "op_cost (Resize n regrow) = n"
| "op_cost p = 0"

fun sds_op_ok :: "sds_op \<Rightarrow> bool" where
  "sds_op_ok (Range i j) = (- (2 ^ 62) \<le> i \<and> i < 2 ^ 62 \<and> - (2 ^ 62) \<le> j \<and> j < 2 ^ 62)"
| "sds_op_ok p = True"

lemma in_place_result:
  "\<exists>s'. r = Some s' \<and> sds_ok s' \<and> content s' = bs \<Longrightarrow> sds_result al (in_place r) bs"
  by (auto simp: in_place_def sds_resultI)

lemma sds_step_result:
  assumes "sds_ok s" "alloc_ok al" "sds_op_ok p" "sdslen s + op_cost p < 2 ^ 62"
  shows "sds_result al (sds_step al s p) (bytes_step (content s) p)"
proof (cases p)
  case (CatLen t)
  then show ?thesis
    using sdscatlen_result [OF assms(1,2)] assms(4) by simp
next
  case (CpyLen t)
  then show ?thesis
    using sdscpylen_result [OF assms(1,2)] assms(4) by simp
next
  case (GrowZero n)
  then show ?thesis
    using sdsgrowzero_result [OF assms(1,2)] assms(4) content_length [OF assms(1)] by simp
next
  case (MakeRoom n greedy)
  then show ?thesis
    using sdsMakeRoomFor_result [OF assms(1,2), of n greedy] assms(4) by (auto simp: sds_result_def)
next
  case (Resize n regrow)
  then show ?thesis
    using sdsResize_result [OF assms(1,2)] assms(4) by simp
next
  case Clear
  then show ?thesis
    using in_place_result [OF sdsclear_result [OF assms(1)]] by simp
next
  case (Trim cset)
  then show ?thesis
    using in_place_result [OF sdstrim_result [OF assms(1)]] by simp
next
  case (Range i j)
  then show ?thesis
    using in_place_result [OF sdsrange_result [OF assms(1), of i j]] assms(3,4) by simp
qed

definition never_fails :: "sds_alloc \<Rightarrow> bool" where
  "never_fails al \<longleftrightarrow> (\<forall>n. usable al n \<noteq> None)"

definition sds_machine :: "sds_alloc \<times> sds \<Rightarrow> sds_op \<Rightarrow> ((sds_alloc \<times> sds) \<times> unit) option" where
  "sds_machine st p = do { r \<leftarrow> sds_step (fst st) (snd st) p; s \<leftarrow> r; Some ((fst st, s), ()) }"

definition sds_inv :: "sds_alloc \<times> sds \<Rightarrow> byte list \<Rightarrow> bool" where
  "sds_inv st bs \<longleftrightarrow> alloc_ok (fst st) \<and> never_fails (fst st) \<and> sds_ok (snd st) \<and> content (snd st) = bs"

lemma range_spec_length: "length (range_spec bs i j) \<le> length bs"
  by (auto simp: range_spec_def Let_def)

lemma trim_spec_length: "length (trim_spec cset bs) \<le> length bs"
  unfolding trim_spec_def length_rev
  by (rule le_trans [OF length_dropWhile_le]) (simp add: length_dropWhile_le)

lemma bytes_step_length: "length (bytes_step bs p) \<le> length bs + op_cost p"
  by (cases p) (simp_all add: range_spec_length trim_spec_length)

interpretation sdsr: stepwise_refinement sds_inv length op_cost "2 ^ 62 - 1" sds_op_ok sds_machine "\<lambda>bs p. (bytes_step bs p, ())"
proof (unfold_locales, goal_cases)
  case (1 st bs p)
  have "sdslen (snd st) + op_cost p < 2 ^ 62"
    using 1(1,3) content_length [of "snd st"] by (simp add: sds_inv_def)
  then have "sds_result (fst st) (sds_step (fst st) (snd st) p) (bytes_step bs p)"
    using sds_step_result [of "snd st" "fst st" p] 1(1,2) by (auto simp: sds_inv_def)
  then obtain s where "sds_step (fst st) (snd st) p = Some (Some s)" "sds_ok s" "content s = bytes_step bs p"
    using 1(1) by (auto simp: sds_result_def sds_inv_def never_fails_def)
  then show ?case
    using 1(1) by (simp add: sds_machine_def sds_inv_def)
next
  case (2 st bs p)
  then show ?case
    using bytes_step_length [of bs p] by simp
qed

text \<open>C4: A string that is created from some bytes and then changed by any sequence of appending, overwriting, growing with
  zeros, reserving room, resizing, clearing, trimming and cutting out ranges holds, after every step, what the
  same operations do to the plain sequence of bytes. All memory accesses stay inside of the allocation,
  whatever header type is in use, and the string is always terminated by a zero byte.\<close>

theorem sds_refines_bytes:
  assumes "alloc_ok al" "never_fails al" "\<forall>p\<in>set ps. sds_op_ok p"
    and "length d + sum_list (map op_cost ps) \<le> 2 ^ 62 - 1"
  shows "\<exists>s s' rs. sdsnewlen al (InitData d) (length d) = Some (Some s) \<and>
     concrete_run sds_machine (al, s) ps = Some ((al, s'), rs) \<and> sds_ok s' \<and> content s' = foldl bytes_step d ps"
proof -
  have "length d < 2 ^ 63"
    using assms(4) by simp
  then have "sds_result al (sdsnewlen al (InitData d) (length d)) d"
    by (rule sdsnewlen_result [OF assms(1)])
  then obtain s where s: "sdsnewlen al (InitData d) (length d) = Some (Some s)" "sds_ok s" "content s = d"
    using assms(2) by (auto simp: sds_result_def never_fails_def)
  have inv: "sds_inv (al, s) d"
    using assms(1,2) s by (simp add: sds_inv_def)
  have fold: "fst (abstract_run (\<lambda>bs p. (bytes_step bs p, ())) bs qs) = foldl bytes_step bs qs" for bs qs
    by (induction qs arbitrary: bs) (simp_all add: case_prod_beta Let_def)
  have keep: "concrete_run sds_machine st qs = Some (st', rs) \<Longrightarrow> fst st' = fst st" for st st' rs qs
    by (induction qs arbitrary: st rs) (auto simp: sds_machine_def split: bind_splits)
  obtain st rs where r: "concrete_run sds_machine (al, s) ps = Some (st, rs)" "sds_inv st (foldl bytes_step d ps)"
    using sdsr.run_refines [OF inv assms(3,4)] unfolding fold by blast
  obtain s' where st: "st = (al, s')"
    using keep [OF r(1)] by (cases st) auto
  have "sds_ok s'" "content s' = foldl bytes_step d ps"
    using r(2) by (simp_all add: sds_inv_def st)
  then show ?thesis
    using s(1) r(1) unfolding st by blast
qed

definition exact_alloc :: sds_alloc where
  "exact_alloc = \<lparr>usable = Some, junk = (\<lambda>i. 170), nallocx = (\<lambda>n. None)\<rparr>"

theorem sds_refines_bytes_witness:
  "\<exists>s s' rs. sdsnewlen exact_alloc (InitData [65, 97]) 2 = Some (Some s) \<and>
     concrete_run sds_machine (exact_alloc, s) [CatLen [66, 32, 0, 32], Trim [32], GrowZero 5, Range 1 (-2), Resize 2 False] =
       Some ((exact_alloc, s'), rs) \<and> sds_ok s' \<and> content s' = [97, 66]"
proof -
  let ?ps = "[CatLen [66, 32, 0, 32], Trim [32], GrowZero 5, Range 1 (-2), Resize 2 False]"
  have al: "alloc_ok exact_alloc" "never_fails exact_alloc"
    by (simp_all add: exact_alloc_def alloc_ok_def never_fails_def)
  have "trim_spec [32] [65, 97, 66, 32, 0, 32] = [65, 97, 66]"
    by (simp add: trim_spec_def in_cset_def)
  moreover have "replicate 2 (0 :: byte) = [0, 0]"
    by (simp add: numeral_2_eq_2)
  moreover have "range_spec [65, 97, 66, 0, 0] 1 (-2) = [97, 66, 0]"
    by (simp add: range_spec_def)
  ultimately have "foldl bytes_step [65, 97] ?ps = [97, 66]"
    by simp
  then have fold: "foldl bytes_step [65, 97] ?ps = [97, 66]" .
  have ok: "\<forall>p\<in>set ?ps. sds_op_ok p" and len: "length [65, 97 :: byte] = 2"
    and cost: "length [65, 97 :: byte] + sum_list (map op_cost ?ps) \<le> 2 ^ 62 - 1"
    by simp_all
  from sds_refines_bytes [OF al ok cost] show ?thesis
    unfolding fold len .
qed

text \<open>The request of an append that has to grow the string to the length \<open>q\<close>: twice the length up to a megabyte, a megabyte more
  beyond it, with the smallest header that can count it and the terminator.\<close>

definition header_bytes :: "nat \<Rightarrow> nat" where
  "header_bytes n = (if n < 2 ^ 8 then 3 else if n < 2 ^ 16 then 5 else if n < 2 ^ 32 then 9 else 17)"

definition room_request :: "nat \<Rightarrow> nat" where
  "room_request q = (let n = (if q < 2 ^ 20 then 2 * q else q + 2 ^ 20) in header_bytes n + n + 1)"

lemma header_bytes_eq:
  "sdsHdrSize (if sdsReqType n = SDS_TYPE_5 then SDS_TYPE_8 else sdsReqType n) = header_bytes n"
  by (simp add: sdsReqType_def header_bytes_def)

lemma sdsMakeRoomFor_gen_null:
  fixes greedy :: bool
  assumes "sdslen s + addlen < 2 ^ 62" "sdsavail s < addlen"
  defines "q \<equiv> sdslen s + addlen"
  defines "n \<equiv> (if greedy then (if q < SDS_MAX_PREALLOC then q * 2 else q + SDS_MAX_PREALLOC) else q)"
  shows "sdsMakeRoomFor_gen al s addlen greedy = Some None \<longleftrightarrow> usable al (header_bytes n + n + 1) = None"
proof -
  define l h where "l = sdslen s" and "h = header_bytes n"
  have q: "q < 2 ^ 62" "q \<le> n" "n < 2 ^ 63" "l < q" "\<not> sdsavail s \<ge> addlen"
    using assms(1,2) by (simp_all add: q_def n_def l_def SDS_MAX_PREALLOC_def)
  have md: "(l + addlen) mod 2 ^ 64 = q"
    "(if greedy then (if q < SDS_MAX_PREALLOC then q * 2 else q + SDS_MAX_PREALLOC) mod 2 ^ 64 else q) = n"
    using q by (simp_all add: q_def n_def l_def)
  have "(h + n + 1) mod 2 ^ 64 > q"
    using q by (subst mod_less) (simp_all add: h_def header_bytes_def)
  then show ?thesis
    unfolding sdsMakeRoomFor_gen_def Let_def l_def [symmetric] md header_bytes_eq h_def [symmetric]
    using q(4,5) by (simp add: bind_eq_Some_conv split: option.split)
qed

lemma sdsMakeRoomFor_null:
  assumes "sdslen s + addlen < 2 ^ 62"
  shows "sdsMakeRoomFor al s addlen = Some None \<longleftrightarrow>
    sdsavail s < addlen \<and> usable al (room_request (sdslen s + addlen)) = None"
proof (cases "sdsavail s \<ge> addlen")
  case True
  then show ?thesis
    by (simp add: sdsMakeRoomFor_def sdsMakeRoomFor_gen_def)
next
  case False
  then show ?thesis
    using sdsMakeRoomFor_gen_null [OF assms, of al True]
    by (simp add: sdsMakeRoomFor_def room_request_def Let_def SDS_MAX_PREALLOC_def mult.commute)
qed

text \<open>C39: Appending and a failing allocator. The result is \<open>NULL\<close> exactly if the bytes do not fit into the room of the
  string and the one request for a larger block, of the size that the growth policy fixes, fails. Bytes
  that fit are appended in place, in the same block, whatever the allocator does. Otherwise the string is
  well-formed and has the bytes behind its old contents; no case is a fault.\<close>

theorem sdscatlen_null_exact:
  assumes "sds_ok s" "alloc_ok al" "sdslen s + length t < 2 ^ 62"
  shows "\<exists>r. sdscatlen al s t = Some r \<and>
     (r = None \<longleftrightarrow> sdsavail s < length t \<and> usable al (room_request (sdslen s + length t)) = None) \<and>
     (\<forall>s'. r = Some s' \<longrightarrow> sds_ok s' \<and> content s' = content s @ t \<and>
        (length t \<le> sdsavail s \<longrightarrow> sdsalloc s' = sdsalloc s \<and> length (sbuf s') = length (sbuf s)))"
proof -
  have "sds_result al (sdscatlen al s t) (content s @ t)"
    using assms by (rule sdscatlen_result)
  then obtain r where r: "sdscatlen al s t = Some r" "\<forall>s'. r = Some s' \<longrightarrow> sds_ok s' \<and> content s' = content s @ t"
    unfolding sds_result_def by blast
  have null: "sdscatlen al s t = Some None \<longleftrightarrow> sdsMakeRoomFor al s (length t) = Some None"
    by (auto simp: sdscatlen_def Let_def bind_eq_Some_conv split: option.splits)
  have keep: "sdsalloc s' = sdsalloc s \<and> length (sbuf s') = length (sbuf s)" if "length t \<le> sdsavail s" "r = Some s'" for s'
  proof -
    have "sdsMakeRoomFor al s (length t) = Some (Some s)"
      using that(1) by (simp add: sdsMakeRoomFor_def sdsMakeRoomFor_gen_def)
    moreover have "t = [] \<and> hlen s < 2 ^ field_bits (stype s)" if "stype s = SDS_TYPE_5"
      using \<open>length t \<le> sdsavail s\<close> that assms(1) by (simp add: sdsavail_def sds_ok_def sdsalloc_def)
    ultimately show ?thesis
      using r(1) that(2)
      by (auto simp: sdscatlen_def Let_def bind_eq_Some_conv swrite_def sput_def sdssetlen_def sdslen_def sdsalloc_def mem_write_def mem_put_def split: if_splits)
  qed
  show ?thesis
    using r keep null sdsMakeRoomFor_null [OF assms(3), of al] by (intro exI [of _ r]) auto
qed

theorem sdscatlen_null_exact_witness:
  "sdscatlen \<lparr>usable = (\<lambda>n. None), junk = (\<lambda>i. 0), nallocx = (\<lambda>n. None)\<rparr>
     \<lparr>stype = SDS_TYPE_8, hlen = 1, halloc = 1, sbuf = [65, 0]\<rparr> [66] = Some None"
proof -
  let ?al = "\<lparr>usable = (\<lambda>n. None), junk = (\<lambda>i. 0), nallocx = (\<lambda>n. None)\<rparr>"
  let ?s = "\<lparr>stype = SDS_TYPE_8, hlen = 1, halloc = 1, sbuf = [65, 0]\<rparr>"
  have "sds_ok ?s" "alloc_ok ?al" "sdslen ?s + length [66 :: byte] < 2 ^ 62"
    by (simp_all add: sds_ok_def alloc_ok_def sdslen_def sdsalloc_def)
  from sdscatlen_null_exact [OF this] show ?thesis
    by (auto simp: sdsavail_def sdslen_def sdsalloc_def)
qed

section \<open>Changing the length in place\<close>

text \<open>The assertions of \<^verbatim>\<open>sdsIncrLen\<close>, with the types that C compares in. The terminator goes to the length
  as it is read back from the header, except for the shortest type, where it goes to the length that was computed.\<close>

definition incr_assert :: "sds \<Rightarrow> int \<Rightarrow> bool" where
  "incr_assert s incr =
     (let len = int (hlen s); room = int (halloc s) - int (hlen s) in
      case stype s of
        SDS_TYPE_5 \<Rightarrow> (incr > 0 \<and> len + incr < 32) \<or> (incr < 0 \<and> len \<ge> (- incr) mod 2 ^ 32)
      | SDS_TYPE_32 \<Rightarrow> (incr \<ge> 0 \<and> room mod 2 ^ 32 \<ge> incr mod 2 ^ 32) \<or> (incr < 0 \<and> len \<ge> (- incr) mod 2 ^ 32)
      | SDS_TYPE_64 \<Rightarrow> (incr \<ge> 0 \<and> room mod 2 ^ 64 \<ge> incr mod 2 ^ 64) \<or> (incr < 0 \<and> len \<ge> (- incr) mod 2 ^ 64)
      | _ \<Rightarrow> (incr \<ge> 0 \<and> room \<ge> incr) \<or> (incr < 0 \<and> len \<ge> (- incr) mod 2 ^ 32))"

definition sdsIncrLen :: "sds \<Rightarrow> int \<Rightarrow> sds option" where
  "sdsIncrLen s incr =
     (if incr_assert s incr then
        let n = int (hlen s) + incr;
            field = nat (n mod 2 ^ field_bits (stype s));
            len = (if stype s = SDS_TYPE_5 then nat (n mod 2 ^ 64) else field)
        in sput (s\<lparr>hlen := field\<rparr>) len 0
      else None)"

lemma sdsIncrLen_result:
  assumes "sds_ok s" "0 \<le> int (sdslen s) + incr" "int (sdslen s) + incr \<le> int (sdsalloc s)"
    "stype s = SDS_TYPE_5 \<longrightarrow> incr < 0"
  shows "\<exists>s'. sdsIncrLen s incr = Some s' \<and> sds_ok s' \<and>
    content s' = take (nat (int (sdslen s) + incr)) (sbuf s)"
proof -
  define n where "n = nat (int (sdslen s) + incr)"
  have al: "sdsalloc s < length (sbuf s)" "sdsalloc s < 2 ^ field_bits (stype s)"
    using assms(1) by (simp_all add: sds_ok_def)
  have n12: "int n = int (hlen s) + incr" "n \<le> sdsalloc s"
    using assms(2,3) by (simp_all add: n_def sdslen_def)
  note n = n12 le_less_trans [OF n12(2) al(1)] le_less_trans [OF n12(2) al(2)]
  have md: "(int (hlen s) + incr) mod 2 ^ field_bits (stype s) = int n"
    unfolding n(1) [symmetric] using n(4) by (intro mod_pos_pos_trivial) (simp_all add: of_nat_less_numeral_power_cancel_iff)
  have up: "(- incr) mod 2 ^ k \<le> int (hlen s)" if "incr < 0" for k
  proof -
    have "(- incr) mod 2 ^ k \<le> - incr"
      using that by (intro zmod_le_nonneg_dividend) simp
    then show ?thesis
      using n(1) by linarith
  qed
  have room: "incr mod 2 ^ k \<le> (int (halloc s) - int (hlen s)) mod 2 ^ k"
    if "0 \<le> incr" "stype s \<noteq> SDS_TYPE_5" "field_bits (stype s) \<le> k" for k
  proof -
    have "(2 :: int) ^ field_bits (stype s) \<le> 2 ^ k"
      using that(3) by (rule power_increasing) simp
    moreover have "int (sdsalloc s) < int (2 ^ field_bits (stype s))"
      using al(2) by (simp only: of_nat_less_iff)
    then have "int (halloc s) < 2 ^ field_bits (stype s)"
      using that(2) by (simp only: sdsalloc_def of_nat_power of_nat_numeral if_False)
    moreover have "incr \<le> int (halloc s) - int (hlen s)"
      using assms(3) that(2) by (simp add: sdslen_def sdsalloc_def)
    ultimately have lt: "int (halloc s) - int (hlen s) < 2 ^ k" "incr < 2 ^ k" "0 \<le> int (halloc s) - int (hlen s)"
      using that(1) by linarith+
    then have "incr mod 2 ^ k = incr" "(int (halloc s) - int (hlen s)) mod 2 ^ k = int (halloc s) - int (hlen s)"
      using that(1) by (simp_all only: mod_pos_pos_trivial)
    then show ?thesis
      using \<open>incr \<le> int (halloc s) - int (hlen s)\<close> by simp
  qed
  have small: "incr \<le> int (halloc s) - int (hlen s)" if "stype s \<noteq> SDS_TYPE_5"
    using assms(3) that by (simp add: sdslen_def sdsalloc_def)
  have "incr_assert s incr"
    using up [of 32] up [of 64] room [of 32] room [of 64] small assms(4) unfolding incr_assert_def Let_def
    by (cases "stype s"; cases "incr < 0") auto
  moreover have "(int (hlen s) + incr) mod 2 ^ 64 = int n" if "stype s = SDS_TYPE_5"
    unfolding n(1) [symmetric] using n(4) that by (intro mod_pos_pos_trivial) simp_all
  moreover have "sput (s\<lparr>hlen := n\<rparr>) n 0 = Some (sdssetlen (s\<lparr>sbuf := (sbuf s)[n := 0]\<rparr>) n)"
    using n(3,4) by (cases s) (simp add: sput_def mem_put_def sdssetlen_def)
  ultimately have "sdsIncrLen s incr = Some (sdssetlen (s\<lparr>sbuf := (sbuf s)[n := 0]\<rparr>) n)"
    by (simp add: sdsIncrLen_def md Let_def)
  then show ?thesis
    using set_len_ok [OF assms(1) n(2), of "(sbuf s)[n := 0]"] n(3) unfolding n_def [symmetric] by simp
qed

section \<open>Comparison and case\<close>

text \<open>\<^verbatim>\<open>memcmp\<close> up to its sign.\<close>

primrec memcmp_sign :: "byte list \<Rightarrow> byte list \<Rightarrow> int" where
  "memcmp_sign [] ys = 0"
| "memcmp_sign (x # xs) ys =
     (case ys of [] \<Rightarrow> 0 | y # ys' \<Rightarrow> if x < y then - 1 else if y < x then 1 else memcmp_sign xs ys')"

definition sdscmp :: "sds \<Rightarrow> sds \<Rightarrow> int option" where
  "sdscmp s1 s2 =
     (let l1 = sdslen s1; l2 = sdslen s2; minlen = (if l1 < l2 then l1 else l2) in do {
        a \<leftarrow> mem_read (sbuf s1) 0 minlen;
        b \<leftarrow> mem_read (sbuf s2) 0 minlen;
        let cmp = memcmp_sign a b;
        Some (if cmp = 0 then (if l1 > l2 then 1 else if l1 < l2 then - 1 else 0) else cmp)
      })"

lemma memcmp_sign_zero: "length xs = length ys \<Longrightarrow> memcmp_sign xs ys = 0 \<longleftrightarrow> xs = ys"
  by (induction xs ys rule: list_induct2) auto

lemma sdscmp_zero:
  assumes "sds_ok s1" "sds_ok s2"
  shows "\<exists>c. sdscmp s1 s2 = Some c \<and> (c = 0 \<longleftrightarrow> content s1 = content s2)"
proof -
  define m where "m = (if sdslen s1 < sdslen s2 then sdslen s1 else sdslen s2)"
  have m: "m < length (sbuf s1)" "m < length (sbuf s2)" "m \<le> sdslen s1" "m \<le> sdslen s2"
    using sds_fields [OF assms(1)] sds_fields [OF assms(2)] by (auto simp: m_def)
  have "memcmp_sign (take m (sbuf s1)) (take m (sbuf s2)) = 0 \<longleftrightarrow> take m (sbuf s1) = take m (sbuf s2)"
    using m by (intro memcmp_sign_zero) simp
  moreover have "content s1 = content s2 \<longleftrightarrow> sdslen s1 = sdslen s2 \<and> take m (sbuf s1) = take m (sbuf s2)"
  proof
    assume eq: "content s1 = content s2"
    then have "sdslen s1 = sdslen s2"
      using content_length [OF assms(1)] content_length [OF assms(2)] by simp
    then show "sdslen s1 = sdslen s2 \<and> take m (sbuf s1) = take m (sbuf s2)"
      using eq by (simp add: m_def content_def)
  next
    assume eq: "sdslen s1 = sdslen s2 \<and> take m (sbuf s1) = take m (sbuf s2)"
    then have "m = sdslen s1" "m = sdslen s2"
      by (simp_all add: m_def)
    then show "content s1 = content s2"
      using eq by (simp add: content_def)
  qed
  ultimately show ?thesis
    using m unfolding sdscmp_def Let_def m_def [symmetric] by (auto simp: mem_read_def)
qed

text \<open>The loops that rewrite a string byte by byte. The C library's \<^verbatim>\<open>tolower\<close> and \<^verbatim>\<open>toupper\<close> depend on the
  locale and are arguments.\<close>

primrec each_char :: "(byte \<Rightarrow> byte option) \<Rightarrow> nat \<Rightarrow> nat \<Rightarrow> sds \<Rightarrow> sds option" where
  "each_char f 0 j s = Some s"
| "each_char f (Suc n) j s = do {
     c \<leftarrow> mem_get (sbuf s) j;
     d \<leftarrow> f c;
     s \<leftarrow> sput s j d;
     each_char f n (Suc j) s
   }"

definition sdstolower :: "(byte \<Rightarrow> byte) \<Rightarrow> sds \<Rightarrow> sds option" where
  "sdstolower tolower s = each_char (\<lambda>c. Some (tolower c)) (sdslen s) 0 s"

definition sdstoupper :: "(byte \<Rightarrow> byte) \<Rightarrow> sds \<Rightarrow> sds option" where
  "sdstoupper toupper s = each_char (\<lambda>c. Some (toupper c)) (sdslen s) 0 s"

primrec mapchar_loop :: "byte list \<Rightarrow> byte list \<Rightarrow> nat \<Rightarrow> nat \<Rightarrow> byte \<Rightarrow> byte option" where
  "mapchar_loop from_set to_set 0 i c = Some c"
| "mapchar_loop from_set to_set (Suc n) i c = do {
     x \<leftarrow> mem_get from_set i;
     if c = x then mem_get to_set i else mapchar_loop from_set to_set n (Suc i) c
   }"

definition sdsmapchars :: "sds \<Rightarrow> byte list \<Rightarrow> byte list \<Rightarrow> nat \<Rightarrow> sds option" where
  "sdsmapchars s from_set to_set setlen = each_char (mapchar_loop from_set to_set setlen 0) (sdslen s) 0 s"

lemma each_char_result:
  assumes "\<And>c. f c = Some (g c)" "j + n \<le> length b"
  shows "each_char f n j (s\<lparr>sbuf := b\<rparr>) =
    Some (s\<lparr>sbuf := take j b @ map g (take n (drop j b)) @ drop (j + n) b\<rparr>)"
  using assms(2)
proof (induction n arbitrary: j b)
  case (Suc n)
  have j: "j < length b"
    using Suc.prems by simp
  have "take n (drop (Suc j) (b[j := x])) = take n (drop (Suc j) b)" for x
    by simp
  moreover have "take (Suc j) (b[j := x]) = take j b @ [x]" for x
    using j by (simp add: take_Suc_conv_app_nth)
  moreover have "take (Suc n) (drop j b) = b ! j # take n (drop (Suc j) b)"
    using j by (simp add: Cons_nth_drop_Suc [symmetric])
  moreover have "Suc j + n \<le> length (b[j := g (b ! j)])"
    using Suc.prems by simp
  ultimately show ?case
    using Suc.IH [of "Suc j" "b[j := g (b ! j)]"] j
    by (simp add: assms(1) sput_def mem_get_def mem_put_def)
qed simp

lemma each_char_content:
  assumes "sds_ok s" "\<And>c. f c = Some (g c)"
  shows "\<exists>s'. each_char f (sdslen s) 0 s = Some s' \<and> sds_ok s' \<and> content s' = map g (content s)"
proof -
  have le: "sdslen s \<le> length (sbuf s)" "sdslen s < length (sbuf s)"
    using sds_fields [OF assms(1)] by simp_all
  let ?b = "map g (take (sdslen s) (sbuf s)) @ drop (sdslen s) (sbuf s)"
  have "each_char f (sdslen s) 0 s = Some (s\<lparr>sbuf := ?b\<rparr>)"
    using each_char_result [where f = f and g = g and j = 0 and n = "sdslen s" and b = "sbuf s" and s = s, OF assms(2)] le
    by simp
  moreover have "?b ! sdslen s = sbuf s ! sdslen s" "length ?b = length (sbuf s)"
    using le by (simp_all add: nth_append)
  then have "sds_ok (s\<lparr>sbuf := ?b\<rparr>)"
    using assms(1) by (cases "stype s = SDS_TYPE_5") (simp_all add: sds_ok_def sdslen_def sdsalloc_def)
  moreover have "content (s\<lparr>sbuf := ?b\<rparr>) = map g (content s)"
    using le by (simp add: content_def sdslen_def)
  ultimately show ?thesis
    by blast
qed

lemma mapchar_loop_result:
  assumes "i + n \<le> length xs" "i + n \<le> length ys"
  shows "mapchar_loop xs ys n i c =
    Some (case map_of (zip (take n (drop i xs)) (drop i ys)) c of None \<Rightarrow> c | Some d \<Rightarrow> d)"
  using assms
proof (induction n arbitrary: i)
  case (Suc n)
  have "drop i xs = xs ! i # drop (Suc i) xs" "drop i ys = ys ! i # drop (Suc i) ys"
    using Suc.prems by (simp_all add: Cons_nth_drop_Suc)
  then show ?case
    using Suc.IH [of "Suc i"] Suc.prems by (simp add: mem_get_def)
qed simp

lemma sdstolower_content:
  "sds_ok s \<Longrightarrow> \<exists>s'. sdstolower f s = Some s' \<and> sds_ok s' \<and> content s' = map f (content s)"
  unfolding sdstolower_def by (rule each_char_content) simp_all

lemma sdstoupper_content:
  "sds_ok s \<Longrightarrow> \<exists>s'. sdstoupper f s = Some s' \<and> sds_ok s' \<and> content s' = map f (content s)"
  unfolding sdstoupper_def by (rule each_char_content) simp_all

lemma sdsmapchars_content:
  assumes "sds_ok s" "n \<le> length xs" "n \<le> length ys"
  shows "\<exists>s'. sdsmapchars s xs ys n = Some s' \<and> sds_ok s' \<and>
    content s' = map (\<lambda>c. case map_of (zip (take n xs) ys) c of None \<Rightarrow> c | Some d \<Rightarrow> d) (content s)"
  unfolding sdsmapchars_def using assms by (intro each_char_content) (simp_all add: mapchar_loop_result)

section \<open>C strings\<close>

text \<open>\<^verbatim>\<open>strlen\<close> of a buffer: the place of its first zero byte, and a fault if it has none.\<close>

primrec strlen :: "byte list \<Rightarrow> nat option" where
  "strlen [] = None"
| "strlen (c # cs) = (if c = 0 then Some 0 else map_option Suc (strlen cs))"

definition sdscat :: "sds_alloc \<Rightarrow> sds \<Rightarrow> byte list \<Rightarrow> sds option option" where
  "sdscat al s t = do { n \<leftarrow> strlen t; bs \<leftarrow> mem_read t 0 n; sdscatlen al s bs }"

definition sdscatsds :: "sds_alloc \<Rightarrow> sds \<Rightarrow> sds \<Rightarrow> sds option option" where
  "sdscatsds al s t = do { bs \<leftarrow> mem_read (sbuf t) 0 (sdslen t); sdscatlen al s bs }"

definition sdscpy :: "sds_alloc \<Rightarrow> sds \<Rightarrow> byte list \<Rightarrow> sds option option" where
  "sdscpy al s t = do { n \<leftarrow> strlen t; bs \<leftarrow> mem_read t 0 n; sdscpylen al s bs }"

definition sdsupdatelen :: "sds \<Rightarrow> sds option" where
  "sdsupdatelen s = do { reallen \<leftarrow> strlen (sbuf s); Some (sdssetlen s reallen) }"

lemma strlen_append: "0 \<notin> set xs \<Longrightarrow> strlen (xs @ 0 # ys) = Some (length xs)"
  by (induction xs) auto

lemma strlen_first: "i < length b \<Longrightarrow> b ! i = 0 \<Longrightarrow> \<exists>n\<le>i. strlen b = Some n \<and> b ! n = 0 \<and> 0 \<notin> set (take n b)"
proof (induction b arbitrary: i)
  case (Cons c cs)
  show ?case
  proof (cases "c = 0")
    case False
    then obtain k where k: "i = Suc k"
      using Cons.prems by (cases i) auto
    then obtain n where "n \<le> k" "strlen cs = Some n" "cs ! n = 0" "0 \<notin> set (take n cs)"
      using Cons.IH [of k] Cons.prems by auto
    then show ?thesis
      using False k by (intro exI [of _ "Suc n"]) simp
  qed simp
qed simp

lemma sdscat_result:
  assumes "sds_ok s" "alloc_ok al" "sdslen s + length t < 2 ^ 62" "0 \<notin> set t"
  shows "sds_result al (sdscat al s (t @ 0 # rest)) (content s @ t)"
  using sdscatlen_result [OF assms(1-3)] by (simp add: sdscat_def strlen_append [OF assms(4)] mem_read_def)

lemma sdscpy_result:
  assumes "sds_ok s" "alloc_ok al" "length t < 2 ^ 62" "0 \<notin> set t"
  shows "sds_result al (sdscpy al s (t @ 0 # rest)) t"
  using sdscpylen_result [OF assms(1-3)] by (simp add: sdscpy_def strlen_append [OF assms(4)] mem_read_def)

lemma sdscatsds_result:
  assumes "sds_ok s" "sds_ok t" "alloc_ok al" "sdslen s + sdslen t < 2 ^ 62"
  shows "sds_result al (sdscatsds al s t) (content s @ content t)"
proof -
  have "mem_read (sbuf t) 0 (sdslen t) = Some (content t)"
    using sds_fields [OF assms(2)] by (simp add: mem_read_def content_def)
  moreover have "sdslen s + length (content t) < 2 ^ 62"
    using assms(4) content_length [OF assms(2)] by (simp only:)
  ultimately show ?thesis
    using sdscatlen_result [OF assms(1,3)] by (simp add: sdscatsds_def)
qed

text \<open>After \<^verbatim>\<open>sdsupdatelen\<close> the contents are the bytes before the first zero.\<close>

lemma sdsupdatelen_result:
  assumes "sds_ok s"
  shows "\<exists>s'. sdsupdatelen s = Some s' \<and> sds_ok s' \<and> content s' = takeWhile (\<lambda>c. c \<noteq> 0) (content s)"
proof -
  have len: "sdslen s < length (sbuf s)" "sbuf s ! sdslen s = 0" "sdslen s \<le> sdsalloc s"
    using assms sds_fields [OF assms] by (simp_all add: sds_ok_def)
  obtain n where n: "n \<le> sdslen s" "strlen (sbuf s) = Some n" "sbuf s ! n = 0" "0 \<notin> set (take n (sbuf s))"
    using strlen_first [OF len(1,2)] by blast
  have "takeWhile (\<lambda>c. c \<noteq> 0) (content s) = take n (sbuf s)"
  proof (cases "n = sdslen s")
    case True
    then show ?thesis
      using n(4) by (auto simp: content_def takeWhile_eq_all_conv)
  next
    case False
    then have "take (sdslen s) (sbuf s) = take n (sbuf s) @ sbuf s ! n # drop (Suc n) (take (sdslen s) (sbuf s))"
      using n(1) len(1) id_take_nth_drop [of n "take (sdslen s) (sbuf s)"] by (simp add: min_def)
    then show ?thesis
      unfolding content_def using n(3,4) takeWhile_tail [of "\<lambda>c. c \<noteq> 0" 0 "take n (sbuf s)"]
      by (metis (mono_tags, lifting) takeWhile_eq_all_conv)
  qed
  moreover have "sds_ok (sdssetlen s n)" "content (sdssetlen s n) = take n (sbuf s)"
    using set_len_ok [OF assms le_trans [OF n(1) len(3)] refl n(3)] by simp_all
  ultimately show ?thesis
    using n(2) by (simp add: sdsupdatelen_def)
qed

end
