(* ===== verification/Multi.thy ===== *)
theory Multi
  imports Redis_Prelude
begin

text \<open>
  Transactions: \<^verbatim>\<open>MULTI\<close>, \<^verbatim>\<open>EXEC\<close>, \<^verbatim>\<open>DISCARD\<close>, \<^verbatim>\<open>WATCH\<close> and \<^verbatim>\<open>UNWATCH\<close> of \<^verbatim>\<open>multi.c\<close>, with the expiry test
  and the signals of \<^verbatim>\<open>db.c\<close> that they use.

  \<^item> The state is the clients, the databases, and two heaps: the \<^verbatim>\<open>watchedKey\<close> structures and the lists
    of structures that watch one key. A structure is reachable from its client and from the list of its key, and
    removing it from both must leave nothing behind. An access to freed memory is the value \<open>None\<close>.
  \<^item> An iterator over a list of watchers is the address of the next node, which \<^verbatim>\<open>listNext\<close> reads before the body of the loop
    unlinks nodes.
  \<^item> The commands other than those of \<^verbatim>\<open>multi.c\<close>, \<^verbatim>\<open>QUIT\<close> and \<^verbatim>\<open>RESET\<close>, which \<^verbatim>\<open>call\<close> runs, and the access control test
    are parameters.
  \<^item> The loops over the watchers of a key and over the queued commands follow what they find in the heap, so they are partial
    functions; that they return is part of the theorems.
  \<^item> Reference counts, the list of monitors, the tracking of client caches, subscriptions, the causes of blocking
    and statistics are not modelled.
\<close>

section \<open>State\<close>

type_synonym key = "byte list"
type_synonym addr = nat
type_synonym cid = nat

datatype client_flag =
  CLIENT_SLAVE | CLIENT_MASTER | CLIENT_MONITOR | CLIENT_MULTI | CLIENT_BLOCKED | CLIENT_DIRTY_CAS | CLIENT_CLOSE_AFTER_REPLY |
  CLIENT_DIRTY_EXEC | CLIENT_MODULE | CLIENT_DENY_BLOCKING

text \<open>The function of a command, \<^verbatim>\<open>cmd->proc\<close>; the commands without a part in transactions are numbered.\<close>

datatype proc =
  ProcExec | ProcDiscard | ProcMulti | ProcWatch | ProcUnwatch | ProcQuit | ProcReset | ProcOther nat

record multiCmd =
  mc_cmd :: proc
  mc_argv :: "byte list list"
  mc_argv_len :: nat

record multiState =
  commands :: "multiCmd option list"
  count :: nat
  cmd_flags :: uint64
  cmd_inv_flags :: uint64
  argv_len_sums :: uint64
  alloc_count :: nat

datatype reply =
  ReplyOk | ReplyQueued | ReplyReset | ReplyError string | ReplyExecAbort | ReplyNullArray | ReplyArrayLen nat | ReplyNoPerm nat

record client =
  c_db :: nat
  flags :: "client_flag set"
  mstate :: multiState
  c_watched :: "addr list"
  c_cmd :: multiCmd
  c_argv_len_sum :: nat
  replies :: "reply list"

record watchedKey =
  wk_list :: addr
  wk_key :: key
  wk_db :: nat
  wk_client :: cid
  wk_expired :: bool

record 'v redisDb =
  db_dict :: "key \<rightharpoonup> 'v"
  db_expires :: "key \<rightharpoonup> int"
  db_watched :: "key \<rightharpoonup> addr"

record 'v redisServer =
  clients :: "cid \<rightharpoonup> client"
  dbs :: "nat \<Rightarrow> 'v redisDb"
  dbnum :: nat
  wks :: "addr \<rightharpoonup> watchedKey"
  wlists :: "addr \<rightharpoonup> addr list"
  brk :: addr
  in_exec :: bool
  loading :: bool
  now :: int

definition INT_MAX :: nat where
  "INT_MAX = 2147483647"

definition CLIENT_ID_AOF :: cid where
  "CLIENT_ID_AOF = 18446744073709551615"

definition upd_client :: "'v redisServer \<Rightarrow> cid \<Rightarrow> (client \<Rightarrow> client) \<Rightarrow> 'v redisServer option" where
  "upd_client s c f = map_option (\<lambda>cl. s\<lparr>clients := (clients s)(c \<mapsto> f cl)\<rparr>) (clients s c)"

definition upd_db :: "'v redisServer \<Rightarrow> nat \<Rightarrow> ('v redisDb \<Rightarrow> 'v redisDb) \<Rightarrow> 'v redisServer" where
  "upd_db s d f = s\<lparr>dbs := (dbs s)(d := f (dbs s d))\<rparr>"

definition add_reply :: "reply \<Rightarrow> client \<Rightarrow> client" where
  "add_reply r cl = cl\<lparr>replies := replies cl @ [r]\<rparr>"

section \<open>Expiry\<close>

definition getExpire :: "'v redisServer \<Rightarrow> nat \<Rightarrow> key \<Rightarrow> int" where
  "getExpire s d k = (case db_expires (dbs s d) k of None \<Rightarrow> - 1 | Some when \<Rightarrow> when)"

definition keyIsExpired :: "'v redisServer \<Rightarrow> nat \<Rightarrow> key \<Rightarrow> bool" where
  "keyIsExpired s d k =
     (if loading s then False
      else let when = getExpire s d k in if when < 0 then False else now s > when)"

section \<open>Queued commands\<close>

definition initClientMultiState :: "client \<Rightarrow> client" where
  "initClientMultiState cl =
     cl\<lparr>mstate := \<lparr>commands = [], count = 0, cmd_flags = 0, cmd_inv_flags = 0, argv_len_sums = 0, alloc_count = 0\<rparr>\<rparr>"

text \<open>The loop frees the arguments of each queued command, which it has to read; the result says that it can.\<close>

primrec free_commands :: "multiCmd option list \<Rightarrow> nat \<Rightarrow> unit option" where
  "free_commands cs 0 = Some ()"
| "free_commands cs (Suc n) =
     (if n < length cs \<and> cs ! n \<noteq> None then free_commands cs n else None)"

definition freeClientMultiState :: "client \<Rightarrow> unit option" where
  "freeClientMultiState cl = free_commands (commands (mstate cl)) (count (mstate cl))"

definition queueMultiCommand :: "client \<Rightarrow> uint64 \<Rightarrow> client option" where
  "queueMultiCommand cl fl =
     (if flags cl \<inter> {CLIENT_DIRTY_CAS, CLIENT_DIRTY_EXEC} \<noteq> {} then Some cl
      else
        let m = mstate cl;
            m = (if count m = 0 then m\<lparr>commands := replicate 2 None, alloc_count := 2\<rparr> else m);
            m = (if count m = alloc_count m
                 then let n = (if alloc_count m < INT_MAX div 2 then alloc_count m * 2 else INT_MAX)
                      in m\<lparr>alloc_count := n, commands := take n (commands m) @ replicate (n - length (commands m)) None\<rparr>
                 else m)
        in if count m < length (commands m)
           then Some (cl\<lparr>mstate := m\<lparr>commands := (commands m)[count m := Some (c_cmd cl)],
                  count := Suc (count m), cmd_flags := cmd_flags m OR fl, cmd_inv_flags := cmd_inv_flags m OR NOT fl,
                  argv_len_sums := argv_len_sums m + of_nat (c_argv_len_sum cl + 8 * length (mc_argv (c_cmd cl)))\<rparr>,
                c_cmd := (c_cmd cl)\<lparr>mc_argv := [], mc_argv_len := 0\<rparr>, c_argv_len_sum := 0\<rparr>)
           else None)"

definition flagTransaction :: "client \<Rightarrow> client" where
  "flagTransaction cl =
     (if CLIENT_MULTI \<in> flags cl then cl\<lparr>flags := flags cl \<union> {CLIENT_DIRTY_EXEC}\<rparr> else cl)"

section \<open>Watching keys\<close>

primrec already_watched :: "'v redisServer \<Rightarrow> nat \<Rightarrow> key \<Rightarrow> addr list \<Rightarrow> bool option" where
  "already_watched s d k [] = Some False"
| "already_watched s d k (w # ws) = do {
     wk \<leftarrow> wks s w;
     if wk_db wk = d \<and> k = wk_key wk then Some True else already_watched s d k ws
   }"

definition watchedKeyLinkToClients :: "'v redisServer \<Rightarrow> addr \<Rightarrow> addr \<Rightarrow> 'v redisServer option" where
  "watchedKeyLinkToClients s l w = do {
     wk \<leftarrow> wks s w;
     xs \<leftarrow> wlists s l;
     Some (s\<lparr>wks := (wks s)(w \<mapsto> wk\<lparr>wk_list := l\<rparr>), wlists := (wlists s)(l \<mapsto> xs @ [w])\<rparr>)
   }"

definition clients_list :: "'v redisServer \<Rightarrow> nat \<Rightarrow> key \<Rightarrow> 'v redisServer \<times> addr" where
  "clients_list s d k =
     (case db_watched (dbs s d) k of
        Some l \<Rightarrow> (s, l)
      | None \<Rightarrow> let l = brk s in
          (upd_db (s\<lparr>brk := Suc l, wlists := (wlists s)(l \<mapsto> [])\<rparr>) d
             (\<lambda>db. db\<lparr>db_watched := (db_watched db)(k \<mapsto> l)\<rparr>), l))"

definition watchForKey :: "'v redisServer \<Rightarrow> cid \<Rightarrow> key \<Rightarrow> 'v redisServer option" where
  "watchForKey s c k = do {
     cl \<leftarrow> clients s c;
     found \<leftarrow> already_watched s (c_db cl) k (c_watched cl);
     if found then Some s else do {
       let (s, l) = clients_list s (c_db cl) k;
       let w = brk s;
       let wk = \<lparr>wk_list = 0, wk_key = k, wk_db = c_db cl, wk_client = c, wk_expired = keyIsExpired s (c_db cl) k\<rparr>;
       let s = s\<lparr>brk := Suc w, wks := (wks s)(w \<mapsto> wk)\<rparr>;
       s \<leftarrow> upd_client s c (\<lambda>cl. cl\<lparr>c_watched := c_watched cl @ [w]\<rparr>);
       watchedKeyLinkToClients s l w
     }
   }"

definition dict_delete_watched :: "'v redisServer \<Rightarrow> nat \<Rightarrow> key \<Rightarrow> 'v redisServer" where
  "dict_delete_watched s d k =
     (case db_watched (dbs s d) k of
        None \<Rightarrow> s
      | Some l \<Rightarrow> upd_db (s\<lparr>wlists := (wlists s)(l := None)\<rparr>) d (\<lambda>db. db\<lparr>db_watched := (db_watched db)(k := None)\<rparr>))"

definition unwatch_one :: "'v redisServer \<Rightarrow> cid \<Rightarrow> addr \<Rightarrow> 'v redisServer option" where
  "unwatch_one s c w = do {
     wk \<leftarrow> wks s w;
     xs \<leftarrow> wlists s (wk_list wk);
     if w \<notin> set xs then None else do {
       let s = s\<lparr>wlists := (wlists s)(wk_list wk \<mapsto> remove1 w xs)\<rparr>;
       let s = (if remove1 w xs = [] then dict_delete_watched s (wk_db wk) (wk_key wk) else s);
       s \<leftarrow> upd_client s c (\<lambda>cl. cl\<lparr>c_watched := remove1 w (c_watched cl)\<rparr>);
       Some (s\<lparr>wks := (wks s)(w := None)\<rparr>)
     }
   }"

primrec unwatch_loop :: "cid \<Rightarrow> addr list \<Rightarrow> 'v redisServer \<Rightarrow> 'v redisServer option" where
  "unwatch_loop c [] s = Some s"
| "unwatch_loop c (w # ws) s = do { s \<leftarrow> unwatch_one s c w; unwatch_loop c ws s }"

definition unwatchAllKeys :: "'v redisServer \<Rightarrow> cid \<Rightarrow> 'v redisServer option" where
  "unwatchAllKeys s c = do {
     cl \<leftarrow> clients s c;
     if length (c_watched cl) = 0 then Some s else unwatch_loop c (c_watched cl) s
   }"

primrec expired_loop :: "'v redisServer \<Rightarrow> addr list \<Rightarrow> bool option" where
  "expired_loop s [] = Some False"
| "expired_loop s (w # ws) = do {
     wk \<leftarrow> wks s w;
     if wk_expired wk then expired_loop s ws
     else if keyIsExpired s (wk_db wk) (wk_key wk) then Some True
     else expired_loop s ws
   }"

definition isWatchedKeyExpired :: "'v redisServer \<Rightarrow> client \<Rightarrow> bool option" where
  "isWatchedKeyExpired s cl = (if length (c_watched cl) = 0 then Some False else expired_loop s (c_watched cl))"

section \<open>Touching keys\<close>

text \<open>\<^verbatim>\<open>listNext\<close> at a node: the node must be linked in a live list.\<close>

primrec successor :: "addr list \<Rightarrow> addr \<Rightarrow> addr option" where
  "successor [] w = None"
| "successor (x # xs) w = (if x = w then (case xs of [] \<Rightarrow> None | y # ys \<Rightarrow> Some y) else successor xs w)"

definition list_next :: "'v redisServer \<Rightarrow> addr \<Rightarrow> addr \<Rightarrow> addr option option" where
  "list_next s l w = do {
     xs \<leftarrow> wlists s l;
     if w \<in> set xs then Some (successor xs w) else None
   }"

partial_function (option) touch_loop ::
  "nat \<Rightarrow> key \<Rightarrow> addr \<Rightarrow> addr option \<Rightarrow> 'v redisServer \<Rightarrow> 'v redisServer option" where
  "touch_loop d k l nxt s =
     (case nxt of
        None \<Rightarrow> Some s
      | Some w \<Rightarrow> Option.bind (list_next s l w) (\<lambda>nxt. Option.bind (wks s w) (\<lambda>wk.
          if wk_expired wk
          then if d = wk_db wk \<and> k = wk_key wk \<and> db_dict (dbs s d) k = None
               then touch_loop d k l nxt (s\<lparr>wks := (wks s)(w \<mapsto> wk\<lparr>wk_expired := False\<rparr>)\<rparr>)
               else Some s
          else Option.bind (upd_client s (wk_client wk) (\<lambda>cl. cl\<lparr>flags := flags cl \<union> {CLIENT_DIRTY_CAS}\<rparr>)) (\<lambda>s.
            Option.bind (unwatchAllKeys s (wk_client wk)) (\<lambda>s. touch_loop d k l nxt s)))))"

definition touchWatchedKey :: "'v redisServer \<Rightarrow> nat \<Rightarrow> key \<Rightarrow> 'v redisServer option" where
  "touchWatchedKey s d k =
     (case db_watched (dbs s d) k of
        None \<Rightarrow> Some s
      | Some l \<Rightarrow> do {
          xs \<leftarrow> wlists s l;
          touch_loop d k l (case xs of [] \<Rightarrow> None | w # ws \<Rightarrow> Some w) s
        })"

definition signalModifiedKey :: "'v redisServer \<Rightarrow> nat \<Rightarrow> key \<Rightarrow> 'v redisServer option" where
  "signalModifiedKey s d k = touchWatchedKey s d k"

text \<open>The body of \<^verbatim>\<open>touchAllWatchedKeysInDb\<close> for the watchers of one key. Nothing is unlinked here.\<close>

primrec touch_watchers ::
  "nat option \<Rightarrow> key \<Rightarrow> bool \<Rightarrow> addr list \<Rightarrow> 'v redisServer \<Rightarrow> 'v redisServer option" where
  "touch_watchers rep k exists_in_emptied [] s = Some s"
| "touch_watchers rep k exists_in_emptied (w # ws) s = do {
     wk \<leftarrow> wks s w;
     let in_rep = (case rep of None \<Rightarrow> False | Some r \<Rightarrow> db_dict (dbs s r) k \<noteq> None);
     let rep_expired = (case rep of None \<Rightarrow> False | Some r \<Rightarrow> keyIsExpired s r k);
     if wk_expired wk \<and> \<not> in_rep
     then touch_watchers rep k exists_in_emptied ws (s\<lparr>wks := (wks s)(w \<mapsto> wk\<lparr>wk_expired := False\<rparr>)\<rparr>)
     else if wk_expired wk \<and> rep_expired
     then touch_watchers rep k exists_in_emptied ws s
     else if \<not> wk_expired wk \<and> \<not> exists_in_emptied \<and> rep_expired
     then touch_watchers rep k exists_in_emptied ws (s\<lparr>wks := (wks s)(w \<mapsto> wk\<lparr>wk_expired := True\<rparr>)\<rparr>)
     else do {
       s \<leftarrow> upd_client s (wk_client wk) (\<lambda>cl. cl\<lparr>flags := flags cl \<union> {CLIENT_DIRTY_CAS}\<rparr>);
       touch_watchers rep k exists_in_emptied ws s
     }
   }"

text \<open>The order in which the iterator visits the keys is the list \<open>ks\<close>.\<close>

primrec touch_keys :: "nat \<Rightarrow> nat option \<Rightarrow> key list \<Rightarrow> 'v redisServer \<Rightarrow> 'v redisServer option" where
  "touch_keys d rep [] s = Some s"
| "touch_keys d rep (k # ks) s = do {
     l \<leftarrow> db_watched (dbs s d) k;
     let exists_in_emptied = (db_dict (dbs s d) k \<noteq> None);
     if exists_in_emptied \<or> (case rep of None \<Rightarrow> False | Some r \<Rightarrow> db_dict (dbs s r) k \<noteq> None)
     then do {
       xs \<leftarrow> wlists s l;
       s \<leftarrow> touch_watchers rep k exists_in_emptied xs s;
       touch_keys d rep ks s
     }
     else touch_keys d rep ks s
   }"

definition touchAllWatchedKeysInDb :: "'v redisServer \<Rightarrow> key list \<Rightarrow> nat \<Rightarrow> nat option \<Rightarrow> 'v redisServer option" where
  "touchAllWatchedKeysInDb s ks d rep = touch_keys d rep ks s"

section \<open>Commands\<close>

definition discardTransaction :: "'v redisServer \<Rightarrow> cid \<Rightarrow> 'v redisServer option" where
  "discardTransaction s c = do {
     cl \<leftarrow> clients s c;
     u \<leftarrow> freeClientMultiState cl;
     s \<leftarrow> upd_client s c (\<lambda>cl. (initClientMultiState cl)
            \<lparr>flags := flags cl - {CLIENT_MULTI, CLIENT_DIRTY_CAS, CLIENT_DIRTY_EXEC}\<rparr>);
     unwatchAllKeys s c
   }"

definition multiCommand :: "'v redisServer \<Rightarrow> cid \<Rightarrow> 'v redisServer option" where
  "multiCommand s c = upd_client s c (\<lambda>cl.
     if CLIENT_MULTI \<in> flags cl then add_reply (ReplyError ''MULTI calls can not be nested'') cl
     else add_reply ReplyOk (cl\<lparr>flags := flags cl \<union> {CLIENT_MULTI}\<rparr>))"

definition discardCommand :: "'v redisServer \<Rightarrow> cid \<Rightarrow> 'v redisServer option" where
  "discardCommand s c = do {
     cl \<leftarrow> clients s c;
     if CLIENT_MULTI \<notin> flags cl then upd_client s c (add_reply (ReplyError ''DISCARD without MULTI''))
     else do {
       s \<leftarrow> discardTransaction s c;
       upd_client s c (add_reply ReplyOk)
     }
   }"

primrec watch_loop :: "cid \<Rightarrow> key list \<Rightarrow> 'v redisServer \<Rightarrow> 'v redisServer option" where
  "watch_loop c [] s = Some s"
| "watch_loop c (k # ks) s = do { s \<leftarrow> watchForKey s c k; watch_loop c ks s }"

definition watchCommand :: "'v redisServer \<Rightarrow> cid \<Rightarrow> key list \<Rightarrow> 'v redisServer option" where
  "watchCommand s c ks = do {
     cl \<leftarrow> clients s c;
     if CLIENT_MULTI \<in> flags cl then upd_client s c (add_reply (ReplyError ''WATCH inside MULTI is not allowed''))
     else if CLIENT_DIRTY_CAS \<in> flags cl then upd_client s c (add_reply ReplyOk)
     else do {
       s \<leftarrow> watch_loop c ks s;
       upd_client s c (add_reply ReplyOk)
     }
   }"

definition unwatchCommand :: "'v redisServer \<Rightarrow> cid \<Rightarrow> 'v redisServer option" where
  "unwatchCommand s c = do {
     s \<leftarrow> unwatchAllKeys s c;
     upd_client s c (\<lambda>cl. add_reply ReplyOk (cl\<lparr>flags := flags cl - {CLIENT_DIRTY_CAS}\<rparr>))
   }"

datatype call_flags = CMD_CALL_NONE | CMD_CALL_FULL

text \<open>
  The loop over the queued commands. A command is run with the client's arguments set to the queued ones;
  afterwards the queue takes them back, since the command may have changed them. \<open>acl\<close> is the
  result of \<^verbatim>\<open>ACLCheckAllPerm\<close>, with 0 for \<^verbatim>\<open>ACL_OK\<close>.
\<close>

definition exec_one ::
  "(call_flags \<Rightarrow> cid \<Rightarrow> 'v redisServer \<Rightarrow> 'v redisServer option) \<Rightarrow> (cid \<Rightarrow> 'v redisServer \<Rightarrow> nat) \<Rightarrow>
   cid \<Rightarrow> nat \<Rightarrow> 'v redisServer \<Rightarrow> 'v redisServer option" where
  "exec_one call acl c j s = do {
     cl \<leftarrow> clients s c;
     mc \<leftarrow> (if j < length (commands (mstate cl)) then commands (mstate cl) ! j else None);
     s \<leftarrow> upd_client s c (\<lambda>cl. cl\<lparr>c_cmd := mc\<rparr>);
     s \<leftarrow> (if acl c s \<noteq> 0 then upd_client s c (add_reply (ReplyNoPerm (acl c s)))
          else do {
            s \<leftarrow> call (if c = CLIENT_ID_AOF then CMD_CALL_NONE else CMD_CALL_FULL) c s;
            cl \<leftarrow> clients s c;
            if CLIENT_BLOCKED \<in> flags cl then None else Some s
          });
     cl \<leftarrow> clients s c;
     if j < length (commands (mstate cl))
     then upd_client s c (\<lambda>cl. cl\<lparr>mstate := (mstate cl)\<lparr>commands := (commands (mstate cl))[j := Some (c_cmd cl)]\<rparr>\<rparr>)
     else None
   }"

partial_function (option) exec_loop ::
  "(call_flags \<Rightarrow> cid \<Rightarrow> 'v redisServer \<Rightarrow> 'v redisServer option) \<Rightarrow> (cid \<Rightarrow> 'v redisServer \<Rightarrow> nat) \<Rightarrow>
   cid \<Rightarrow> nat \<Rightarrow> 'v redisServer \<Rightarrow> 'v redisServer option" where
  "exec_loop call acl c j s =
     Option.bind (clients s c) (\<lambda>cl.
       if j < count (mstate cl) then Option.bind (exec_one call acl c j s) (\<lambda>s. exec_loop call acl c (Suc j) s)
       else Some s)"

definition execCommand ::
  "(call_flags \<Rightarrow> cid \<Rightarrow> 'v redisServer \<Rightarrow> 'v redisServer option) \<Rightarrow> (cid \<Rightarrow> 'v redisServer \<Rightarrow> nat) \<Rightarrow>
   'v redisServer \<Rightarrow> cid \<Rightarrow> 'v redisServer option" where
  "execCommand call acl s c = do {
     cl \<leftarrow> clients s c;
     if CLIENT_MULTI \<notin> flags cl then upd_client s c (add_reply (ReplyError ''EXEC without MULTI''))
     else do {
       expired \<leftarrow> isWatchedKeyExpired s cl;
       s \<leftarrow> upd_client s c (\<lambda>cl. if expired then cl\<lparr>flags := flags cl \<union> {CLIENT_DIRTY_CAS}\<rparr> else cl);
       cl \<leftarrow> clients s c;
       if flags cl \<inter> {CLIENT_DIRTY_CAS, CLIENT_DIRTY_EXEC} \<noteq> {} then do {
         s \<leftarrow> upd_client s c (add_reply (if CLIENT_DIRTY_EXEC \<in> flags cl then ReplyExecAbort else ReplyNullArray));
         discardTransaction s c
       }
       else do {
         let old_flags = flags cl;
         let orig_cmd = c_cmd cl;
         s \<leftarrow> upd_client s c (\<lambda>cl. cl\<lparr>flags := flags cl \<union> {CLIENT_DENY_BLOCKING}\<rparr>);
         s \<leftarrow> unwatchAllKeys s c;
         s \<leftarrow> upd_client (s\<lparr>in_exec := True\<rparr>) c (add_reply (ReplyArrayLen (count (mstate cl))));
         s \<leftarrow> exec_loop call acl c 0 s;
         s \<leftarrow> upd_client s c (\<lambda>cl. cl\<lparr>
                flags := (if CLIENT_DENY_BLOCKING \<notin> old_flags then flags cl - {CLIENT_DENY_BLOCKING} else flags cl),
                c_cmd := orig_cmd\<rparr>);
         s \<leftarrow> discardTransaction s c;
         Some (s\<lparr>in_exec := False\<rparr>)
       }
     }
   }"

section \<open>The heap of watched keys is well-formed\<close>

definition watchers :: "'v redisServer \<Rightarrow> nat \<Rightarrow> key \<Rightarrow> addr list" where
  "watchers s d k =
     (case db_watched (dbs s d) k of None \<Rightarrow> [] | Some l \<Rightarrow> (case wlists s l of None \<Rightarrow> [] | Some xs \<Rightarrow> xs))"

definition client_side :: "'v redisServer \<Rightarrow> bool" where
  "client_side s \<longleftrightarrow> (\<forall>c cl. clients s c = Some cl \<longrightarrow> distinct (c_watched cl) \<and>
     (\<forall>w\<in>set (c_watched cl). \<exists>wk. wks s w = Some wk \<and> wk_client wk = c))"

definition unique_side :: "'v redisServer \<Rightarrow> bool" where
  "unique_side s \<longleftrightarrow> (\<forall>w w' wk wk'. wks s w = Some wk \<longrightarrow> wks s w' = Some wk' \<longrightarrow> wk_client wk = wk_client wk' \<longrightarrow>
     wk_db wk = wk_db wk' \<longrightarrow> wk_key wk = wk_key wk' \<longrightarrow> w = w')"

definition list_side :: "'v redisServer \<Rightarrow> bool" where
  "list_side s \<longleftrightarrow> (\<forall>d k l. db_watched (dbs s d) k = Some l \<longrightarrow>
     (\<exists>xs. wlists s l = Some xs \<and> xs \<noteq> [] \<and> distinct xs \<and>
        (\<forall>w\<in>set xs. \<exists>wk. wks s w = Some wk \<and> wk_list wk = l \<and> wk_db wk = d \<and> wk_key wk = k)))"

definition wk_side :: "'v redisServer \<Rightarrow> bool" where
  "wk_side s \<longleftrightarrow> (\<forall>w wk. wks s w = Some wk \<longrightarrow>
     (\<exists>cl. clients s (wk_client wk) = Some cl \<and> w \<in> set (c_watched cl)) \<and>
     db_watched (dbs s (wk_db wk)) (wk_key wk) = Some (wk_list wk) \<and>
     (\<exists>xs. wlists s (wk_list wk) = Some xs \<and> w \<in> set xs))"

definition fresh_side :: "'v redisServer \<Rightarrow> bool" where
  "fresh_side s \<longleftrightarrow> (\<forall>w. brk s \<le> w \<longrightarrow> wks s w = None \<and> wlists s w = None) \<and>
     (\<forall>l xs. wlists s l = Some xs \<longrightarrow> (\<exists>d k. db_watched (dbs s d) k = Some l))"

definition watch_inv :: "'v redisServer \<Rightarrow> bool" where
  "watch_inv s \<longleftrightarrow> client_side s \<and> unique_side s \<and> list_side s \<and> wk_side s \<and> fresh_side s"

lemmas side_defs = client_side_def unique_side_def list_side_def wk_side_def fresh_side_def

text \<open>What an operation on watched keys leaves alone.\<close>

definition same_data :: "'v redisServer \<Rightarrow> 'v redisServer \<Rightarrow> bool" where
  "same_data s s' \<longleftrightarrow> (\<forall>d. db_dict (dbs s' d) = db_dict (dbs s d) \<and> db_expires (dbs s' d) = db_expires (dbs s d)) \<and>
     dbnum s' = dbnum s \<and> in_exec s' = in_exec s \<and> loading s' = loading s \<and> now s' = now s"

lemma same_data_refl [simp]: "same_data s s"
  by (simp add: same_data_def)

lemma same_data_trans: "same_data s t \<Longrightarrow> same_data t u \<Longrightarrow> same_data s u"
  by (simp add: same_data_def)

lemma watchers_list:
  assumes "watch_inv s" "db_watched (dbs s d) k = Some l"
  shows "wlists s l = Some (watchers s d k)" "watchers s d k \<noteq> []" "distinct (watchers s d k)"
    "w \<in> set (watchers s d k) \<Longrightarrow> \<exists>wk. wks s w = Some wk \<and> wk_list wk = l \<and> wk_db wk = d \<and> wk_key wk = k"
proof -
  obtain xs where xs: "wlists s l = Some xs" "xs \<noteq> []" "distinct xs"
    "\<forall>w\<in>set xs. \<exists>wk. wks s w = Some wk \<and> wk_list wk = l \<and> wk_db wk = d \<and> wk_key wk = k"
    using assms unfolding watch_inv_def list_side_def by blast
  moreover have "watchers s d k = xs"
    using xs(1) assms(2) by (simp add: watchers_def)
  ultimately show "wlists s l = Some (watchers s d k)" "watchers s d k \<noteq> []" "distinct (watchers s d k)"
    "w \<in> set (watchers s d k) \<Longrightarrow> \<exists>wk. wks s w = Some wk \<and> wk_list wk = l \<and> wk_db wk = d \<and> wk_key wk = k"
    by simp_all
qed

lemma watchers_None: "db_watched (dbs s d) k = None \<Longrightarrow> watchers s d k = []"
  by (simp add: watchers_def)

lemma watchersD:
  assumes "watch_inv s" "w \<in> set (watchers s d k)"
  shows "\<exists>wk. wks s w = Some wk \<and> wk_db wk = d \<and> wk_key wk = k"
proof (cases "db_watched (dbs s d) k")
  case None
  then show ?thesis
    using assms(2) by (simp add: watchers_None)
next
  case (Some l)
  then show ?thesis
    using watchers_list(4) [OF assms(1) Some assms(2)] by blast
qed

lemma watchers_iff:
  assumes "watch_inv s" "wks s w = Some wk"
  shows "w \<in> set (watchers s d k) \<longleftrightarrow> wk_db wk = d \<and> wk_key wk = k"
proof
  assume "wk_db wk = d \<and> wk_key wk = k"
  then show "w \<in> set (watchers s d k)"
    using assms unfolding watch_inv_def wk_side_def watchers_def by fastforce
next
  assume "w \<in> set (watchers s d k)"
  then show "wk_db wk = d \<and> wk_key wk = k"
    using watchersD [OF assms(1)] assms(2) by fastforce
qed

lemma watchers_distinct: "watch_inv s \<Longrightarrow> distinct (watchers s d k)"
  using watchers_list(3) [of s d k] by (cases "db_watched (dbs s d) k") (auto simp: watchers_None)

lemma list_owner:
  assumes "list_side s" "db_watched (dbs s d) k = Some l" "db_watched (dbs s d') k' = Some l"
  shows "d' = d \<and> k' = k"
proof -
  obtain xs w where "wlists s l = Some xs" "w \<in> set xs"
    using assms(1,2) unfolding list_side_def by (metis list.set_sel(1))
  with assms show ?thesis
    unfolding list_side_def by (metis option.inject)
qed

section \<open>Unwatching\<close>

text \<open>Removing one structure from both of its lists, and the list when it is the last.\<close>

lemma unwatch_one_correct:
  assumes inv: "watch_inv s" and cl: "clients s c = Some cl" and w: "w \<in> set (c_watched cl)"
  shows "\<exists>s'. unwatch_one s c w = Some s' \<and> watch_inv s' \<and> same_data s s' \<and>
    clients s' = (clients s)(c \<mapsto> cl\<lparr>c_watched := remove1 w (c_watched cl)\<rparr>) \<and>
    wks s' = (wks s)(w := None) \<and> (\<forall>d k. watchers s' d k = remove1 w (watchers s d k))"
proof -
  obtain wk where wk: "wks s w = Some wk" "wk_client wk = c"
    using inv cl w unfolding watch_inv_def client_side_def by fastforce
  define l d k where "l = wk_list wk" "d = wk_db wk" "k = wk_key wk"
  note ldk = l_d_k_def
  have dbl: "db_watched (dbs s d) k = Some l"
    using inv wk unfolding watch_inv_def wk_side_def ldk by blast
  define xs where "xs = watchers s d k"
  have xs: "wlists s l = Some xs" "w \<in> set xs" "distinct xs"
    using watchers_list [OF inv dbl] watchers_iff [OF inv wk(1)] watchers_distinct [OF inv] by (auto simp: xs_def ldk)
  define gone where "gone \<longleftrightarrow> remove1 w xs = []"
  have one: "gone \<longleftrightarrow> xs = [w]"
    using xs(2,3) unfolding gone_def by (cases xs) (auto split: if_splits)
  define s' where "s' = s\<lparr>wlists := (wlists s)(l := (if gone then None else Some (remove1 w xs))),
    dbs := (dbs s)(d := (dbs s d)\<lparr>db_watched := (db_watched (dbs s d))(k := (if gone then None else Some l))\<rparr>),
    clients := (clients s)(c \<mapsto> cl\<lparr>c_watched := remove1 w (c_watched cl)\<rparr>), wks := (wks s)(w := None)\<rparr>"
  have eq: "unwatch_one s c w = Some s'"
  proof (cases gone)
    case True
    then show ?thesis
      using wk xs cl dbl gone_def
      by (simp add: unwatch_one_def upd_client_def dict_delete_watched_def upd_db_def s'_def ldk)
  next
    case False
    moreover have "(dbs s)(d := (dbs s d)\<lparr>db_watched := (db_watched (dbs s d))(k \<mapsto> l)\<rparr>) = dbs s"
      using dbl by (simp add: fun_upd_idem)
    ultimately show ?thesis
      using wk xs cl dbl gone_def by (simp add: unwatch_one_def upd_client_def s'_def ldk)
  qed
  note inv' = inv [unfolded watch_inv_def]
  have own: "d' = d \<and> k' = k" if "db_watched (dbs s d') k' = Some l" for d' k'
    using list_owner [OF _ dbl that] inv' by blast
  have "client_side s'"
    unfolding client_side_def
  proof (intro allI impI)
    fix c' cl' assume a: "clients s' c' = Some cl'"
    show "distinct (c_watched cl') \<and> (\<forall>w'\<in>set (c_watched cl'). \<exists>wk. wks s' w' = Some wk \<and> wk_client wk = c')"
    proof (cases "c' = c")
      case True
      then show ?thesis
        using a inv' cl by (auto simp: s'_def client_side_def)
    next
      case False
      then have "clients s c' = Some cl'"
        using a by (simp add: s'_def)
      moreover from this have "w \<notin> set (c_watched cl')"
        using inv' wk False unfolding client_side_def by (metis option.inject)
      ultimately show ?thesis
        using inv' by (auto simp: s'_def client_side_def)
    qed
  qed
  moreover have "unique_side s'"
    using inv' unfolding unique_side_def s'_def by auto
  moreover have "list_side s'"
    unfolding list_side_def
  proof (intro allI impI)
    fix d' k' l' assume a: "db_watched (dbs s' d') k' = Some l'"
    show "\<exists>ys. wlists s' l' = Some ys \<and> ys \<noteq> [] \<and> distinct ys \<and>
      (\<forall>x\<in>set ys. \<exists>wk. wks s' x = Some wk \<and> wk_list wk = l' \<and> wk_db wk = d' \<and> wk_key wk = k')"
    proof (cases "d' = d \<and> k' = k")
      case True
      then have "\<not> gone" "l' = l"
        using a by (auto simp: s'_def split: if_splits)
      then show ?thesis
        using True xs watchers_list(4) [OF inv dbl] gone_def by (auto simp: s'_def xs_def)
    next
      case False
      then have o: "db_watched (dbs s d') k' = Some l'"
        using a by (auto simp: s'_def split: if_splits)
      then have "l' \<noteq> l"
        using own False by blast
      moreover have "w \<notin> set (watchers s d' k')"
        using watchers_iff [OF inv wk(1)] False ldk by auto
      ultimately show ?thesis
        using watchers_list [OF inv o] by (auto simp: s'_def)
    qed
  qed
  moreover have "wk_side s'"
    unfolding wk_side_def
  proof (intro allI impI)
    fix v vk assume "wks s' v = Some vk"
    then have v: "wks s v = Some vk" "v \<noteq> w"
      by (auto simp: s'_def split: if_splits)
    note vs = inv' [unfolded wk_side_def, THEN conjunct2, THEN conjunct2, THEN conjunct2, THEN conjunct1, rule_format, OF v(1)]
    have "\<exists>cl. clients s' (wk_client vk) = Some cl \<and> v \<in> set (c_watched cl)"
      using vs v(2) cl by (auto simp: s'_def in_set_remove1)
    moreover have "wk_list vk = l \<longleftrightarrow> wk_db vk = d \<and> wk_key vk = k"
    proof
      assume "wk_list vk = l"
      then show "wk_db vk = d \<and> wk_key vk = k"
        using vs by (intro own) simp
    next
      assume "wk_db vk = d \<and> wk_key vk = k"
      then have "Some (wk_list vk) = Some l"
        using vs dbl by metis
      then show "wk_list vk = l"
        by simp
    qed
    moreover have "v \<in> set xs \<and> \<not> gone" if "wk_list vk = l"
      using vs that xs(1) v(2) one by auto
    ultimately show "(\<exists>cl. clients s' (wk_client vk) = Some cl \<and> v \<in> set (c_watched cl)) \<and>
      db_watched (dbs s' (wk_db vk)) (wk_key vk) = Some (wk_list vk) \<and>
      (\<exists>xs. wlists s' (wk_list vk) = Some xs \<and> v \<in> set xs)"
      using vs v(2) by (auto simp: s'_def in_set_remove1)
  qed
  moreover have "fresh_side s'"
    unfolding fresh_side_def
  proof (intro conjI allI impI)
    fix x assume "brk s' \<le> x"
    moreover from this have "x \<noteq> l"
      using inv' xs(1) by (auto simp: fresh_side_def s'_def)
    ultimately show "wks s' x = None" "wlists s' x = None"
      using inv' by (auto simp: fresh_side_def s'_def)
  next
    fix x ys assume a: "wlists s' x = Some ys"
    show "\<exists>d k. db_watched (dbs s' d) k = Some x"
    proof (cases "x = l")
      case True
      then show ?thesis
        using a by (intro exI [of _ d] exI [of _ k]) (auto simp: s'_def split: if_splits)
    next
      case False
      then obtain d' k' where o: "db_watched (dbs s d') k' = Some x"
        using a inv' by (auto simp: fresh_side_def s'_def)
      then have "\<not> (d' = d \<and> k' = k)"
        using dbl False by auto
      then show ?thesis
        using o by (intro exI [of _ d'] exI [of _ k']) (auto simp: s'_def)
    qed
  qed
  moreover have "watchers s' d' k' = remove1 w (watchers s d' k')" for d' k'
  proof (cases "d' = d \<and> k' = k")
    case True
    then show ?thesis
      using gone_def xs_def by (auto simp: watchers_def s'_def)
  next
    case False
    then have "w \<notin> set (watchers s d' k')"
      using watchers_iff [OF inv wk(1)] ldk by auto
    moreover have "watchers s' d' k' = watchers s d' k'"
    proof -
      have "db_watched (dbs s' d') k' = db_watched (dbs s d') k'"
        using False by (auto simp: s'_def)
      moreover have "db_watched (dbs s d') k' \<noteq> Some l"
        using own [of d' k'] False by blast
      ultimately show ?thesis
        by (simp add: watchers_def s'_def split: option.split)
    qed
    ultimately show ?thesis
      by (simp add: remove1_idem)
  qed
  ultimately show ?thesis
    using eq by (simp add: watch_inv_def s'_def same_data_def)
qed
lemma unwatch_loop_correct:
  assumes "watch_inv s" "clients s c = Some cl" "set ws \<subseteq> set (c_watched cl)" "distinct ws"
  shows "\<exists>s'. unwatch_loop c ws s = Some s' \<and> watch_inv s' \<and> same_data s s' \<and>
    clients s' = (clients s)(c \<mapsto> cl\<lparr>c_watched := filter (\<lambda>w. w \<notin> set ws) (c_watched cl)\<rparr>) \<and>
    wks s' = wks s |` (- set ws) \<and> (\<forall>d k. watchers s' d k = filter (\<lambda>w. w \<notin> set ws) (watchers s d k))"
  using assms
proof (induction ws arbitrary: s cl)
  case Nil
  then show ?case
    by (simp add: fun_upd_idem)
next
  case (Cons w ws)
  obtain s1 where s1: "unwatch_one s c w = Some s1" "watch_inv s1" "same_data s s1"
    "clients s1 = (clients s)(c \<mapsto> cl\<lparr>c_watched := remove1 w (c_watched cl)\<rparr>)"
    "wks s1 = (wks s)(w := None)" "\<forall>d k. watchers s1 d k = remove1 w (watchers s d k)"
    using unwatch_one_correct [OF Cons.prems(1,2), of w] Cons.prems(3) by fastforce
  define cl1 where "cl1 = cl\<lparr>c_watched := remove1 w (c_watched cl)\<rparr>"
  have dis: "distinct (c_watched cl)"
    using Cons.prems(1,2) by (auto simp: watch_inv_def client_side_def)
  have rem: "remove1 w (c_watched cl) = filter (\<lambda>x. x \<noteq> w) (c_watched cl)"
    using dis by (simp add: distinct_remove1_removeAll removeAll_filter_not_eq eq_commute)
  have c1: "clients s1 c = Some cl1" "set ws \<subseteq> set (c_watched cl1)"
    using s1(4) Cons.prems(3,4) dis by (auto simp: cl1_def)
  obtain s2 where s2: "unwatch_loop c ws s1 = Some s2" "watch_inv s2" "same_data s1 s2"
    "clients s2 = (clients s1)(c \<mapsto> cl1\<lparr>c_watched := filter (\<lambda>w. w \<notin> set ws) (c_watched cl1)\<rparr>)"
    "wks s2 = wks s1 |` (- set ws)" "\<forall>d k. watchers s2 d k = filter (\<lambda>w. w \<notin> set ws) (watchers s1 d k)"
    using Cons.IH [OF s1(2) c1 distinct_tl [OF Cons.prems(4), simplified]] by blast
  have "watchers s2 d k = filter (\<lambda>x. x \<notin> set (w # ws)) (watchers s d k)" for d k
    using s2(6) s1(6) watchers_distinct [OF Cons.prems(1), of d k]
    by (simp add: distinct_remove1_removeAll removeAll_filter_not_eq conj_commute eq_commute)
  moreover have "clients s2 = (clients s)(c \<mapsto> cl\<lparr>c_watched := filter (\<lambda>x. x \<notin> set (w # ws)) (c_watched cl)\<rparr>)"
    using s2(4) s1(4) by (simp add: cl1_def rem conj_commute)
  moreover have "wks s2 = wks s |` (- set (w # ws))"
    using s2(5) s1(5) by (auto simp: restrict_map_def fun_eq_iff)
  ultimately show ?case
    using s1(1) s2(1,2) same_data_trans [OF s1(3) s2(3)] by (intro exI [of _ s2] conjI) simp_all
qed

lemma unwatchAllKeys_correct:
  assumes "watch_inv s" "clients s c = Some cl"
  shows "\<exists>s'. unwatchAllKeys s c = Some s' \<and> watch_inv s' \<and> same_data s s' \<and>
    clients s' = (clients s)(c \<mapsto> cl\<lparr>c_watched := []\<rparr>) \<and>
    wks s' = wks s |` (- set (c_watched cl)) \<and>
    (\<forall>d k. watchers s' d k = filter (\<lambda>w. w \<notin> set (c_watched cl)) (watchers s d k))"
proof (cases "c_watched cl = []")
  case True
  then have "cl\<lparr>c_watched := []\<rparr> = cl"
    by (cases cl) simp
  then show ?thesis
    using assms True by (simp add: unwatchAllKeys_def fun_upd_idem restrict_map_def)
next
  case False
  have "distinct (c_watched cl)"
    using assms by (auto simp: watch_inv_def client_side_def)
  then show ?thesis
    using unwatch_loop_correct [OF assms subset_refl] assms(2) False by (simp add: unwatchAllKeys_def)
qed

lemma watched_of_client:
  assumes "watch_inv s" "clients s c = Some cl" "wks s w = Some wk"
  shows "w \<in> set (c_watched cl) \<longleftrightarrow> wk_client wk = c"
proof
  assume "w \<in> set (c_watched cl)"
  then show "wk_client wk = c"
    using assms unfolding watch_inv_def client_side_def by fastforce
next
  assume "wk_client wk = c"
  then show "w \<in> set (c_watched cl)"
    using assms unfolding watch_inv_def wk_side_def by fastforce
qed

text \<open>Changes of a client other than to its watched keys keep the invariant.\<close>

lemma watch_inv_cong:
  assumes "watch_inv s" "\<And>c. map_option c_watched (clients s' c) = map_option c_watched (clients s c)"
    "\<And>d. db_watched (dbs s' d) = db_watched (dbs s d)" "wks s' = wks s" "wlists s' = wlists s" "brk s' = brk s"
  shows "watch_inv s'" "watchers s' = watchers s"
proof -
  have fw: "\<exists>cl'. clients s c = Some cl' \<and> c_watched cl' = c_watched cl" if "clients s' c = Some cl" for c cl
    using assms(2) [of c] that by (cases "clients s c") auto
  have bw: "\<exists>cl'. clients s' c = Some cl' \<and> c_watched cl' = c_watched cl" if "clients s c = Some cl" for c cl
    using assms(2) [of c] that by (cases "clients s' c") auto
  have "client_side s'"
    using assms(1) unfolding watch_inv_def client_side_def assms(4) using fw by metis
  moreover have "wk_side s'"
    using assms(1) unfolding watch_inv_def wk_side_def assms(3-5) using bw by metis
  ultimately show "watch_inv s'"
    using assms(1) unfolding watch_inv_def unique_side_def list_side_def fresh_side_def assms(3-6) by blast
  show "watchers s' = watchers s"
    unfolding watchers_def assms(3,5) ..
qed

lemma upd_client_inv:
  assumes "watch_inv s" "clients s c = Some cl" "c_watched (f cl) = c_watched cl"
  shows "\<exists>s'. upd_client s c f = Some s' \<and> s' = s\<lparr>clients := (clients s)(c \<mapsto> f cl)\<rparr> \<and> watch_inv s' \<and> same_data s s' \<and> watchers s' = watchers s"
proof -
  define s' where "s' = s\<lparr>clients := (clients s)(c \<mapsto> f cl)\<rparr>"
  have "watch_inv s'" "watchers s' = watchers s"
    by (rule watch_inv_cong [OF assms(1)]; simp add: s'_def assms(2,3))+
  then show ?thesis
    using assms(2) by (simp add: upd_client_def s'_def same_data_def)
qed

section \<open>Watching\<close>

lemma already_watched_correct:
  "(\<And>w. w \<in> set ws \<Longrightarrow> wks s w \<noteq> None) \<Longrightarrow>
   \<exists>b. already_watched s d k ws = Some b \<and> (b \<longleftrightarrow> (\<exists>w\<in>set ws. \<exists>wk. wks s w = Some wk \<and> wk_db wk = d \<and> wk_key wk = k))"
proof (induction ws)
  case (Cons w ws)
  obtain wk where wk: "wks s w = Some wk"
    using Cons.prems [of w] by auto
  obtain b where "already_watched s d k ws = Some b" "b \<longleftrightarrow> (\<exists>w\<in>set ws. \<exists>wk. wks s w = Some wk \<and> wk_db wk = d \<and> wk_key wk = k)"
    using Cons.IH Cons.prems by auto
  with wk show ?case
    by auto
qed auto

lemma watch_state_inv:
  fixes s :: "'v redisServer"
  assumes inv: "watch_inv s" and cl: "clients s c = Some cl"
    and new: "\<And>v vk. wks s v = Some vk \<Longrightarrow> wk_client vk = c \<Longrightarrow> wk_db vk = d \<Longrightarrow> wk_key vk \<noteq> k"
    and fresh: "brk s \<le> w" "l \<noteq> w" "l < Suc w"
    and l: "db_watched (dbs s d) k = Some l \<and> xs = watchers s d k \<or> db_watched (dbs s d) k = None \<and> brk s \<le> l \<and> xs = []"
    and s': "s' = s\<lparr>brk := Suc w, wlists := (wlists s)(l \<mapsto> xs @ [w]),
      dbs := (dbs s)(d := (dbs s d)\<lparr>db_watched := (db_watched (dbs s d))(k \<mapsto> l)\<rparr>),
      wks := (wks s)(w \<mapsto> \<lparr>wk_list = l, wk_key = k, wk_db = d, wk_client = c, wk_expired = e\<rparr>),
      clients := (clients s)(c \<mapsto> cl\<lparr>c_watched := c_watched cl @ [w]\<rparr>)\<rparr>"
  shows "watch_inv s'"
proof -
  note inv' = inv [unfolded watch_inv_def]
  have wn: "wks s w = None" "wlists s w = None"
    using inv' fresh(1) by (auto simp: fresh_side_def)
  have own: "d' = d \<and> k' = k" if "db_watched (dbs s d') k' = Some l" for d' k'
    using l
  proof
    assume "db_watched (dbs s d) k = Some l \<and> xs = watchers s d k"
    then show ?thesis
      using list_owner [OF _ _ that] inv' by blast
  next
    assume "db_watched (dbs s d) k = None \<and> brk s \<le> l \<and> xs = []"
    then have "wlists s l = None"
      using inv' by (auto simp: fresh_side_def)
    then show ?thesis
      using watchers_list(1) [OF inv that] by simp
  qed
  have xs: "w \<notin> set xs" "distinct xs" "v \<in> set xs \<Longrightarrow> \<exists>vk. wks s v = Some vk \<and> wk_list vk = l \<and> wk_db vk = d \<and> wk_key vk = k" for v
    using l watchers_distinct [OF inv] watchers_list(4) [OF inv, of d k l] watchersD [OF inv] wn(1) by fastforce+
  have "client_side s'"
    unfolding client_side_def
  proof (intro allI impI)
    fix c' cl' assume a: "clients s' c' = Some cl'"
    obtain cl0 where cl0: "clients s c' = Some cl0" "c_watched cl' = (if c' = c then c_watched cl0 @ [w] else c_watched cl0)"
      using a cl by (cases "c' = c") (auto simp: s')
    have d0: "distinct (c_watched cl0)" "\<forall>v\<in>set (c_watched cl0). \<exists>vk. wks s v = Some vk \<and> wk_client vk = c'"
      using inv' cl0(1) by (auto simp: client_side_def)
    then have "w \<notin> set (c_watched cl0)"
      using wn(1) by force
    then show "distinct (c_watched cl') \<and> (\<forall>v\<in>set (c_watched cl'). \<exists>vk. wks s' v = Some vk \<and> wk_client vk = c')"
      using d0 cl0(2) by (auto simp: s')
  qed
  moreover have "unique_side s'"
    using inv' new unfolding unique_side_def s' by auto
  moreover have "list_side s'"
    unfolding list_side_def
  proof (intro allI impI)
    fix d' k' l' assume a: "db_watched (dbs s' d') k' = Some l'"
    show "\<exists>ys. wlists s' l' = Some ys \<and> ys \<noteq> [] \<and> distinct ys \<and>
      (\<forall>x\<in>set ys. \<exists>wk. wks s' x = Some wk \<and> wk_list wk = l' \<and> wk_db wk = d' \<and> wk_key wk = k')"
    proof (cases "d' = d \<and> k' = k")
      case True
      then show ?thesis
        using a xs by (auto simp: s')
    next
      case False
      then have o: "db_watched (dbs s d') k' = Some l'"
        using a by (auto simp: s' split: if_splits)
      then have "l' \<noteq> l"
        using own False by blast
      then show ?thesis
        using watchers_list [OF inv o] wn(1) by (fastforce simp: s')
    qed
  qed
  moreover have "wk_side s'"
    unfolding wk_side_def
  proof (intro allI impI)
    fix v vk assume v: "wks s' v = Some vk"
    show "(\<exists>cl. clients s' (wk_client vk) = Some cl \<and> v \<in> set (c_watched cl)) \<and>
      db_watched (dbs s' (wk_db vk)) (wk_key vk) = Some (wk_list vk) \<and>
      (\<exists>xs. wlists s' (wk_list vk) = Some xs \<and> v \<in> set xs)"
    proof (cases "v = w")
      case True
      then show ?thesis
        using v by (auto simp: s')
    next
      case False
      then have v0: "wks s v = Some vk"
        using v by (simp add: s')
      then obtain cl0 ys where o: "clients s (wk_client vk) = Some cl0" "v \<in> set (c_watched cl0)"
        "db_watched (dbs s (wk_db vk)) (wk_key vk) = Some (wk_list vk)" "wlists s (wk_list vk) = Some ys" "v \<in> set ys"
        using inv' unfolding wk_side_def by blast
      have c: "\<exists>cl. clients s' (wk_client vk) = Some cl \<and> v \<in> set (c_watched cl)"
        using o(1,2) cl by (auto simp: s')
      show ?thesis
      proof (cases "wk_db vk = d \<and> wk_key vk = k")
        case True
        then have "wk_list vk = l" "v \<in> set xs"
          using l o(3) watchers_iff [OF inv v0, of d k] by auto
        then show ?thesis
          using c True by (simp add: s')
      next
        case False
        then have "wk_list vk \<noteq> l"
          using own o(3) by blast
        moreover have "db_watched (dbs s' (wk_db vk)) (wk_key vk) = db_watched (dbs s (wk_db vk)) (wk_key vk)"
          using False by (auto simp: s')
        ultimately show ?thesis
          using c o(3-5) by (simp add: s')
      qed
    qed
  qed
  moreover have "fresh_side s'"
    unfolding fresh_side_def
  proof (intro conjI allI impI)
    fix x assume "brk s' \<le> x"
    then show "wks s' x = None" "wlists s' x = None"
      using inv' fresh by (auto simp: fresh_side_def s')
  next
    fix x ys assume a: "wlists s' x = Some ys"
    show "\<exists>d k. db_watched (dbs s' d) k = Some x"
    proof (cases "x = l")
      case True
      then show ?thesis
        by (intro exI [of _ d] exI [of _ k]) (simp add: s')
    next
      case False
      then obtain d' k' where o: "db_watched (dbs s d') k' = Some x"
        using a inv' by (auto simp: fresh_side_def s')
      then have "\<not> (d' = d \<and> k' = k)"
        using l False a inv' by (auto simp: fresh_side_def s')
      then show ?thesis
        using o by (intro exI [of _ d'] exI [of _ k']) (auto simp: s')
    qed
  qed
  ultimately show ?thesis
    by (simp add: watch_inv_def)
qed

lemma watchForKey_correct:
  assumes inv: "watch_inv s" and cl: "clients s c = Some cl"
  shows "\<exists>s' ws. watchForKey s c k = Some s' \<and> watch_inv s' \<and> same_data s s' \<and>
    clients s' = (clients s)(c \<mapsto> cl\<lparr>c_watched := ws\<rparr>) \<and> wks s \<subseteq>\<^sub>m wks s' \<and>
    (\<exists>w wk. wks s' w = Some wk \<and> wk_client wk = c \<and> wk_db wk = c_db cl \<and> wk_key wk = k \<and>
      (wks s w = None \<longrightarrow> wk_expired wk = keyIsExpired s (c_db cl) k))"
proof -
  define d where "d = c_db cl"
  have live: "\<And>w. w \<in> set (c_watched cl) \<Longrightarrow> wks s w \<noteq> None"
    using inv cl by (fastforce simp: watch_inv_def client_side_def)
  obtain b where b: "already_watched s d k (c_watched cl) = Some b"
    "b \<longleftrightarrow> (\<exists>w\<in>set (c_watched cl). \<exists>wk. wks s w = Some wk \<and> wk_db wk = d \<and> wk_key wk = k)"
    using already_watched_correct [OF live] by blast
  show ?thesis
  proof (cases b)
    case True
    then obtain w wk where w: "w \<in> set (c_watched cl)" "wks s w = Some wk" "wk_db wk = d" "wk_key wk = k"
      using b(2) by blast
    have "watchForKey s c k = Some s"
      using cl b(1) True by (simp add: watchForKey_def d_def)
    moreover have "(clients s)(c \<mapsto> cl\<lparr>c_watched := c_watched cl\<rparr>) = clients s"
      using cl by (simp add: fun_upd_idem)
    ultimately show ?thesis
      using inv w watched_of_client [OF inv cl w(2)] d_def
      by (intro exI [of _ s] exI [of _ "c_watched cl"] conjI exI [of _ w] exI [of _ wk]) simp_all
  next
    case False
    define l where "l = (case db_watched (dbs s d) k of None \<Rightarrow> brk s | Some l \<Rightarrow> l)"
    define w where "w = (case db_watched (dbs s d) k of None \<Rightarrow> Suc (brk s) | Some l \<Rightarrow> brk s)"
    define s' where "s' = s\<lparr>brk := Suc w, wlists := (wlists s)(l \<mapsto> watchers s d k @ [w]),
      dbs := (dbs s)(d := (dbs s d)\<lparr>db_watched := (db_watched (dbs s d))(k \<mapsto> l)\<rparr>),
      wks := (wks s)(w \<mapsto> \<lparr>wk_list = l, wk_key = k, wk_db = d, wk_client = c, wk_expired = keyIsExpired s d k\<rparr>),
      clients := (clients s)(c \<mapsto> cl\<lparr>c_watched := c_watched cl @ [w]\<rparr>)\<rparr>"
    have llt: "l < brk s" if "db_watched (dbs s d) k = Some l"
      using watchers_list(1) [OF inv that] inv by (fastforce simp: watch_inv_def fresh_side_def not_le [symmetric])
    have "watch_inv s'"
    proof (rule watch_state_inv [OF inv cl])
      show "wk_key vk \<noteq> k" if "wks s v = Some vk" "wk_client vk = c" "wk_db vk = d" for v vk
        using False b(2) that watched_of_client [OF inv cl that(1)] by auto
      show "brk s \<le> w" "l \<noteq> w" "l < Suc w"
        using llt by (auto simp: w_def l_def split: option.splits)
      show "db_watched (dbs s d) k = Some l \<and> watchers s d k = watchers s d k \<or>
        db_watched (dbs s d) k = None \<and> brk s \<le> l \<and> watchers s d k = []"
        by (auto simp: l_def watchers_None split: option.splits)
    qed (simp add: s'_def)
    moreover have "watchForKey s c k = Some s'"
    proof (cases "db_watched (dbs s d) k")
      case None
      define t where "t = s\<lparr>brk := Suc (brk s), wlists := (wlists s)(brk s \<mapsto> []),
        dbs := (dbs s)(d := (dbs s d)\<lparr>db_watched := (db_watched (dbs s d))(k \<mapsto> brk s)\<rparr>)\<rparr>"
      have "clients_list s d k = (t, brk s)"
        using None by (simp add: clients_list_def upd_db_def t_def Let_def)
      moreover have "keyIsExpired t d k = keyIsExpired s d k"
        by (simp add: keyIsExpired_def getExpire_def t_def)
      moreover have "s' = t\<lparr>brk := Suc (Suc (brk s)), clients := (clients s)(c \<mapsto> cl\<lparr>c_watched := c_watched cl @ [Suc (brk s)]\<rparr>),
        wks := (wks s)(Suc (brk s) \<mapsto> \<lparr>wk_list = brk s, wk_key = k, wk_db = d, wk_client = c, wk_expired = keyIsExpired s d k\<rparr>),
        wlists := (wlists t)(brk s \<mapsto> [Suc (brk s)])\<rparr>"
        using None by (intro redisServer.equality) (simp_all add: s'_def t_def w_def l_def watchers_None)
      moreover have "brk t = Suc (brk s)" "clients t = clients s" "wks t = wks s" "wlists t (brk s) = Some []"
        by (simp_all add: t_def)
      ultimately show ?thesis
        using cl b(1) False by (simp add: watchForKey_def d_def [symmetric] upd_client_def watchedKeyLinkToClients_def Let_def)
    next
      case (Some l')
      have "s' = s\<lparr>brk := Suc (brk s), clients := (clients s)(c \<mapsto> cl\<lparr>c_watched := c_watched cl @ [brk s]\<rparr>),
        wks := (wks s)(brk s \<mapsto> \<lparr>wk_list = l', wk_key = k, wk_db = d, wk_client = c, wk_expired = keyIsExpired s d k\<rparr>),
        wlists := (wlists s)(l' \<mapsto> watchers s d k @ [brk s])\<rparr>"
        using Some by (intro redisServer.equality) (simp_all add: s'_def w_def l_def fun_upd_idem)
      then show ?thesis
        using cl b(1) False Some watchers_list(1) [OF inv Some]
        by (simp add: watchForKey_def d_def [symmetric] clients_list_def upd_client_def watchedKeyLinkToClients_def Let_def)
    qed
    moreover have "wks s w = None"
      using inv by (auto simp: watch_inv_def fresh_side_def w_def split: option.splits)
    ultimately show ?thesis
      by (intro exI [of _ s'] exI [of _ "c_watched cl @ [w]"])
        (auto simp: s'_def same_data_def d_def map_le_def)
  qed
qed

section \<open>Touching a key\<close>

text \<open>
  A watcher whose key had expired when the watch began stops the loop of \<^verbatim>\<open>touchWatchedKey\<close> if the key is
  still present. The clients behind it in the list are not reached.
\<close>

definition blocks_touch :: "'v redisServer \<Rightarrow> nat \<Rightarrow> key \<Rightarrow> addr \<Rightarrow> bool" where
  "blocks_touch s d k w \<longleftrightarrow> db_dict (dbs s d) k \<noteq> None \<and> (\<exists>wk. wks s w = Some wk \<and> wk_expired wk)"

definition touched :: "'v redisServer \<Rightarrow> nat \<Rightarrow> key \<Rightarrow> addr list \<Rightarrow> cid set" where
  "touched s d k ws =
     {wk_client wk | w wk. w \<in> set (takeWhile (\<lambda>w. \<not> blocks_touch s d k w) ws) \<and> wks s w = Some wk \<and> \<not> wk_expired wk}"

definition make_dirty :: "client \<Rightarrow> client" where
  "make_dirty cl = cl\<lparr>flags := flags cl \<union> {CLIENT_DIRTY_CAS}, c_watched := []\<rparr>"

definition dirty_clients :: "cid set \<Rightarrow> (cid \<rightharpoonup> client) \<Rightarrow> (cid \<rightharpoonup> client)" where
  "dirty_clients C m c = map_option (\<lambda>cl. if c \<in> C then make_dirty cl else cl) (m c)"

lemma successor_append: "w \<notin> set xs \<Longrightarrow> successor (xs @ w # ys) w = (case ys of [] \<Rightarrow> None | y # _ \<Rightarrow> Some y)"
  by (induction xs) auto

lemma clear_expired_inv:
  assumes "watch_inv s" "wks s w = Some wk"
  shows "watch_inv (s\<lparr>wks := (wks s)(w \<mapsto> wk\<lparr>wk_expired := b\<rparr>)\<rparr>)"
proof -
  note inv' = assms(1) [unfolded watch_inv_def]
  let ?s = "s\<lparr>wks := (wks s)(w \<mapsto> wk\<lparr>wk_expired := b\<rparr>)\<rparr>"
  have fw: "\<exists>vk'. wks s v = Some vk' \<and> wk_client vk' = wk_client vk \<and> wk_db vk' = wk_db vk \<and> wk_key vk' = wk_key vk \<and>
    wk_list vk' = wk_list vk" if "wks ?s v = Some vk" for v vk
    using that assms(2) by (cases "v = w") auto
  have bw: "\<exists>vk'. wks ?s v = Some vk' \<and> wk_client vk' = wk_client vk \<and> wk_db vk' = wk_db vk \<and> wk_key vk' = wk_key vk \<and>
    wk_list vk' = wk_list vk" if "wks s v = Some vk" for v vk
    using that assms(2) by (cases "v = w") auto
  have "client_side ?s"
    unfolding client_side_def
  proof (intro allI impI conjI ballI)
    fix c cl assume "clients ?s c = Some cl"
    then have a: "clients s c = Some cl"
      by simp
    then show "distinct (c_watched cl)"
      using inv' unfolding client_side_def by blast
    fix v assume "v \<in> set (c_watched cl)"
    then obtain vk where vk: "wks s v = Some vk" "wk_client vk = c"
      using inv' a unfolding client_side_def by blast
    from bw [OF vk(1)] vk(2) show "\<exists>vk. wks ?s v = Some vk \<and> wk_client vk = c"
      by blast
  qed
  moreover have "unique_side ?s"
    unfolding unique_side_def
  proof (intro allI impI)
    fix v v' vk vk' assume a: "wks ?s v = Some vk" "wks ?s v' = Some vk'" "wk_client vk = wk_client vk'" "wk_db vk = wk_db vk'" "wk_key vk = wk_key vk'"
    obtain u u' where u: "wks s v = Some u" "wk_client u = wk_client vk" "wk_db u = wk_db vk" "wk_key u = wk_key vk"
      "wks s v' = Some u'" "wk_client u' = wk_client vk'" "wk_db u' = wk_db vk'" "wk_key u' = wk_key vk'"
      using fw [OF a(1)] fw [OF a(2)] by blast
    have "wk_client u = wk_client u'" "wk_db u = wk_db u'" "wk_key u = wk_key u'"
      using u a(3-5) by simp_all
    then show "v = v'"
      using u(1,5) inv' unfolding unique_side_def by blast
  qed
  moreover have "list_side ?s"
    unfolding list_side_def
  proof (intro allI impI)
    fix d k l assume "db_watched (dbs ?s d) k = Some l"
    then have o: "db_watched (dbs s d) k = Some l"
      by simp
    have "\<exists>vk. wks ?s v = Some vk \<and> wk_list vk = l \<and> wk_db vk = d \<and> wk_key vk = k" if "v \<in> set (watchers s d k)" for v
      using watchers_list(4) [OF assms(1) o that] bw by metis
    then show "\<exists>xs. wlists ?s l = Some xs \<and> xs \<noteq> [] \<and> distinct xs \<and>
      (\<forall>v\<in>set xs. \<exists>vk. wks ?s v = Some vk \<and> wk_list vk = l \<and> wk_db vk = d \<and> wk_key vk = k)"
      using watchers_list(1-3) [OF assms(1) o] by auto
  qed
  moreover have "wk_side ?s"
    unfolding wk_side_def
  proof (intro allI impI)
    fix v vk assume "wks ?s v = Some vk"
    from fw [OF this] show "(\<exists>cl. clients ?s (wk_client vk) = Some cl \<and> v \<in> set (c_watched cl)) \<and>
      db_watched (dbs ?s (wk_db vk)) (wk_key vk) = Some (wk_list vk) \<and> (\<exists>xs. wlists ?s (wk_list vk) = Some xs \<and> v \<in> set xs)"
      using inv' unfolding wk_side_def by fastforce
  qed
  moreover have "fresh_side ?s"
    using inv' assms(2) unfolding fresh_side_def by (auto simp: fun_upd_def)
  ultimately show ?thesis
    by (simp add: watch_inv_def)
qed

lemma watcher_clients_differ:
  assumes "watch_inv s" "v \<in> set (watchers s d k)" "w \<in> set (watchers s d k)" "v \<noteq> w" "wks s v = Some vk" "wks s w = Some wk"
  shows "wk_client vk \<noteq> wk_client wk"
  using assms watchers_iff [OF assms(1,5), of d k] watchers_iff [OF assms(1,6), of d k]
  unfolding watch_inv_def unique_side_def by metis

text \<open>Marking one client and dropping all that it watches leaves the other watchers of the key in place.\<close>

lemma dirty_one:
  assumes inv: "watch_inv s" and w: "w \<in> set (watchers s d k)" "wks s w = Some wk"
  shows "\<exists>s1 s2. upd_client s (wk_client wk) (\<lambda>cl. cl\<lparr>flags := flags cl \<union> {CLIENT_DIRTY_CAS}\<rparr>) = Some s1 \<and>
    unwatchAllKeys s1 (wk_client wk) = Some s2 \<and> watch_inv s2 \<and> same_data s s2 \<and>
    clients s2 = dirty_clients {wk_client wk} (clients s) \<and> watchers s2 d k = remove1 w (watchers s d k) \<and>
    (\<forall>v\<in>set (watchers s d k). v \<noteq> w \<longrightarrow> wks s2 v = wks s v)"
proof -
  define c where "c = wk_client wk"
  obtain cl where cl: "clients s c = Some cl" "w \<in> set (c_watched cl)"
    using inv w(2) unfolding watch_inv_def wk_side_def c_def by blast
  define cl1 where "cl1 = cl\<lparr>flags := flags cl \<union> {CLIENT_DIRTY_CAS}\<rparr>"
  obtain s1 where s1: "upd_client s c (\<lambda>cl. cl\<lparr>flags := flags cl \<union> {CLIENT_DIRTY_CAS}\<rparr>) = Some s1"
    "s1 = s\<lparr>clients := (clients s)(c \<mapsto> cl1)\<rparr>" "watch_inv s1" "same_data s s1" "watchers s1 = watchers s"
    using upd_client_inv [OF inv cl(1), of "\<lambda>cl. cl\<lparr>flags := flags cl \<union> {CLIENT_DIRTY_CAS}\<rparr>"] by (auto simp: cl1_def)
  have "clients s1 c = Some cl1"
    using s1(2) by simp
  from unwatchAllKeys_correct [OF s1(3) this] obtain s2 where s2: "unwatchAllKeys s1 c = Some s2" "watch_inv s2" "same_data s1 s2"
    "clients s2 = (clients s1)(c \<mapsto> cl1\<lparr>c_watched := []\<rparr>)" "wks s2 = wks s1 |` (- set (c_watched cl1))"
    "\<forall>d k. watchers s2 d k = filter (\<lambda>w. w \<notin> set (c_watched cl1)) (watchers s1 d k)"
    by blast
  have mem: "v \<in> set (c_watched cl) \<longleftrightarrow> v = w" if v: "v \<in> set (watchers s d k)" for v
  proof -
    obtain vk where "wks s v = Some vk"
      using watchersD [OF inv v] by blast
    then show ?thesis
      using watched_of_client [OF inv cl(1)] watcher_clients_differ [OF inv v w(1)] w(2) c_def by blast
  qed
  have "watchers s2 d k = filter (\<lambda>v. v \<noteq> w) (watchers s d k)"
    using s2(6) s1(5) mem by (auto simp: cl1_def intro: filter_cong)
  then have "watchers s2 d k = remove1 w (watchers s d k)"
    using watchers_distinct [OF inv] by (simp add: distinct_remove1_removeAll removeAll_filter_not_eq eq_commute)
  moreover have "clients s2 = dirty_clients {c} (clients s)"
    using s2(4) s1(2) cl(1) by (auto simp: dirty_clients_def make_dirty_def cl1_def fun_eq_iff map_option.id [unfolded id_def])
  moreover have "\<forall>v\<in>set (watchers s d k). v \<noteq> w \<longrightarrow> wks s2 v = wks s v"
    using s2(5) s1(2) mem by (auto simp: cl1_def restrict_map_def)
  ultimately show ?thesis
    using s1(1) s2(1,2) same_data_trans [OF s1(4) s2(3)] unfolding c_def by blast
qed

lemma touched_cong:
  assumes "\<And>v. v \<in> set ws \<Longrightarrow> wks s' v = wks s v" "db_dict (dbs s' d) k = db_dict (dbs s d) k"
  shows "touched s' d k ws = touched s d k ws"
proof -
  have "takeWhile (\<lambda>w. \<not> blocks_touch s' d k w) ws = takeWhile (\<lambda>w. \<not> blocks_touch s d k w) ws"
    by (rule takeWhile_cong) (simp_all add: blocks_touch_def assms)
  moreover have "wks s' w = wks s w" if "w \<in> set (takeWhile (\<lambda>w. \<not> blocks_touch s d k w) ws)" for w
    using assms(1) set_takeWhileD [OF that] by blast
  ultimately show ?thesis
    unfolding touched_def by metis
qed

lemma touched_Cons:
  assumes "wks s w = Some wk"
  shows "touched s d k (w # ws) =
    (if blocks_touch s d k w then {} else if wk_expired wk then touched s d k ws else insert (wk_client wk) (touched s d k ws))"
  using assms by (auto simp: touched_def)

lemma dirty_clients_empty [simp]: "dirty_clients {} m = m"
  by (auto simp: dirty_clients_def fun_eq_iff option.map_ident)

lemma dirty_clients_insert: "dirty_clients A (dirty_clients {c} m) = dirty_clients (insert c A) m"
  by (auto simp: dirty_clients_def fun_eq_iff option.map_comp comp_def make_dirty_def intro!: option.map_cong0)

lemma touch_loop_None [simp]: "touch_loop d k l None s = Some s"
  by (subst touch_loop.simps) simp

lemmas touch_loop_Some = touch_loop.simps [of d k l "Some w" for d k l w, unfolded option.case]

lemma touch_loop_correct:
  assumes "watch_inv s" "watchers s d k = before @ ws" "ws \<noteq> [] \<Longrightarrow> db_watched (dbs s d) k = Some l"
  shows "\<exists>s'. touch_loop d k l (case ws of [] \<Rightarrow> None | w # _ \<Rightarrow> Some w) s = Some s' \<and> watch_inv s' \<and> same_data s s' \<and>
    clients s' = dirty_clients (touched s d k ws) (clients s)"
  using assms
proof (induction ws arbitrary: s before)
  case Nil
  then show ?case
    by (simp add: touched_def)
next
  case (Cons w ws)
  note inv = Cons.prems(1) and dbl = Cons.prems(3) [OF list.distinct(2)]
  have win: "w \<in> set (watchers s d k)" and wnot: "w \<notin> set before" "w \<notin> set ws"
    using Cons.prems(2) watchers_distinct [OF inv, of d k] by auto
  obtain wk where wk: "wks s w = Some wk" "wk_db wk = d" "wk_key wk = k"
    using watchersD [OF inv win] by blast
  have nxt: "list_next s l w = Some (case ws of [] \<Rightarrow> None | w # _ \<Rightarrow> Some w)"
    using watchers_list(1) [OF inv dbl] Cons.prems(2) wnot(1) by (simp add: list_next_def successor_append)
  show ?case
  proof (cases "wk_expired wk")
    case False
    obtain s1 s2 where s: "upd_client s (wk_client wk) (\<lambda>cl. cl\<lparr>flags := flags cl \<union> {CLIENT_DIRTY_CAS}\<rparr>) = Some s1"
      "unwatchAllKeys s1 (wk_client wk) = Some s2" "watch_inv s2" "same_data s s2"
      "clients s2 = dirty_clients {wk_client wk} (clients s)" "watchers s2 d k = remove1 w (watchers s d k)"
      "\<forall>v\<in>set (watchers s d k). v \<noteq> w \<longrightarrow> wks s2 v = wks s v"
      using dirty_one [OF inv win wk(1)] by blast
    have w2: "watchers s2 d k = before @ ws"
      using s(6) Cons.prems(2) wnot(1) by (simp add: remove1_append)
    have same: "wks s2 v = wks s v" if "v \<in> set ws" for v
      using s(7) Cons.prems(2) that wnot(2) by auto
    have "db_watched (dbs s2 d) k = Some l" if ne: "ws \<noteq> []"
    proof -
      obtain v where v: "v \<in> set ws"
        using ne by (cases ws) auto
      then obtain vk where vk: "wks s v = Some vk" "wk_list vk = l" "wk_db vk = d" "wk_key vk = k"
        using watchers_list(4) [OF inv dbl, of v] Cons.prems(2) by auto
      then have "wks s2 v = Some vk"
        using same [OF v] by simp
      then show ?thesis
        using s(3) vk unfolding watch_inv_def wk_side_def by blast
    qed
    from Cons.IH [OF s(3) w2 this] obtain s' where s':
      "touch_loop d k l (case ws of [] \<Rightarrow> None | w # _ \<Rightarrow> Some w) s2 = Some s'" "watch_inv s'" "same_data s2 s'"
      "clients s' = dirty_clients (touched s2 d k ws) (clients s2)"
      by blast
    have "touched s2 d k ws = touched s d k ws"
      using same s(4) by (intro touched_cong) (simp_all add: same_data_def)
    moreover have "\<not> blocks_touch s d k w"
      using wk(1) False by (simp add: blocks_touch_def)
    ultimately have "clients s' = dirty_clients (touched s d k (w # ws)) (clients s)"
      using s'(4) s(5) wk(1) False by (simp add: touched_Cons dirty_clients_insert)
    then show ?thesis
      using nxt wk(1) False s(1,2) s'(1,2) same_data_trans [OF s(4) s'(3)] by (simp add: touch_loop_Some)
  next
    case True
    show ?thesis
    proof (cases "db_dict (dbs s d) k")
      case None
      define s1 where "s1 = s\<lparr>wks := (wks s)(w \<mapsto> wk\<lparr>wk_expired := False\<rparr>)\<rparr>"
      have inv1: "watch_inv s1"
        unfolding s1_def by (rule clear_expired_inv [OF inv wk(1)])
      have w1: "watchers s1 d k = (before @ [w]) @ ws"
        using Cons.prems(2) by (simp add: s1_def watchers_def cong: option.case_cong)
      have "db_watched (dbs s1 d) k = Some l"
        using dbl by (simp add: s1_def)
      from Cons.IH [OF inv1 w1 this] obtain s' where s':
        "touch_loop d k l (case ws of [] \<Rightarrow> None | w # _ \<Rightarrow> Some w) s1 = Some s'" "watch_inv s'" "same_data s1 s'"
        "clients s' = dirty_clients (touched s1 d k ws) (clients s1)"
        by blast
      have "touched s1 d k ws = touched s d k ws"
        using wnot(2) by (intro touched_cong) (auto simp: s1_def)
      moreover have "same_data s s1" "clients s1 = clients s"
        by (simp_all add: s1_def same_data_def)
      moreover have "\<not> blocks_touch s d k w"
        using None by (simp add: blocks_touch_def)
      ultimately show ?thesis
        using nxt wk True None s' same_data_trans [of s s1 s'] by (simp add: s1_def [symmetric] touched_Cons touch_loop_Some)
    next
      case (Some v)
      then have "blocks_touch s d k w"
        using wk(1) True by (simp add: blocks_touch_def)
      then show ?thesis
        using nxt wk True Some inv by (simp add: touched_Cons touch_loop_Some)
    qed
  qed
qed

lemma touchWatchedKey_effect:
  assumes "watch_inv s"
  shows "\<exists>s'. touchWatchedKey s d k = Some s' \<and> watch_inv s' \<and> same_data s s' \<and>
    clients s' = dirty_clients (touched s d k (watchers s d k)) (clients s)"
proof (cases "db_watched (dbs s d) k")
  case None
  then show ?thesis
    using assms by (simp add: touchWatchedKey_def watchers_None touched_def)
next
  case (Some l)
  then show ?thesis
    using touch_loop_correct [OF assms, of d k "[]" "watchers s d k" l] watchers_list(1) [OF assms Some]
    by (simp add: touchWatchedKey_def)
qed

section \<open>Touching a database\<close>

text \<open>The clients keep everything but may become dirty.\<close>

definition only_dirtied :: "'v redisServer \<Rightarrow> 'v redisServer \<Rightarrow> bool" where
  "only_dirtied s s' \<longleftrightarrow> (\<forall>c. clients s' c = clients s c \<or>
     clients s' c = map_option (\<lambda>cl. cl\<lparr>flags := flags cl \<union> {CLIENT_DIRTY_CAS}\<rparr>) (clients s c)) \<and>
   wlists s' = wlists s \<and> (\<forall>d. dbs s' d = dbs s d)"

text \<open>A client that is marked, or that is gone.\<close>

definition is_dirty :: "'v redisServer \<Rightarrow> cid \<Rightarrow> bool" where
  "is_dirty s c \<longleftrightarrow> (\<forall>cl. clients s c = Some cl \<longrightarrow> CLIENT_DIRTY_CAS \<in> flags cl)"

lemma only_dirtied_refl [simp]: "only_dirtied s s"
  by (simp add: only_dirtied_def)

lemma dirty_twice:
  "map_option (\<lambda>cl. cl\<lparr>flags := flags cl \<union> {CLIENT_DIRTY_CAS}\<rparr>) (map_option (\<lambda>cl. cl\<lparr>flags := flags cl \<union> {CLIENT_DIRTY_CAS}\<rparr>) x) =
   map_option (\<lambda>cl. cl\<lparr>flags := flags cl \<union> {CLIENT_DIRTY_CAS}\<rparr>) x"
  by (cases x) simp_all

lemma only_dirtied_trans: "only_dirtied s t \<Longrightarrow> only_dirtied t u \<Longrightarrow> only_dirtied s u"
  unfolding only_dirtied_def
proof (elim conjE, intro conjI allI)
  fix c
  let ?f = "map_option (\<lambda>cl. cl\<lparr>flags := flags cl \<union> {CLIENT_DIRTY_CAS}\<rparr>)"
  assume "\<forall>c. clients t c = clients s c \<or> clients t c = ?f (clients s c)" "\<forall>c. clients u c = clients t c \<or> clients u c = ?f (clients t c)"
  then have "clients t c = clients s c \<or> clients t c = ?f (clients s c)" "clients u c = clients t c \<or> clients u c = ?f (clients t c)"
    by blast+
  then show "clients u c = clients s c \<or> clients u c = ?f (clients s c)"
    by (elim disjE) (simp_all only: dirty_twice simp_thms)
qed simp_all

lemma only_dirtied_dirty: "only_dirtied s s' \<Longrightarrow> is_dirty s c \<Longrightarrow> is_dirty s' c"
  unfolding only_dirtied_def is_dirty_def by (elim conjE, erule allE [of _ c]) auto

lemma dirty_client:
  assumes "watch_inv s" "clients s c = Some cl"
  shows "\<exists>s'. upd_client s c (\<lambda>cl. cl\<lparr>flags := flags cl \<union> {CLIENT_DIRTY_CAS}\<rparr>) = Some s' \<and> watch_inv s' \<and> same_data s s' \<and>
    only_dirtied s s' \<and> wks s' = wks s \<and> is_dirty s' c"
  using upd_client_inv [OF assms, of "\<lambda>cl. cl\<lparr>flags := flags cl \<union> {CLIENT_DIRTY_CAS}\<rparr>"] assms(2)
  by (auto simp: only_dirtied_def is_dirty_def)

lemma touch_watchers_correct:
  assumes "watch_inv s" "\<And>w. w \<in> set ws \<Longrightarrow> wks s w \<noteq> None" "distinct ws"
  shows "\<exists>s'. touch_watchers rep k ex ws s = Some s' \<and> watch_inv s' \<and> same_data s s' \<and> only_dirtied s s' \<and>
    (\<forall>v. v \<notin> set ws \<longrightarrow> wks s' v = wks s v) \<and>
    (\<forall>w\<in>set ws. \<forall>wk. ex \<longrightarrow> wks s w = Some wk \<longrightarrow> \<not> wk_expired wk \<longrightarrow> is_dirty s' (wk_client wk))"
  using assms
proof (induction ws arbitrary: s)
  case (Cons w ws)
  obtain wk where wk: "wks s w = Some wk"
    using Cons.prems(2) [of w] by auto
  have step: ?case
    if t: "touch_watchers rep k ex (w # ws) s = touch_watchers rep k ex ws t" "watch_inv t" "same_data s t" "only_dirtied s t"
      "\<forall>v. v \<noteq> w \<longrightarrow> wks t v = wks s v" "ex \<longrightarrow> \<not> wk_expired wk \<longrightarrow> is_dirty t (wk_client wk)" for t
  proof -
    have "wks t v \<noteq> None" if "v \<in> set ws" for v
      using t(5) Cons.prems(2,3) that by (metis distinct.simps(2) list.set_intros(2))
    then obtain s' where s': "touch_watchers rep k ex ws t = Some s'" "watch_inv s'" "same_data t s'" "only_dirtied t s'"
      "\<forall>v. v \<notin> set ws \<longrightarrow> wks s' v = wks t v"
      "\<forall>w\<in>set ws. \<forall>wk. ex \<longrightarrow> wks t w = Some wk \<longrightarrow> \<not> wk_expired wk \<longrightarrow> is_dirty s' (wk_client wk)"
      using Cons.IH [OF t(2)] Cons.prems(3) by auto
    have "is_dirty s' (wk_client vk)" if v: "v \<in> set (w # ws)" "ex" "wks s v = Some vk" "\<not> wk_expired vk" for v vk
    proof (cases "v = w")
      case True
      then show ?thesis
        using only_dirtied_dirty [OF s'(4)] t(6) v wk by auto
    next
      case False
      then show ?thesis
        using s'(6) t(5) v by auto
    qed
    then show ?thesis
      using t(1,5) s'(1,2,5) same_data_trans [OF t(3) s'(3)] only_dirtied_trans [OF t(4) s'(4)] by auto
  qed
  have set_exp: "watch_inv (s\<lparr>wks := (wks s)(w \<mapsto> wk\<lparr>wk_expired := b\<rparr>)\<rparr>)" for b
    by (rule clear_expired_inv [OF Cons.prems(1) wk])
  obtain cl where cl: "clients s (wk_client wk) = Some cl"
    using Cons.prems(1) wk unfolding watch_inv_def wk_side_def by blast
  obtain t where t: "upd_client s (wk_client wk) (\<lambda>cl. cl\<lparr>flags := flags cl \<union> {CLIENT_DIRTY_CAS}\<rparr>) = Some t" "watch_inv t"
    "same_data s t" "only_dirtied s t" "wks t = wks s" "is_dirty t (wk_client wk)"
    using dirty_client [OF Cons.prems(1) cl] by blast
  define in_rep where "in_rep = (case rep of None \<Rightarrow> False | Some r \<Rightarrow> db_dict (dbs s r) k \<noteq> None)"
  define rep_expired where "rep_expired = (case rep of None \<Rightarrow> False | Some r \<Rightarrow> keyIsExpired s r k)"
  note body = touch_watchers.simps(2) [of rep k ex w ws s, unfolded wk bind.simps Let_def, folded in_rep_def rep_expired_def]
  consider "wk_expired wk \<and> \<not> in_rep" | "wk_expired wk \<and> in_rep \<and> rep_expired"
    | "\<not> wk_expired wk \<and> \<not> ex \<and> rep_expired" | "wk_expired wk \<and> in_rep \<and> \<not> rep_expired \<or> \<not> wk_expired wk \<and> (ex \<or> \<not> rep_expired)"
    by blast
  then show ?case
  proof cases
    case 1
    then show ?thesis
      using set_exp [of False] body by (intro step [of "s\<lparr>wks := (wks s)(w \<mapsto> wk\<lparr>wk_expired := False\<rparr>)\<rparr>"]) (auto simp: same_data_def only_dirtied_def)
  next
    case 2
    then show ?thesis
      using Cons.prems(1) body by (intro step [of s]) auto
  next
    case 3
    then show ?thesis
      using set_exp [of True] body by (intro step [of "s\<lparr>wks := (wks s)(w \<mapsto> wk\<lparr>wk_expired := True\<rparr>)\<rparr>"]) (auto simp: same_data_def only_dirtied_def)
  next
    case 4
    then show ?thesis
      using t body by (intro step [of t]) auto
  qed
qed auto

lemma touch_keys_correct:
  assumes "watch_inv s" "set ks \<subseteq> dom (db_watched (dbs s d))" "distinct ks"
  shows "\<exists>s'. touch_keys d rep ks s = Some s' \<and> watch_inv s' \<and> same_data s s' \<and> only_dirtied s s' \<and>
    (\<forall>k\<in>set ks. \<forall>w wk. db_dict (dbs s d) k \<noteq> None \<longrightarrow> w \<in> set (watchers s d k) \<longrightarrow> wks s w = Some wk \<longrightarrow>
      \<not> wk_expired wk \<longrightarrow> is_dirty s' (wk_client wk))"
  using assms
proof (induction ks arbitrary: s)
  case (Cons k ks)
  note inv = Cons.prems(1)
  obtain l where l: "db_watched (dbs s d) k = Some l"
    using Cons.prems(2) by auto
  define ex where "ex = (db_dict (dbs s d) k \<noteq> None)"
  have step: ?case
    if t: "touch_keys d rep (k # ks) s = touch_keys d rep ks t" "watch_inv t" "same_data s t" "only_dirtied s t"
      "\<forall>v. v \<notin> set (watchers s d k) \<longrightarrow> wks t v = wks s v"
      "\<forall>w\<in>set (watchers s d k). \<forall>wk. ex \<longrightarrow> wks s w = Some wk \<longrightarrow> \<not> wk_expired wk \<longrightarrow> is_dirty t (wk_client wk)" for t
  proof -
    have dt: "dbs t d = dbs s d" "watchers t = watchers s"
      using t(4) by (simp_all add: only_dirtied_def watchers_def fun_eq_iff cong: option.case_cong)
    then have "set ks \<subseteq> dom (db_watched (dbs t d))"
      using Cons.prems(2) by simp
    then obtain s' where s': "touch_keys d rep ks t = Some s'" "watch_inv s'" "same_data t s'" "only_dirtied t s'"
      "\<forall>k\<in>set ks. \<forall>w wk. db_dict (dbs t d) k \<noteq> None \<longrightarrow> w \<in> set (watchers t d k) \<longrightarrow> wks t w = Some wk \<longrightarrow>
      \<not> wk_expired wk \<longrightarrow> is_dirty s' (wk_client wk)"
      using Cons.IH [OF t(2)] Cons.prems(3) by auto
    have "is_dirty s' (wk_client wk)" if v: "k' \<in> set (k # ks)" "db_dict (dbs s d) k' \<noteq> None" "w \<in> set (watchers s d k')"
      "wks s w = Some wk" "\<not> wk_expired wk" for k' w wk
    proof (cases "k' = k")
      case True
      then show ?thesis
        using only_dirtied_dirty [OF s'(4)] t(6) v ex_def by auto
    next
      case False
      then have "w \<notin> set (watchers s d k)"
        using watchers_iff [OF inv v(4)] v(3) by auto
      then show ?thesis
        using s'(5) t(5) v dt False by auto
    qed
    then show ?thesis
      using t(1) s'(1,2) same_data_trans [OF t(3) s'(3)] only_dirtied_trans [OF t(4) s'(4)] by auto
  qed
  have "\<exists>t. touch_watchers rep k ex (watchers s d k) s = Some t \<and> watch_inv t \<and> same_data s t \<and> only_dirtied s t \<and>
    (\<forall>v. v \<notin> set (watchers s d k) \<longrightarrow> wks t v = wks s v) \<and>
    (\<forall>w\<in>set (watchers s d k). \<forall>wk. ex \<longrightarrow> wks s w = Some wk \<longrightarrow> \<not> wk_expired wk \<longrightarrow> is_dirty t (wk_client wk))"
    using watchersD [OF inv] watchers_distinct [OF inv] by (intro touch_watchers_correct [OF inv]) fastforce+
  then obtain t where t: "touch_watchers rep k ex (watchers s d k) s = Some t" "watch_inv t" "same_data s t" "only_dirtied s t"
    "\<forall>v. v \<notin> set (watchers s d k) \<longrightarrow> wks t v = wks s v"
    "\<forall>w\<in>set (watchers s d k). \<forall>wk. ex \<longrightarrow> wks s w = Some wk \<longrightarrow> \<not> wk_expired wk \<longrightarrow> is_dirty t (wk_client wk)"
    by blast
  show ?case
  proof (cases "ex \<or> (case rep of None \<Rightarrow> False | Some r \<Rightarrow> db_dict (dbs s r) k \<noteq> None)")
    case True
    then have "touch_keys d rep (k # ks) s = touch_keys d rep ks t"
      using l t(1) watchers_list(1) [OF inv l] by (simp add: ex_def Let_def)
    then show ?thesis
      using t(2-6) by (rule step)
  next
    case False
    then have "touch_keys d rep (k # ks) s = touch_keys d rep ks s"
      using l by (simp add: ex_def Let_def)
    then show ?thesis
      using inv False by (intro step) auto
  qed
qed auto
section \<open>Transactions of one client\<close>

text \<open>The commands that may be in a queue: those that \<^verbatim>\<open>processCommand\<close> does not run at once.\<close>

definition queueable :: "multiCmd \<Rightarrow> bool" where
  "queueable mc \<longleftrightarrow> (case mc_cmd mc of ProcUnwatch \<Rightarrow> True | ProcOther n \<Rightarrow> True | _ \<Rightarrow> False)"

definition mstate_ok :: "multiState \<Rightarrow> bool" where
  "mstate_ok m \<longleftrightarrow> length (commands m) = alloc_count m \<and> count m \<le> alloc_count m \<and> alloc_count m \<le> INT_MAX \<and>
     (\<forall>i<count m. commands m ! i \<noteq> None) \<and> (\<forall>mc. Some mc \<in> set (commands m) \<longrightarrow> queueable mc)"

definition client_ok :: "client \<Rightarrow> bool" where
  "client_ok cl \<longleftrightarrow> mstate_ok (mstate cl) \<and> (CLIENT_MULTI \<notin> flags cl \<longrightarrow> count (mstate cl) = 0) \<and>
     (CLIENT_DIRTY_EXEC \<in> flags cl \<longrightarrow> CLIENT_MULTI \<in> flags cl)"

definition server_ok :: "'v redisServer \<Rightarrow> bool" where
  "server_ok s \<longleftrightarrow> watch_inv s \<and> (\<forall>c cl. clients s c = Some cl \<longrightarrow> client_ok cl)"

definition queued :: "client \<Rightarrow> multiCmd list" where
  "queued cl = map the (take (count (mstate cl)) (commands (mstate cl)))"

definition reset_client :: "client \<Rightarrow> client" where
  "reset_client cl = (initClientMultiState cl)
     \<lparr>flags := flags cl - {CLIENT_MULTI, CLIENT_DIRTY_CAS, CLIENT_DIRTY_EXEC}, c_watched := []\<rparr>"

lemma server_okD: "server_ok s \<Longrightarrow> watch_inv s" "server_ok s \<Longrightarrow> clients s c = Some cl \<Longrightarrow> client_ok cl"
  by (simp_all add: server_ok_def)

lemma free_commands_ok: "(\<forall>i<n. commands m ! i \<noteq> None) \<Longrightarrow> n \<le> length (commands m) \<Longrightarrow> free_commands (commands m) n = Some ()"
  by (induction n) auto

lemma init_client_ok: "client_ok (reset_client cl)"
  by (auto simp: client_ok_def mstate_ok_def reset_client_def initClientMultiState_def)

lemma discardTransaction_correct:
  assumes "server_ok s" "clients s c = Some cl"
  shows "\<exists>s'. discardTransaction s c = Some s' \<and> server_ok s' \<and> same_data s s' \<and> clients s' = (clients s)(c \<mapsto> reset_client cl)"
proof -
  let ?f = "\<lambda>cl. (initClientMultiState cl)\<lparr>flags := flags cl - {CLIENT_MULTI, CLIENT_DIRTY_CAS, CLIENT_DIRTY_EXEC}\<rparr>"
  have "freeClientMultiState cl = Some ()"
    using server_okD(2) [OF assms] free_commands_ok [of "count (mstate cl)" "mstate cl"]
    by (simp add: freeClientMultiState_def client_ok_def mstate_ok_def)
  moreover obtain s1 where s1: "upd_client s c ?f = Some s1" "s1 = s\<lparr>clients := (clients s)(c \<mapsto> ?f cl)\<rparr>" "watch_inv s1" "same_data s s1"
    using upd_client_inv [OF server_okD(1) [OF assms(1)] assms(2), of ?f] by (auto simp: initClientMultiState_def)
  moreover obtain s2 where s2: "unwatchAllKeys s1 c = Some s2" "watch_inv s2" "same_data s1 s2"
    "clients s2 = (clients s1)(c \<mapsto> (?f cl)\<lparr>c_watched := []\<rparr>)"
    using unwatchAllKeys_correct [OF s1(3), of c "?f cl"] s1(2) by auto
  moreover have c2: "clients s2 = (clients s)(c \<mapsto> reset_client cl)"
    using s2(4) s1(2) by (simp add: reset_client_def)
  moreover have "server_ok s2"
    using s2(2) c2 assms(1) init_client_ok by (auto simp: server_ok_def split: if_splits)
  ultimately show ?thesis
    using assms(2) same_data_trans [OF s1(4) s2(3)] by (intro exI [of _ s2]) (simp add: discardTransaction_def)
qed

lemma upd_client_ok:
  assumes "server_ok s" "clients s c = Some cl" "c_watched (f cl) = c_watched cl" "client_ok (f cl)"
  shows "\<exists>s'. upd_client s c f = Some s' \<and> s' = s\<lparr>clients := (clients s)(c \<mapsto> f cl)\<rparr> \<and> server_ok s' \<and> same_data s s'"
proof -
  obtain s' where s': "upd_client s c f = Some s'" "s' = s\<lparr>clients := (clients s)(c \<mapsto> f cl)\<rparr>" "watch_inv s'" "same_data s s'"
    using upd_client_inv [where f = f, OF server_okD(1) [OF assms(1)] assms(2,3)] by blast
  moreover have "server_ok s'"
    using assms(1,4) s'(2,3) by (auto simp: server_ok_def split: if_splits)
  ultimately show ?thesis
    by blast
qed

lemma add_reply_ok: "client_ok cl \<Longrightarrow> client_ok (add_reply r cl)" "c_watched (add_reply r cl) = c_watched cl"
  "flags (add_reply r cl) = flags cl" "mstate (add_reply r cl) = mstate cl"
  by (simp_all add: client_ok_def add_reply_def)

text \<open>Queueing a command appends it, growing the array as needed.\<close>

lemma queueMultiCommand_result:
  assumes "client_ok cl" "CLIENT_MULTI \<in> flags cl" "count (mstate cl) < INT_MAX" "queueable (c_cmd cl)"
  shows "\<exists>cl'. queueMultiCommand cl fl = Some cl' \<and> client_ok cl' \<and> c_watched cl' = c_watched cl \<and> flags cl' = flags cl \<and>
    queued cl' = (if flags cl \<inter> {CLIENT_DIRTY_CAS, CLIENT_DIRTY_EXEC} = {} then queued cl @ [c_cmd cl] else queued cl)"
proof (cases "flags cl \<inter> {CLIENT_DIRTY_CAS, CLIENT_DIRTY_EXEC} = {}")
  case False
  then show ?thesis
    using assms(1) by (simp add: queueMultiCommand_def)
next
  case True
  define m0 where "m0 = (if count (mstate cl) = 0 then (mstate cl)\<lparr>commands := replicate 2 None, alloc_count := 2\<rparr> else mstate cl)"
  define m1 where "m1 = (if count m0 = alloc_count m0
       then let n = (if alloc_count m0 < INT_MAX div 2 then alloc_count m0 * 2 else INT_MAX)
            in m0\<lparr>alloc_count := n, commands := take n (commands m0) @ replicate (n - length (commands m0)) None\<rparr>
       else m0)"
  have m0: "mstate_ok m0" "count m0 = count (mstate cl)" "take (count m0) (commands m0) = take (count m0) (commands (mstate cl))"
    "alloc_count m0 > 0"
    using assms(1) by (auto simp: m0_def client_ok_def mstate_ok_def INT_MAX_def)
  have m1: "mstate_ok m1" "count m1 = count m0" "take (count m0) (commands m1) = take (count m0) (commands m0)" "count m1 < alloc_count m1"
    using m0 assms(3) by (auto simp: m1_def mstate_ok_def Let_def nth_append INT_MAX_def dest: in_set_takeD)
  define m2 where "m2 = m1\<lparr>commands := (commands m1)[count m1 := Some (c_cmd cl)], count := Suc (count m1),
    cmd_flags := cmd_flags m1 OR fl, cmd_inv_flags := cmd_inv_flags m1 OR NOT fl,
    argv_len_sums := argv_len_sums m1 + of_nat (c_argv_len_sum cl + 8 * length (mc_argv (c_cmd cl)))\<rparr>"
  define cl' where "cl' = cl\<lparr>mstate := m2, c_cmd := (c_cmd cl)\<lparr>mc_argv := [], mc_argv_len := 0\<rparr>, c_argv_len_sum := 0\<rparr>"
  have "queueMultiCommand cl fl = Some cl'"
    using True m1 unfolding queueMultiCommand_def m0_def [symmetric] Let_def
    by (simp add: m1_def [unfolded Let_def, symmetric] m2_def cl'_def mstate_ok_def)
  moreover have "client_ok cl'"
    using m1 assms(2,4)
    by (auto simp: client_ok_def cl'_def m2_def mstate_ok_def nth_list_update less_Suc_eq dest!: set_update_subset_insert [THEN subsetD])
  moreover have "queued cl' = queued cl @ [c_cmd cl]"
    using m0 m1 by (simp add: queued_def cl'_def m2_def mstate_ok_def take_Suc_conv_app_nth)
  ultimately show ?thesis
    using True by (simp add: cl'_def)
qed

section \<open>Watching commands\<close>

lemma server_ok_watched:
  assumes "server_ok s" "watch_inv s'" "clients s' = (clients s)(c \<mapsto> cl\<lparr>c_watched := ws\<rparr>)" "clients s c = Some cl"
  shows "server_ok s'"
  using assms by (auto simp: server_ok_def client_ok_def split: if_splits)

lemma watch_loop_correct:
  assumes "server_ok s" "clients s c = Some cl"
  shows "\<exists>s' ws. watch_loop c ks s = Some s' \<and> server_ok s' \<and> same_data s s' \<and> clients s' = (clients s)(c \<mapsto> cl\<lparr>c_watched := ws\<rparr>)"
  using assms
proof (induction ks arbitrary: s cl)
  case Nil
  then show ?case
    by (intro exI [of _ s] exI [of _ "c_watched cl"]) (simp add: fun_upd_idem)
next
  case (Cons k ks)
  obtain s1 ws1 where s1: "watchForKey s c k = Some s1" "watch_inv s1" "same_data s s1" "clients s1 = (clients s)(c \<mapsto> cl\<lparr>c_watched := ws1\<rparr>)"
    using watchForKey_correct [OF server_okD(1) [OF Cons.prems(1)] Cons.prems(2)] by blast
  have ok1: "server_ok s1"
    by (rule server_ok_watched [OF Cons.prems(1) s1(2,4) Cons.prems(2)])
  have "clients s1 c = Some (cl\<lparr>c_watched := ws1\<rparr>)"
    using s1(4) by simp
  from Cons.IH [OF ok1 this] obtain s2 ws2 where s2: "watch_loop c ks s1 = Some s2" "server_ok s2" "same_data s1 s2"
    "clients s2 = (clients s1)(c \<mapsto> cl\<lparr>c_watched := ws1, c_watched := ws2\<rparr>)"
    by blast
  then show ?case
    using s1 same_data_trans [OF s1(3) s2(3)] by (intro exI [of _ s2] exI [of _ ws2]) simp
qed

lemma expired_loop_correct:
  "(\<And>w. w \<in> set ws \<Longrightarrow> wks s w \<noteq> None) \<Longrightarrow> \<exists>b. expired_loop s ws = Some b"
proof (induction ws)
  case (Cons w ws)
  obtain wk where "wks s w = Some wk"
    using Cons.prems [of w] by auto
  then show ?case
    using Cons by auto
qed auto

lemma isWatchedKeyExpired_correct:
  assumes "watch_inv s" "clients s c = Some cl"
  shows "\<exists>b. isWatchedKeyExpired s cl = Some b"
proof -
  have "wks s w \<noteq> None" if "w \<in> set (c_watched cl)" for w
    using assms that by (fastforce simp: watch_inv_def client_side_def)
  then show ?thesis
    using expired_loop_correct [of "c_watched cl" s] by (auto simp: isWatchedKeyExpired_def)
qed

section \<open>The server\<close>

text \<open>\<^verbatim>\<open>RESET\<close> and \<^verbatim>\<open>QUIT\<close>.\<close>

definition clearClientConnectionState :: "'v redisServer \<Rightarrow> cid \<Rightarrow> 'v redisServer option" where
  "clearClientConnectionState s c = do {
     s \<leftarrow> upd_client s c (\<lambda>cl.
            if CLIENT_MONITOR \<in> flags cl then cl\<lparr>flags := flags cl - {CLIENT_MONITOR, CLIENT_SLAVE}\<rparr> else cl);
     cl \<leftarrow> clients s c;
     if flags cl \<inter> {CLIENT_SLAVE, CLIENT_MASTER} \<noteq> {} then None
     else do {
       s \<leftarrow> upd_client s c (\<lambda>cl. cl\<lparr>c_db := 0\<rparr>);
       discardTransaction s c
     }
   }"

definition resetCommand :: "'v redisServer \<Rightarrow> cid \<Rightarrow> 'v redisServer option" where
  "resetCommand s c = do {
     cl \<leftarrow> clients s c;
     let fl = (if CLIENT_MONITOR \<in> flags cl then flags cl - {CLIENT_MONITOR, CLIENT_SLAVE} else flags cl);
     if fl \<inter> {CLIENT_SLAVE, CLIENT_MASTER, CLIENT_MODULE} \<noteq> {}
     then upd_client s c (add_reply (ReplyError ''can only reset normal client connections''))
     else do {
       s \<leftarrow> clearClientConnectionState s c;
       upd_client s c (add_reply ReplyReset)
     }
   }"

definition quitCommand :: "'v redisServer \<Rightarrow> cid \<Rightarrow> 'v redisServer option" where
  "quitCommand s c = upd_client s c (\<lambda>cl. add_reply ReplyOk (cl\<lparr>flags := flags cl \<union> {CLIENT_CLOSE_AFTER_REPLY}\<rparr>))"

text \<open>A new connection, and the end of one that is not the link to a master.\<close>

definition createClient :: client where
  "createClient = \<lparr>c_db = 0, flags = {},
     mstate = \<lparr>commands = [], count = 0, cmd_flags = 0, cmd_inv_flags = 0, argv_len_sums = 0, alloc_count = 0\<rparr>,
     c_watched = [], c_cmd = \<lparr>mc_cmd = ProcOther 0, mc_argv = [], mc_argv_len = 0\<rparr>, c_argv_len_sum = 0, replies = []\<rparr>"

definition freeClient :: "'v redisServer \<Rightarrow> cid \<Rightarrow> 'v redisServer option" where
  "freeClient s c = do {
     s \<leftarrow> unwatchAllKeys s c;
     cl \<leftarrow> clients s c;
     u \<leftarrow> freeClientMultiState cl;
     Some (s\<lparr>clients := (clients s)(c := None)\<rparr>)
   }"

text \<open>A command that is refused before it is run: \<^verbatim>\<open>p\<close> is its function, if the command exists.\<close>

definition execCommandAbort :: "'v redisServer \<Rightarrow> cid \<Rightarrow> string \<Rightarrow> 'v redisServer option" where
  "execCommandAbort s c err = do {
     s \<leftarrow> discardTransaction s c;
     upd_client s c (add_reply (ReplyError (''EXECABORT Transaction discarded because of: '' @ err)))
   }"

definition rejectCommand :: "'v redisServer \<Rightarrow> cid \<Rightarrow> proc option \<Rightarrow> string \<Rightarrow> 'v redisServer option" where
  "rejectCommand s c p err = do {
     s \<leftarrow> upd_client s c flagTransaction;
     if p = Some ProcExec then execCommandAbort s c err else upd_client s c (add_reply (ReplyError err))
   }"

text \<open>The redirection of a command to another node of a cluster, in \<^verbatim>\<open>processCommand\<close>.\<close>

definition redirect_command :: "'v redisServer \<Rightarrow> cid \<Rightarrow> proc \<Rightarrow> string \<Rightarrow> 'v redisServer option" where
  "redirect_command s c p err = do {
     s \<leftarrow> (if p = ProcExec then discardTransaction s c else upd_client s c flagTransaction);
     upd_client s c (add_reply (ReplyError err))
   }"

text \<open>The link to a master is kept for later: its transaction and its replies are dropped.\<close>

definition replicationCacheMaster :: "'v redisServer \<Rightarrow> cid \<Rightarrow> 'v redisServer option" where
  "replicationCacheMaster s c = do {
     cl \<leftarrow> clients s c;
     s \<leftarrow> (if CLIENT_MULTI \<in> flags cl then discardTransaction s c else Some s);
     upd_client s c (\<lambda>cl. cl\<lparr>replies := []\<rparr>)
   }"

text \<open>
  The end of \<^verbatim>\<open>processCommand\<close>: a command is queued or run. The commands of this theory are run by their definitions, any other
  one by the parameter \<open>call\<close>; among those, a queue can only hold \<^verbatim>\<open>UNWATCH\<close>.
\<close>

definition call_proc ::
  "(call_flags \<Rightarrow> cid \<Rightarrow> 'v redisServer \<Rightarrow> 'v redisServer option) \<Rightarrow> call_flags \<Rightarrow> cid \<Rightarrow> 'v redisServer \<Rightarrow> 'v redisServer option" where
  "call_proc call f c s = do {
     cl \<leftarrow> clients s c;
     if mc_cmd (c_cmd cl) = ProcUnwatch then unwatchCommand s c else call f c s
   }"

definition call_command ::
  "(call_flags \<Rightarrow> cid \<Rightarrow> 'v redisServer \<Rightarrow> 'v redisServer option) \<Rightarrow> (cid \<Rightarrow> 'v redisServer \<Rightarrow> nat) \<Rightarrow>
   'v redisServer \<Rightarrow> cid \<Rightarrow> multiCmd \<Rightarrow> 'v redisServer option" where
  "call_command call acl s c mc =
     (case mc_cmd mc of
        ProcExec \<Rightarrow> execCommand (call_proc call) acl s c
      | ProcDiscard \<Rightarrow> discardCommand s c
      | ProcMulti \<Rightarrow> multiCommand s c
      | ProcWatch \<Rightarrow> watchCommand s c (drop 1 (mc_argv mc))
      | ProcQuit \<Rightarrow> quitCommand s c
      | ProcReset \<Rightarrow> resetCommand s c
      | _ \<Rightarrow> call_proc call CMD_CALL_FULL c s)"

definition queue_or_call ::
  "(call_flags \<Rightarrow> cid \<Rightarrow> 'v redisServer \<Rightarrow> 'v redisServer option) \<Rightarrow> (cid \<Rightarrow> 'v redisServer \<Rightarrow> nat) \<Rightarrow>
   'v redisServer \<Rightarrow> cid \<Rightarrow> multiCmd \<Rightarrow> nat \<Rightarrow> uint64 \<Rightarrow> 'v redisServer option" where
  "queue_or_call call acl s c mc len_sum fl = do {
     s \<leftarrow> upd_client s c (\<lambda>cl. cl\<lparr>c_cmd := mc, c_argv_len_sum := len_sum\<rparr>);
     cl \<leftarrow> clients s c;
     if CLIENT_MULTI \<in> flags cl \<and> mc_cmd mc \<noteq> ProcExec \<and> mc_cmd mc \<noteq> ProcDiscard \<and> mc_cmd mc \<noteq> ProcMulti \<and>
        mc_cmd mc \<noteq> ProcWatch \<and> mc_cmd mc \<noteq> ProcQuit \<and> mc_cmd mc \<noteq> ProcReset
     then do {
       cl \<leftarrow> queueMultiCommand cl fl;
       upd_client s c (\<lambda>x. add_reply ReplyQueued cl)
     }
     else call_command call acl s c mc
   }"

text \<open>Changes of keys, flushes and the exchange of two databases. The order in which the watched keys of a database are
  visited is an argument. No database is the number -1, which stands for all of them.\<close>

definition modify_key :: "'v redisServer \<Rightarrow> nat \<Rightarrow> key \<Rightarrow> 'v option \<Rightarrow> int option \<Rightarrow> 'v redisServer" where
  "modify_key s d k v e = upd_db s d (\<lambda>db. db\<lparr>db_dict := (db_dict db)(k := v), db_expires := (db_expires db)(k := e)\<rparr>)"

definition db_range :: "'v redisServer \<Rightarrow> nat option \<Rightarrow> nat list" where
  "db_range s dbid = (case dbid of None \<Rightarrow> [0..<dbnum s] | Some d \<Rightarrow> [d])"

primrec flush_loop :: "(nat \<Rightarrow> key list) \<Rightarrow> nat list \<Rightarrow> 'v redisServer \<Rightarrow> 'v redisServer option" where
  "flush_loop ks [] s = Some s"
| "flush_loop ks (d # ds) s = do { s \<leftarrow> touchAllWatchedKeysInDb s (ks d) d None; flush_loop ks ds s }"

definition signalFlushedDb :: "'v redisServer \<Rightarrow> (nat \<Rightarrow> key list) \<Rightarrow> nat option \<Rightarrow> 'v redisServer option" where
  "signalFlushedDb s ks dbid = flush_loop ks (db_range s dbid) s"

definition emptyDbStructure :: "'v redisServer \<Rightarrow> nat option \<Rightarrow> 'v redisServer" where
  "emptyDbStructure s dbid =
     foldl (\<lambda>s d. upd_db s d (\<lambda>db. db\<lparr>db_dict := (\<lambda>k. None), db_expires := (\<lambda>k. None)\<rparr>)) s (db_range s dbid)"

definition emptyData :: "'v redisServer \<Rightarrow> (nat \<Rightarrow> key list) \<Rightarrow> nat option \<Rightarrow> 'v redisServer option" where
  "emptyData s ks dbid =
     (if (case dbid of None \<Rightarrow> False | Some d \<Rightarrow> d \<ge> dbnum s) then Some s
      else do { s \<leftarrow> signalFlushedDb s ks dbid; Some (emptyDbStructure s dbid) })"

definition dbSwapDatabases :: "'v redisServer \<Rightarrow> key list \<Rightarrow> key list \<Rightarrow> nat \<Rightarrow> nat \<Rightarrow> ('v redisServer \<times> bool) option" where
  "dbSwapDatabases s ks1 ks2 id1 id2 =
     (if id1 \<ge> dbnum s \<or> id2 \<ge> dbnum s then Some (s, False)
      else if id1 = id2 then Some (s, True)
      else do {
        s \<leftarrow> touchAllWatchedKeysInDb s ks1 id1 (Some id2);
        s \<leftarrow> touchAllWatchedKeysInDb s ks2 id2 (Some id1);
        let (a, b) = (dbs s id1, dbs s id2);
        let s = upd_db s id1 (\<lambda>db. db\<lparr>db_dict := db_dict b, db_expires := db_expires b\<rparr>);
        let s = upd_db s id2 (\<lambda>db. db\<lparr>db_dict := db_dict a, db_expires := db_expires a\<rparr>);
        Some (s, True)
      })"

text \<open>
  The events of the server: a client connects and is freed, by its own end or by another client; a client's command is processed,
  refused, or redirected to another node; the link to a master is cached; a key is changed by anybody, with its signal; databases are flushed and
  exchanged; and time passes.
\<close>

datatype 'v event =
    EvConnect cid | EvFree cid | EvCommand cid multiCmd nat uint64 | EvReject cid "proc option" string | EvRedirect cid proc string
  | EvCacheMaster cid | EvModify nat key "'v option" "int option" | EvFlush "nat option" "nat \<Rightarrow> key list"
  | EvSwap nat nat "key list" "key list" | EvTick nat

fun serverStep ::
  "(call_flags \<Rightarrow> cid \<Rightarrow> 'v redisServer \<Rightarrow> 'v redisServer option) \<Rightarrow> (cid \<Rightarrow> 'v redisServer \<Rightarrow> nat) \<Rightarrow>
   'v redisServer \<Rightarrow> 'v event \<Rightarrow> 'v redisServer option" where
  "serverStep call acl s (EvConnect c) = Some (s\<lparr>clients := (clients s)(c \<mapsto> createClient)\<rparr>)"
| "serverStep call acl s (EvFree c) = freeClient s c"
| "serverStep call acl s (EvCommand c mc n fl) = queue_or_call call acl s c mc n fl"
| "serverStep call acl s (EvReject c p err) = rejectCommand s c p err"
| "serverStep call acl s (EvRedirect c p err) = redirect_command s c p err"
| "serverStep call acl s (EvCacheMaster c) = replicationCacheMaster s c"
| "serverStep call acl s (EvModify d k v e) = signalModifiedKey (modify_key s d k v e) d k"
| "serverStep call acl s (EvFlush dbid ks) = emptyData s ks dbid"
| "serverStep call acl s (EvSwap d1 d2 ks1 ks2) = map_option fst (dbSwapDatabases s ks1 ks2 d1 d2)"
| "serverStep call acl s (EvTick t) = Some (s\<lparr>now := now s + int t\<rparr>)"

text \<open>
  What is asked of an event: a new client has an unused number; any other client exists, and is not blocked when it sends a
  command; the queue of a client is shorter than the largest \<^verbatim>\<open>int\<close>; and the iteration over a
  dictionary visits each of its keys once.
\<close>

fun valid_event :: "'v redisServer \<Rightarrow> 'v event \<Rightarrow> bool" where
  "valid_event s (EvConnect c) = (clients s c = None)"
| "valid_event s (EvFree c) = (clients s c \<noteq> None)"
| "valid_event s (EvCommand c mc n fl) = (case clients s c of None \<Rightarrow> False | Some cl \<Rightarrow>
     CLIENT_BLOCKED \<notin> flags cl \<and> count (mstate cl) < INT_MAX)"
| "valid_event s (EvReject c p err) = (clients s c \<noteq> None)"
| "valid_event s (EvRedirect c p err) = (clients s c \<noteq> None)"
| "valid_event s (EvCacheMaster c) = (clients s c \<noteq> None)"
| "valid_event s (EvModify d k v e) = True"
| "valid_event s (EvFlush dbid ks) = (\<forall>d\<in>set (db_range s dbid). distinct (ks d) \<and> set (ks d) = dom (db_watched (dbs s d)))"
| "valid_event s (EvSwap d1 d2 ks1 ks2) =
     (distinct ks1 \<and> set ks1 = dom (db_watched (dbs s d1)) \<and> distinct ks2 \<and> set ks2 = dom (db_watched (dbs s d2)))"
| "valid_event s (EvTick t) = True"

text \<open>
  What is asked of a command that \<^verbatim>\<open>call\<close> runs for a client: it returns, keeps the server well-formed, keeps its client with its
  queue, leaves it with a command that can be queued where it rewrites its arguments, and does not block a client that must not block. It may free other clients, as
  \<^verbatim>\<open>CLIENT KILL\<close> does, but it connects none and does not clear the mark of any.
\<close>

definition no_block :: "client \<Rightarrow> bool" where
  "no_block cl \<longleftrightarrow> CLIENT_DENY_BLOCKING \<in> flags cl \<and> CLIENT_BLOCKED \<notin> flags cl"

definition call_ok :: "(call_flags \<Rightarrow> cid \<Rightarrow> 'v redisServer \<Rightarrow> 'v redisServer option) \<Rightarrow> bool" where
  "call_ok call \<longleftrightarrow> (\<forall>f c s cl n. server_ok s \<longrightarrow> clients s c = Some cl \<longrightarrow> CLIENT_BLOCKED \<notin> flags cl \<longrightarrow> mc_cmd (c_cmd cl) = ProcOther n \<longrightarrow>
     (\<exists>s' cl'. call f c s = Some s' \<and> server_ok s' \<and> clients s' c = Some cl' \<and> mstate cl' = mstate cl \<and> queueable (c_cmd cl') \<and>
        (no_block cl \<longrightarrow> no_block cl') \<and> (\<forall>c'. is_dirty s c' \<longrightarrow> is_dirty s' c')))"

text \<open>What the loop over a queue needs of the commands in it.\<close>

definition call_keeps :: "(call_flags \<Rightarrow> cid \<Rightarrow> 'v redisServer \<Rightarrow> 'v redisServer option) \<Rightarrow> bool" where
  "call_keeps call \<longleftrightarrow> (\<forall>f c s cl. server_ok s \<longrightarrow> clients s c = Some cl \<longrightarrow> CLIENT_BLOCKED \<notin> flags cl \<longrightarrow> queueable (c_cmd cl) \<longrightarrow>
     (\<exists>s' cl'. call f c s = Some s' \<and> server_ok s' \<and> clients s' c = Some cl' \<and> mstate cl' = mstate cl \<and> queueable (c_cmd cl') \<and>
        (no_block cl \<longrightarrow> no_block cl') \<and> (\<forall>c'. c' \<noteq> c \<longrightarrow> is_dirty s c' \<longrightarrow> is_dirty s' c')))"

section \<open>Executing a queue\<close>

lemma is_dirty_upd: "c' \<noteq> c \<Longrightarrow> is_dirty (s\<lparr>clients := (clients s)(c \<mapsto> cl)\<rparr>) c' = is_dirty s c'"
  by (simp add: is_dirty_def)

lemma is_dirty_clients: "clients s' c' = clients s c' \<Longrightarrow> is_dirty s' c' = is_dirty s c'"
  by (simp add: is_dirty_def)

lemma mstate_ok_update: "mstate_ok m \<Longrightarrow> queueable x \<Longrightarrow> mstate_ok (m\<lparr>commands := (commands m)[j := Some x]\<rparr>)"
proof -
  assume ok: "mstate_ok m" and x: "queueable x"
  have "(commands m)[j := Some x] ! i \<noteq> None" if "i < count m" for i
    using ok that by (cases "i = j") (auto simp: mstate_ok_def)
  moreover have "queueable mc" if "Some mc \<in> set ((commands m)[j := Some x])" for mc
    using subsetD [OF set_update_subset_insert that] ok x by (auto simp: mstate_ok_def)
  ultimately show ?thesis
    using ok by (simp add: mstate_ok_def)
qed

lemma exec_one_correct:
  assumes "call_keeps call" "server_ok s" "clients s c = Some cl" "j < count (mstate cl)" "no_block cl"
  shows "\<exists>s' cl'. exec_one call acl c j s = Some s' \<and> server_ok s' \<and> clients s' c = Some cl' \<and> count (mstate cl') = count (mstate cl) \<and>
    no_block cl' \<and> (\<forall>c'. c' \<noteq> c \<longrightarrow> is_dirty s c' \<longrightarrow> is_dirty s' c')"
proof -
  have ok: "client_ok cl" and len: "j < length (commands (mstate cl))"
    using server_okD(2) [OF assms(2,3)] assms(4) by (auto simp: client_ok_def mstate_ok_def)
  obtain mc where mc: "commands (mstate cl) ! j = Some mc"
    using ok assms(4) by (auto simp: client_ok_def mstate_ok_def)
  then have qmc: "queueable mc"
    using ok len nth_mem [OF len] by (auto simp: client_ok_def mstate_ok_def)
  define cl1 where "cl1 = cl\<lparr>c_cmd := mc\<rparr>"
  define s1 where "s1 = s\<lparr>clients := (clients s)(c \<mapsto> cl1)\<rparr>"
  have u1: "upd_client s c (\<lambda>cl. cl\<lparr>c_cmd := mc\<rparr>) = Some s1" and ok1: "server_ok s1"
    using upd_client_ok [where f = "\<lambda>cl. cl\<lparr>c_cmd := mc\<rparr>", OF assms(2,3)] ok by (auto simp: s1_def cl1_def client_ok_def)
  have c1: "clients s1 c = Some cl1" "mstate cl1 = mstate cl" "flags cl1 = flags cl" "client_ok cl1" "queueable (c_cmd cl1)"
    using ok qmc by (simp_all add: s1_def cl1_def client_ok_def)
  let ?body = "if acl c s1 \<noteq> 0 then upd_client s1 c (add_reply (ReplyNoPerm (acl c s1)))
          else do {
            s \<leftarrow> call (if c = CLIENT_ID_AOF then CMD_CALL_NONE else CMD_CALL_FULL) c s1;
            cl \<leftarrow> clients s c;
            if CLIENT_BLOCKED \<in> flags cl then None else Some s
          }"
  have "\<exists>s2 cl2. ?body = Some s2 \<and> server_ok s2 \<and> clients s2 c = Some cl2 \<and> mstate cl2 = mstate cl \<and>
    queueable (c_cmd cl2) \<and> no_block cl2 \<and> (\<forall>c'. c' \<noteq> c \<longrightarrow> is_dirty s c' \<longrightarrow> is_dirty s2 c')"
  proof (cases "acl c s1 = 0")
    case True
    obtain s2 cl2 where "call (if c = CLIENT_ID_AOF then CMD_CALL_NONE else CMD_CALL_FULL) c s1 = Some s2" "server_ok s2"
      "clients s2 c = Some cl2" "mstate cl2 = mstate cl1" "queueable (c_cmd cl2)" "no_block cl2"
      "\<forall>c'. c' \<noteq> c \<longrightarrow> is_dirty s1 c' \<longrightarrow> is_dirty s2 c'"
      using assms(1,5) ok1 c1 unfolding call_keeps_def no_block_def by metis
    then show ?thesis
      using True c1(2) by (intro exI [of _ s2] exI [of _ cl2]) (simp add: s1_def is_dirty_upd no_block_def)
  next
    case False
    have w: "c_watched (add_reply (ReplyNoPerm (acl c s1)) cl1) = c_watched cl1" "client_ok (add_reply (ReplyNoPerm (acl c s1)) cl1)"
      using c1(4) by (simp_all add: add_reply_ok)
    obtain s2 where s2: "upd_client s1 c (add_reply (ReplyNoPerm (acl c s1))) = Some s2"
      "s2 = s1\<lparr>clients := (clients s1)(c \<mapsto> add_reply (ReplyNoPerm (acl c s1)) cl1)\<rparr>" "server_ok s2"
      using upd_client_ok [where f = "add_reply (ReplyNoPerm (acl c s1))", OF ok1 c1(1) w] by blast
    then show ?thesis
      using False c1 assms(5) by (simp add: s1_def add_reply_ok add_reply_def is_dirty_upd no_block_def)
  qed
  then obtain s2 cl2 where s2: "?body = Some s2" "server_ok s2" "clients s2 c = Some cl2" "mstate cl2 = mstate cl"
    "queueable (c_cmd cl2)" "no_block cl2" "\<forall>c'. c' \<noteq> c \<longrightarrow> is_dirty s c' \<longrightarrow> is_dirty s2 c'"
    by blast
  let ?f = "\<lambda>cl. cl\<lparr>mstate := (mstate cl)\<lparr>commands := (commands (mstate cl))[j := Some (c_cmd cl)]\<rparr>\<rparr>"
  have "client_ok (?f cl2)"
    using server_okD(2) [OF s2(2,3)] mstate_ok_update s2(5) by (simp add: client_ok_def)
  then obtain s3 where s3: "upd_client s2 c ?f = Some s3" "s3 = s2\<lparr>clients := (clients s2)(c \<mapsto> ?f cl2)\<rparr>" "server_ok s3"
    using upd_client_ok [where f = ?f, OF s2(2,3)] by auto
  have "exec_one call acl c j s = Some s3"
    unfolding exec_one_def using assms(3) len mc u1 s2(1,3,4) s3(1) by simp
  then show ?thesis
    using s3(2,3) s2(4,6,7) by (intro exI [of _ s3] exI [of _ "?f cl2"]) (simp add: is_dirty_upd no_block_def)
qed

lemma exec_loop_correct:
  assumes "call_keeps call" "server_ok s" "clients s c = Some cl" "count (mstate cl) = j + n" "no_block cl"
  shows "\<exists>s' cl'. exec_loop call acl c j s = Some s' \<and> server_ok s' \<and> clients s' c = Some cl' \<and>
    no_block cl' \<and> (\<forall>c'. c' \<noteq> c \<longrightarrow> is_dirty s c' \<longrightarrow> is_dirty s' c')"
  using assms(2-)
proof (induction n arbitrary: j s cl)
  case 0
  then show ?case
    by (subst exec_loop.simps) simp
next
  case (Suc n)
  have "j < count (mstate cl)"
    using Suc.prems(3) by simp
  from exec_one_correct [OF assms(1) Suc.prems(1,2) this Suc.prems(4), of acl] obtain s1 cl1 where s1:
    "exec_one call acl c j s = Some s1" "server_ok s1" "clients s1 c = Some cl1" "count (mstate cl1) = count (mstate cl)"
    "no_block cl1" "\<forall>c'. c' \<noteq> c \<longrightarrow> is_dirty s c' \<longrightarrow> is_dirty s1 c'"
    by blast
  have "count (mstate cl1) = Suc j + n"
    using s1(4) Suc.prems(3) by simp
  from Suc.IH [OF s1(2,3) this s1(5)] obtain s2 cl2 where
    "exec_loop call acl c (Suc j) s1 = Some s2" "server_ok s2" "clients s2 c = Some cl2" "no_block cl2"
    "\<forall>c'. c' \<noteq> c \<longrightarrow> is_dirty s1 c' \<longrightarrow> is_dirty s2 c'"
    by blast
  then show ?case
    using s1 Suc.prems(2,3) by (intro exI [of _ s2] exI [of _ cl2]) (simp add: exec_loop.simps [of call acl c j s])
qed

text \<open>The state before \<^verbatim>\<open>EXEC\<close> decides: the mark of the client after the test for expired keys.\<close>

definition exec_aborts :: "'v redisServer \<Rightarrow> client \<Rightarrow> bool" where
  "exec_aborts s cl \<longleftrightarrow> isWatchedKeyExpired s cl = Some True \<or> flags cl \<inter> {CLIENT_DIRTY_CAS, CLIENT_DIRTY_EXEC} \<noteq> {}"

definition abort_reply :: "client \<Rightarrow> reply" where
  "abort_reply cl = (if CLIENT_DIRTY_EXEC \<in> flags cl then ReplyExecAbort else ReplyNullArray)"

lemma reset_client_simps [simp]:
  "reset_client (cl\<lparr>flags := flags cl \<union> {CLIENT_DIRTY_CAS}\<rparr>) = reset_client cl"
  "reset_client (cl\<lparr>flags := insert CLIENT_DIRTY_CAS (flags cl)\<rparr>) = reset_client cl"
  "reset_client (add_reply r cl) = add_reply r (reset_client cl)"
  by (auto simp: reset_client_def initClientMultiState_def add_reply_def)

lemma exec_abort_result:
  assumes ok: "server_ok s" and cl: "clients s c = Some cl" and multi: "CLIENT_MULTI \<in> flags cl" and "exec_aborts s cl"
  shows "\<exists>s'. execCommand call acl s c = Some s' \<and> server_ok s' \<and> same_data s s' \<and>
    clients s' = (clients s)(c \<mapsto> add_reply (abort_reply cl) (reset_client cl))"
proof -
  obtain b where b: "isWatchedKeyExpired s cl = Some b"
    using isWatchedKeyExpired_correct [OF server_okD(1) [OF ok] cl] by blast
  define f where "f = (\<lambda>cl :: client. if b then cl\<lparr>flags := flags cl \<union> {CLIENT_DIRTY_CAS}\<rparr> else cl)"
  have f: "c_watched (f cl) = c_watched cl" "client_ok (f cl)" "CLIENT_DIRTY_EXEC \<in> flags (f cl) \<longleftrightarrow> CLIENT_DIRTY_EXEC \<in> flags cl"
    "reset_client (f cl) = reset_client cl" "flags (f cl) \<inter> {CLIENT_DIRTY_CAS, CLIENT_DIRTY_EXEC} \<noteq> {}"
    using server_okD(2) [OF ok cl] multi assms(4) b by (auto simp: f_def client_ok_def exec_aborts_def)
  obtain s1 where s1: "upd_client s c f = Some s1" "s1 = s\<lparr>clients := (clients s)(c \<mapsto> f cl)\<rparr>" "server_ok s1" "same_data s s1"
    using upd_client_ok [where f = f, OF ok cl f(1,2)] by blast
  define g where "g = add_reply (abort_reply cl)"
  have g: "c_watched (g (f cl)) = c_watched (f cl)" "client_ok (g (f cl))"
    using f(2) by (simp_all add: g_def add_reply_ok)
  have c1: "clients s1 c = Some (f cl)"
    using s1(2) by simp
  obtain s2 where s2: "upd_client s1 c g = Some s2" "s2 = s1\<lparr>clients := (clients s1)(c \<mapsto> g (f cl))\<rparr>" "server_ok s2" "same_data s1 s2"
    using upd_client_ok [where f = g, OF s1(3) c1 g] by blast
  have "clients s2 c = Some (g (f cl))"
    using s2(2) by simp
  from discardTransaction_correct [OF s2(3) this] obtain s3 where s3: "discardTransaction s2 c = Some s3" "server_ok s3" "same_data s2 s3"
    "clients s3 = (clients s2)(c \<mapsto> reset_client (g (f cl)))"
    by blast
  have "execCommand call acl s c = discardTransaction s2 c"
    using cl multi b s1(1) c1 f(3,5) s2(1)
    unfolding execCommand_def f_def [symmetric] g_def abort_reply_def by (simp add: f_def [symmetric])
  moreover have "clients s3 = (clients s)(c \<mapsto> add_reply (abort_reply cl) (reset_client cl))"
    using s3(4) s2(2) s1(2) f(4) by (simp add: g_def)
  ultimately show ?thesis
    using s3 same_data_trans [OF same_data_trans [OF s1(4) s2(4)] s3(3)] by simp
qed

lemma execCommand_correct:
  assumes call: "call_keeps call" and ok: "server_ok s" and cl: "clients s c = Some cl" and nb: "CLIENT_BLOCKED \<notin> flags cl"
  shows "\<exists>s'. execCommand call acl s c = Some s' \<and> server_ok s' \<and> (\<forall>c'. c' \<noteq> c \<longrightarrow> is_dirty s c' \<longrightarrow> is_dirty s' c')"
proof (cases "CLIENT_MULTI \<in> flags cl")
  case False
  have w: "c_watched (add_reply r cl) = c_watched cl" "client_ok (add_reply r cl)" for r
    using server_okD(2) [OF ok cl] by (simp_all add: add_reply_ok)
  obtain s' where "upd_client s c (add_reply (ReplyError ''EXEC without MULTI'')) = Some s'"
    "s' = s\<lparr>clients := (clients s)(c \<mapsto> add_reply (ReplyError ''EXEC without MULTI'') cl)\<rparr>" "server_ok s'"
    using upd_client_ok [where f = "add_reply (ReplyError ''EXEC without MULTI'')", OF ok cl w] by blast
  then show ?thesis
    using cl False by (simp add: execCommand_def is_dirty_upd)
next
  case multi: True
  show ?thesis
  proof (cases "exec_aborts s cl")
    case True
    from exec_abort_result [OF ok cl multi True, of call acl] show ?thesis
      by (auto simp: is_dirty_def)
  next
    case False
    then have b: "isWatchedKeyExpired s cl = Some False" and nd: "flags cl \<inter> {CLIENT_DIRTY_CAS, CLIENT_DIRTY_EXEC} = {}"
      using isWatchedKeyExpired_correct [OF server_okD(1) [OF ok] cl] by (auto simp: exec_aborts_def)
    have idle: "upd_client s c (\<lambda>cl. if False then cl\<lparr>flags := flags cl \<union> {CLIENT_DIRTY_CAS}\<rparr> else cl) = Some s"
      using cl by (simp add: upd_client_def fun_upd_idem)
    define f where "f = (\<lambda>cl :: client. cl\<lparr>flags := insert CLIENT_DENY_BLOCKING (flags cl)\<rparr>)"
    have f: "c_watched (f cl) = c_watched cl" "client_ok (f cl)" "no_block (f cl)" "mstate (f cl) = mstate cl"
      using server_okD(2) [OF ok cl] nb by (auto simp: f_def client_ok_def no_block_def)
    obtain s1 where s1: "upd_client s c f = Some s1" "s1 = s\<lparr>clients := (clients s)(c \<mapsto> f cl)\<rparr>" "server_ok s1"
      using upd_client_ok [where f = f, OF ok cl f(1,2)] by blast
    have c1: "clients s1 c = Some (f cl)"
      using s1(2) by simp
    obtain s2 where s2: "unwatchAllKeys s1 c = Some s2" "watch_inv s2" "clients s2 = (clients s1)(c \<mapsto> (f cl)\<lparr>c_watched := []\<rparr>)"
      using unwatchAllKeys_correct [OF server_okD(1) [OF s1(3)] c1] by blast
    have ok2: "server_ok s2"
      by (rule server_ok_watched [OF s1(3) s2(2,3) c1])
    define s2' where "s2' = s2\<lparr>in_exec := True\<rparr>"
    define cl2 where "cl2 = (f cl)\<lparr>c_watched := []\<rparr>"
    have "watch_inv s2'"
      by (rule watch_inv_cong(1) [OF s2(2)]) (simp_all add: s2'_def)
    then have ok2': "server_ok s2'" and c2: "clients s2' c = Some cl2"
      using ok2 s2(3) by (simp_all add: server_ok_def s2'_def cl2_def)
    define g where "g = add_reply (ReplyArrayLen (count (mstate cl)))"
    have g: "c_watched (g cl2) = c_watched cl2" "client_ok (g cl2)" "count (mstate (g cl2)) = 0 + count (mstate cl)" "no_block (g cl2)"
      using server_okD(2) [OF ok2' c2] f(3,4) by (simp_all add: g_def add_reply_ok cl2_def no_block_def)
    obtain s3 where s3: "upd_client s2' c g = Some s3" "s3 = s2'\<lparr>clients := (clients s2')(c \<mapsto> g cl2)\<rparr>" "server_ok s3"
      using upd_client_ok [where f = g, OF ok2' c2 g(1,2)] by blast
    have c3: "clients s3 c = Some (g cl2)"
      using s3(2) by simp
    obtain s4 cl4 where s4: "exec_loop call acl c 0 s3 = Some s4" "server_ok s4" "clients s4 c = Some cl4"
      "\<forall>c'. c' \<noteq> c \<longrightarrow> is_dirty s3 c' \<longrightarrow> is_dirty s4 c'"
      using exec_loop_correct [OF call s3(3) c3 g(3,4)] by blast
    define h where "h = (\<lambda>x :: client. x\<lparr>flags := (if CLIENT_DENY_BLOCKING \<notin> flags cl then flags x - {CLIENT_DENY_BLOCKING} else flags x), c_cmd := c_cmd cl\<rparr>)"
    have h: "c_watched (h cl4) = c_watched cl4" "client_ok (h cl4)"
      using server_okD(2) [OF s4(2,3)] by (auto simp: h_def client_ok_def)
    obtain s5 where s5: "upd_client s4 c h = Some s5" "s5 = s4\<lparr>clients := (clients s4)(c \<mapsto> h cl4)\<rparr>" "server_ok s5"
      using upd_client_ok [where f = h, OF s4(2,3) h] by blast
    have c5: "clients s5 c = Some (h cl4)"
      using s5(2) by simp
    obtain s6 where s6: "discardTransaction s5 c = Some s6" "server_ok s6" "clients s6 = (clients s5)(c \<mapsto> reset_client (h cl4))"
      using discardTransaction_correct [OF s5(3) c5] by blast
    have "execCommand call acl s c = Some (s6\<lparr>in_exec := False\<rparr>)"
      unfolding execCommand_def using cl multi b nd idle s1(1) s2(1) s3(1) s4(1) s5(1) s6(1)
      by (simp add: f_def [symmetric] g_def [symmetric] h_def [symmetric] s2'_def [symmetric])
    moreover have "watch_inv (s6\<lparr>in_exec := False\<rparr>)"
      by (rule watch_inv_cong(1) [OF server_okD(1) [OF s6(2)]]) simp_all
    then have "server_ok (s6\<lparr>in_exec := False\<rparr>)"
      using s6(2) by (simp add: server_ok_def)
    moreover have "is_dirty (s6\<lparr>in_exec := False\<rparr>) c'" if "c' \<noteq> c" "is_dirty s c'" for c'
    proof -
      have "is_dirty s3 c'"
        using that s3(2) s2(3) s1(2) by (simp add: is_dirty_def s2'_def)
      then have "is_dirty s4 c'"
        using s4(4) that(1) by blast
      then show ?thesis
        using that(1) s6(3) s5(2) by (simp add: is_dirty_def)
    qed
    ultimately show ?thesis
      by blast
  qed
qed

section \<open>Every event\<close>

text \<open>The events that may take the mark from a client: its own \<^verbatim>\<open>EXEC\<close>, even one that is refused or redirected, \<^verbatim>\<open>DISCARD\<close>, \<^verbatim>\<open>RESET\<close>, and
  \<^verbatim>\<open>UNWATCH\<close> outside of a transaction; caching it as the link to a master; and a new connection with its number.\<close>

fun resets :: "'v redisServer \<Rightarrow> cid \<Rightarrow> 'v event \<Rightarrow> bool" where
  "resets s c (EvConnect c') = (c' = c)"
| "resets s c (EvCommand c' mc n fl) = (c' = c \<and>
     (case mc_cmd mc of
        ProcExec \<Rightarrow> True | ProcDiscard \<Rightarrow> True | ProcReset \<Rightarrow> True
      | ProcUnwatch \<Rightarrow> (case clients s c of None \<Rightarrow> False | Some cl \<Rightarrow> CLIENT_MULTI \<notin> flags cl)
      | _ \<Rightarrow> False))"
| "resets s c (EvReject c' p err) = (c' = c \<and> p = Some ProcExec)"
| "resets s c (EvRedirect c' p err) = (c' = c \<and> p = ProcExec)"
| "resets s c (EvCacheMaster c') = (c' = c)"
| "resets s c ev = False"

definition good_step :: "'v redisServer \<Rightarrow> cid set \<Rightarrow> 'v redisServer option \<Rightarrow> bool" where
  "good_step s C r \<longleftrightarrow> (\<exists>s'. r = Some s' \<and> server_ok s' \<and> (\<forall>c. is_dirty s c \<longrightarrow> c \<notin> C \<longrightarrow> is_dirty s' c))"

lemma good_step_upd:
  assumes "server_ok s" "clients s c = Some cl" "c_watched (f cl) = c_watched cl" "client_ok (f cl)"
    "CLIENT_DIRTY_CAS \<in> flags cl \<longrightarrow> CLIENT_DIRTY_CAS \<in> flags (f cl) \<or> c \<in> C"
  shows "good_step s C (upd_client s c f)"
proof -
  obtain s' where s': "upd_client s c f = Some s'" "s' = s\<lparr>clients := (clients s)(c \<mapsto> f cl)\<rparr>" "server_ok s'"
    using upd_client_ok [where f = f, OF assms(1-4)] by blast
  have "is_dirty s' x" if "is_dirty s x" "x \<notin> C" for x
    using that assms(2,5) s'(2) by (cases "x = c") (auto simp: is_dirty_def)
  then show ?thesis
    using s' by (auto simp: good_step_def)
qed

lemma good_step_bind:
  assumes "good_step s C r" "\<And>t. r = Some t \<Longrightarrow> server_ok t \<Longrightarrow> good_step t C (f t)"
  shows "good_step s C (Option.bind r f)"
proof -
  obtain t where t: "r = Some t" "server_ok t" "\<forall>c. is_dirty s c \<longrightarrow> c \<notin> C \<longrightarrow> is_dirty t c"
    using assms(1) unfolding good_step_def by blast
  obtain u where u: "f t = Some u" "server_ok u" "\<forall>c. is_dirty t c \<longrightarrow> c \<notin> C \<longrightarrow> is_dirty u c"
    using assms(2) [OF t(1,2)] unfolding good_step_def by blast
  have "Option.bind r f = Some u"
    using t(1) u(1) by simp
  then show ?thesis
    using t(3) u(2,3) unfolding good_step_def by blast
qed

lemma good_step_weaken: "good_step t C r \<Longrightarrow> (\<And>x. is_dirty s x \<Longrightarrow> is_dirty t x) \<Longrightarrow> C \<subseteq> D \<Longrightarrow> good_step s D r"
  unfolding good_step_def by blast

lemma reply_good:
  assumes "server_ok s" "clients s c = Some cl"
  shows "good_step s C (upd_client s c (add_reply r))"
  using server_okD(2) [OF assms] by (intro good_step_upd [OF assms]) (simp_all add: add_reply_ok)

lemma discardTransaction_good:
  assumes "server_ok s" "clients s c = Some cl"
  shows "good_step s {c} (discardTransaction s c)"
    and "discardTransaction s c = Some t \<Longrightarrow> clients t c = Some (reset_client cl)"
proof -
  obtain s1 where s1: "discardTransaction s c = Some s1" "server_ok s1" "clients s1 = (clients s)(c \<mapsto> reset_client cl)"
    using discardTransaction_correct [OF assms] by blast
  have "is_dirty s1 x" if "is_dirty s x" "x \<notin> {c}" for x
    using s1(3) that by (simp add: is_dirty_def)
  then show "good_step s {c} (discardTransaction s c)"
    using s1(1,2) unfolding good_step_def by blast
  show "discardTransaction s c = Some t \<Longrightarrow> clients t c = Some (reset_client cl)"
    using s1(1,3) by simp
qed

lemma upd_client_get: "upd_client s c f = Some t \<Longrightarrow> clients s c = Some cl \<Longrightarrow> clients t c = Some (f cl)"
  by (auto simp: upd_client_def)

lemma client_ok_flags:
  "client_ok cl \<Longrightarrow> client_ok (add_reply ReplyOk (cl\<lparr>flags := flags cl \<union> {CLIENT_MULTI}\<rparr>))"
  "client_ok cl \<Longrightarrow> client_ok (flagTransaction cl)"
  "client_ok cl \<Longrightarrow> client_ok (add_reply ReplyOk (cl\<lparr>flags := flags cl - {CLIENT_DIRTY_CAS}\<rparr>))"
  by (auto simp: client_ok_def add_reply_def flagTransaction_def)

lemma multiCommand_good:
  assumes "server_ok s" "clients s c = Some cl"
  shows "good_step s {} (multiCommand s c)"
  unfolding multiCommand_def using server_okD(2) [OF assms]
  by (intro good_step_upd [OF assms]) (auto simp: client_ok_def add_reply_def)

lemma watchCommand_good:
  assumes "server_ok s" "clients s c = Some cl"
  shows "good_step s {} (watchCommand s c ks)"
proof -
  have rep: "good_step t {} (upd_client t c (add_reply r))" if "server_ok t" "clients t c = Some cl'" for t r cl'
    using that server_okD(2) [OF that] by (intro good_step_upd [OF that]) (simp_all add: add_reply_ok)
  obtain s1 ws where s1: "watch_loop c ks s = Some s1" "server_ok s1" "clients s1 = (clients s)(c \<mapsto> cl\<lparr>c_watched := ws\<rparr>)"
    using watch_loop_correct [OF assms] by blast
  have "is_dirty s1 x = is_dirty s x" for x
    using s1(3) assms(2) by (cases "x = c") (simp_all add: is_dirty_def)
  moreover have "good_step s1 {} (upd_client s1 c (add_reply ReplyOk))"
    using s1 by (intro rep [of _ "cl\<lparr>c_watched := ws\<rparr>"]) simp_all
  ultimately have "good_step s {} (upd_client s1 c (add_reply ReplyOk))"
    by (simp add: good_step_def)
  then show ?thesis
    using assms(2) s1(1) rep [OF assms] by (simp add: watchCommand_def)
qed

lemma unwatchCommand_correct:
  assumes "server_ok s" "clients s c = Some cl"
  shows "\<exists>s'. unwatchCommand s c = Some s' \<and> server_ok s' \<and>
    clients s' = (clients s)(c \<mapsto> add_reply ReplyOk (cl\<lparr>c_watched := [], flags := flags cl - {CLIENT_DIRTY_CAS}\<rparr>))"
proof -
  obtain s1 where s1: "unwatchAllKeys s c = Some s1" "watch_inv s1" "clients s1 = (clients s)(c \<mapsto> cl\<lparr>c_watched := []\<rparr>)"
    using unwatchAllKeys_correct [OF server_okD(1) [OF assms(1)] assms(2)] by blast
  have ok1: "server_ok s1"
    by (rule server_ok_watched [OF assms(1) s1(2,3) assms(2)])
  let ?f = "\<lambda>cl. add_reply ReplyOk (cl\<lparr>flags := flags cl - {CLIENT_DIRTY_CAS}\<rparr>)"
  have c1: "clients s1 c = Some (cl\<lparr>c_watched := []\<rparr>)"
    using s1(3) by simp
  have w: "c_watched (?f (cl\<lparr>c_watched := []\<rparr>)) = c_watched (cl\<lparr>c_watched := []\<rparr>)" "client_ok (?f (cl\<lparr>c_watched := []\<rparr>))"
    using server_okD(2) [OF ok1 c1] by (auto simp: client_ok_def add_reply_def)
  obtain s2 where "upd_client s1 c ?f = Some s2" "s2 = s1\<lparr>clients := (clients s1)(c \<mapsto> ?f (cl\<lparr>c_watched := []\<rparr>))\<rparr>" "server_ok s2"
    using upd_client_ok [where f = ?f, OF ok1 c1 w] by blast
  then show ?thesis
    using s1(1,3) by (intro exI [of _ s2]) (simp add: unwatchCommand_def)
qed

lemma unwatchCommand_good:
  assumes "server_ok s" "clients s c = Some cl"
  shows "good_step s {c} (unwatchCommand s c)"
proof -
  obtain s1 where s1: "unwatchCommand s c = Some s1" "server_ok s1"
    "clients s1 = (clients s)(c \<mapsto> add_reply ReplyOk (cl\<lparr>c_watched := [], flags := flags cl - {CLIENT_DIRTY_CAS}\<rparr>))"
    using unwatchCommand_correct [OF assms] by blast
  have "is_dirty s1 x" if "is_dirty s x" "x \<notin> {c}" for x
    using s1(3) that by (simp add: is_dirty_def)
  then show ?thesis
    using s1(1,2) unfolding good_step_def by blast
qed

lemma discardCommand_good:
  assumes "server_ok s" "clients s c = Some cl"
  shows "good_step s {c} (discardCommand s c)"
proof -
  have "good_step s {c} (Option.bind (discardTransaction s c) (\<lambda>s. upd_client s c (add_reply ReplyOk)))"
    by (rule good_step_bind [OF discardTransaction_good(1) [OF assms]])
      (rule reply_good, assumption, rule discardTransaction_good(2) [OF assms])
  then show ?thesis
    using assms(2) reply_good [OF assms] by (simp add: discardCommand_def)
qed

lemma resetCommand_good:
  assumes "server_ok s" "clients s c = Some cl"
  shows "good_step s {c} (resetCommand s c)"
proof -
  define fl where "fl = (if CLIENT_MONITOR \<in> flags cl then flags cl - {CLIENT_MONITOR, CLIENT_SLAVE} else flags cl)"
  show ?thesis
  proof (cases "fl \<inter> {CLIENT_SLAVE, CLIENT_MASTER, CLIENT_MODULE} = {}")
    case False
    then show ?thesis
      using reply_good [OF assms] assms(2) by (simp add: resetCommand_def fl_def Let_def)
  next
    case True
    define f where "f = (\<lambda>cl :: client. if CLIENT_MONITOR \<in> flags cl then cl\<lparr>flags := flags cl - {CLIENT_MONITOR, CLIENT_SLAVE}\<rparr> else cl)"
    define g where "g = (\<lambda>cl :: client. cl\<lparr>c_db := 0\<rparr>)"
    have f: "c_watched (f cl) = c_watched cl" "client_ok (f cl)" "flags (f cl) = fl"
      "CLIENT_DIRTY_CAS \<in> flags (f cl) \<longleftrightarrow> CLIENT_DIRTY_CAS \<in> flags cl"
      using server_okD(2) [OF assms] by (auto simp: f_def fl_def client_ok_def)
    obtain s1 where s1: "upd_client s c f = Some s1" "server_ok s1" "\<forall>c'. is_dirty s c' \<longrightarrow> c' \<notin> {} \<longrightarrow> is_dirty s1 c'"
      using good_step_upd [where f = f and C = "{}", OF assms f(1,2)] f(4) unfolding good_step_def by blast
    have c1: "clients s1 c = Some (f cl)"
      by (rule upd_client_get [OF s1(1) assms(2)])
    have g: "c_watched (g (f cl)) = c_watched (f cl)" "client_ok (g (f cl))" "flags (g (f cl)) = flags (f cl)"
      using f(2) by (simp_all add: g_def client_ok_def)
    obtain s2 where s2: "upd_client s1 c g = Some s2" "server_ok s2" "\<forall>c'. is_dirty s1 c' \<longrightarrow> c' \<notin> {} \<longrightarrow> is_dirty s2 c'"
      using good_step_upd [where f = g and C = "{}", OF s1(2) c1 g(1,2)] g(3) unfolding good_step_def by fastforce
    have c2: "clients s2 c = Some (g (f cl))"
      by (rule upd_client_get [OF s2(1) c1])
    have "flags (f cl) \<inter> {CLIENT_SLAVE, CLIENT_MASTER} = {}"
      using True f(3) by auto
    then have "clearClientConnectionState s c = discardTransaction s2 c"
      using s1(1) c1 s2(1) unfolding clearClientConnectionState_def f_def [symmetric] g_def [symmetric] by simp
    then have run: "resetCommand s c = Option.bind (discardTransaction s2 c) (\<lambda>s. upd_client s c (add_reply ReplyReset))"
      using assms(2) True by (simp add: resetCommand_def fl_def Let_def)
    have "good_step s2 {c} (resetCommand s c)"
      unfolding run by (rule good_step_bind [OF discardTransaction_good(1) [OF s2(2) c2]])
        (rule reply_good, assumption, rule discardTransaction_good(2) [OF s2(2) c2])
    then show ?thesis
      using s1(3) s2(3) unfolding good_step_def by blast
  qed
qed

lemma quitCommand_good:
  assumes "server_ok s" "clients s c = Some cl"
  shows "good_step s {} (quitCommand s c)"
  unfolding quitCommand_def using server_okD(2) [OF assms]
  by (intro good_step_upd [OF assms]) (auto simp: client_ok_def add_reply_def)

lemma flagTransaction_good:
  assumes "server_ok s" "clients s c = Some cl"
  shows "good_step s C (upd_client s c flagTransaction)"
  using client_ok_flags(2) [OF server_okD(2) [OF assms]]
  by (intro good_step_upd [OF assms]) (simp_all add: flagTransaction_def)

lemma rejectCommand_good:
  assumes "server_ok s" "clients s c = Some cl"
  shows "good_step s (if p = Some ProcExec then {c} else {}) (rejectCommand s c p err)"
  unfolding rejectCommand_def
proof (rule good_step_bind [OF flagTransaction_good [OF assms]])
  fix t
  assume t: "upd_client s c flagTransaction = Some t" "server_ok t"
  have ct: "clients t c = Some (flagTransaction cl)"
    by (rule upd_client_get [OF t(1) assms(2)])
  have "good_step t {c} (execCommandAbort t c err)"
    unfolding execCommandAbort_def by (rule good_step_bind [OF discardTransaction_good(1) [OF t(2) ct]])
      (rule reply_good, assumption, rule discardTransaction_good(2) [OF t(2) ct])
  then show "good_step t (if p = Some ProcExec then {c} else {})
      (if p = Some ProcExec then execCommandAbort t c err else upd_client t c (add_reply (ReplyError err)))"
    using reply_good [OF t(2) ct] by simp
qed

lemma redirect_command_good:
  assumes "server_ok s" "clients s c = Some cl"
  shows "good_step s (if p = ProcExec then {c} else {}) (redirect_command s c p err)"
  unfolding redirect_command_def
proof (rule good_step_bind)
  show "good_step s (if p = ProcExec then {c} else {}) (if p = ProcExec then discardTransaction s c else upd_client s c flagTransaction)"
    using discardTransaction_good(1) [OF assms] flagTransaction_good [OF assms] by simp
  fix t
  assume t: "(if p = ProcExec then discardTransaction s c else upd_client s c flagTransaction) = Some t" "server_ok t"
  have "\<exists>cl'. clients t c = Some cl'"
    using t(1) discardTransaction_good(2) [OF assms] upd_client_get [OF _ assms(2)] by (cases "p = ProcExec") auto
  then show "good_step t (if p = ProcExec then {c} else {}) (upd_client t c (add_reply (ReplyError err)))"
    using reply_good [OF t(2)] by blast
qed

lemma replicationCacheMaster_good:
  assumes "server_ok s" "clients s c = Some cl"
  shows "good_step s {c} (replicationCacheMaster s c)"
proof -
  let ?r = "if CLIENT_MULTI \<in> flags cl then discardTransaction s c else Some s"
  have "good_step s {c} (Option.bind ?r (\<lambda>s. upd_client s c (\<lambda>cl. cl\<lparr>replies := []\<rparr>)))"
  proof (rule good_step_bind)
    show "good_step s {c} ?r"
      using discardTransaction_good(1) [OF assms] assms(1) by (simp add: good_step_def)
    fix t
    assume t: "?r = Some t" "server_ok t"
    have "\<exists>cl'. clients t c = Some cl'"
      using t(1) discardTransaction_good(2) [OF assms] assms(2) by (cases "CLIENT_MULTI \<in> flags cl") auto
    then obtain cl' where c': "clients t c = Some cl'"
      by blast
    show "good_step t {c} (upd_client t c (\<lambda>cl. cl\<lparr>replies := []\<rparr>))"
      using server_okD(2) [OF t(2) c'] by (intro good_step_upd [OF t(2) c']) (simp_all add: client_ok_def)
  qed
  then show ?thesis
    using assms(2) by (simp add: replicationCacheMaster_def)
qed

text \<open>Clients come and go.\<close>

lemma connect_good:
  assumes "server_ok s" "clients s c = None"
  shows "good_step s {c} (Some (s\<lparr>clients := (clients s)(c \<mapsto> createClient)\<rparr>))"
proof -
  let ?s = "s\<lparr>clients := (clients s)(c \<mapsto> createClient)\<rparr>"
  have inv: "client_side s" "unique_side s" "list_side s" "wk_side s" "fresh_side s"
    using server_okD(1) [OF assms(1)] by (simp_all add: watch_inv_def)
  have "client_side ?s"
    using inv(1) by (simp add: client_side_def createClient_def)
  moreover have "wk_client wk \<noteq> c" if "wks s w = Some wk" for w wk
    using inv(4) that assms(2) unfolding wk_side_def by fastforce
  then have "wk_side ?s"
    using inv(4) by (simp add: wk_side_def)
  ultimately have "watch_inv ?s"
    using inv by (simp add: watch_inv_def unique_side_def list_side_def fresh_side_def)
  then have "server_ok ?s"
    using assms(1) by (auto simp: server_ok_def client_ok_def mstate_ok_def createClient_def)
  then show ?thesis
    by (simp add: good_step_def is_dirty_def)
qed

lemma remove_client_inv:
  assumes "watch_inv s" "clients s c = Some cl" "c_watched cl = []"
  shows "watch_inv (s\<lparr>clients := (clients s)(c := None)\<rparr>)"
proof -
  let ?s = "s\<lparr>clients := (clients s)(c := None)\<rparr>"
  have inv: "client_side s" "unique_side s" "list_side s" "wk_side s" "fresh_side s"
    using assms(1) by (simp_all add: watch_inv_def)
  have "client_side ?s"
    using inv(1) by (simp add: client_side_def)
  moreover have "wk_client wk \<noteq> c" if "wks s w = Some wk" for w wk
    using inv(4) that assms(2,3) unfolding wk_side_def by fastforce
  then have "wk_side ?s"
    using inv(4) by (simp add: wk_side_def)
  ultimately show ?thesis
    using inv by (simp add: watch_inv_def unique_side_def list_side_def fresh_side_def)
qed

lemma freeClient_good:
  assumes "server_ok s" "clients s c = Some cl"
  shows "good_step s {} (freeClient s c)"
proof -
  obtain s1 where s1: "unwatchAllKeys s c = Some s1" "watch_inv s1" "clients s1 = (clients s)(c \<mapsto> cl\<lparr>c_watched := []\<rparr>)"
    using unwatchAllKeys_correct [OF server_okD(1) [OF assms(1)] assms(2)] by blast
  have c1: "clients s1 c = Some (cl\<lparr>c_watched := []\<rparr>)"
    using s1(3) by simp
  have "freeClientMultiState (cl\<lparr>c_watched := []\<rparr>) = Some ()"
    using server_okD(2) [OF assms] free_commands_ok [of "count (mstate cl)" "mstate cl"]
    by (simp add: freeClientMultiState_def client_ok_def mstate_ok_def)
  then have run: "freeClient s c = Some (s1\<lparr>clients := (clients s1)(c := None)\<rparr>)"
    using s1(1) c1 by (simp add: freeClient_def)
  have "watch_inv (s1\<lparr>clients := (clients s1)(c := None)\<rparr>)"
    by (rule remove_client_inv [OF s1(2) c1]) simp
  then have "server_ok (s1\<lparr>clients := (clients s1)(c := None)\<rparr>)"
    using assms(1) s1(3) by (auto simp: server_ok_def split: if_splits)
  moreover have "is_dirty (s1\<lparr>clients := (clients s1)(c := None)\<rparr>) x" if "is_dirty s x" for x
    using that s1(3) by (simp add: is_dirty_def)
  ultimately show ?thesis
    using run by (simp add: good_step_def)
qed

text \<open>The commands that are queued or run.\<close>

lemma queueable_iff: "queueable mc \<longleftrightarrow> mc_cmd mc \<noteq> ProcExec \<and> mc_cmd mc \<noteq> ProcDiscard \<and> mc_cmd mc \<noteq> ProcMulti \<and>
    mc_cmd mc \<noteq> ProcWatch \<and> mc_cmd mc \<noteq> ProcQuit \<and> mc_cmd mc \<noteq> ProcReset"
  by (cases "mc_cmd mc") (simp_all add: queueable_def)

lemma queueable_cases: "queueable mc \<Longrightarrow> mc_cmd mc \<noteq> ProcUnwatch \<Longrightarrow> \<exists>n. mc_cmd mc = ProcOther n"
  by (cases "mc_cmd mc") (simp_all add: queueable_def)

lemma call_proc_keeps:
  fixes call :: "call_flags \<Rightarrow> cid \<Rightarrow> 'v redisServer \<Rightarrow> 'v redisServer option"
  assumes "call_ok call"
  shows "call_keeps (call_proc call)"
  unfolding call_keeps_def
proof (intro allI impI)
  fix f c and s :: "'v redisServer" and cl
  assume s: "server_ok s" "clients s c = Some cl" "CLIENT_BLOCKED \<notin> flags cl" "queueable (c_cmd cl)"
  show "\<exists>s' cl'. call_proc call f c s = Some s' \<and> server_ok s' \<and> clients s' c = Some cl' \<and> mstate cl' = mstate cl \<and> queueable (c_cmd cl') \<and>
      (no_block cl \<longrightarrow> no_block cl') \<and> (\<forall>c'. c' \<noteq> c \<longrightarrow> is_dirty s c' \<longrightarrow> is_dirty s' c')"
  proof (cases "mc_cmd (c_cmd cl) = ProcUnwatch")
    case True
    let ?cl = "add_reply ReplyOk (cl\<lparr>c_watched := [], flags := flags cl - {CLIENT_DIRTY_CAS}\<rparr>)"
    obtain s1 where "unwatchCommand s c = Some s1" "server_ok s1" "clients s1 = (clients s)(c \<mapsto> ?cl)"
      using unwatchCommand_correct [OF s(1,2)] by blast
    then show ?thesis
      using True s(2,4) by (intro exI [of _ s1] exI [of _ ?cl]) (simp add: call_proc_def add_reply_def no_block_def is_dirty_def)
  next
    case False
    then obtain n where "mc_cmd (c_cmd cl) = ProcOther n"
      using queueable_cases [OF s(4)] by blast
    then obtain s' cl' where "call f c s = Some s'" "server_ok s'" "clients s' c = Some cl'" "mstate cl' = mstate cl" "queueable (c_cmd cl')"
      "no_block cl \<longrightarrow> no_block cl'" "\<forall>c'. is_dirty s c' \<longrightarrow> is_dirty s' c'"
      using assms s unfolding call_ok_def by blast
    then show ?thesis
      using False s(2) by (intro exI [of _ s'] exI [of _ cl']) (simp add: call_proc_def)
  qed
qed

lemma call_command_good:
  assumes "call_ok call" "server_ok s" "clients s c = Some cl" "CLIENT_BLOCKED \<notin> flags cl" "c_cmd cl = mc"
  shows "good_step s (case mc_cmd mc of ProcExec \<Rightarrow> {c} | ProcDiscard \<Rightarrow> {c} | ProcReset \<Rightarrow> {c} | ProcUnwatch \<Rightarrow> {c} | _ \<Rightarrow> {})
    (call_command call acl s c mc)"
proof (cases "mc_cmd mc")
  case ProcExec
  then show ?thesis
    using execCommand_correct [OF call_proc_keeps [OF assms(1)] assms(2-4), of acl] unfolding good_step_def call_command_def by auto
next
  case (ProcOther n)
  then obtain s' where "call CMD_CALL_FULL c s = Some s'" "server_ok s'" "\<forall>c'. is_dirty s c' \<longrightarrow> is_dirty s' c'"
    using assms unfolding call_ok_def by metis
  then show ?thesis
    using ProcOther assms(3,5) by (simp add: good_step_def call_command_def call_proc_def)
qed (use assms discardCommand_good multiCommand_good watchCommand_good unwatchCommand_good quitCommand_good resetCommand_good in
    \<open>auto simp: call_command_def call_proc_def\<close>)

lemma queue_or_call_good:
  assumes "call_ok call" "server_ok s" "clients s c = Some cl" "count (mstate cl) < INT_MAX" "CLIENT_BLOCKED \<notin> flags cl"
  shows "good_step s {x. resets s x (EvCommand c mc n fl)} (queue_or_call call acl s c mc n fl)"
proof -
  define f where "f = (\<lambda>cl :: client. cl\<lparr>c_cmd := mc, c_argv_len_sum := n\<rparr>)"
  have f: "c_watched (f cl) = c_watched cl" "client_ok (f cl)" "flags (f cl) = flags cl" "mstate (f cl) = mstate cl" "c_cmd (f cl) = mc"
    using server_okD(2) [OF assms(2,3)] by (simp_all add: f_def client_ok_def)
  obtain s1 where s1: "upd_client s c f = Some s1" "s1 = s\<lparr>clients := (clients s)(c \<mapsto> f cl)\<rparr>" "server_ok s1"
    using upd_client_ok [where f = f, OF assms(2,3) f(1,2)] by blast
  have c1: "clients s1 c = Some (f cl)"
    using s1(2) by simp
  have d1: "is_dirty s1 x = is_dirty s x" for x
    using s1(2) assms(3) f(3) by (cases "x = c") (simp_all add: is_dirty_def)
  have run: "queue_or_call call acl s c mc n fl =
      (if CLIENT_MULTI \<in> flags cl \<and> queueable mc
       then Option.bind (queueMultiCommand (f cl) fl) (\<lambda>cl. upd_client s1 c (\<lambda>x. add_reply ReplyQueued cl))
       else call_command call acl s1 c mc)"
    using s1(1) c1 f(3) unfolding queue_or_call_def f_def [symmetric] queueable_iff by simp
  show ?thesis
  proof (cases "CLIENT_MULTI \<in> flags cl \<and> queueable mc")
    case True
    obtain cl' where cl': "queueMultiCommand (f cl) fl = Some cl'" "client_ok cl'" "c_watched cl' = c_watched (f cl)" "flags cl' = flags (f cl)"
      using queueMultiCommand_result [OF f(2), of fl] True assms(4) f(3-5) by auto
    have "good_step s1 {} (upd_client s1 c (\<lambda>x. add_reply ReplyQueued cl'))"
      using cl' by (intro good_step_upd [OF s1(3) c1]) (simp_all add: add_reply_ok)
    then have "good_step s1 {} (queue_or_call call acl s c mc n fl)"
      unfolding run using True cl'(1) by simp
    then show ?thesis
      by (rule good_step_weaken) (simp_all add: d1)
  next
    case False
    have nb: "CLIENT_BLOCKED \<notin> flags (f cl)"
      using assms(5) f(3) by simp
    have g: "good_step s1 (case mc_cmd mc of ProcExec \<Rightarrow> {c} | ProcDiscard \<Rightarrow> {c} | ProcReset \<Rightarrow> {c} | ProcUnwatch \<Rightarrow> {c} | _ \<Rightarrow> {})
        (call_command call acl s1 c mc)"
      by (rule call_command_good [OF assms(1) s1(3) c1 nb f(5)])
    have sub: "(case mc_cmd mc of ProcExec \<Rightarrow> {c} | ProcDiscard \<Rightarrow> {c} | ProcReset \<Rightarrow> {c} | ProcUnwatch \<Rightarrow> {c} | _ \<Rightarrow> {}) \<subseteq>
        {x. resets s x (EvCommand c mc n fl)}"
      using False assms(3) by (cases "mc_cmd mc") (auto simp: queueable_def)
    have "good_step s {x. resets s x (EvCommand c mc n fl)} (call_command call acl s1 c mc)"
      by (rule good_step_weaken [OF g _ sub]) (simp only: d1)
    then show ?thesis
      unfolding run using False by (simp only: if_False)
  qed
qed

lemma server_ok_same_clients:
  assumes "server_ok s" "clients s' = clients s" "\<And>d. db_watched (dbs s' d) = db_watched (dbs s d)" "wks s' = wks s" "wlists s' = wlists s" "brk s' = brk s"
  shows "server_ok s'"
  using watch_inv_cong(1) [OF server_okD(1) [OF assms(1)], of s'] assms by (simp add: server_ok_def)

lemma dirty_clients_ok:
  assumes "server_ok s" "watch_inv s'" "clients s' = dirty_clients C (clients s)"
  shows "server_ok s'" "is_dirty s c \<Longrightarrow> is_dirty s' c"
proof -
  have "client_ok (make_dirty cl)" if "client_ok cl" for cl
    using that by (auto simp: client_ok_def make_dirty_def)
  then show "server_ok s'"
    using assms by (auto simp: server_ok_def dirty_clients_def)
  show "is_dirty s c \<Longrightarrow> is_dirty s' c"
    using assms(3) by (cases "c \<in> C") (auto simp: is_dirty_def dirty_clients_def make_dirty_def)
qed

lemma only_dirtied_ok:
  assumes "server_ok s" "watch_inv s'" "only_dirtied s s'"
  shows "server_ok s'"
proof -
  have "client_ok (cl\<lparr>flags := flags cl \<union> {CLIENT_DIRTY_CAS}\<rparr>)" if "client_ok cl" for cl
    using that by (auto simp: client_ok_def)
  moreover have "\<exists>cl0. clients s c = Some cl0 \<and> (cl = cl0 \<or> cl = cl0\<lparr>flags := flags cl0 \<union> {CLIENT_DIRTY_CAS}\<rparr>)"
    if "clients s' c = Some cl" for c cl
  proof -
    have "clients s' c = clients s c \<or> clients s' c = map_option (\<lambda>cl. cl\<lparr>flags := flags cl \<union> {CLIENT_DIRTY_CAS}\<rparr>) (clients s c)"
      using assms(3) unfolding only_dirtied_def by blast
    then show ?thesis
      using that by (cases "clients s c") auto
  qed
  ultimately have "client_ok cl" if "clients s' c = Some cl" for c cl
    using server_okD(2) [OF assms(1)] that by blast
  then show ?thesis
    using assms(2) by (simp add: server_ok_def)
qed

lemma modify_good:
  assumes "server_ok s"
  shows "good_step s {} (signalModifiedKey (modify_key s d k v e) d k)"
proof -
  have ok1: "server_ok (modify_key s d k v e)"
    by (rule server_ok_same_clients [OF assms]) (simp_all add: modify_key_def upd_db_def)
  obtain s' where s': "touchWatchedKey (modify_key s d k v e) d k = Some s'" "watch_inv s'"
    "clients s' = dirty_clients (touched (modify_key s d k v e) d k (watchers (modify_key s d k v e) d k)) (clients (modify_key s d k v e))"
    using touchWatchedKey_effect [OF server_okD(1) [OF ok1]] by blast
  have "is_dirty (modify_key s d k v e) c = is_dirty s c" for c
    by (simp add: is_dirty_def modify_key_def upd_db_def)
  then show ?thesis
    using s'(1) dirty_clients_ok [OF ok1 s'(2,3)] by (simp add: signalModifiedKey_def good_step_def)
qed

lemma touchAll_good:
  assumes "server_ok s" "set ks = dom (db_watched (dbs s d))" "distinct ks"
  shows "\<exists>s'. touchAllWatchedKeysInDb s ks d rep = Some s' \<and> server_ok s' \<and> (\<forall>x. dbs s' x = dbs s x) \<and> (\<forall>c. is_dirty s c \<longrightarrow> is_dirty s' c)"
proof -
  obtain s' where "touch_keys d rep ks s = Some s'" "watch_inv s'" "only_dirtied s s'"
    using touch_keys_correct [OF server_okD(1) [OF assms(1)], of ks d rep] assms(2,3) by auto
  then show ?thesis
    using only_dirtied_ok [OF assms(1), of s'] only_dirtied_dirty [of s s']
    by (intro exI [of _ s']) (simp add: touchAllWatchedKeysInDb_def, simp add: only_dirtied_def)
qed

lemma flush_loop_good:
  assumes "server_ok s" "\<forall>d\<in>set ds. distinct (ks d) \<and> set (ks d) = dom (db_watched (dbs s d))"
  shows "good_step s {} (flush_loop ks ds s)"
  using assms
proof (induction ds arbitrary: s)
  case Nil
  then show ?case
    by (simp add: good_step_def)
next
  case (Cons d ds)
  obtain s1 where s1: "touchAllWatchedKeysInDb s (ks d) d None = Some s1" "server_ok s1" "\<forall>x. dbs s1 x = dbs s x"
    "\<forall>c. is_dirty s c \<longrightarrow> is_dirty s1 c"
    using touchAll_good [OF Cons.prems(1), of "ks d" d None] Cons.prems(2) by auto
  have "good_step s1 {} (flush_loop ks ds s1)"
    using Cons.prems(2) s1(3) by (intro Cons.IH [OF s1(2)]) simp
  then have "good_step s1 {} (flush_loop ks (d # ds) s)"
    using s1(1) by simp
  then show ?case
    by (rule good_step_weaken) (use s1(4) in simp_all)
qed

lemma emptyDbStructure_good:
  assumes "server_ok s"
  shows "server_ok (emptyDbStructure s dbid)" "is_dirty (emptyDbStructure s dbid) c = is_dirty s c"
proof -
  let ?f = "\<lambda>s d. upd_db s d (\<lambda>db. db\<lparr>db_dict := (\<lambda>k. None), db_expires := (\<lambda>k. None)\<rparr>)"
  have "server_ok (foldl ?f t ds) \<and> is_dirty (foldl ?f t ds) c = is_dirty t c" if "server_ok t" for t :: "'a redisServer" and ds
    using that
  proof (induction ds arbitrary: t)
    case (Cons d ds)
    have "server_ok (?f t d)"
      by (rule server_ok_same_clients [OF Cons.prems]) (simp_all add: upd_db_def)
    moreover have "is_dirty (?f t d) c = is_dirty t c"
      by (simp add: is_dirty_def upd_db_def)
    ultimately show ?case
      using Cons.IH [of "?f t d"] by simp
  qed simp
  then show "server_ok (emptyDbStructure s dbid)" "is_dirty (emptyDbStructure s dbid) c = is_dirty s c"
    using assms by (simp_all add: emptyDbStructure_def)
qed

lemma flush_good:
  assumes "server_ok s" "\<forall>d\<in>set (db_range s dbid). distinct (ks d) \<and> set (ks d) = dom (db_watched (dbs s d))"
  shows "good_step s {} (emptyData s ks dbid)"
proof -
  have "good_step s {} (Option.bind (signalFlushedDb s ks dbid) (\<lambda>s. Some (emptyDbStructure s dbid)))"
    unfolding signalFlushedDb_def
    by (rule good_step_bind [OF flush_loop_good [OF assms]]) (simp add: good_step_def emptyDbStructure_good)
  then show ?thesis
    using assms(1) by (auto simp: emptyData_def good_step_def)
qed

lemma swap_good:
  assumes "server_ok s" "set ks1 = dom (db_watched (dbs s d1))" "distinct ks1" "set ks2 = dom (db_watched (dbs s d2))" "distinct ks2"
  shows "good_step s {} (map_option fst (dbSwapDatabases s ks1 ks2 d1 d2))"
proof (cases "d1 \<ge> dbnum s \<or> d2 \<ge> dbnum s \<or> d1 = d2")
  case True
  then show ?thesis
    using assms(1) by (auto simp: dbSwapDatabases_def good_step_def)
next
  case False
  obtain s1 where s1: "touchAllWatchedKeysInDb s ks1 d1 (Some d2) = Some s1" "server_ok s1" "\<forall>x. dbs s1 x = dbs s x" "\<forall>c. is_dirty s c \<longrightarrow> is_dirty s1 c"
    using touchAll_good [OF assms(1-3)] by blast
  have "set ks2 = dom (db_watched (dbs s1 d2))"
    using s1(3) assms(4) by simp
  then obtain s2 where s2: "touchAllWatchedKeysInDb s1 ks2 d2 (Some d1) = Some s2" "server_ok s2" "\<forall>c. is_dirty s1 c \<longrightarrow> is_dirty s2 c"
    using touchAll_good [OF s1(2) _ assms(5)] by blast
  let ?s1 = "upd_db s2 d1 (\<lambda>db. db\<lparr>db_dict := db_dict (dbs s2 d2), db_expires := db_expires (dbs s2 d2)\<rparr>)"
  let ?s2 = "upd_db ?s1 d2 (\<lambda>db. db\<lparr>db_dict := db_dict (dbs s2 d1), db_expires := db_expires (dbs s2 d1)\<rparr>)"
  have "server_ok ?s2"
    by (rule server_ok_same_clients [OF s2(2)]) (simp_all add: upd_db_def)
  moreover have "is_dirty ?s2 c = is_dirty s2 c" for c
    by (simp add: is_dirty_def upd_db_def)
  moreover have "map_option fst (dbSwapDatabases s ks1 ks2 d1 d2) = Some ?s2"
    using False s1(1) s2(1) by (simp add: dbSwapDatabases_def Let_def)
  ultimately show ?thesis
    using s1(4) s2(3) unfolding good_step_def by (intro exI [of _ ?s2]) simp
qed

lemma serverStep_good:
  assumes "call_ok call" "server_ok s" "valid_event s ev"
  shows "\<exists>s'. serverStep call acl s ev = Some s' \<and> server_ok s' \<and> (\<forall>c. is_dirty s c \<longrightarrow> \<not> resets s c ev \<longrightarrow> is_dirty s' c)"
proof -
  have conv: ?thesis if "good_step s C (serverStep call acl s ev)" "\<And>c. c \<in> C \<Longrightarrow> resets s c ev" for C
    using that unfolding good_step_def by blast
  show ?thesis
  proof (cases ev)
    case (EvConnect c)
    then show ?thesis
      using assms(3) connect_good [OF assms(2), of c] by (intro conv [of "{c}"]) auto
  next
    case (EvFree c)
    then show ?thesis
      using assms(3) freeClient_good [OF assms(2), of c] by (intro conv [of "{}"]) auto
  next
    case (EvCommand c mc n fl)
    then obtain cl where cl: "clients s c = Some cl" "count (mstate cl) < INT_MAX" "CLIENT_BLOCKED \<notin> flags cl"
      using assms(3) by (auto split: option.splits)
    show ?thesis
      using queue_or_call_good [OF assms(1,2) cl, of mc n fl acl] unfolding EvCommand
      by (intro conv [unfolded EvCommand, of "{x. resets s x (EvCommand c mc n fl)}"]) simp_all
  next
    case (EvReject c p err)
    then show ?thesis
      using assms(3) rejectCommand_good [OF assms(2), of c _ p err]
      by (intro conv [of "if p = Some ProcExec then {c} else {}"]) (auto split: if_splits)
  next
    case (EvRedirect c p err)
    then show ?thesis
      using assms(3) redirect_command_good [OF assms(2), of c _ p err]
      by (intro conv [of "if p = ProcExec then {c} else {}"]) (auto split: if_splits)
  next
    case (EvCacheMaster c)
    then show ?thesis
      using assms(3) replicationCacheMaster_good [OF assms(2), of c] by (intro conv [of "{c}"]) auto
  next
    case (EvModify d k v e)
    then show ?thesis
      using modify_good [OF assms(2)] by (intro conv [of "{}"]) auto
  next
    case (EvFlush dbid ks)
    then show ?thesis
      using assms(3) flush_good [OF assms(2), of dbid ks] by (intro conv [of "{}"]) auto
  next
    case (EvSwap d1 d2 ks1 ks2)
    then show ?thesis
      using assms(3) swap_good [OF assms(2), of ks1 d1 ks2 d2] by (intro conv [of "{}"]) auto
  next
    case (EvTick t)
    have "server_ok (s\<lparr>now := now s + int t\<rparr>)"
      by (rule server_ok_same_clients [OF assms(2)]) simp_all
    then show ?thesis
      using EvTick by (simp add: is_dirty_def)
  qed
qed

section \<open>Reachable servers\<close>

definition init_server :: "'v redisServer \<Rightarrow> bool" where
  "init_server s \<longleftrightarrow> wks s = Map.empty \<and> wlists s = Map.empty \<and> (\<forall>d. db_watched (dbs s d) = Map.empty) \<and>
     (\<forall>c cl. clients s c = Some cl \<longrightarrow> c_watched cl = [] \<and> initClientMultiState cl = cl \<and>
        flags cl \<inter> {CLIENT_MULTI, CLIENT_DIRTY_CAS, CLIENT_DIRTY_EXEC} = {})"

inductive reachable ::
  "(call_flags \<Rightarrow> cid \<Rightarrow> 'v redisServer \<Rightarrow> 'v redisServer option) \<Rightarrow> (cid \<Rightarrow> 'v redisServer \<Rightarrow> nat) \<Rightarrow> 'v redisServer \<Rightarrow> bool"
  for call acl where
  start: "init_server s \<Longrightarrow> reachable call acl s"
| event: "reachable call acl s \<Longrightarrow> valid_event s ev \<Longrightarrow> serverStep call acl s ev = Some s' \<Longrightarrow> reachable call acl s'"


lemma init_server_ok: "init_server s \<Longrightarrow> server_ok s"
proof -
  assume i: "init_server s"
  have "watch_inv s"
    using i by (auto simp: init_server_def watch_inv_def side_defs)
  moreover have "client_ok cl" if "clients s c = Some cl" for c cl
  proof -
    have "initClientMultiState cl = cl" "flags cl \<inter> {CLIENT_MULTI, CLIENT_DIRTY_CAS, CLIENT_DIRTY_EXEC} = {}"
      using i that by (auto simp: init_server_def)
    then have "mstate cl = \<lparr>commands = [], count = 0, cmd_flags = 0, cmd_inv_flags = 0, argv_len_sums = 0, alloc_count = 0\<rparr>"
      "CLIENT_DIRTY_EXEC \<notin> flags cl"
      by (auto simp: initClientMultiState_def) (metis client.select_convs(3) client.surjective client.update_convs(3))
    then show ?thesis
      by (simp add: client_ok_def mstate_ok_def)
  qed
  ultimately show ?thesis
    by (simp add: server_ok_def)
qed

lemma reachable_ok:
  assumes "call_ok call" "reachable call acl s"
  shows "server_ok s"
  using assms(2)
proof induction
  case (start s)
  then show ?case
    by (rule init_server_ok)
next
  case (event s ev s')
  then show ?case
    using serverStep_good [OF assms(1) event.IH event.hyps(2), of acl] by auto
qed




section \<open>Properties\<close>

text \<open>C6: In every reachable state, with any history of connections and disconnections, commands, refused and redirected commands, changes of keys, flushes, exchanges of databases and time, each event
  returns without an access to freed memory or a failed assertion, and leads to a well-formed state again: every watched-key structure is linked from
  exactly its client and the list of its key, no empty list stays behind, and the array of queued commands is filled up to its count.
\<close>

theorem reachable_server_progress:
  assumes "call_ok call" "reachable call acl s" "valid_event s ev"
  shows "\<exists>s'. serverStep call acl s ev = Some s' \<and> server_ok s'"
  using serverStep_good [OF assms(1) reachable_ok [OF assms(1,2)] assms(3), of acl] by blast



section \<open>Concrete runs\<close>

definition no_call :: "call_flags \<Rightarrow> cid \<Rightarrow> nat redisServer \<Rightarrow> nat redisServer option" where
  "no_call f c s = Some s"

definition no_acl :: "cid \<Rightarrow> nat redisServer \<Rightarrow> nat" where
  "no_acl c s = 0"

text \<open>Two clients and one key; the argument is the time at which the key expires.\<close>

definition demo_server :: "int option \<Rightarrow> nat redisServer" where
  "demo_server e = \<lparr>clients = [1 \<mapsto> createClient, 2 \<mapsto> createClient],
     dbs = (\<lambda>d. \<lparr>db_dict = (if d = 0 then Map.empty([7] \<mapsto> 1) else Map.empty), db_expires = (if d = 0 then Map.empty([7] := e) else Map.empty),
              db_watched = Map.empty\<rparr>),
     dbnum = 16, wks = Map.empty, wlists = Map.empty, brk = 0, in_exec = False, loading = False, now = 20\<rparr>"

abbreviation watch_event :: "cid \<Rightarrow> nat event" where
  "watch_event c \<equiv> EvCommand c \<lparr>mc_cmd = ProcWatch, mc_argv = [[], [7]], mc_argv_len = 2\<rparr> 1 0"



lemma no_call_ok: "call_ok no_call"
  by (auto simp: call_ok_def no_call_def queueable_def)

lemma demo_reachable: "reachable no_call no_acl (demo_server e)"
  by (rule reachable.start) (auto simp: init_server_def demo_server_def createClient_def initClientMultiState_def split: if_splits)

lemma demo_valid: "valid_event (demo_server e) (watch_event 1)"
  by (simp add: demo_server_def createClient_def INT_MAX_def)

theorem reachable_server_progress_witness:
  "call_ok no_call \<and> reachable no_call no_acl (demo_server None) \<and> valid_event (demo_server None) (watch_event 1) \<and>
   (\<exists>s'. serverStep no_call no_acl (demo_server None) (watch_event 1) = Some s' \<and> server_ok s')"
  using reachable_server_progress [OF no_call_ok demo_reachable demo_valid [of None]] no_call_ok demo_reachable demo_valid by blast





end
