(* ===== verification/Skiplist.thy ===== *)
theory Skiplist
  imports Redis_Prelude
begin

text \<open>
  The skip list of the sorted sets (\<^verbatim>\<open>t_zset.c\<close>, \<^verbatim>\<open>server.h\<close>).

  \<^item> Nodes live in a heap and have an array of levels, each with a forward pointer and a span, the number of
    nodes that the pointer crosses. Access to an address that is not allocated and to a level that a node does not have is a fault (\<open>None\<close>).
  \<^item> Scores and elements are of linearly ordered types: a score is never \<^verbatim>\<open>NaN\<close>, which the code asserts, and \<^verbatim>\<open>sdscmp\<close> is a linear order of the
    strings. Spans and ranks are natural numbers; a subtraction that would wrap around is a fault, so that
    the theorems show that none does.
  \<^item> \<^verbatim>\<open>zslCreateNode\<close> leaves the backward pointer and the levels of a new node unset and its callers write all of them; here they start empty.
    \<^verbatim>\<open>zslFreeNode\<close> also frees the string of the node, which is a value here.
  \<^item> The random numbers that decide the height of a node are an argument, and so is the memory that the
    allocator returns, as the next free address.
  \<^item> This theory has the operations and what they do to the links and spans of every level: the search (\<open>descend_correct\<close>), insertion (\<open>zslInsert_at\<close>) and deletion
    (\<open>zslDeleteNode_at\<close>) at a given place. The order of the keys is in the next theory.
\<close>

section \<open>Nodes and lists\<close>

type_synonym zaddr = nat
type_synonym zlevel = "zaddr option \<times> nat"

record ('s, 'e) zskiplistNode =
  ele :: "'e option"
  score :: 's
  backward :: "zaddr option"
  level :: "zlevel list"

type_synonym ('s, 'e) zheap = "zaddr \<rightharpoonup> ('s, 'e) zskiplistNode"

record zskiplist =
  header :: zaddr
  tail :: "zaddr option"
  zlength :: nat
  zlevel :: nat

record ('s, 'e) zstate =
  heap :: "('s, 'e) zheap"
  zbrk :: zaddr
  zsl :: zskiplist

definition ZSKIPLIST_MAXLEVEL :: nat where
  "ZSKIPLIST_MAXLEVEL = 32"

definition csub :: "nat \<Rightarrow> nat \<Rightarrow> nat option" where
  "csub a b = (if b \<le> a then Some (a - b) else None)"

definition lv_get :: "('s, 'e) zskiplistNode \<Rightarrow> nat \<Rightarrow> zlevel option" where
  "lv_get n i = (if i < length (level n) then Some (level n ! i) else None)"

definition set_level :: "('s, 'e) zheap \<Rightarrow> zaddr \<Rightarrow> nat \<Rightarrow> zlevel \<Rightarrow> ('s, 'e) zheap option" where
  "set_level h x i l = do {
     n \<leftarrow> h x;
     if i < length (level n) then Some (h(x \<mapsto> n\<lparr>level := (level n)[i := l]\<rparr>)) else None
   }"

definition get_level :: "('s, 'e) zheap \<Rightarrow> zaddr \<Rightarrow> nat \<Rightarrow> zlevel option" where
  "get_level h x i = do { n \<leftarrow> h x; lv_get n i }"

definition set_backward :: "('s, 'e) zheap \<Rightarrow> zaddr \<Rightarrow> zaddr option \<Rightarrow> ('s, 'e) zheap option" where
  "set_backward h x b = do { n \<leftarrow> h x; Some (h(x \<mapsto> n\<lparr>backward := b\<rparr>)) }"

definition zslCreateNode :: "nat \<Rightarrow> 's \<Rightarrow> 'e option \<Rightarrow> ('s, 'e) zskiplistNode" where
  "zslCreateNode lv s e = \<lparr>ele = e, score = s, backward = None, level = replicate lv (None, 0)\<rparr>"

definition zslCreate :: "('s :: zero, 'e) zheap \<Rightarrow> zaddr \<Rightarrow> ('s, 'e) zstate" where
  "zslCreate h a =
     \<lparr>heap = h(a \<mapsto> zslCreateNode ZSKIPLIST_MAXLEVEL 0 None), zbrk = Suc a,
      zsl = \<lparr>header = a, tail = None, zlength = 0, zlevel = 1\<rparr>\<rparr>"

text \<open>\<^verbatim>\<open>random() < threshold\<close> on successive calls; \<open>None\<close> if the numbers do not suffice.\<close>

fun random_loop :: "nat \<Rightarrow> bool list \<Rightarrow> nat option" where
  "random_loop lv [] = None"
| "random_loop lv (True # rs) = random_loop (Suc lv) rs"
| "random_loop lv (False # rs) = Some lv"

definition zslRandomLevel :: "bool list \<Rightarrow> nat option" where
  "zslRandomLevel rs = do {
     lv \<leftarrow> random_loop 1 rs;
     Some (if lv < ZSKIPLIST_MAXLEVEL then lv else ZSKIPLIST_MAXLEVEL)
   }"

section \<open>Searching\<close>

text \<open>
  All functions search in the same way: on each level, from the highest, they move forward as long as a condition holds of the
  distance crossed so far, the span of the pointer and the next node. \<open>walk\<close> is the inner loop; \<open>descend\<close> is the outer loop,
  which returns the node and the distance at which it left each level.
\<close>

partial_function (option) walk ::
  "('s, 'e) zheap \<Rightarrow> (nat \<Rightarrow> nat \<Rightarrow> ('s, 'e) zskiplistNode \<Rightarrow> bool) \<Rightarrow> nat \<Rightarrow> zaddr \<Rightarrow> nat \<Rightarrow> (zaddr \<times> nat) option" where
  "walk h go i x r = do {
     l \<leftarrow> get_level h x i;
     case fst l of
       None \<Rightarrow> Some (x, r)
     | Some y \<Rightarrow> do {
         m \<leftarrow> h y;
         if go r (snd l) m then walk h go i y (r + snd l) else Some (x, r)
       }
   }"

primrec descend ::
  "('s, 'e) zheap \<Rightarrow> (nat \<Rightarrow> nat \<Rightarrow> ('s, 'e) zskiplistNode \<Rightarrow> bool) \<Rightarrow> nat \<Rightarrow> zaddr \<Rightarrow> nat \<Rightarrow> (zaddr \<times> nat) list option" where
  "descend h go 0 x r = Some []"
| "descend h go (Suc i) x r = do {
     (x, r) \<leftarrow> walk h go i x r;
     us \<leftarrow> descend h go i x r;
     Some (us @ [(x, r)])
   }"

definition node_less :: "'s :: linorder \<Rightarrow> 'e :: linorder \<Rightarrow> ('s, 'e) zskiplistNode \<Rightarrow> bool" where
  "node_less s e m \<longleftrightarrow> score m < s \<or> (score m = s \<and> (case ele m of None \<Rightarrow> False | Some f \<Rightarrow> f < e))"

definition node_leq :: "'s :: linorder \<Rightarrow> 'e :: linorder \<Rightarrow> ('s, 'e) zskiplistNode \<Rightarrow> bool" where
  "node_leq s e m \<longleftrightarrow> score m < s \<or> (score m = s \<and> (case ele m of None \<Rightarrow> False | Some f \<Rightarrow> f \<le> e))"

section \<open>Insertion and deletion\<close>

primrec grow_loop :: "zaddr \<Rightarrow> nat \<Rightarrow> nat \<Rightarrow> nat \<Rightarrow> ('s, 'e) zheap \<Rightarrow> ('s, 'e) zheap option" where
  "grow_loop hdr len i 0 h = Some h"
| "grow_loop hdr len i (Suc n) h = do {
     l \<leftarrow> get_level h hdr i;
     h \<leftarrow> set_level h hdr i (fst l, len);
     grow_loop hdr len (Suc i) n h
   }"

primrec link_loop :: "zaddr \<Rightarrow> nat \<Rightarrow> (zaddr \<times> nat) list \<Rightarrow> nat \<Rightarrow> ('s, 'e) zheap \<Rightarrow> ('s, 'e) zheap option" where
  "link_loop a rank0 [] i h = Some h"
| "link_loop a rank0 (u # us) i h = do {
     l \<leftarrow> get_level h (fst u) i;
     d \<leftarrow> csub rank0 (snd u);
     s \<leftarrow> csub (snd l) d;
     h \<leftarrow> set_level h a i (fst l, s);
     h \<leftarrow> set_level h (fst u) i (Some a, d + 1);
     link_loop a rank0 us (Suc i) h
   }"

primrec incr_loop :: "(zaddr \<times> nat) list \<Rightarrow> nat \<Rightarrow> ('s, 'e) zheap \<Rightarrow> ('s, 'e) zheap option" where
  "incr_loop [] i h = Some h"
| "incr_loop (u # us) i h = do {
     l \<leftarrow> get_level h (fst u) i;
     h \<leftarrow> set_level h (fst u) i (fst l, snd l + 1);
     incr_loop us (Suc i) h
   }"

definition zslInsert :: "('s :: linorder, 'e :: linorder) zstate \<Rightarrow> nat \<Rightarrow> 's \<Rightarrow> 'e \<Rightarrow> (('s, 'e) zstate \<times> zaddr) option" where
  "zslInsert st lv s e = do {
     let z = zsl st;
     us \<leftarrow> descend (heap st) (\<lambda>r sp m. node_less s e m) (zlevel z) (header z) 0;
     h \<leftarrow> grow_loop (header z) (zlength z) (zlevel z) (lv - zlevel z) (heap st);
     let us = us @ replicate (lv - zlevel z) (header z, 0);
     let zl = (if lv > zlevel z then lv else zlevel z);
     let a = zbrk st;
     let h = h(a \<mapsto> zslCreateNode lv s (Some e));
     (u0, rank0) \<leftarrow> (case us of [] \<Rightarrow> None | u # _ \<Rightarrow> Some u);
     h \<leftarrow> link_loop a rank0 (take lv us) 0 h;
     h \<leftarrow> incr_loop (drop lv us) lv h;
     h \<leftarrow> set_backward h a (if u0 = header z then None else Some u0);
     l \<leftarrow> get_level h a 0;
     (h, tl) \<leftarrow> (case fst l of
        Some y \<Rightarrow> do { h \<leftarrow> set_backward h y (Some a); Some (h, tail z) }
      | None \<Rightarrow> Some (h, Some a));
     Some (\<lparr>heap = h, zbrk = Suc a, zsl = \<lparr>header = header z, tail = tl, zlength = Suc (zlength z), zlevel = zl\<rparr>\<rparr>, a)
   }"

primrec unlink_loop :: "zaddr \<Rightarrow> zaddr list \<Rightarrow> nat \<Rightarrow> ('s, 'e) zheap \<Rightarrow> ('s, 'e) zheap option" where
  "unlink_loop x [] i h = Some h"
| "unlink_loop x (u # us) i h = do {
     l \<leftarrow> get_level h u i;
     h \<leftarrow> (if fst l = Some x
          then do {
            m \<leftarrow> get_level h x i;
            s \<leftarrow> csub (snd l + snd m) 1;
            set_level h u i (fst m, s)
          }
          else do { s \<leftarrow> csub (snd l) 1; set_level h u i (fst l, s) });
     unlink_loop x us (Suc i) h
   }"

primrec shrink_level :: "('s, 'e) zheap \<Rightarrow> zaddr \<Rightarrow> nat \<Rightarrow> nat option" where
  "shrink_level h hdr 0 = Some 0"
| "shrink_level h hdr (Suc i) =
     (if 0 < i then do {
        l \<leftarrow> get_level h hdr i;
        if fst l = None then shrink_level h hdr i else Some (Suc i)
      }
      else Some (Suc i))"

definition zslDeleteNode :: "('s, 'e) zstate \<Rightarrow> zaddr \<Rightarrow> zaddr list \<Rightarrow> ('s, 'e) zstate option" where
  "zslDeleteNode st x us = do {
     let z = zsl st;
     h \<leftarrow> unlink_loop x (take (zlevel z) us) 0 (heap st);
     n \<leftarrow> h x;
     l \<leftarrow> get_level h x 0;
     (h, tl) \<leftarrow> (case fst l of
        Some y \<Rightarrow> do { h \<leftarrow> set_backward h y (backward n); Some (h, tail z) }
      | None \<Rightarrow> Some (h, backward n));
     zl \<leftarrow> shrink_level h (header z) (zlevel z);
     len \<leftarrow> csub (zlength z) 1;
     Some (st\<lparr>heap := h, zsl := \<lparr>header = header z, tail = tl, zlength = len, zlevel = zl\<rparr>\<rparr>)
   }"

definition zslFreeNode :: "('s, 'e) zstate \<Rightarrow> zaddr \<Rightarrow> ('s, 'e) zstate" where
  "zslFreeNode st x = st\<lparr>heap := (heap st)(x := None)\<rparr>"

definition node_is :: "'s \<Rightarrow> 'e \<Rightarrow> ('s, 'e) zskiplistNode \<Rightarrow> bool" where
  "node_is s e n \<longleftrightarrow> s = score n \<and> ele n = Some e"

text \<open>The result says whether the node was found. The node is freed, as with a \<^verbatim>\<open>NULL\<close> argument for it.\<close>

definition zslDelete :: "('s :: linorder, 'e :: linorder) zstate \<Rightarrow> 's \<Rightarrow> 'e \<Rightarrow> (('s, 'e) zstate \<times> bool) option" where
  "zslDelete st s e = do {
     us \<leftarrow> descend (heap st) (\<lambda>r sp m. node_less s e m) (zlevel (zsl st)) (header (zsl st)) 0;
     (x, r) \<leftarrow> (case us of [] \<Rightarrow> None | u # _ \<Rightarrow> Some u);
     l \<leftarrow> get_level (heap st) x 0;
     case fst l of
       None \<Rightarrow> Some (st, False)
     | Some y \<Rightarrow> do {
         n \<leftarrow> heap st y;
         if node_is s e n then do {
           st \<leftarrow> zslDeleteNode st y (map fst us);
           Some (zslFreeNode st y, True)
         }
         else Some (st, False)
       }
   }"

definition zslUpdateScore ::
  "('s :: linorder, 'e :: linorder) zstate \<Rightarrow> nat \<Rightarrow> 's \<Rightarrow> 'e \<Rightarrow> 's \<Rightarrow> (('s, 'e) zstate \<times> zaddr) option" where
  "zslUpdateScore st lv curscore e newscore = do {
     us \<leftarrow> descend (heap st) (\<lambda>r sp m. node_less curscore e m) (zlevel (zsl st)) (header (zsl st)) 0;
     (x, r) \<leftarrow> (case us of [] \<Rightarrow> None | u # _ \<Rightarrow> Some u);
     l \<leftarrow> get_level (heap st) x 0;
     x \<leftarrow> fst l;
     n \<leftarrow> heap st x;
     if \<not> node_is curscore e n then None else do {
       back_ok \<leftarrow> (case backward n of None \<Rightarrow> Some True | Some b \<Rightarrow> do { bn \<leftarrow> heap st b; Some (score bn < newscore) });
       l \<leftarrow> get_level (heap st) x 0;
       next_ok \<leftarrow> (case fst l of None \<Rightarrow> Some True | Some y \<Rightarrow> do { yn \<leftarrow> heap st y; Some (score yn > newscore) });
       if back_ok \<and> next_ok then Some (st\<lparr>heap := (heap st)(x \<mapsto> n\<lparr>score := newscore\<rparr>)\<rparr>, x)
       else do {
         st \<leftarrow> zslDeleteNode st x (map fst us);
         (st, y) \<leftarrow> zslInsert st lv newscore e;
         Some (zslFreeNode st x, y)
       }
     }
   }"

section \<open>Ranks\<close>

primrec rank_loop :: "('s :: linorder, 'e :: linorder) zheap \<Rightarrow> 's \<Rightarrow> 'e \<Rightarrow> nat \<Rightarrow> zaddr \<Rightarrow> nat \<Rightarrow> nat option" where
  "rank_loop h s e 0 x r = Some 0"
| "rank_loop h s e (Suc i) x r = do {
     (x, r) \<leftarrow> walk h (\<lambda>r sp m. node_leq s e m) i x r;
     n \<leftarrow> h x;
     if ele n \<noteq> None \<and> node_is s e n then Some r else rank_loop h s e i x r
   }"

definition zslGetRank :: "('s :: linorder, 'e :: linorder) zstate \<Rightarrow> 's \<Rightarrow> 'e \<Rightarrow> nat option" where
  "zslGetRank st s e = rank_loop (heap st) s e (zlevel (zsl st)) (header (zsl st)) 0"

primrec by_rank_loop :: "('s, 'e) zheap \<Rightarrow> nat \<Rightarrow> nat \<Rightarrow> zaddr \<Rightarrow> nat \<Rightarrow> zaddr option option" where
  "by_rank_loop h rank 0 x r = Some None"
| "by_rank_loop h rank (Suc i) x r = do {
     (x, r) \<leftarrow> walk h (\<lambda>r sp m. r + sp \<le> rank) i x r;
     if r = rank then Some (Some x) else by_rank_loop h rank i x r
   }"

definition zslGetElementByRank :: "('s, 'e) zstate \<Rightarrow> nat \<Rightarrow> zaddr option option" where
  "zslGetElementByRank st rank = by_rank_loop (heap st) rank (zlevel (zsl st)) (header (zsl st)) 0"

section \<open>Heaps up to levels\<close>

text \<open>
  What the proofs look at: the height of a node, its levels and the rest of it.
\<close>

definition ht :: "('s, 'e) zheap \<Rightarrow> zaddr \<Rightarrow> nat" where
  "ht h x = (case h x of None \<Rightarrow> 0 | Some n \<Rightarrow> length (level n))"

definition lvl :: "('s, 'e) zheap \<Rightarrow> zaddr \<Rightarrow> nat \<Rightarrow> zlevel" where
  "lvl h x i = level (the (h x)) ! i"

definition info :: "('s, 'e) zheap \<Rightarrow> zaddr \<Rightarrow> ('e option \<times> 's \<times> zaddr option) option" where
  "info h x = map_option (\<lambda>n. (ele n, score n, backward n)) (h x)"

lemma get_level_eq: "get_level h x i = (if i < ht h x then Some (lvl h x i) else None)"
  by (cases "h x") (simp_all add: get_level_def lv_get_def ht_def lvl_def)

lemma set_level_correct:
  assumes "i < ht h x"
  shows "\<exists>h'. set_level h x i l = Some h' \<and> ht h' = ht h \<and> info h' = info h \<and>
    (\<forall>y j. lvl h' y j = (if y = x \<and> j = i then l else lvl h y j))"
proof -
  obtain n where n: "h x = Some n" "i < length (level n)"
    using assms by (auto simp: ht_def split: option.splits)
  let ?h = "h(x \<mapsto> n\<lparr>level := (level n)[i := l]\<rparr>)"
  have "ht ?h = ht h" "info ?h = info h"
    using n(1) by (auto simp: ht_def info_def fun_eq_iff)
  moreover have "lvl ?h y j = (if y = x \<and> j = i then l else lvl h y j)" for y j
    using n by (auto simp: lvl_def)
  ultimately show ?thesis
    using n by (intro exI [of _ ?h]) (simp add: set_level_def)
qed

lemma set_backward_correct:
  assumes "h x \<noteq> None"
  shows "\<exists>h'. set_backward h x b = Some h' \<and> ht h' = ht h \<and> lvl h' = lvl h \<and>
    (\<forall>y. info h' y = (if y = x then map_option (\<lambda>(e, s, b'). (e, s, b)) (info h y) else info h y))"
proof -
  obtain n where n: "h x = Some n"
    using assms by blast
  let ?h = "h(x \<mapsto> n\<lparr>backward := b\<rparr>)"
  have "ht ?h = ht h" "lvl ?h = lvl h"
    using n by (auto simp: ht_def lvl_def fun_eq_iff)
  moreover have "info ?h y = (if y = x then map_option (\<lambda>(e, s, b'). (e, s, b)) (info h y) else info h y)" for y
    using n by (simp add: info_def)
  ultimately show ?thesis
    using n by (intro exI [of _ ?h]) (simp add: set_backward_def)
qed

lemma info_None: "info h x = None \<longleftrightarrow> h x = None"
  by (simp add: info_def)

lemma ht_pos: "0 < ht h x \<Longrightarrow> h x \<noteq> None"
  by (simp add: ht_def split: option.splits)

section \<open>Chains of one level\<close>

text \<open>What level \<open>i\<close> of a node holds that stands before the nodes \<open>xs\<close>: the first node of \<open>xs\<close> that is higher than \<open>i\<close> and the distance to it, or no
  node and the distance to the end.\<close>

primrec link :: "(zaddr \<Rightarrow> nat) \<Rightarrow> nat \<Rightarrow> zaddr list \<Rightarrow> zlevel" where
  "link H i [] = (None, 0)"
| "link H i (y # ys) = (if i < H y then (Some y, 1) else (fst (link H i ys), Suc (snd (link H i ys))))"

primrec linked_at :: "('s, 'e) zheap \<Rightarrow> nat \<Rightarrow> zaddr list \<Rightarrow> bool" where
  "linked_at h i [] = True"
| "linked_at h i (x # xs) = ((i < ht h x \<longrightarrow> lvl h x i = link (ht h) i xs) \<and> linked_at h i xs)"

definition last_at :: "(zaddr \<Rightarrow> nat) \<Rightarrow> nat \<Rightarrow> zaddr list \<Rightarrow> zaddr \<Rightarrow> nat \<Rightarrow> bool" where
  "last_at H i A x r \<longleftrightarrow> (\<exists>A1 A2. A = A1 @ x # A2 \<and> r = length A1 \<and> i < H x \<and> (\<forall>y\<in>set A2. H y \<le> i))"

lemma link_skip: "\<forall>y\<in>set xs. H y \<le> i \<Longrightarrow> link H i (xs @ ys) = (fst (link H i ys), length xs + snd (link H i ys))"
  by (induction xs) auto

lemma link_stop: "i < H y \<Longrightarrow> link H i (xs @ y # ys) = link H i (xs @ y # zs)"
  by (induction xs) auto

lemma link_first: "\<forall>z\<in>set xs. H z \<le> i \<Longrightarrow> i < H y \<Longrightarrow> link H i (xs @ y # ys) = (Some y, Suc (length xs))"
  by (simp add: link_skip)

lemma link_low: "fst (link H i xs) = None \<longleftrightarrow> (\<forall>y\<in>set xs. H y \<le> i)"
  by (induction xs) auto

lemma link_nth: "fst (link H i xs) = Some y \<Longrightarrow> 0 < snd (link H i xs) \<and> snd (link H i xs) \<le> length xs \<and> xs ! (snd (link H i xs) - 1) = y \<and> y \<in> set xs"
proof (induction xs)
  case (Cons x xs)
  show ?case
  proof (cases "i < H x")
    case False
    then have "fst (link H i xs) = Some y"
      using Cons.prems by simp
    from Cons.IH [OF this] show ?thesis
      using False by (simp add: nth_Cons')
  qed (use Cons.prems in simp)
qed simp

lemma linked_at_cong:
  assumes "linked_at h i xs" "ht h' = ht h" "\<And>x. x \<in> set xs \<Longrightarrow> lvl h' x i = lvl h x i"
  shows "linked_at h' i xs"
  using assms(1,3) by (induction xs) (auto simp: assms(2))

lemma linked_at_split: "linked_at h i (A1 @ x # C) \<Longrightarrow> i < ht h x \<Longrightarrow> lvl h x i = link (ht h) i C"
  by (induction A1) auto

lemma linked_at_tl: "linked_at h i (A @ B) \<Longrightarrow> linked_at h i B"
  by (induction A) auto

text \<open>A chain in which the level of one node \<open>u\<close> is replaced and the nodes behind it change up to a common tail.\<close>

lemma linked_at_replace:
  assumes "linked_at h i (A1 @ u # C)" "i < ht h u" "u \<notin> set A1" "ht h' = ht h"
    "\<And>x. x \<in> set A1 \<Longrightarrow> lvl h' x i = lvl h x i" "lvl h' u i = link (ht h) i D" "linked_at h' i D"
  shows "linked_at h' i (A1 @ u # D)"
  using assms(1,3,5)
proof (induction A1)
  case Nil
  then show ?case
    using assms(4,6,7) by simp
next
  case (Cons x A1)
  have "link (ht h) i (A1 @ u # C) = link (ht h) i (A1 @ u # D)"
    using assms(2) by (rule link_stop)
  then show ?case
    using Cons assms(4) by simp
qed

lemma walk_correct:
  assumes lk: "linked_at h i (A @ B)" and ex: "\<And>y. y \<in> set (A @ B) \<Longrightarrow> h y \<noteq> None"
    and go: "\<And>r sp m. r + sp < length (A @ B) \<Longrightarrow> 0 < sp \<Longrightarrow> h ((A @ B) ! (r + sp)) = Some m \<Longrightarrow> go r sp m \<longleftrightarrow> r + sp < length A"
    and A: "A = A1 @ x # A2" and i: "i < ht h x"
  shows "\<exists>x' r'. walk h go i x (length A1) = Some (x', r') \<and> last_at (ht h) i A x' r'"
  using A i
proof (induction "length A2" arbitrary: A1 x A2 rule: less_induct)
  case less
  have l: "lvl h x i = link (ht h) i (A2 @ B)"
    using linked_at_split [of h i A1 x "A2 @ B"] lk less.prems by simp
  have g: "get_level h x i = Some (lvl h x i)"
    using less.prems(2) by (simp add: get_level_eq)
  show ?case
  proof (cases "\<exists>y\<in>set A2. i < ht h y")
    case True
    then obtain C y D where s: "A2 = C @ y # D" "i < ht h y" "\<forall>z\<in>set C. \<not> i < ht h z"
      using split_list_first_prop [of A2 "\<lambda>y. i < ht h y"] by blast
    have ly: "lvl h x i = (Some y, Suc (length C))"
      using l s link_first [of C "ht h" i y "D @ B"] by (simp add: not_less)
    obtain m where m: "h y = Some m"
      using ex [of y] less.prems(1) s(1) by auto
    have "(A @ B) ! (length A1 + Suc (length C)) = y" "length A1 + Suc (length C) < length A"
      using less.prems(1) s(1) by (simp_all add: nth_append)
    then have "go (length A1) (Suc (length C)) m"
      using go [of "length A1" "Suc (length C)" m] m by simp
    then have "walk h go i x (length A1) = walk h go i y (length (A1 @ x # C))"
      using g ly m by (subst walk.simps) simp
    moreover have "\<exists>x' r'. walk h go i y (length (A1 @ x # C)) = Some (x', r') \<and> last_at (ht h) i A x' r'"
      using less.hyps [of D "A1 @ x # C" y] less.prems s by simp
    ultimately show ?thesis
      by simp
  next
    case False
    then have low: "\<forall>y\<in>set A2. ht h y \<le> i"
      by auto
    have l2: "lvl h x i = (fst (link (ht h) i B), length A2 + snd (link (ht h) i B))"
      using l low by (simp add: link_skip)
    have "walk h go i x (length A1) = Some (x, length A1)"
    proof (cases "fst (link (ht h) i B)")
      case None
      then show ?thesis
        using g l2 by (subst walk.simps) simp
    next
      case (Some y)
      let ?s = "snd (link (ht h) i B)"
      have b: "0 < ?s" "?s \<le> length B" "B ! (?s - 1) = y" "y \<in> set B"
        using link_nth [OF Some] by simp_all
      obtain m where m: "h y = Some m"
        using ex [of y] b(4) by auto
      have p: "length A1 + (length A2 + ?s) = length A + (?s - 1)"
        using b(1) less.prems(1) by simp
      have "(A @ B) ! (length A1 + (length A2 + ?s)) = y"
        unfolding p using b(3) by (simp only: nth_append_length_plus)
      then have "\<not> go (length A1) (length A2 + ?s) m"
        using go [of "length A1" "length A2 + ?s" m] m b(1,2) less.prems(1) by simp
      then show ?thesis
        using g l2 Some m by (subst walk.simps) simp
    qed
    then show ?thesis
      using less.prems low by (auto simp: last_at_def)
  qed
qed

lemma descend_correct:
  assumes lk: "\<And>i. i < n \<Longrightarrow> linked_at h i (A @ B)" and ex: "\<And>y. y \<in> set (A @ B) \<Longrightarrow> h y \<noteq> None"
    and go: "\<And>r sp m. r + sp < length (A @ B) \<Longrightarrow> 0 < sp \<Longrightarrow> h ((A @ B) ! (r + sp)) = Some m \<Longrightarrow> go r sp m \<longleftrightarrow> r + sp < length A"
    and A: "A = A1 @ x # A2" and n: "n \<le> ht h x"
  shows "\<exists>us. descend h go n x (length A1) = Some us \<and> length us = n \<and> (\<forall>i<n. last_at (ht h) i A (fst (us ! i)) (snd (us ! i)))"
  using lk A n
proof (induction n arbitrary: A1 x A2)
  case (Suc n)
  have w1: "\<exists>x' r'. walk h go n x (length A1) = Some (x', r') \<and> last_at (ht h) n A x' r'"
  proof (rule walk_correct [where B = B])
    show "linked_at h n (A @ B)"
      using Suc.prems(1) by simp
    show "h y \<noteq> None" if "y \<in> set (A @ B)" for y
      using that by (rule ex)
    show "go r sp m \<longleftrightarrow> r + sp < length A" if "r + sp < length (A @ B)" "0 < sp" "h ((A @ B) ! (r + sp)) = Some m" for r sp m
      using that by (rule go)
    show "A = A1 @ x # A2" "n < ht h x"
      using Suc.prems(2,3) by simp_all
  qed
  obtain x' r' where w: "walk h go n x (length A1) = Some (x', r')" "last_at (ht h) n A x' r'"
    using w1 by blast
  then obtain B1 B2 where b: "A = B1 @ x' # B2" "r' = length B1" "n < ht h x'"
    by (auto simp: last_at_def)
  obtain us where us: "descend h go n x' (length B1) = Some us" "length us = n"
    "\<forall>i<n. last_at (ht h) i A (fst (us ! i)) (snd (us ! i))"
    using Suc.IH [OF _ b(1)] Suc.prems(1) b(3) by auto
  then show ?case
    using w b(2) by (auto simp: nth_append less_Suc_eq)
qed simp

section \<open>Linking and unlinking level by level\<close>

lemma last_at_len: "last_at H i A x r \<Longrightarrow> r < length A \<and> x \<in> set A \<and> i < H x"
  by (auto simp: last_at_def)

lemma link_level:
  assumes lk: "linked_at h i (A @ B)" and u: "last_at (ht h) i A u r" and a: "a \<notin> set (A @ B)" "i < ht h a" and d: "distinct (A @ B)"
    and h': "ht h' = ht h" "\<And>y j. lvl h' y j = (if y = u \<and> j = i then (Some a, length A - r) else
       if y = a \<and> j = i then (fst (lvl h u i), snd (lvl h u i) - (length A - 1 - r)) else lvl h y j)"
  shows "linked_at h' i (A @ a # B)" "length A - 1 - r \<le> snd (lvl h u i)"
proof -
  obtain A1 A2 where A: "A = A1 @ u # A2" "r = length A1" "i < ht h u" "\<forall>y\<in>set A2. ht h y \<le> i"
    using u by (auto simp: last_at_def)
  have lu: "lvl h u i = (fst (link (ht h) i B), length A2 + snd (link (ht h) i B))"
    using linked_at_split [of h i A1 u "A2 @ B"] lk A by (simp add: link_skip)
  have ne: "u \<noteq> a" "u \<notin> set A1" "u \<notin> set A2" "u \<notin> set B"
    using a d A(1) by auto
  have B: "linked_at h' i B"
    by (rule linked_at_cong [OF linked_at_tl [OF lk] h'(1)]) (use ne(4) a(1) h'(2) in auto)
  moreover have "lvl h' a i = link (ht h') i B"
    using h' lu A(1,2) ne(1) by simp
  ultimately have aB: "linked_at h' i (a # B)"
    by simp
  have low: "linked_at h' i (A2' @ a # B)" if "\<forall>y\<in>set A2'. ht h y \<le> i" for A2'
    using that aB h'(1) by (induction A2') auto
  have "linked_at h' i (A1 @ u # A2 @ a # B)"
  proof (rule linked_at_replace [of h i A1 u "A2 @ B"])
    show "linked_at h i (A1 @ u # A2 @ B)"
      using lk A(1) by simp
    show "lvl h' x i = lvl h x i" if "x \<in> set A1" for x
    proof -
      have "x \<noteq> u" "x \<noteq> a"
        using that ne(2) a(1) A(1) by auto
      then show ?thesis
        by (simp add: h'(2))
    qed
    show "lvl h' u i = link (ht h) i (A2 @ a # B)"
      using A(1,2,4) a(2) by (simp add: h'(2) link_first)
    show "linked_at h' i (A2 @ a # B)"
      using A(4) by (rule low)
  qed (use A(3) ne(2) h'(1) in simp_all)
  then show "linked_at h' i (A @ a # B)"
    using A(1) by simp
  show "length A - 1 - r \<le> snd (lvl h u i)"
    using lu A(1,2) by simp
qed

lemma link_loop_correct:
  assumes "\<And>j. j < length us \<Longrightarrow> linked_at h (i + j) (A @ B) \<and> last_at (ht h) (i + j) A (fst (us ! j)) (snd (us ! j))"
    and "a \<notin> set (A @ B)" "i + length us \<le> ht h a" "distinct (A @ B)"
  shows "\<exists>h'. link_loop a (length A - 1) us i h = Some h' \<and> ht h' = ht h \<and> info h' = info h \<and>
    (\<forall>j. i \<le> j \<longrightarrow> j < i + length us \<longrightarrow> linked_at h' j (A @ a # B)) \<and>
    (\<forall>j y. j < i \<or> i + length us \<le> j \<longrightarrow> lvl h' y j = lvl h y j)"
  using assms
proof (induction us arbitrary: i h)
  case (Cons u us)
  obtain x r where u: "u = (x, r)"
    by (cases u)
  have lk: "linked_at h i (A @ B)" and la: "last_at (ht h) i A x r"
    using Cons.prems(1) [of 0] u by simp_all
  have ia: "i < ht h a"
    using Cons.prems(3) by simp
  have xa: "x \<noteq> a" "i < ht h x" "r < length A"
    using last_at_len [OF la] Cons.prems(2) by auto
  let ?l = "lvl h x i" and ?d = "length A - 1 - r"
  obtain h1 where h1: "set_level h a i (fst ?l, snd ?l - ?d) = Some h1" "ht h1 = ht h" "info h1 = info h"
    "\<forall>y j. lvl h1 y j = (if y = a \<and> j = i then (fst ?l, snd ?l - ?d) else lvl h y j)"
    using set_level_correct [OF ia] by blast
  have "i < ht h1 x"
    using h1(2) xa(2) by simp
  then obtain h2 where h2: "set_level h1 x i (Some a, ?d + 1) = Some h2" "ht h2 = ht h1" "info h2 = info h1"
    "\<forall>y j. lvl h2 y j = (if y = x \<and> j = i then (Some a, ?d + 1) else lvl h1 y j)"
    using set_level_correct by blast
  have lv2: "lvl h2 y j = (if y = x \<and> j = i then (Some a, length A - r) else
       if y = a \<and> j = i then (fst ?l, snd ?l - ?d) else lvl h y j)" for y j
    using h2(4) h1(4) xa(1,3) by auto
  have ll: "linked_at h2 i (A @ a # B)" "?d \<le> snd ?l"
    using link_level [OF lk la Cons.prems(2) ia Cons.prems(4), of h2] h2(2) h1(2) lv2 by auto
  have "linked_at h2 (Suc i + j) (A @ B) \<and> last_at (ht h2) (Suc i + j) A (fst (us ! j)) (snd (us ! j))" if "j < length us" for j
    using Cons.prems(1) [of "Suc j"] that h2(2) h1(2) lv2 linked_at_cong [of h "Suc i + j" "A @ B" h2] by simp
  then obtain h' where h': "link_loop a (length A - 1) us (Suc i) h2 = Some h'" "ht h' = ht h2" "info h' = info h2"
    "\<forall>j. Suc i \<le> j \<longrightarrow> j < Suc i + length us \<longrightarrow> linked_at h' j (A @ a # B)"
    "\<forall>j y. j < Suc i \<or> Suc i + length us \<le> j \<longrightarrow> lvl h' y j = lvl h2 y j"
    using Cons.IH [where h = h2 and i = "Suc i"] Cons.prems h2(2) h1(2) by auto
  have "link_loop a (length A - 1) (u # us) i h = Some h'"
    using u xa ll(2) h1(1) h2(1) h'(1) by (simp add: get_level_eq csub_def)
  moreover have "linked_at h' j (A @ a # B)" if "i \<le> j" "j < i + length (u # us)" for j
  proof (cases "j = i")
    case True
    then show ?thesis
      using linked_at_cong [OF ll(1) h'(2)] h'(5) by auto
  next
    case False
    then show ?thesis
      using h'(4) that by simp
  qed
  moreover have "lvl h' y j = lvl h y j" if "j < i \<or> i + length (u # us) \<le> j" for j y
    using h'(5) lv2 that by auto
  ultimately show ?case
    using h'(2,3) h2(2,3) h1(2,3) by (intro exI [of _ h']) simp
qed simp

lemma incr_loop_correct:
  assumes "\<And>j. j < length us \<Longrightarrow> linked_at h (i + j) (A @ B) \<and> last_at (ht h) (i + j) A (fst (us ! j)) (snd (us ! j))"
    and "a \<notin> set (A @ B)" "ht h a \<le> i" "distinct (A @ B)"
  shows "\<exists>h'. incr_loop us i h = Some h' \<and> ht h' = ht h \<and> info h' = info h \<and>
    (\<forall>j. i \<le> j \<longrightarrow> j < i + length us \<longrightarrow> linked_at h' j (A @ a # B)) \<and>
    (\<forall>j y. j < i \<or> i + length us \<le> j \<longrightarrow> lvl h' y j = lvl h y j)"
  using assms
proof (induction us arbitrary: i h)
  case (Cons u us)
  obtain x r where u: "u = (x, r)"
    by (cases u)
  have lk: "linked_at h i (A @ B)" and la: "last_at (ht h) i A x r"
    using Cons.prems(1) [of 0] u by simp_all
  obtain A1 A2 where A: "A = A1 @ x # A2" "r = length A1" "i < ht h x" "\<forall>y\<in>set A2. ht h y \<le> i"
    using la by (auto simp: last_at_def)
  let ?l = "lvl h x i"
  obtain h1 where h1: "set_level h x i (fst ?l, snd ?l + 1) = Some h1" "ht h1 = ht h" "info h1 = info h"
    "\<forall>y j. lvl h1 y j = (if y = x \<and> j = i then (fst ?l, snd ?l + 1) else lvl h y j)"
    using set_level_correct [OF A(3)] by blast
  have lx: "?l = (fst (link (ht h) i B), length A2 + snd (link (ht h) i B))"
    using linked_at_split [of h i A1 x "A2 @ B"] lk A by (simp add: link_skip)
  have ne: "x \<notin> set A1" "x \<notin> set A2" "x \<notin> set B"
    using Cons.prems(4) A(1) by auto
  have "linked_at h1 i B"
    by (rule linked_at_cong [OF linked_at_tl [OF lk] h1(2)]) (use h1(4) ne(3) in auto)
  then have aB: "linked_at h1 i (a # B)"
    using h1(2) Cons.prems(3) by simp
  have low: "linked_at h1 i (A2' @ a # B)" if "\<forall>y\<in>set A2'. ht h y \<le> i" for A2'
    using that aB h1(2) by (induction A2') auto
  have "linked_at h1 i (A1 @ x # A2 @ a # B)"
  proof (rule linked_at_replace [of h i A1 x "A2 @ B"])
    show "linked_at h i (A1 @ x # A2 @ B)"
      using lk A(1) by simp
    show "lvl h1 y i = lvl h y i" if "y \<in> set A1" for y
      using that h1(4) ne(1) by auto
    show "lvl h1 x i = link (ht h) i (A2 @ a # B)"
      using h1(4) lx A(4) Cons.prems(3) link_skip [of "A2 @ [a]" "ht h" i B] by simp
    show "linked_at h1 i (A2 @ a # B)"
      using A(4) by (rule low)
  qed (use A(3) ne(1) h1(2) in simp_all)
  then have ll: "linked_at h1 i (A @ a # B)"
    using A(1) by simp
  have "linked_at h1 (Suc i + j) (A @ B) \<and> last_at (ht h1) (Suc i + j) A (fst (us ! j)) (snd (us ! j))" if "j < length us" for j
    using Cons.prems(1) [of "Suc j"] that h1(2,4) linked_at_cong [of h "Suc i + j" "A @ B" h1] by simp
  then obtain h' where h': "incr_loop us (Suc i) h1 = Some h'" "ht h' = ht h1" "info h' = info h1"
    "\<forall>j. Suc i \<le> j \<longrightarrow> j < Suc i + length us \<longrightarrow> linked_at h' j (A @ a # B)"
    "\<forall>j y. j < Suc i \<or> Suc i + length us \<le> j \<longrightarrow> lvl h' y j = lvl h1 y j"
    using Cons.IH [where h = h1 and i = "Suc i"] Cons.prems h1(2) by auto
  have "incr_loop (u # us) i h = Some h'"
    using u A(3) h1(1) h'(1) by (simp add: get_level_eq)
  moreover have "linked_at h' j (A @ a # B)" if "i \<le> j" "j < i + length (u # us)" for j
  proof (cases "j = i")
    case True
    then show ?thesis
      using linked_at_cong [OF ll h'(2)] h'(5) by auto
  next
    case False
    then show ?thesis
      using h'(4) that by simp
  qed
  moreover have "lvl h' y j = lvl h y j" if "j < i \<or> i + length (u # us) \<le> j" for j y
    using h'(5) h1(4) that by auto
  ultimately show ?case
    using h'(2,3) h1(2,3) by (intro exI [of _ h']) simp
qed simp

lemma unlink_loop_correct:
  assumes "\<And>j. j < length us \<Longrightarrow> linked_at h (i + j) (A @ x # B) \<and> (\<exists>r. last_at (ht h) (i + j) A (us ! j) r)"
    and "distinct (A @ x # B)"
  shows "\<exists>h'. unlink_loop x us i h = Some h' \<and> ht h' = ht h \<and> info h' = info h \<and>
    (\<forall>j. i \<le> j \<longrightarrow> j < i + length us \<longrightarrow> linked_at h' j (A @ B)) \<and>
    (\<forall>j y. y \<notin> set A \<or> j < i \<or> i + length us \<le> j \<longrightarrow> lvl h' y j = lvl h y j)"
  using assms
proof (induction us arbitrary: i h)
  case (Cons u us)
  have lk: "linked_at h i (A @ x # B)" and la: "\<exists>r. last_at (ht h) i A u r"
    using Cons.prems(1) [of 0] by simp_all
  obtain A1 A2 where A: "A = A1 @ u # A2" "i < ht h u" "\<forall>y\<in>set A2. ht h y \<le> i"
    using la by (auto simp: last_at_def)
  let ?l = "lvl h u i" and ?k = "link (ht h) i B"
  have lu: "?l = (if i < ht h x then (Some x, Suc (length A2)) else (fst ?k, Suc (length A2 + snd ?k)))"
    using linked_at_split [of h i A1 u "A2 @ x # B"] lk A by (simp add: link_skip)
  have lx: "lvl h x i = ?k" if "i < ht h x"
    using linked_at_split [of h i A x B] lk that by simp
  have ne: "u \<notin> set A1" "u \<notin> set A2" "u \<notin> set B" "u \<noteq> x" "x \<notin> set B"
    using Cons.prems(2) A(1) by auto
  have fx: "fst ?l = Some x \<longleftrightarrow> i < ht h x"
    using lu ne(5) link_nth [of "ht h" i B x] by auto
  let ?new = "(fst ?k, length A2 + snd ?k)"
  obtain h1 where h1: "set_level h u i ?new = Some h1" "ht h1 = ht h" "info h1 = info h"
    "\<forall>y j. lvl h1 y j = (if y = u \<and> j = i then ?new else lvl h y j)"
    using set_level_correct [OF A(2)] by blast
  have B: "linked_at h1 i B"
    by (rule linked_at_cong [OF linked_at_tl [of h i "A @ [x]" B] h1(2)]) (use lk h1(4) ne(3) in auto)
  have low: "linked_at h1 i (A2' @ B)" if "\<forall>y\<in>set A2'. ht h y \<le> i" for A2'
    using that B h1(2) by (induction A2') auto
  have "linked_at h1 i (A1 @ u # A2 @ B)"
  proof (rule linked_at_replace [of h i A1 u "A2 @ x # B"])
    show "linked_at h i (A1 @ u # A2 @ x # B)"
      using lk A(1) by simp
    show "lvl h1 y i = lvl h y i" if "y \<in> set A1" for y
      using that h1(4) ne(1) by auto
    show "lvl h1 u i = link (ht h) i (A2 @ B)"
      using h1(4) A(3) by (simp add: link_skip)
    show "linked_at h1 i (A2 @ B)"
      using A(3) by (rule low)
  qed (use A(2) ne(1) h1(2) in simp_all)
  then have ll: "linked_at h1 i (A @ B)"
    using A(1) by simp
  have "linked_at h1 (Suc i + j) (A @ x # B) \<and> (\<exists>r. last_at (ht h1) (Suc i + j) A (us ! j) r)" if "j < length us" for j
    using Cons.prems(1) [of "Suc j"] that h1(2,4) linked_at_cong [of h "Suc i + j" "A @ x # B" h1] by simp
  then obtain h' where h': "unlink_loop x us (Suc i) h1 = Some h'" "ht h' = ht h1" "info h' = info h1"
    "\<forall>j. Suc i \<le> j \<longrightarrow> j < Suc i + length us \<longrightarrow> linked_at h' j (A @ B)"
    "\<forall>j y. y \<notin> set A \<or> j < Suc i \<or> Suc i + length us \<le> j \<longrightarrow> lvl h' y j = lvl h1 y j"
    using Cons.IH [where h = h1 and i = "Suc i"] Cons.prems(2) by blast
  have "unlink_loop x (u # us) i h = Some h'"
    using A(2) h1(1) h'(1) lu lx fx by (cases "i < ht h x") (simp_all add: get_level_eq csub_def)
  moreover have "linked_at h' j (A @ B)" if "i \<le> j" "j < i + length (u # us)" for j
  proof (cases "j = i")
    case True
    then show ?thesis
      using linked_at_cong [OF ll h'(2)] h'(5) by auto
  next
    case False
    then show ?thesis
      using h'(4) that by simp
  qed
  moreover have "lvl h' y j = lvl h y j" if "y \<notin> set A \<or> j < i \<or> i + length (u # us) \<le> j" for j y
    using h'(5) h1(4) that A(1) by auto
  ultimately show ?case
    using h'(2,3) h1(2,3) by (intro exI [of _ h']) simp
qed simp

lemma grow_loop_correct:
  assumes "i + n \<le> ht h hdr"
  shows "\<exists>h'. grow_loop hdr len i n h = Some h' \<and> ht h' = ht h \<and> info h' = info h \<and>
    (\<forall>y j. lvl h' y j = (if y = hdr \<and> i \<le> j \<and> j < i + n then (fst (lvl h y j), len) else lvl h y j))"
  using assms
proof (induction n arbitrary: i h)
  case (Suc n)
  obtain h1 where h1: "set_level h hdr i (fst (lvl h hdr i), len) = Some h1" "ht h1 = ht h" "info h1 = info h"
    "\<forall>y j. lvl h1 y j = (if y = hdr \<and> j = i then (fst (lvl h hdr i), len) else lvl h y j)"
    using set_level_correct [of i h hdr "(fst (lvl h hdr i), len)"] Suc.prems by fastforce
  obtain h' where "grow_loop hdr len (Suc i) n h1 = Some h'" "ht h' = ht h1" "info h' = info h1"
    "\<forall>y j. lvl h' y j = (if y = hdr \<and> Suc i \<le> j \<and> j < Suc i + n then (fst (lvl h1 y j), len) else lvl h1 y j)"
    using Suc.IH [where h = h1 and i = "Suc i"] Suc.prems h1(2) by auto
  then show ?case
    using h1 Suc.prems by (intro exI [of _ h']) (auto simp: get_level_eq)
qed auto


section \<open>The invariant\<close>

primrec backs :: "('s, 'e) zheap \<Rightarrow> zaddr option \<Rightarrow> zaddr list \<Rightarrow> bool" where
  "backs h b [] = True"
| "backs h b (x # xs) = ((\<exists>e s. info h x = Some (e, s, b)) \<and> backs h (Some x) xs)"

definition zinv :: "('s, 'e) zstate \<Rightarrow> zaddr list \<Rightarrow> bool" where
  "zinv st ns \<longleftrightarrow> distinct (header (zsl st) # ns) \<and> ht (heap st) (header (zsl st)) = 32 \<and>
     0 < zlevel (zsl st) \<and> zlevel (zsl st) \<le> 32 \<and>
     (\<forall>x\<in>set ns. 0 < ht (heap st) x \<and> ht (heap st) x \<le> zlevel (zsl st)) \<and>
     (\<forall>i<zlevel (zsl st). linked_at (heap st) i (header (zsl st) # ns)) \<and>
     (\<forall>i. zlevel (zsl st) \<le> i \<longrightarrow> i < 32 \<longrightarrow> fst (lvl (heap st) (header (zsl st)) i) = None) \<and>
     backs (heap st) None ns \<and> tail (zsl st) = (if ns = [] then None else Some (last ns)) \<and>
     zlength (zsl st) = length ns \<and> (\<forall>x. zbrk st \<le> x \<longrightarrow> heap st x = None)"

lemma zinvD:
  assumes "zinv st ns"
  shows "distinct (header (zsl st) # ns)" "ht (heap st) (header (zsl st)) = 32" "0 < zlevel (zsl st)" "zlevel (zsl st) \<le> 32"
    "x \<in> set ns \<Longrightarrow> 0 < ht (heap st) x" "x \<in> set ns \<Longrightarrow> ht (heap st) x \<le> zlevel (zsl st)"
    "i < zlevel (zsl st) \<Longrightarrow> linked_at (heap st) i (header (zsl st) # ns)"
    "zlevel (zsl st) \<le> i \<Longrightarrow> i < 32 \<Longrightarrow> fst (lvl (heap st) (header (zsl st)) i) = None"
    "backs (heap st) None ns" "tail (zsl st) = (if ns = [] then None else Some (last ns))" "zlength (zsl st) = length ns"
    "zbrk st \<le> y \<Longrightarrow> heap st y = None"
  using assms unfolding zinv_def by blast+

lemma zinvI:
  assumes "distinct (header (zsl st) # ns)" "ht (heap st) (header (zsl st)) = 32" "0 < zlevel (zsl st)" "zlevel (zsl st) \<le> 32"
    "\<And>x. x \<in> set ns \<Longrightarrow> 0 < ht (heap st) x \<and> ht (heap st) x \<le> zlevel (zsl st)"
    "\<And>i. i < zlevel (zsl st) \<Longrightarrow> linked_at (heap st) i (header (zsl st) # ns)"
    "\<And>i. zlevel (zsl st) \<le> i \<Longrightarrow> i < 32 \<Longrightarrow> fst (lvl (heap st) (header (zsl st)) i) = None"
    "backs (heap st) None ns" "tail (zsl st) = (if ns = [] then None else Some (last ns))" "zlength (zsl st) = length ns"
    "\<And>y. zbrk st \<le> y \<Longrightarrow> heap st y = None"
  shows "zinv st ns"
  using assms unfolding zinv_def by blast

definition ikey :: "('s, 'e) zheap \<Rightarrow> zaddr \<Rightarrow> ('s \<times> 'e option) option" where
  "ikey h x = map_option (\<lambda>n. (score n, ele n)) (h x)"

lemma ikey_info: "ikey h x = map_option (\<lambda>(e, s, b). (s, e)) (info h x)"
  by (cases "h x") (simp_all add: ikey_def info_def)

lemma backs_append: "backs h b (xs @ ys) \<longleftrightarrow> backs h b xs \<and> backs h (if xs = [] then b else Some (last xs)) ys"
  by (induction xs arbitrary: b) auto

lemma backs_cong: "backs h b xs \<Longrightarrow> (\<And>x. x \<in> set xs \<Longrightarrow> info h' x = info h x) \<Longrightarrow> backs h' b xs"
  by (induction xs arbitrary: b) auto

lemma link_cong: "(\<And>x. x \<in> set xs \<Longrightarrow> H' x = H x) \<Longrightarrow> link H' i xs = link H i xs"
  by (induction xs) auto

lemma linked_at_cong_on:
  assumes "linked_at h i xs" "\<And>x. x \<in> set xs \<Longrightarrow> ht h' x = ht h x" "\<And>x. x \<in> set xs \<Longrightarrow> lvl h' x i = lvl h x i"
  shows "linked_at h' i xs"
  using assms
proof (induction xs)
  case (Cons x xs)
  have "link (ht h') i xs = link (ht h) i xs"
    by (rule link_cong) (use Cons.prems(2) in simp)
  then show ?case
    using Cons by simp
qed simp

lemma last_at_cong: "last_at H i A x r \<Longrightarrow> (\<And>y. y \<in> set A \<Longrightarrow> H' y = H y) \<Longrightarrow> last_at H' i A x r"
  unfolding last_at_def by (elim exE conjE) (intro exI conjI, auto)

lemma zinv_exists: "zinv st ns \<Longrightarrow> x \<in> set (header (zsl st) # ns) \<Longrightarrow> heap st x \<noteq> None"
  using ht_pos [of "heap st" x] unfolding zinv_def by auto

lemma link_all_low: "\<forall>y\<in>set xs. H y \<le> i \<Longrightarrow> link H i xs = (None, length xs)"
  using link_skip [of xs H i "[]"] by simp

lemma linked_at_low: "\<forall>y\<in>set xs. ht h y \<le> i \<Longrightarrow> linked_at h i xs"
  by (induction xs) auto

lemma last_at_zero:
  assumes "last_at H 0 A x r" "\<forall>y\<in>set A. 0 < H y"
  shows "x = last A" "r = length A - 1"
proof -
  obtain A1 A2 where A: "A = A1 @ x # A2" "r = length A1" "\<forall>y\<in>set A2. H y \<le> 0"
    using assms(1) by (auto simp: last_at_def)
  have "A2 = []"
    using A(1,3) assms(2) by (cases A2) auto
  then show "x = last A" "r = length A - 1"
    using A(1,2) by simp_all
qed

section \<open>Insertion at a place\<close>

text \<open>
  The nodes \<open>N1\<close> come before the new node and \<open>N2\<close> behind it, and the search has found the last node of \<open>N1\<close> on each level.
\<close>

lemma grow_correct:
  fixes st :: "('s, 'e) zstate"
  assumes inv: "zinv st (N1 @ N2)" and lv: "lv \<le> 32"
    and us: "length us = zlevel (zsl st)" "\<forall>i<zlevel (zsl st). last_at (ht (heap st)) i (header (zsl st) # N1) (fst (us ! i)) (snd (us ! i))"
  defines "z \<equiv> zsl st" and "L \<equiv> max (zlevel (zsl st)) lv"
  shows "\<exists>h. grow_loop (header z) (zlength z) (zlevel z) (lv - zlevel z) (heap st) = Some h \<and> ht h = ht (heap st) \<and> info h = info (heap st) \<and>
    (\<forall>i<L. linked_at h i ((header z # N1) @ N2) \<and>
       last_at (ht h) i (header z # N1) (fst ((us @ replicate (lv - zlevel z) (header z, 0)) ! i)) (snd ((us @ replicate (lv - zlevel z) (header z, 0)) ! i))) \<and>
    (\<forall>i. L \<le> i \<longrightarrow> i < 32 \<longrightarrow> fst (lvl h (header z) i) = None)"
proof -
  have "zlevel z \<le> 32" "ht (heap st) (header z) = 32"
    using inv by (simp_all add: zinv_def z_def)
  then have len: "zlevel z + (lv - zlevel z) \<le> ht (heap st) (header z)"
    using lv by linarith
  obtain h where h: "grow_loop (header z) (zlength z) (zlevel z) (lv - zlevel z) (heap st) = Some h" "ht h = ht (heap st)" "info h = info (heap st)"
    "\<forall>y j. lvl h y j = (if y = header z \<and> zlevel z \<le> j \<and> j < zlevel z + (lv - zlevel z) then (fst (lvl (heap st) y j), zlength z) else lvl (heap st) y j)"
    using grow_loop_correct [OF len] by blast
  have low: "\<forall>y\<in>set (N1 @ N2). ht (heap st) y \<le> zlevel z" and dis: "header z \<notin> set (N1 @ N2)"
    using inv by (auto simp: zinv_def z_def)
  have "linked_at h i ((header z # N1) @ N2) \<and>
       last_at (ht h) i (header z # N1) (fst ((us @ replicate (lv - zlevel z) (header z, 0)) ! i)) (snd ((us @ replicate (lv - zlevel z) (header z, 0)) ! i))"
    if i: "i < L" for i
  proof (cases "i < zlevel z")
    case True
    have "linked_at (heap st) i (header z # N1 @ N2)"
      using inv True by (simp add: zinv_def z_def)
    then have "linked_at h i (header z # N1 @ N2)"
      by (rule linked_at_cong [OF _ h(2)]) (use h(4) True in simp)
    then show ?thesis
      using us True h(2) by (simp add: z_def nth_append)
  next
    case False
    then have j: "zlevel z \<le> i" "i < lv"
      using i by (simp_all add: L_def z_def)
    have lowi: "\<forall>y\<in>set (N1 @ N2). ht h y \<le> i"
      using low j(1) h(2) by fastforce
    have "fst (lvl (heap st) (header z) i) = None"
      using inv j lv by (simp add: zinv_def z_def)
    then have "lvl h (header z) i = (None, length (N1 @ N2))"
      using h(4) j inv by (simp add: zinv_def z_def)
    then have "linked_at h i (header z # N1 @ N2)"
      using lowi linked_at_low [OF lowi] link_all_low [OF lowi] by simp
    moreover have "i < ht h (header z)"
      using inv h(2) j lv by (simp add: zinv_def z_def)
    then have "last_at (ht h) i (header z # N1) (header z) 0"
      using lowi unfolding last_at_def by (intro exI [of _ "[]"] exI [of _ N1]) auto
    moreover have "(us @ replicate (lv - zlevel z) (header z, 0)) ! i = (header z, 0)"
      using us(1) j by (simp add: nth_append z_def)
    ultimately show ?thesis
      by simp
  qed
  moreover have "fst (lvl h (header z) i) = None" if "L \<le> i" "i < 32" for i
    using h(4) that inv by (simp add: L_def zinv_def z_def)
  ultimately show ?thesis
    using h(1-3) by blast
qed

lemma backs_insert:
  assumes "backs h None (N1 @ N2)" "\<And>x. x \<in> set N1 \<Longrightarrow> info h' x = info h x"
    "\<exists>e s. info h' a = Some (e, s, if N1 = [] then None else Some (last N1))"
    "\<And>y. y \<in> set N2 \<Longrightarrow> info h' y = (if y = hd N2 then map_option (\<lambda>(e, s, b). (e, s, Some a)) (info h y) else info h y)" "distinct N2"
  shows "backs h' None (N1 @ a # N2)"
proof -
  have b: "backs h None N1" "backs h (if N1 = [] then None else Some (last N1)) N2"
    using assms(1) by (simp_all add: backs_append)
  have "backs h' None N1"
    using backs_cong [OF b(1)] assms(2) by blast
  moreover have "backs h' (Some a) N2"
  proof (cases N2)
    case (Cons y ys)
    then have "backs h (Some y) ys"
      using b(2) by simp
    then have "backs h' (Some y) ys"
      by (rule backs_cong) (use assms(4,5) Cons in auto)
    then show ?thesis
      using assms(4) [of y] b(2) Cons by auto
  qed simp
  ultimately show ?thesis
    using assms(3) by (simp add: backs_append)
qed
lemma info_Some: "info h x = Some (e, s, b) \<Longrightarrow> \<exists>n. h x = Some n \<and> ele n = e \<and> score n = s \<and> backward n = b"
  by (cases "h x") (simp_all add: info_def)

lemma relink_back:
  assumes pos: "\<forall>y\<in>set N2. 0 < ht h y" and l0: "lvl h x 0 = link (ht h) 0 N2" "0 < ht h x"
  shows "\<exists>l h'. get_level h x 0 = Some l \<and>
    (case fst l of Some y \<Rightarrow> do { h' \<leftarrow> set_backward h y b; Some (h', t) } | None \<Rightarrow> Some (h, t')) = Some (h', if N2 = [] then t' else t) \<and>
    ht h' = ht h \<and> lvl h' = lvl h \<and>
    (\<forall>y. info h' y = (if N2 \<noteq> [] \<and> y = hd N2 then map_option (\<lambda>(e, s, b'). (e, s, b)) (info h y) else info h y))"
proof (cases N2)
  case Nil
  then show ?thesis
    using l0 by (simp add: get_level_eq)
next
  case (Cons y ys)
  have "h y \<noteq> None"
    using ht_pos [of h y] pos Cons by simp
  then obtain h' where h': "set_backward h y b = Some h'" "ht h' = ht h" "lvl h' = lvl h"
    "\<forall>z. info h' z = (if z = y then map_option (\<lambda>(e, s, b'). (e, s, b)) (info h z) else info h z)"
    using set_backward_correct by blast
  have "lvl h x 0 = (Some y, 1)"
    using l0 pos Cons by simp
  then show ?thesis
    using h' l0(2) Cons by (intro exI [of _ "(Some y, 1)"] exI [of _ h']) (simp add: get_level_eq)
qed

text \<open>The two loops over the levels together: the levels below the height of the new node are linked to it, the spans of the others cross it.\<close>

lemma insert_links:
  assumes lk: "\<forall>i<L. linked_at h1 i (A @ N2) \<and> last_at (ht h1) i A (fst (us ! i)) (snd (us ! i))"
    and us: "length us = L" "lv \<le> L" and a: "a \<notin> set (A @ N2)" "ht h1 a = lv" and dis: "distinct (A @ N2)"
  shows "\<exists>h2 h3. link_loop a (length A - 1) (take lv us) 0 h1 = Some h2 \<and> incr_loop (drop lv us) lv h2 = Some h3 \<and> ht h3 = ht h1 \<and> info h3 = info h1 \<and>
    (\<forall>j<L. linked_at h3 j (A @ a # N2)) \<and> (\<forall>j y. L \<le> j \<longrightarrow> lvl h3 y j = lvl h1 y j)"
proof -
  have t1: "length (take lv us) = lv" "length (drop lv us) = L - lv"
    using us by simp_all
  have "\<exists>h'. link_loop a (length A - 1) (take lv us) 0 h1 = Some h' \<and> ht h' = ht h1 \<and> info h' = info h1 \<and>
    (\<forall>j. 0 \<le> j \<longrightarrow> j < 0 + length (take lv us) \<longrightarrow> linked_at h' j (A @ a # N2)) \<and>
    (\<forall>j y. j < 0 \<or> 0 + length (take lv us) \<le> j \<longrightarrow> lvl h' y j = lvl h1 y j)"
    by (rule link_loop_correct) (use lk us t1 a dis in auto)
  then obtain h2 where h2: "link_loop a (length A - 1) (take lv us) 0 h1 = Some h2" "ht h2 = ht h1" "info h2 = info h1"
    "\<forall>j<lv. linked_at h2 j (A @ a # N2)" "\<forall>j y. lv \<le> j \<longrightarrow> lvl h2 y j = lvl h1 y j"
    using t1(1) by auto
  have lk2: "linked_at h2 (lv + j) (A @ N2)" if "j < L - lv" for j
    by (rule linked_at_cong [OF _ h2(2)]) (use lk that h2(5) in auto)
  have "\<exists>h'. incr_loop (drop lv us) lv h2 = Some h' \<and> ht h' = ht h2 \<and> info h' = info h2 \<and>
    (\<forall>j. lv \<le> j \<longrightarrow> j < lv + length (drop lv us) \<longrightarrow> linked_at h' j (A @ a # N2)) \<and>
    (\<forall>j y. j < lv \<or> lv + length (drop lv us) \<le> j \<longrightarrow> lvl h' y j = lvl h2 y j)"
    by (rule incr_loop_correct) (use lk2 lk t1 us a dis h2(2) in auto)
  then obtain h3 where h3: "incr_loop (drop lv us) lv h2 = Some h3" "ht h3 = ht h2" "info h3 = info h2"
    "\<forall>j. lv \<le> j \<longrightarrow> j < L \<longrightarrow> linked_at h3 j (A @ a # N2)" "\<forall>j y. j < lv \<or> L \<le> j \<longrightarrow> lvl h3 y j = lvl h2 y j"
    using t1 us by auto
  have "linked_at h3 j (A @ a # N2)" if "j < L" for j
  proof (cases "j < lv")
    case True
    have "linked_at h2 j (A @ a # N2)"
      using h2(4) True by blast
    then show ?thesis
      by (rule linked_at_cong [OF _ h3(2)]) (use h3(5) True in simp)
  next
    case False
    then show ?thesis
      using h3(4) that by simp
  qed
  then show ?thesis
    using h2 h3 us(2) by (intro exI [of _ h2] exI [of _ h3]) simp
qed

lemma zslInsert_at:
  fixes st :: "('s :: linorder, 'e :: linorder) zstate"
  assumes inv: "zinv st (N1 @ N2)" and lv: "0 < lv" "lv \<le> 32"
    and de: "descend (heap st) (\<lambda>r sp m. node_less s e m) (zlevel (zsl st)) (header (zsl st)) 0 = Some us" "length us = zlevel (zsl st)"
    "\<forall>i<zlevel (zsl st). last_at (ht (heap st)) i (header (zsl st) # N1) (fst (us ! i)) (snd (us ! i))"
  shows "\<exists>st'. zslInsert st lv s e = Some (st', zbrk st) \<and> zinv st' (N1 @ zbrk st # N2) \<and> header (zsl st') = header (zsl st) \<and>
    ikey (heap st') = (ikey (heap st))(zbrk st \<mapsto> (s, Some e)) \<and> (\<forall>x. zbrk st \<noteq> x \<longrightarrow> (heap st' x = None \<longleftrightarrow> heap st x = None)) \<and>
    zbrk st' = Suc (zbrk st)"
proof -
  define z where "z = zsl st"
  define L where "L = max (zlevel z) lv"
  define a where "a = zbrk st"
  define A where "A = header z # N1"
  define us' where "us' = us @ replicate (lv - zlevel z) (header z, 0)"
  obtain h0 where h0: "grow_loop (header z) (zlength z) (zlevel z) (lv - zlevel z) (heap st) = Some h0" "ht h0 = ht (heap st)" "info h0 = info (heap st)"
    "\<forall>i<L. linked_at h0 i (A @ N2) \<and> last_at (ht h0) i A (fst (us' ! i)) (snd (us' ! i))"
    "\<forall>i. L \<le> i \<longrightarrow> i < 32 \<longrightarrow> fst (lvl h0 (header z) i) = None"
    using grow_correct [OF inv lv(2) de(2,3)] unfolding z_def L_def A_def us'_def by auto
  have dis: "distinct (A @ N2)" and fresh: "\<forall>x. a \<le> x \<longrightarrow> heap st x = None"
    using zinvD(1,12) [OF inv] by (simp_all add: A_def z_def a_def)
  have pos: "\<forall>x\<in>set (A @ N2). 0 < ht (heap st) x"
    using zinvD(2,5) [OF inv] by (auto simp: A_def z_def)
  have high: "ht (heap st) x \<le> L" if "x \<in> set (N1 @ N2)" for x
    using zinvD(6) [OF inv that] by (simp add: z_def L_def)
  have "ht (heap st) a = 0"
    using fresh by (simp add: ht_def)
  then have aN: "a \<notin> set (A @ N2)"
    using pos by fastforce
  define h1 where "h1 = h0(a \<mapsto> zslCreateNode lv s (Some e))"
  have h1: "ht h1 a = lv" "\<And>x. x \<noteq> a \<Longrightarrow> ht h1 x = ht h0 x \<and> lvl h1 x = lvl h0 x \<and> info h1 x = info h0 x" "info h1 a = Some (Some e, s, None)"
    by (auto simp: h1_def ht_def lvl_def info_def zslCreateNode_def fun_eq_iff)
  have same0: "ht h1 x = ht h0 x" "lvl h1 x = lvl h0 x" if "x \<in> set (A @ N2)" for x
  proof -
    have "x \<noteq> a"
      using that aN by blast
    then show "ht h1 x = ht h0 x" "lvl h1 x = lvl h0 x"
      using h1(2) by simp_all
  qed
  have same: "ht h1 x = ht (heap st) x" if "x \<in> set (A @ N2)" for x
    using same0(1) [OF that] h0(2) by simp
  have lk1: "linked_at h1 i (A @ N2)" and la1: "last_at (ht h1) i A (fst (us' ! i)) (snd (us' ! i))" if "i < L" for i
  proof -
    show "linked_at h1 i (A @ N2)"
      by (rule linked_at_cong_on [of h0]) (use h0(4) that same0 in auto)
    show "last_at (ht h1) i A (fst (us' ! i)) (snd (us' ! i))"
      by (rule last_at_cong [of "ht h0"]) (use h0(4) that same0 in auto)
  qed
  have lenu: "length us' = L"
    using de(2) by (simp add: us'_def L_def z_def max_def)
  have t1: "lv \<le> L"
    by (simp add: L_def)
  have "\<forall>i<L. linked_at h1 i (A @ N2) \<and> last_at (ht h1) i A (fst (us' ! i)) (snd (us' ! i))"
    using lk1 la1 by blast
  from insert_links [OF this lenu t1 aN h1(1) dis]
  obtain h2 h3 where h3: "link_loop a (length A - 1) (take lv us') 0 h1 = Some h2" "incr_loop (drop lv us') lv h2 = Some h3"
    "ht h3 = ht h1" "info h3 = info h1" "\<forall>j<L. linked_at h3 j (A @ a # N2)" "\<forall>j y. L \<le> j \<longrightarrow> lvl h3 y j = lvl h1 y j"
    by (elim exE conjE)
  have la0: "last_at (ht h1) 0 A (fst (us' ! 0)) (snd (us' ! 0))"
    using la1 [of 0] lv(1) t1 by simp
  have u0: "fst (us' ! 0) = last A" "snd (us' ! 0) = length A - 1"
    using last_at_zero [OF la0] pos same by auto
  obtain u ur where us0: "us' = (last A, length A - 1) # ur"
    using lenu u0 lv(1) t1 by (cases us') auto
  have lastA: "last A = header z \<longleftrightarrow> N1 = []" "N1 \<noteq> [] \<Longrightarrow> last A = last N1"
    using dis last_in_set [of N1] by (auto simp: A_def simp del: last_in_set)
  let ?b = "if last A = header z then None else Some (last A)"
  have "h3 a \<noteq> None"
    using ht_pos [of h3 a] h3(3) h1(1) lv(1) by simp
  then obtain h4 where h4: "set_backward h3 a ?b = Some h4" "ht h4 = ht h3" "lvl h4 = lvl h3"
    "\<forall>y. info h4 y = (if y = a then map_option (\<lambda>(e, s, b'). (e, s, ?b)) (info h3 y) else info h3 y)"
    using set_backward_correct by blast
  have posN: "\<forall>y\<in>set N2. 0 < ht h4 y" and pa: "0 < ht h4 a"
    using pos same h3(3) h4(2) h1(1) lv(1) by auto
  have la: "lvl h4 a 0 = link (ht h4) 0 N2"
    using linked_at_split [of h3 0 A a N2] h3(5) lv(1) t1 h4(2,3) pa by auto
  obtain l h5 where h5: "get_level h4 a 0 = Some l"
    "(case fst l of Some y \<Rightarrow> do { h' \<leftarrow> set_backward h4 y (Some a); Some (h', tail z) } | None \<Rightarrow> Some (h4, Some a)) = Some (h5, if N2 = [] then Some a else tail z)"
    "ht h5 = ht h4" "lvl h5 = lvl h4"
    "\<forall>y. info h5 y = (if N2 \<noteq> [] \<and> y = hd N2 then map_option (\<lambda>(e, s, b'). (e, s, Some a)) (info h4 y) else info h4 y)"
    using relink_back [where b = "Some a" and t = "tail z" and t' = "Some a", OF posN la pa] by (elim exE conjE)
  define st' where "st' = \<lparr>heap = h5, zbrk = Suc a, zsl = \<lparr>header = header z, tail = (if N2 = [] then Some a else tail z),
    zlength = Suc (zlength z), zlevel = L\<rparr>\<rparr>"
  have Lif: "(if zlevel z < lv then lv else zlevel z) = L"
    by (simp add: L_def max_def)
  have run: "zslInsert st lv s e = Some (st', a)"
    using de(1) h0(1) us0 [unfolded us'_def] h3(1) [unfolded us0 h1_def] h3(2) [unfolded us0] h4(1) h5(1,2) Lif
    unfolding zslInsert_def Let_def z_def [symmetric] a_def [symmetric] by (simp add: st'_def del: take_append drop_append)
  have ht5: "ht h5 = ht h1" and lv5: "lvl h5 = lvl h3"
    using h5(3,4) h4(2,3) h3(3) by simp_all
  have ht5': "ht h5 x = (if x = a then lv else ht (heap st) x)" for x
    using ht5 h1(1,2) h0(2) by simp
  have inf: "info h5 x = (if x = a then Some (Some e, s, ?b) else if N2 \<noteq> [] \<and> x = hd N2
    then map_option (\<lambda>(e, s, b'). (e, s, Some a)) (info (heap st) x) else info (heap st) x)" for x
    using h5(5) h4(4) h3(4) h1(2,3) h0(3) aN by (cases N2) auto
  have dom: "h5 x = None \<longleftrightarrow> heap st x = None" if "x \<noteq> a" for x
    using inf [of x] that info_None [of h5 x] info_None [of "heap st" x] by (auto split: if_splits)
  have hz: "header z \<noteq> a" and zs: "zsl st' = \<lparr>header = header z, tail = (if N2 = [] then Some a else tail z), zlength = Suc (zlength z), zlevel = L\<rparr>"
    using aN by (auto simp: A_def st'_def)
  have "zinv st' (N1 @ a # N2)"
  proof (rule zinvI)
    show "distinct (header (zsl st') # N1 @ a # N2)"
      using dis aN by (auto simp: A_def st'_def)
    show "ht (heap st') (header (zsl st')) = 32"
      using zinvD(2) [OF inv] ht5' [of "header z"] hz by (simp add: st'_def z_def)
    show "0 < zlevel (zsl st')" "zlevel (zsl st') \<le> 32"
      using lv zinvD(4) [OF inv] by (auto simp: st'_def L_def z_def)
    show "0 < ht (heap st') x \<and> ht (heap st') x \<le> zlevel (zsl st')" if "x \<in> set (N1 @ a # N2)" for x
    proof (cases "x = a")
      case True
      then show ?thesis
        using ht5' lv(1) t1 by (simp add: st'_def)
    next
      case False
      then have "x \<in> set (N1 @ N2)"
        using that by auto
      then show ?thesis
        using ht5' [of x] False high [of x] zinvD(5) [OF inv, of x] by (simp add: st'_def)
    qed
    show "linked_at (heap st') i (header (zsl st') # N1 @ a # N2)" if "i < zlevel (zsl st')" for i
    proof -
      have "linked_at h3 i (A @ a # N2)"
        using that h3(5) by (simp add: st'_def)
      then have "linked_at h5 i (A @ a # N2)"
        by (rule linked_at_cong) (use ht5 h3(3) lv5 in simp_all)
      then show ?thesis
        by (simp add: st'_def A_def)
    qed
    show "fst (lvl (heap st') (header (zsl st')) i) = None" if "zlevel (zsl st') \<le> i" "i < 32" for i
    proof -
      have "lvl h5 (header z) i = lvl h0 (header z) i"
        using lv5 h3(6) h1(2) [OF hz] that(1) by (simp add: st'_def)
      then show ?thesis
        using h0(5) that by (simp add: st'_def)
    qed
    have "backs h5 None (N1 @ a # N2)"
    proof (rule backs_insert [OF zinvD(9) [OF inv]])
      show "info h5 x = info (heap st) x" if "x \<in> set N1" for x
        using inf [of x] that dis aN by (cases N2) (auto simp: A_def)
      show "\<exists>e s. info h5 a = Some (e, s, if N1 = [] then None else Some (last N1))"
        using inf [of a] lastA by auto
      show "info h5 y = (if y = hd N2 then map_option (\<lambda>(e, s, b). (e, s, Some a)) (info (heap st) y) else info (heap st) y)" if "y \<in> set N2" for y
        using inf [of y] that aN by (cases N2) auto
      show "distinct N2"
        using dis by simp
    qed
    then show "backs (heap st') None (N1 @ a # N2)"
      by (simp add: st'_def)
    show "tail (zsl st') = (if N1 @ a # N2 = [] then None else Some (last (N1 @ a # N2)))"
      using zinvD(10) [OF inv] by (auto simp: st'_def z_def)
    show "zlength (zsl st') = length (N1 @ a # N2)"
      using zinvD(11) [OF inv] by (simp add: st'_def z_def)
    show "heap st' y = None" if "zbrk st' \<le> y" for y
      using dom [of y] fresh that by (simp add: st'_def)
  qed
  moreover have "ikey (heap st') = (ikey (heap st))(a \<mapsto> (s, Some e))"
  proof (rule ext)
    fix x
    show "ikey (heap st') x = ((ikey (heap st))(a \<mapsto> (s, Some e))) x"
      using inf [of x] by (cases "info (heap st) x") (auto simp: ikey_info st'_def)
  qed
  ultimately show ?thesis
    using run dom by (intro exI [of _ st']) (auto simp: a_def st'_def z_def)
qed


section \<open>Deletion of a node\<close>

lemma backs_delete:
  assumes "backs h None (N1 @ x # N2)" "\<And>y. y \<in> set N1 \<Longrightarrow> info h' y = info h y" "distinct N2"
    "\<And>y. y \<in> set N2 \<Longrightarrow> info h' y = (if y = hd N2 then map_option (\<lambda>(e, s, b). (e, s, if N1 = [] then None else Some (last N1))) (info h y) else info h y)"
  shows "backs h' None (N1 @ N2)"
proof -
  have b: "backs h None N1" "backs h (Some x) N2"
    using assms(1) by (simp_all add: backs_append)
  have "backs h' None N1"
    using backs_cong [OF b(1)] assms(2) by blast
  moreover have "backs h' (if N1 = [] then None else Some (last N1)) N2"
  proof (cases N2)
    case (Cons y ys)
    then have "backs h (Some y) ys"
      using b(2) by simp
    then have "backs h' (Some y) ys"
      by (rule backs_cong) (use assms(3,4) Cons in auto)
    then show ?thesis
      using assms(4) [of y] b(2) Cons by auto
  qed simp
  ultimately show ?thesis
    by (simp add: backs_append)
qed

lemma shrink_level_correct:
  "0 < n \<Longrightarrow> n \<le> ht h hdr \<Longrightarrow>
   \<exists>m. shrink_level h hdr n = Some m \<and> 0 < m \<and> m \<le> n \<and> (\<forall>i. m \<le> i \<longrightarrow> i < n \<longrightarrow> fst (lvl h hdr i) = None)"
proof (induction n)
  case (Suc n)
  show ?case
  proof (cases "0 < n \<and> fst (lvl h hdr n) = None")
    case True
    then obtain m where m: "shrink_level h hdr n = Some m" "0 < m" "m \<le> n" "\<forall>i. m \<le> i \<longrightarrow> i < n \<longrightarrow> fst (lvl h hdr i) = None"
      using Suc by auto
    then show ?thesis
      using True Suc.prems by (intro exI [of _ m]) (auto simp: get_level_eq less_Suc_eq)
  next
    case False
    then show ?thesis
      using Suc.prems by (intro exI [of _ "Suc n"]) (auto simp: get_level_eq)
  qed
qed simp

lemma zslDeleteNode_at:
  fixes st :: "('s, 'e) zstate"
  assumes inv: "zinv st (N1 @ x # N2)" and us: "zlevel (zsl st) \<le> length us"
    "\<forall>i<zlevel (zsl st). \<exists>r. last_at (ht (heap st)) i (header (zsl st) # N1) (us ! i) r"
  shows "\<exists>st'. zslDeleteNode st x us = Some st' \<and> zinv st' (N1 @ N2) \<and> header (zsl st') = header (zsl st) \<and>
    zlevel (zsl st') \<le> zlevel (zsl st) \<and> ht (heap st') = ht (heap st) \<and> ikey (heap st') = ikey (heap st) \<and> zbrk st' = zbrk st"
proof -
  define z where "z = zsl st"
  define A where "A = header z # N1"
  have dis: "distinct (A @ x # N2)"
    using zinvD(1) [OF inv] by (simp add: A_def z_def)
  have pos: "0 < ht (heap st) y" "ht (heap st) y \<le> zlevel z" if "y \<in> set (N1 @ x # N2)" for y
    using zinvD(5,6) [OF inv that] by (simp_all add: z_def)
  have "\<exists>h'. unlink_loop x (take (zlevel z) us) 0 (heap st) = Some h' \<and> ht h' = ht (heap st) \<and> info h' = info (heap st) \<and>
    (\<forall>j. 0 \<le> j \<longrightarrow> j < 0 + length (take (zlevel z) us) \<longrightarrow> linked_at h' j (A @ N2)) \<and>
    (\<forall>j y. y \<notin> set A \<or> j < 0 \<or> 0 + length (take (zlevel z) us) \<le> j \<longrightarrow> lvl h' y j = lvl (heap st) y j)"
    by (rule unlink_loop_correct) (use zinvD(7) [OF inv] us dis in \<open>auto simp: A_def z_def\<close>)
  then obtain h1 where h1: "unlink_loop x (take (zlevel z) us) 0 (heap st) = Some h1" "ht h1 = ht (heap st)" "info h1 = info (heap st)"
    "\<forall>j<zlevel z. linked_at h1 j (A @ N2)" "\<forall>j y. y \<notin> set A \<or> zlevel z \<le> j \<longrightarrow> lvl h1 y j = lvl (heap st) y j"
    using us(1) by (auto simp: z_def)
  let ?b = "if N1 = [] then None else Some (last N1)"
  have "\<exists>e s. info (heap st) x = Some (e, s, ?b)"
    using zinvD(9) [OF inv] by (simp add: backs_append)
  then have "\<exists>e s. info h1 x = Some (e, s, ?b)"
    by (simp only: h1(3))
  then have "\<exists>n. h1 x = Some n \<and> backward n = ?b"
    by (elim exE) (drule info_Some, elim exE conjE, intro exI conjI)
  then obtain n where n: "h1 x = Some n" "backward n = ?b"
    by (elim exE conjE)
  have "lvl (heap st) x 0 = link (ht (heap st)) 0 N2"
    using linked_at_split [of "heap st" 0 A x N2] zinvD(7) [OF inv, of 0] zinvD(3) [OF inv] pos(1) [of x] by (simp add: A_def z_def)
  then have lx: "lvl h1 x 0 = link (ht h1) 0 N2"
    using h1(2,5) dis by simp
  have posn: "\<forall>y\<in>set N2. 0 < ht h1 y" and hx: "0 < ht h1 x"
    using pos(1) h1(2) by auto
  obtain l h2 where h2: "get_level h1 x 0 = Some l"
    "(case fst l of Some y \<Rightarrow> do { h' \<leftarrow> set_backward h1 y ?b; Some (h', tail z) } | None \<Rightarrow> Some (h1, ?b)) = Some (h2, if N2 = [] then ?b else tail z)"
    "ht h2 = ht h1" "lvl h2 = lvl h1"
    "\<forall>y. info h2 y = (if N2 \<noteq> [] \<and> y = hd N2 then map_option (\<lambda>(e, s, b'). (e, s, ?b)) (info h1 y) else info h1 y)"
    using relink_back [where b = ?b and t = "tail z" and t' = ?b, OF posn lx hx] by (elim exE conjE)
  have hdr: "zlevel z \<le> ht h2 (header z)" "ht h2 (header z) = 32"
    using zinvD(2,4) [OF inv] h2(3) h1(2) by (simp_all add: z_def)
  obtain m where m: "shrink_level h2 (header z) (zlevel z) = Some m" "0 < m" "m \<le> zlevel z" "\<forall>i. m \<le> i \<longrightarrow> i < zlevel z \<longrightarrow> fst (lvl h2 (header z) i) = None"
    using shrink_level_correct [OF zinvD(3) [OF inv, folded z_def] hdr(1)] by blast
  have len: "zlength z = Suc (length (N1 @ N2))"
    using zinvD(11) [OF inv] by (simp add: z_def)
  define st' where "st' = st\<lparr>heap := h2, zsl := \<lparr>header = header z, tail = (if N2 = [] then backward n else tail z), zlength = length (N1 @ N2), zlevel = m\<rparr>\<rparr>"
  have run: "zslDeleteNode st x us = Some st'"
    using h1(1) n(1) h2(1) h2(2) [folded n(2)] m(1) len unfolding zslDeleteNode_def Let_def z_def [symmetric] by (simp add: st'_def csub_def)
  have lk: "linked_at h2 j (A @ N2)" if "j < zlevel z" for j
    by (rule linked_at_cong [of h1]) (use h1(4) that h2(3,4) in auto)
  have low: "ht (heap st) y \<le> m" if "y \<in> set (N1 @ N2)" for y
  proof (cases "m < zlevel z")
    case True
    have "lvl h2 (header z) m = link (ht h2) m (N1 @ N2)"
      using lk [OF True] hdr(1) True by (simp add: A_def)
    then have "fst (link (ht h2) m (N1 @ N2)) = None"
      using m(4) True by auto
    then show ?thesis
      using that h2(3) h1(2) by (simp add: link_low)
  qed (use pos(2) [of y] that m(3) in auto)
  have "zinv st' (N1 @ N2)"
  proof (rule zinvI)
    show "distinct (header (zsl st') # N1 @ N2)" "ht (heap st') (header (zsl st')) = 32" "0 < zlevel (zsl st')" "zlevel (zsl st') \<le> 32"
      using dis hdr m(2,3) by (auto simp: st'_def A_def)
    show "0 < ht (heap st') y \<and> ht (heap st') y \<le> zlevel (zsl st')" if "y \<in> set (N1 @ N2)" for y
      using pos(1) [of y] low [OF that] that h2(3) h1(2) by (auto simp: st'_def)
    show "linked_at (heap st') i (header (zsl st') # N1 @ N2)" if "i < zlevel (zsl st')" for i
      using lk [of i] that m(3) by (simp add: st'_def A_def)
    show "fst (lvl (heap st') (header (zsl st')) i) = None" if "zlevel (zsl st') \<le> i" "i < 32" for i
      using m(4) that h2(4) h1(5) zinvD(8) [OF inv, of i] by (cases "i < zlevel z") (auto simp: st'_def z_def)
    have "backs h2 None (N1 @ N2)"
    proof (rule backs_delete [OF zinvD(9) [OF inv]])
      show "info h2 y = info (heap st) y" if "y \<in> set N1" for y
        using h2(5) h1(3) that dis by (cases N2) (auto simp: A_def)
      show "distinct N2"
        using dis by simp
      show "info h2 y = (if y = hd N2 then map_option (\<lambda>(e, s, b). (e, s, ?b)) (info (heap st) y) else info (heap st) y)" if "y \<in> set N2" for y
        using h2(5) h1(3) that by (cases N2) auto
    qed
    then show "backs (heap st') None (N1 @ N2)"
      by (simp add: st'_def)
    show "tail (zsl st') = (if N1 @ N2 = [] then None else Some (last (N1 @ N2)))"
      using zinvD(10) [OF inv] n(2) by (auto simp: st'_def z_def)
    show "zlength (zsl st') = length (N1 @ N2)"
      by (simp add: st'_def)
    show "heap st' y = None" if "zbrk st' \<le> y" for y
      using zinvD(12) [OF inv, of y] that h2(5) h1(3) info_None [of h2 y] info_None [of "heap st" y] by (auto simp: st'_def split: if_splits)
  qed
  moreover have "ikey h2 y = ikey (heap st) y" for y
    using h2(5) h1(3) by (cases "info (heap st) y") (auto simp: ikey_info)
  ultimately show ?thesis
    using run m(3) h2(3) h1(2) by (intro exI [of _ st']) (auto simp: st'_def z_def)
qed

lemma zslFreeNode_inv:
  assumes inv: "zinv st ns" and x: "x \<noteq> header (zsl st)" "x \<notin> set ns"
  shows "zinv (zslFreeNode st x) ns" "ikey (heap (zslFreeNode st x)) = (ikey (heap st))(x := None)"
    "zsl (zslFreeNode st x) = zsl st" "zbrk (zslFreeNode st x) = zbrk st" "y \<noteq> x \<Longrightarrow> ht (heap (zslFreeNode st x)) y = ht (heap st) y"
proof -
  let ?h = "(heap st)(x := None)"
  have same: "ht ?h y = ht (heap st) y" "lvl ?h y i = lvl (heap st) y i" "info ?h y = info (heap st) y" if "y \<noteq> x" for y i
    using that by (simp_all add: ht_def lvl_def info_def)
  have sameN: "ht ?h y = ht (heap st) y" "lvl ?h y i = lvl (heap st) y i" "info ?h y = info (heap st) y" if "y \<in> set (header (zsl st) # ns)" for y i
  proof -
    have "y \<noteq> x"
      using that x by auto
    then show "ht ?h y = ht (heap st) y" "lvl ?h y i = lvl (heap st) y i" "info ?h y = info (heap st) y"
      by (rule same)+
  qed
  show z: "zsl (zslFreeNode st x) = zsl st" "zbrk (zslFreeNode st x) = zbrk st"
    by (simp_all add: zslFreeNode_def)
  show "ht (heap (zslFreeNode st x)) y = ht (heap st) y" if "y \<noteq> x" for y
    using same(1) [OF that] by (simp add: zslFreeNode_def)
  show "ikey (heap (zslFreeNode st x)) = (ikey (heap st))(x := None)"
    by (simp add: fun_eq_iff zslFreeNode_def ikey_def)
  have h: "heap (zslFreeNode st x) = ?h"
    by (simp add: zslFreeNode_def)
  show "zinv (zslFreeNode st x) ns"
  proof (rule zinvI; (unfold z h)?)
    show "0 < ht ?h y \<and> ht ?h y \<le> zlevel (zsl st)" if "y \<in> set ns" for y
      using zinvD(5,6) [OF inv that] sameN(1) [of y] that by simp
    show "linked_at ?h i (header (zsl st) # ns)" if "i < zlevel (zsl st)" for i
      by (rule linked_at_cong_on [OF zinvD(7) [OF inv that]]) (use sameN in simp_all)
    show "backs ?h None ns"
      by (rule backs_cong [OF zinvD(9) [OF inv]]) (use sameN in simp_all)
    show "?h y = None" if "zbrk st \<le> y" for y
      using zinvD(12) [OF inv that] by simp
    show "fst (lvl ?h (header (zsl st)) i) = None" if "zlevel (zsl st) \<le> i" "i < 32" for i
      using zinvD(8) [OF inv that] sameN(2) by simp
    show "ht ?h (header (zsl st)) = 32"
      using zinvD(2) [OF inv] sameN(1) by simp
  qed (use zinvD(1,3,4,10,11) [OF inv] in simp_all)
qed

end
