(* ===== verification/Skiplist_Order.thy ===== *)
theory Skiplist_Order
  imports Skiplist
begin

text \<open>
  The skip list as a sorted list of keys (\<^verbatim>\<open>t_zset.c\<close>). \<open>zrep st ns ks\<close> relates the heap to the addresses of its nodes and to their keys, in strict order. Insertion, deletion and the change of a score
  implement the operations on the list of keys, and the two rank functions are its positions.
\<close>

section \<open>Sorted lists of keys\<close>

text \<open>The contents of a skip list are the pairs of score and element, in strict lexicographic order.\<close>

definition kless :: "'s :: linorder \<times> 'e :: linorder \<Rightarrow> 's \<times> 'e \<Rightarrow> bool" where
  "kless x y \<longleftrightarrow> fst x < fst y \<or> (fst x = fst y \<and> snd x < snd y)"

lemma kless_trans: "kless x y \<Longrightarrow> kless y z \<Longrightarrow> kless x z"
  by (auto simp: kless_def)

lemma kless_irrefl [simp]: "\<not> kless x x"
  by (simp add: kless_def)

lemma kless_linear: "x \<noteq> y \<Longrightarrow> kless x y \<or> kless y x"
  by (cases x; cases y) (auto simp: kless_def)

lemma kless_asym: "kless x y \<Longrightarrow> \<not> kless y x"
  by (auto simp: kless_def)

definition count_of :: "('k \<Rightarrow> bool) \<Rightarrow> 'k list \<Rightarrow> nat" where
  "count_of P ks = length (takeWhile P ks)"

lemma count_of_le: "count_of P ks \<le> length ks"
  by (simp add: count_of_def length_takeWhile_le)

lemma count_of_iff:
  assumes "sorted_wrt kless ks" "\<And>x y. kless x y \<Longrightarrow> P y \<Longrightarrow> P x" "j < length ks"
  shows "P (ks ! j) \<longleftrightarrow> j < count_of P ks"
proof
  assume "P (ks ! j)"
  show "j < count_of P ks"
  proof (rule ccontr)
    assume "\<not> j < count_of P ks"
    then have le: "count_of P ks \<le> j"
      by simp
    then have "\<not> P (ks ! count_of P ks)"
      unfolding count_of_def using assms(3) by (intro nth_length_takeWhile) simp
    moreover have "P (ks ! count_of P ks)"
    proof (cases "count_of P ks = j")
      case False
      then have "kless (ks ! count_of P ks) (ks ! j)"
        using assms(1,3) le by (simp add: sorted_wrt_iff_nth_less)
      then show ?thesis
        using assms(2) \<open>P (ks ! j)\<close> by blast
    qed (use \<open>P (ks ! j)\<close> in simp)
    ultimately show False ..
  qed
next
  assume "j < count_of P ks"
  then have j: "j < length (takeWhile P ks)"
    by (simp add: count_of_def)
  show "P (ks ! j)"
    using set_takeWhileD [OF nth_mem [OF j]] takeWhile_nth [OF j] by simp
qed

definition insert_key :: "'s :: linorder \<times> 'e :: linorder \<Rightarrow> ('s \<times> 'e) list \<Rightarrow> ('s \<times> 'e) list" where
  "insert_key k ks = takeWhile (\<lambda>x. kless x k) ks @ k # dropWhile (\<lambda>x. kless x k) ks"

definition pos_of :: "'s :: linorder \<times> 'e :: linorder \<Rightarrow> ('s \<times> 'e) list \<Rightarrow> nat" where
  "pos_of k ks = count_of (\<lambda>x. kless x k) ks"

lemma insert_key_take: "insert_key k ks = take (pos_of k ks) ks @ k # drop (pos_of k ks) ks"
  by (simp add: insert_key_def pos_of_def count_of_def takeWhile_eq_take [symmetric] dropWhile_eq_drop [symmetric])

lemma pos_of_iff: "sorted_wrt kless ks \<Longrightarrow> j < length ks \<Longrightarrow> kless (ks ! j) k \<longleftrightarrow> j < pos_of k ks"
  unfolding pos_of_def by (rule count_of_iff) (auto intro: kless_trans)

lemma pos_of_found:
  assumes "sorted_wrt kless ks" "k \<in> set ks"
  shows "pos_of k ks < length ks" "ks ! pos_of k ks = k"
proof -
  obtain j where j: "j < length ks" "ks ! j = k"
    using assms(2) by (auto simp: in_set_conv_nth)
  have "\<not> j < pos_of k ks"
    using pos_of_iff [OF assms(1) j(1), of k] j(2) by simp
  moreover have "\<not> pos_of k ks < j"
  proof
    assume p: "pos_of k ks < j"
    then have "kless (ks ! pos_of k ks) k"
      using assms(1) j by (auto simp: sorted_wrt_iff_nth_less)
    then show False
      using pos_of_iff [OF assms(1), of "pos_of k ks" k] p j(1) by simp
  qed
  ultimately show "pos_of k ks < length ks" "ks ! pos_of k ks = k"
    using j by (simp_all add: linorder_not_less)
qed

lemma insert_key_sorted:
  assumes "sorted_wrt kless ks" "k \<notin> set ks"
  shows "sorted_wrt kless (insert_key k ks)"
proof -
  let ?p = "pos_of k ks"
  have 1: "kless x k" if x: "x \<in> set (take ?p ks)" for x
  proof -
    obtain j where "j < length ks" "j < ?p" "x = ks ! j"
      using x by (auto simp: in_set_conv_nth)
    then show ?thesis
      using pos_of_iff [OF assms(1)] by blast
  qed
  have 2: "kless k x" if x: "x \<in> set (drop ?p ks)" for x
  proof -
    obtain i where i: "i < length (drop ?p ks)" "x = drop ?p ks ! i"
      using x by (auto simp: in_set_conv_nth)
    then have j: "?p + i < length ks" "x = ks ! (?p + i)"
      by simp_all
    have "x \<noteq> k"
      using in_set_dropD [OF x] assms(2) by blast
    moreover have "\<not> kless x k"
      using pos_of_iff [OF assms(1) j(1), of k] j(2) by simp
    ultimately show ?thesis
      using kless_linear by blast
  qed
  have "sorted_wrt kless (take ?p ks @ drop ?p ks)"
    using assms(1) by simp
  then show ?thesis
    unfolding insert_key_take sorted_wrt_append using 1 2 by (auto intro: kless_trans)
qed

lemma remove_key:
  assumes "sorted_wrt kless ks" "k \<in> set ks"
  shows "take (pos_of k ks) ks @ drop (Suc (pos_of k ks)) ks = filter (\<lambda>x. x \<noteq> k) ks"
proof -
  let ?p = "pos_of k ks"
  note p = pos_of_found [OF assms]
  have ks: "ks = take ?p ks @ k # drop (Suc ?p) ks"
    using id_take_nth_drop [OF p(1)] p(2) by simp
  have "sorted_wrt kless (take ?p ks @ k # drop (Suc ?p) ks)"
    using assms(1) ks by simp
  then have "\<forall>x\<in>set (take ?p ks). x \<noteq> k" "\<forall>x\<in>set (drop (Suc ?p) ks). x \<noteq> k"
    by (auto simp: sorted_wrt_append)
  then have "filter (\<lambda>x. x \<noteq> k) (take ?p ks @ k # drop (Suc ?p) ks) = take ?p ks @ drop (Suc ?p) ks"
    by (simp add: filter_id_conv)
  then show ?thesis
    using ks by simp
qed

section \<open>The contents of a skip list\<close>

definition zrep :: "('s :: linorder, 'e :: linorder) zstate \<Rightarrow> zaddr list \<Rightarrow> ('s \<times> 'e) list \<Rightarrow> bool" where
  "zrep st ns ks \<longleftrightarrow> zinv st ns \<and> map (ikey (heap st)) ns = map (\<lambda>(s, e). Some (s, Some e)) ks \<and> sorted_wrt kless ks \<and>
     (\<exists>s. ikey (heap st) (header (zsl st)) = Some (s, None))"

lemma zrep_len: "zrep st ns ks \<Longrightarrow> length ns = length ks"
  unfolding zrep_def by (metis length_map)

lemma zrep_key:
  assumes "zrep st ns ks" "j < length ns"
  shows "ikey (heap st) (ns ! j) = Some (fst (ks ! j), Some (snd (ks ! j)))"
proof -
  have "map (ikey (heap st)) ns ! j = map (\<lambda>(s, e). Some (s, Some e)) ks ! j"
    using assms(1) by (simp add: zrep_def)
  then show ?thesis
    using assms zrep_len [OF assms(1)] by (simp add: case_prod_beta)
qed

lemma ikey_Some: "ikey h x = Some (s, e) \<longleftrightarrow> (\<exists>n. h x = Some n \<and> score n = s \<and> ele n = e)"
  by (auto simp: ikey_def)

lemma zslCreate_rep: "h = Map.empty \<Longrightarrow> zrep (zslCreate h a) [] []"
  unfolding zrep_def zinv_def by (simp add: zslCreate_def zslCreateNode_def ZSKIPLIST_MAXLEVEL_def ht_def lvl_def ikey_def)

text \<open>
  Every search of the code passes exactly the first \<open>k\<close> nodes, for the \<open>k\<close> that its condition determines, and ends at the last of them; the next node is then the first
  one that it does not pass.
\<close>

lemma search_at:
  assumes inv: "zinv st ns" and k: "k \<le> length ns"
    and go: "\<And>r sp m. 0 < sp \<Longrightarrow> r + sp \<le> length ns \<Longrightarrow> heap st (ns ! (r + sp - 1)) = Some m \<Longrightarrow> go r sp m \<longleftrightarrow> r + sp \<le> k"
  shows "\<exists>us l. descend (heap st) go (zlevel (zsl st)) (header (zsl st)) 0 = Some ((last (header (zsl st) # take k ns), k) # us) \<and>
    Suc (length us) = zlevel (zsl st) \<and>
    (\<forall>i<zlevel (zsl st). last_at (ht (heap st)) i (header (zsl st) # take k ns)
       (fst (((last (header (zsl st) # take k ns), k) # us) ! i)) (snd (((last (header (zsl st) # take k ns), k) # us) ! i))) \<and>
    get_level (heap st) (last (header (zsl st) # take k ns)) 0 = Some l \<and> fst l = (if k < length ns then Some (ns ! k) else None)"
proof -
  let ?A = "header (zsl st) # take k ns" and ?B = "drop k ns" and ?h = "heap st"
  have AB: "?A @ ?B = header (zsl st) # ns" and lenA: "length ?A = Suc k"
    using k by simp_all
  have "\<exists>us. descend ?h go (zlevel (zsl st)) (header (zsl st)) (length ([] :: nat list)) = Some us \<and> length us = zlevel (zsl st) \<and>
    (\<forall>i<zlevel (zsl st). last_at (ht ?h) i ?A (fst (us ! i)) (snd (us ! i)))"
  proof (rule descend_correct [where B = ?B])
    show "linked_at ?h i (?A @ ?B)" if "i < zlevel (zsl st)" for i
      using zinvD(7) [OF inv that] AB by simp
    show "?h y \<noteq> None" if "y \<in> set (?A @ ?B)" for y
      by (rule zinv_exists [OF inv]) (use that AB in simp)
    show "go r sp m \<longleftrightarrow> r + sp < length ?A" if "r + sp < length (?A @ ?B)" "0 < sp" "?h ((?A @ ?B) ! (r + sp)) = Some m" for r sp m
      using go [of sp r m] that unfolding AB lenA by (simp add: nth_Cons' less_Suc_eq_le)
    show "?A = [] @ header (zsl st) # take k ns"
      by simp
    show "zlevel (zsl st) \<le> ht ?h (header (zsl st))"
      using zinvD(2,4) [OF inv] by simp
  qed
  then obtain us where us: "descend ?h go (zlevel (zsl st)) (header (zsl st)) 0 = Some us" "length us = zlevel (zsl st)"
    "\<forall>i<zlevel (zsl st). last_at (ht ?h) i ?A (fst (us ! i)) (snd (us ! i))"
    by auto
  have pos: "\<forall>y\<in>set (header (zsl st) # ns). 0 < ht ?h y"
    using zinvD(2,5) [OF inv] by simp
  have z0: "last_at (ht ?h) 0 ?A (fst (us ! 0)) (snd (us ! 0))"
    using us(3) zinvD(3) [OF inv] by blast
  have posA: "\<forall>y\<in>set ?A. 0 < ht ?h y"
    using pos set_take_subset [of k ns] by auto
  have u0: "fst (us ! 0) = last ?A" "snd (us ! 0) = k"
    using last_at_zero [OF z0 posA] lenA by simp_all
  obtain us' where us': "us = (last ?A, k) # us'"
    using us(2) u0 zinvD(3) [OF inv] by (cases us) auto
  have split: "header (zsl st) # ns = butlast ?A @ last ?A # ?B"
    using AB by (metis append_butlast_last_id append_assoc append_Cons append_Nil list.distinct(1))
  have "last ?A \<in> set (header (zsl st) # ns)"
    using split by (metis in_set_conv_decomp)
  then have ht0: "0 < ht ?h (last ?A)"
    using pos by blast
  have "lvl ?h (last ?A) 0 = link (ht ?h) 0 ?B"
    using linked_at_split [of ?h 0 "butlast ?A" "last ?A" ?B] zinvD(7) [OF inv zinvD(3) [OF inv]] ht0 split by simp
  moreover have "fst (link (ht ?h) 0 ?B) = (if k < length ns then Some (ns ! k) else None)"
  proof (cases "k < length ns")
    case True
    then show ?thesis
      using pos by (simp add: Cons_nth_drop_Suc [symmetric])
  qed simp
  ultimately show ?thesis
    using us us' ht0 by (intro exI [of _ us'] exI [of _ "lvl ?h (last ?A) 0"]) (simp add: get_level_eq)
qed

lemma zrep_go:
  assumes rep: "zrep st ns ks" and P: "\<And>x y. kless x y \<Longrightarrow> P y \<Longrightarrow> P x"
    and go: "\<And>m e. ele m = Some e \<Longrightarrow> g m \<longleftrightarrow> P (score m, e)"
    and sp: "0 < sp" "r + sp \<le> length ns" "heap st (ns ! (r + sp - 1)) = Some m"
  shows "g m \<longleftrightarrow> r + sp \<le> count_of P ks"
proof -
  have j: "r + sp - 1 < length ns"
    using sp by simp
  have m: "score m = fst (ks ! (r + sp - 1))" "ele m = Some (snd (ks ! (r + sp - 1)))"
    using zrep_key [OF rep j] sp(3) by (simp_all add: ikey_def)
  have "P (ks ! (r + sp - 1)) \<longleftrightarrow> r + sp - 1 < count_of P ks"
    by (rule count_of_iff) (use rep P j zrep_len [OF rep] in \<open>auto simp: zrep_def\<close>)
  then show ?thesis
    using go [OF m(2)] m(1) sp(1) by auto
qed

lemma node_less_kless: "ele m = Some f \<Longrightarrow> node_less s e m \<longleftrightarrow> kless (score m, f) (s, e)"
  by (simp add: node_less_def kless_def)

section \<open>Insertion and deletion keep the order\<close>

lemma zrep_search:
  assumes rep: "zrep st ns ks" and P: "\<And>x y. kless x y \<Longrightarrow> P y \<Longrightarrow> P x" and go: "\<And>m e. ele m = Some e \<Longrightarrow> g m \<longleftrightarrow> P (score m, e)"
  defines "k \<equiv> count_of P ks"
  shows "\<exists>us l. descend (heap st) (\<lambda>r sp. g) (zlevel (zsl st)) (header (zsl st)) 0 = Some ((last (header (zsl st) # take k ns), k) # us) \<and>
    Suc (length us) = zlevel (zsl st) \<and>
    (\<forall>i<zlevel (zsl st). last_at (ht (heap st)) i (header (zsl st) # take k ns)
       (fst (((last (header (zsl st) # take k ns), k) # us) ! i)) (snd (((last (header (zsl st) # take k ns), k) # us) ! i))) \<and>
    get_level (heap st) (last (header (zsl st) # take k ns)) 0 = Some l \<and> fst l = (if k < length ns then Some (ns ! k) else None)"
proof (rule search_at)
  show "zinv st ns"
    using rep by (simp add: zrep_def)
  show "k \<le> length ns"
    using count_of_le [of P ks] zrep_len [OF rep] by (simp add: k_def)
  show "g m \<longleftrightarrow> r + sp \<le> k" if "0 < sp" "r + sp \<le> length ns" "heap st (ns ! (r + sp - 1)) = Some m" for r sp m
    unfolding k_def by (rule zrep_go [where P = P and g = g, OF rep P go that])
qed

lemma zrep_search_less:
  fixes s :: "'s :: linorder" and e :: "'e :: linorder"
  assumes "zrep st ns ks"
  defines "k \<equiv> pos_of (s, e) ks" and "A \<equiv> header (zsl st) # take (pos_of (s, e) ks) ns"
  shows "\<exists>us l. descend (heap st) (\<lambda>r sp m. node_less s e m) (zlevel (zsl st)) (header (zsl st)) 0 = Some ((last A, k) # us) \<and>
    Suc (length us) = zlevel (zsl st) \<and>
    (\<forall>i<zlevel (zsl st). last_at (ht (heap st)) i A (fst (((last A, k) # us) ! i)) (snd (((last A, k) # us) ! i))) \<and>
    get_level (heap st) (last A) 0 = Some l \<and> fst l = (if k < length ns then Some (ns ! k) else None)"
  unfolding k_def A_def pos_of_def
  by (rule zrep_search [where P = "\<lambda>x. kless x (s, e)" and g = "node_less s e", OF assms(1)]) (auto simp: node_less_kless intro: kless_trans)

lemma zslInsert_rep:
  fixes st :: "('s :: linorder, 'e :: linorder) zstate"
  assumes rep: "zrep st ns ks" and new: "(s, e) \<notin> set ks" and lv: "0 < lv" "lv \<le> 32"
  defines "p \<equiv> pos_of (s, e) ks"
  shows "\<exists>st'. zslInsert st lv s e = Some (st', zbrk st) \<and> zrep st' (take p ns @ zbrk st # drop p ns) (insert_key (s, e) ks) \<and>
    ikey (heap st') = (ikey (heap st))(zbrk st \<mapsto> (s, Some e)) \<and> header (zsl st') = header (zsl st) \<and> zbrk st' = Suc (zbrk st)"
proof -
  obtain us where us: "descend (heap st) (\<lambda>r sp m. node_less s e m) (zlevel (zsl st)) (header (zsl st)) 0 = Some us" "length us = zlevel (zsl st)"
    "\<forall>i<zlevel (zsl st). last_at (ht (heap st)) i (header (zsl st) # take p ns) (fst (us ! i)) (snd (us ! i))"
    using zrep_search_less [OF rep, of s e] unfolding p_def by (elim exE conjE) simp
  have inv: "zinv st (take p ns @ drop p ns)"
    using rep by (simp add: zrep_def)
  obtain st' where st': "zslInsert st lv s e = Some (st', zbrk st)" "zinv st' (take p ns @ zbrk st # drop p ns)" "header (zsl st') = header (zsl st)"
    "ikey (heap st') = (ikey (heap st))(zbrk st \<mapsto> (s, Some e))" "zbrk st' = Suc (zbrk st)"
    using zslInsert_at [OF inv lv us] by (elim exE conjE)
  have fresh: "zbrk st \<notin> set (header (zsl st) # ns)"
    using zinv_exists [OF inv, of "zbrk st"] zinvD(12) [OF inv, of "zbrk st"] by auto
  have m: "map (ikey (heap st)) ns = map (\<lambda>(s, e). Some (s, Some e)) ks"
    using rep by (simp add: zrep_def)
  have "map (ikey (heap st')) ns = map (ikey (heap st)) ns"
    using fresh st'(4) by auto
  then have m': "map (ikey (heap st')) ns = map (\<lambda>(s, e). Some (s, Some e)) ks"
    using m by simp
  have "map (ikey (heap st')) (take p ns @ zbrk st # drop p ns) = map (\<lambda>(s, e). Some (s, Some e)) (insert_key (s, e) ks)"
    using m' st'(4) unfolding insert_key_take p_def by (simp add: take_map [symmetric] drop_map [symmetric])
  moreover have "\<exists>s0. ikey (heap st') (header (zsl st')) = Some (s0, None)"
    using rep st'(3,4) fresh by (auto simp: zrep_def)
  moreover have "sorted_wrt kless (insert_key (s, e) ks)"
    using insert_key_sorted rep new by (auto simp: zrep_def)
  ultimately show ?thesis
    using st' by (intro exI [of _ st']) (simp add: zrep_def)
qed

lemma last_at_fst:
  assumes "length us = n" "\<forall>i<n. last_at H i A (fst (us ! i)) (snd (us ! i))"
  shows "n \<le> length (map fst us)" "\<forall>i<n. \<exists>r. last_at H i A (map fst us ! i) r"
proof -
  show "n \<le> length (map fst us)"
    using assms(1) by simp
  show "\<forall>i<n. \<exists>r. last_at H i A (map fst us ! i) r"
  proof (intro allI impI)
    fix i
    assume i: "i < n"
    then have "last_at H i A (map fst us ! i) (snd (us ! i))"
      using assms by simp
    then show "\<exists>r. last_at H i A (map fst us ! i) r" ..
  qed
qed

lemma zslDeleteNode_rep:
  fixes st :: "('s :: linorder, 'e :: linorder) zstate"
  assumes rep: "zrep st ns ks" and j: "j < length ns" and us: "zlevel (zsl st) \<le> length us"
    "\<forall>i<zlevel (zsl st). \<exists>r. last_at (ht (heap st)) i (header (zsl st) # take j ns) (us ! i) r"
  shows "\<exists>st'. zslDeleteNode st (ns ! j) us = Some st' \<and> zrep st' (take j ns @ drop (Suc j) ns) (take j ks @ drop (Suc j) ks) \<and>
    header (zsl st') = header (zsl st) \<and> zlevel (zsl st') \<le> zlevel (zsl st) \<and> ht (heap st') = ht (heap st) \<and>
    ikey (heap st') = ikey (heap st) \<and> zbrk st' = zbrk st"
proof -
  have inv: "zinv st (take j ns @ ns ! j # drop (Suc j) ns)"
    using rep id_take_nth_drop [OF j] by (simp add: zrep_def)
  obtain st' where st': "zslDeleteNode st (ns ! j) us = Some st'" "zinv st' (take j ns @ drop (Suc j) ns)" "header (zsl st') = header (zsl st)"
    "zlevel (zsl st') \<le> zlevel (zsl st)" "ht (heap st') = ht (heap st)" "ikey (heap st') = ikey (heap st)" "zbrk st' = zbrk st"
    using zslDeleteNode_at [OF inv us] by (elim exE conjE)
  have m: "map (ikey (heap st)) ns = map (\<lambda>(s, e). Some (s, Some e)) ks"
    using rep by (simp add: zrep_def)
  have "map (ikey (heap st')) (take j ns @ drop (Suc j) ns) = map (\<lambda>(s, e). Some (s, Some e)) (take j ks @ drop (Suc j) ks)"
    using m st'(6) by (simp add: take_map [symmetric] drop_map [symmetric])
  moreover have "sorted_wrt kless (take j ks @ drop (Suc j) ks)"
  proof -
    have "sorted_wrt kless (take j ks @ ks ! j # drop (Suc j) ks)"
      using rep id_take_nth_drop [of j ks] j zrep_len [OF rep] by (simp add: zrep_def)
    then show ?thesis
      by (simp add: sorted_wrt_append)
  qed
  moreover have "\<exists>s0. ikey (heap st') (header (zsl st')) = Some (s0, None)"
    using rep st'(3,6) by (simp add: zrep_def)
  ultimately show ?thesis
    using st' by (intro exI [of _ st']) (simp add: zrep_def)
qed

lemma zslFreeNode_rep:
  assumes rep: "zrep st ns ks" and x: "x \<noteq> header (zsl st)" "x \<notin> set ns"
  shows "zrep (zslFreeNode st x) ns ks"
proof -
  have inv: "zinv st ns"
    using rep by (simp add: zrep_def)
  note f = zslFreeNode_inv [OF inv x]
  have "map (ikey (heap (zslFreeNode st x))) ns = map (ikey (heap st)) ns"
    using f(2) x(2) by auto
  also have "\<dots> = map (\<lambda>(s, e). Some (s, Some e)) ks"
    using rep by (simp add: zrep_def)
  finally have m: "map (ikey (heap (zslFreeNode st x))) ns = map (\<lambda>(s, e). Some (s, Some e)) ks" .
  have "\<exists>s. ikey (heap (zslFreeNode st x)) (header (zsl (zslFreeNode st x))) = Some (s, None)"
    using rep f(2,3) x(1) by (simp add: zrep_def)
  then show ?thesis
    using f(1) m rep by (simp only: zrep_def simp_thms)
qed

lemma zrep_distinct:
  assumes "zrep st ns ks" "j < length ns"
  shows "ns ! j \<noteq> header (zsl st)" "ns ! j \<notin> set (take j ns @ drop (Suc j) ns)"
proof -
  have "distinct (header (zsl st) # take j ns @ ns ! j # drop (Suc j) ns)"
    using assms id_take_nth_drop [OF assms(2)] by (simp add: zrep_def zinv_def)
  then show "ns ! j \<noteq> header (zsl st)" "ns ! j \<notin> set (take j ns @ drop (Suc j) ns)"
    by auto
qed

lemma remove_absent: "x \<notin> set xs \<Longrightarrow> filter (\<lambda>y. y \<noteq> x) xs = xs"
  by (simp add: filter_id_conv) blast

lemma zslDelete_rep:
  fixes st :: "('s :: linorder, 'e :: linorder) zstate"
  assumes rep: "zrep st ns ks"
  shows "\<exists>st' ns'. zslDelete st s e = Some (st', (s, e) \<in> set ks) \<and> zrep st' ns' (filter (\<lambda>k. k \<noteq> (s, e)) ks) \<and> 
    header (zsl st') = header (zsl st) \<and> zbrk st' = zbrk st \<and>
    ns' = (if (s, e) \<in> set ks then take (pos_of (s, e) ks) ns @ drop (Suc (pos_of (s, e) ks)) ns else ns) \<and>
    (\<forall>x\<in>set ns'. ikey (heap st') x = ikey (heap st) x)"
proof -
  let ?p = "pos_of (s, e) ks"
  let ?A = "header (zsl st) # take ?p ns"
  obtain us l where us: "descend (heap st) (\<lambda>r sp m. node_less s e m) (zlevel (zsl st)) (header (zsl st)) 0 = Some ((last ?A, ?p) # us)"
    "Suc (length us) = zlevel (zsl st)"
    "\<forall>i<zlevel (zsl st). last_at (ht (heap st)) i ?A (fst (((last ?A, ?p) # us) ! i)) (snd (((last ?A, ?p) # us) ! i))"
    "get_level (heap st) (last ?A) 0 = Some l" "fst l = (if ?p < length ns then Some (ns ! ?p) else None)"
    using zrep_search_less [OF rep, of s e] by (elim exE conjE)
  have sorted: "sorted_wrt kless ks" and len: "length ns = length ks"
    using rep zrep_len by (auto simp: zrep_def)
  show ?thesis
  proof (cases "(s, e) \<in> set ks")
    case True
    note p = pos_of_found [OF sorted True]
    have pn: "?p < length ns"
      using p(1) len by simp
    have "length ((last ?A, ?p) # us) = zlevel (zsl st)"
      using us(2) by simp
    note ul = last_at_fst [OF this us(3)]
    obtain st' where st': "zslDeleteNode st (ns ! ?p) (map fst ((last ?A, ?p) # us)) = Some st'"
      "zrep st' (take ?p ns @ drop (Suc ?p) ns) (take ?p ks @ drop (Suc ?p) ks)" "header (zsl st') = header (zsl st)" "ikey (heap st') = ikey (heap st)" "zbrk st' = zbrk st"
      using zslDeleteNode_rep [OF rep pn ul] by (elim exE conjE)
    obtain n where n: "heap st (ns ! ?p) = Some n" "score n = s" "ele n = Some e"
      using zrep_key [OF rep pn] p(2) by (auto simp: ikey_Some)
    have ne: "ns ! ?p \<noteq> header (zsl st')" "ns ! ?p \<notin> set (take ?p ns @ drop (Suc ?p) ns)"
      using zrep_distinct [OF rep pn] st'(3) by simp_all
    have inv': "zinv st' (take ?p ns @ drop (Suc ?p) ns)"
      using st'(2) by (simp add: zrep_def)
    have "zslDelete st s e = Some (zslFreeNode st' (ns ! ?p), True)"
      unfolding zslDelete_def using us(1,4,5) pn n st'(1) by (simp add: node_is_def)
    then show ?thesis
      using True zslFreeNode_rep [OF st'(2) ne] zslFreeNode_inv(2,3,4) [OF inv' ne] st'(3,4,5) ne(2) remove_key [OF sorted True]
      by (intro exI [of _ "zslFreeNode st' (ns ! ?p)"] exI [of _ "take ?p ns @ drop (Suc ?p) ns"]) auto
  next
    case False
    have "zslDelete st s e = Some (st, False)"
    proof (cases "?p < length ns")
      case pn: True
      obtain n where n: "heap st (ns ! ?p) = Some n" "(score n, ele n) = (fst (ks ! ?p), Some (snd (ks ! ?p)))"
        using zrep_key [OF rep pn] by (auto simp: ikey_Some)
      have "ks ! ?p \<in> set ks"
        using pn len by simp
      then have "ks ! ?p \<noteq> (s, e)"
        using False by metis
      then have "\<not> node_is s e n"
        using n(2) by (cases "ks ! ?p") (auto simp: node_is_def)
      then show ?thesis
        unfolding zslDelete_def using us(1,4,5) pn n(1) by simp
    next
      case False
      then show ?thesis
        unfolding zslDelete_def using us(1,4,5) by simp
    qed
    then show ?thesis
      using False rep remove_absent [OF False] by (intro exI [of _ st] exI [of _ ns]) simp
  qed
qed



section \<open>Ranks\<close>

lemma walk_at:
  assumes inv: "zinv st ns" and k: "k \<le> length ns"
    and go: "\<And>r sp m. 0 < sp \<Longrightarrow> r + sp \<le> length ns \<Longrightarrow> heap st (ns ! (r + sp - 1)) = Some m \<Longrightarrow> go r sp m \<longleftrightarrow> r + sp \<le> k"
    and A: "header (zsl st) # take k ns = A1 @ x # A2" and i: "i < ht (heap st) x" "i < zlevel (zsl st)"
  shows "\<exists>x' r'. walk (heap st) go i x (length A1) = Some (x', r') \<and> last_at (ht (heap st)) i (header (zsl st) # take k ns) x' r'"
proof -
  let ?A = "header (zsl st) # take k ns" and ?B = "drop k ns" and ?h = "heap st"
  have AB: "?A @ ?B = header (zsl st) # ns" and lenA: "length ?A = Suc k"
    using k by simp_all
  show ?thesis
  proof (rule walk_correct [where B = ?B])
    show "linked_at ?h i (?A @ ?B)"
      using zinvD(7) [OF inv i(2)] AB by simp
    show "?h y \<noteq> None" if "y \<in> set (?A @ ?B)" for y
      by (rule zinv_exists [OF inv]) (use that AB in simp)
    show "go r sp m \<longleftrightarrow> r + sp < length ?A" if "r + sp < length (?A @ ?B)" "0 < sp" "?h ((?A @ ?B) ! (r + sp)) = Some m" for r sp m
      using go [of sp r m] that unfolding AB lenA by (simp add: nth_Cons' less_Suc_eq_le)
  qed (use A i in simp_all)
qed

definition upto_key :: "'s :: linorder \<times> 'e :: linorder \<Rightarrow> 's \<times> 'e \<Rightarrow> bool" where
  "upto_key k x \<longleftrightarrow> x = k \<or> kless x k"

lemma upto_key_down: "kless x y \<Longrightarrow> upto_key k y \<Longrightarrow> upto_key k x"
  by (auto simp: upto_key_def intro: kless_trans)

lemma node_leq_upto: "ele m = Some f \<Longrightarrow> node_leq s e m \<longleftrightarrow> upto_key (s, e) (score m, f)"
  by (auto simp: node_leq_def upto_key_def kless_def)

lemma count_upto:
  assumes "sorted_wrt kless ks" "j < length ks" "ks ! j = k"
  shows "count_of (upto_key k) ks = Suc j"
proof (rule antisym)
  have iff: "upto_key k (ks ! i) \<longleftrightarrow> i < count_of (upto_key k) ks" if "i < length ks" for i
    by (rule count_of_iff [OF assms(1) _ that]) (rule upto_key_down)
  show "Suc j \<le> count_of (upto_key k) ks"
    using iff [OF assms(2)] assms(3) by (simp add: upto_key_def)
  show "count_of (upto_key k) ks \<le> Suc j"
  proof (cases "Suc j < length ks")
    case True
    then have "kless k (ks ! Suc j)"
      using assms by (auto simp: sorted_wrt_iff_nth_less)
    then have "\<not> upto_key k (ks ! Suc j)"
      using kless_asym [of k] unfolding upto_key_def by (metis kless_irrefl)
    then show ?thesis
      using iff [OF True] by simp
  qed (use count_of_le [of "upto_key k" ks] in linarith)
qed

lemma rank_loop_correct:
  fixes st :: "('s :: linorder, 'e :: linorder) zstate"
  assumes rep: "zrep st ns ks" and c: "c = count_of (upto_key (s, e)) ks"
    and n: "n \<le> zlevel (zsl st)" and A: "header (zsl st) # take c ns = A1 @ x # A2" "n \<le> ht (heap st) x" "n = 0 \<Longrightarrow> (s, e) \<notin> set ks"
  shows "rank_loop (heap st) s e n x (length A1) = Some (if (s, e) \<in> set ks then Suc (pos_of (s, e) ks) else 0)"
  using n A
proof (induction n arbitrary: A1 x A2)
  case (Suc n)
  have inv: "zinv st ns" and sorted: "sorted_wrt kless ks" and len: "length ns = length ks"
    using rep zrep_len by (auto simp: zrep_def)
  have cl: "c \<le> length ns"
    using count_of_le [of _ ks] c len by simp
  let ?A = "header (zsl st) # take c ns"
  have go: "node_leq s e m \<longleftrightarrow> r + sp \<le> c" if "0 < sp" "r + sp \<le> length ns" "heap st (ns ! (r + sp - 1)) = Some m" for r sp m
    unfolding c by (rule zrep_go [where P = "upto_key (s, e)" and g = "node_leq s e", OF rep upto_key_down node_leq_upto that])
  have i: "n < ht (heap st) x" "n < zlevel (zsl st)"
    using Suc.prems by simp_all
  obtain x' r where w: "walk (heap st) (\<lambda>r sp m. node_leq s e m) n x (length A1) = Some (x', r)" "last_at (ht (heap st)) n ?A x' r"
    using walk_at [where go = "\<lambda>r sp m. node_leq s e m", OF inv cl go Suc.prems(2) i] by blast
  obtain A1' A2' where A': "?A = A1' @ x' # A2'" "r = length A1'" "n < ht (heap st) x'"
    using w(2) by (auto simp: last_at_def)
  have rc: "r \<le> c" and xr: "x' = (header (zsl st) # ns) ! r"
  proof -
    have "length ?A = length (A1' @ x' # A2')"
      using A'(1) by simp
    then show "r \<le> c"
      using A'(2) cl by simp
    have "?A ! r = x'"
      using A'(1,2) by simp
    then show "x' = (header (zsl st) # ns) ! r"
      using \<open>r \<le> c\<close> by (cases r) simp_all
  qed
  obtain m where m: "heap st x' = Some m"
    using ht_pos [of "heap st" x'] A'(3) by auto
  show ?case
  proof (cases "ele m \<noteq> None \<and> node_is s e m")
    case True
    have "r \<noteq> 0"
    proof
      assume "r = 0"
      then show False
        using rep xr m True by (auto simp: zrep_def ikey_Some)
    qed
    then obtain j where j: "r = Suc j" "j < length ks" "x' = ns ! j"
      using rc cl len xr by (cases r) auto
    have "ks ! j = (s, e)"
      using zrep_key [OF rep, of j] j m True len by (cases "ks ! j") (auto simp: ikey_def node_is_def)
    then have "(s, e) \<in> set ks" "pos_of (s, e) ks = j"
      using j(2) pos_of_found [OF sorted, of "(s, e)"] nth_mem [OF j(2)] count_upto [OF sorted j(2)] count_upto [OF sorted pos_of_found [OF sorted, of "(s, e)"]] by auto
    then show ?thesis
      using w(1) m True j(1) by simp
  next
    case False
    have nz: "(s, e) \<notin> set ks" if "n = 0"
    proof
      assume in_ks: "(s, e) \<in> set ks"
      note p = pos_of_found [OF sorted in_ks]
      have "c = Suc (pos_of (s, e) ks)"
        using count_upto [OF sorted p] c by simp
      moreover have "\<forall>y\<in>set ?A. 0 < ht (heap st) y"
        using zinvD(2,5) [OF inv] set_take_subset [of c ns] by auto
      then have "r = c"
        using last_at_zero(2) [of "ht (heap st)" ?A x' r] w(2) that cl by simp
      ultimately have "x' = ns ! pos_of (s, e) ks"
        using xr by simp
      then show False
        using zrep_key [OF rep, of "pos_of (s, e) ks"] p len m False by (auto simp: ikey_def node_is_def)
    qed
    have "rank_loop (heap st) s e n x' (length A1') = Some (if (s, e) \<in> set ks then Suc (pos_of (s, e) ks) else 0)"
      by (rule Suc.IH) (use i A' nz in auto)
    then show ?thesis
      using w(1) m False A'(2) by auto
  qed
qed simp

lemma zslGetRank_rep:
  assumes rep: "zrep st ns ks"
  shows "zslGetRank st s e = Some (if (s, e) \<in> set ks then Suc (pos_of (s, e) ks) else 0)"
proof -
  have inv: "zinv st ns"
    using rep by (simp add: zrep_def)
  have "rank_loop (heap st) s e (zlevel (zsl st)) (header (zsl st)) (length ([] :: zaddr list)) = Some (if (s, e) \<in> set ks then Suc (pos_of (s, e) ks) else 0)"
    by (rule rank_loop_correct [OF rep refl]) (use zinvD(2,3,4) [OF inv] in auto)
  then show ?thesis
    by (simp add: zslGetRank_def)
qed



lemma by_rank_loop_correct:
  assumes inv: "zinv st ns" and c: "c = min rank (length ns)"
    and n: "n \<le> zlevel (zsl st)" and A: "header (zsl st) # take c ns = A1 @ x # A2" "n \<le> ht (heap st) x" "n = 0 \<Longrightarrow> length ns < rank"
  shows "by_rank_loop (heap st) rank n x (length A1) = Some (if rank \<le> length ns then Some ((header (zsl st) # ns) ! rank) else None)"
  using n A
proof (induction n arbitrary: A1 x A2)
  case (Suc n)
  have cl: "c \<le> length ns"
    using c by simp
  let ?A = "header (zsl st) # take c ns"
  have go: "r + sp \<le> rank \<longleftrightarrow> r + sp \<le> c" if "0 < sp" "r + sp \<le> length ns" for r sp
    using that c by auto
  have i: "n < ht (heap st) x" "n < zlevel (zsl st)"
    using Suc.prems by simp_all
  obtain x' r where w: "walk (heap st) (\<lambda>r sp m. r + sp \<le> rank) n x (length A1) = Some (x', r)" "last_at (ht (heap st)) n ?A x' r"
    using walk_at [where go = "\<lambda>r sp m. r + sp \<le> rank", OF inv cl go Suc.prems(2) i] by blast
  obtain A1' A2' where A': "?A = A1' @ x' # A2'" "r = length A1'" "n < ht (heap st) x'"
    using w(2) by (auto simp: last_at_def)
  have rc: "r \<le> c"
  proof -
    have "length ?A = length (A1' @ x' # A2')"
      using A'(1) by simp
    then show ?thesis
      using A'(2) cl by simp
  qed
  have "?A ! r = x'"
    using A'(1,2) by simp
  then have xr: "x' = (header (zsl st) # ns) ! r"
    using rc by (cases r) simp_all
  show ?case
  proof (cases "r = rank")
    case True
    then show ?thesis
      using w(1) rc cl xr by simp
  next
    case False
    have nz: "length ns < rank" if "n = 0"
    proof -
      have "\<forall>y\<in>set ?A. 0 < ht (heap st) y"
        using zinvD(2,5) [OF inv] set_take_subset [of c ns] by auto
      then have "r = c"
        using last_at_zero(2) [of "ht (heap st)" ?A x' r] w(2) that cl by simp
      then show ?thesis
        using False c by simp
    qed
    have "by_rank_loop (heap st) rank n x' (length A1') = Some (if rank \<le> length ns then Some ((header (zsl st) # ns) ! rank) else None)"
      by (rule Suc.IH) (use i A' nz in auto)
    then show ?thesis
      using w(1) False A'(2) by simp
  qed
qed simp

lemma zslGetElementByRank_rep:
  assumes rep: "zrep st ns ks"
  shows "zslGetElementByRank st rank = Some (if rank \<le> length ns then Some ((header (zsl st) # ns) ! rank) else None)"
proof -
  have inv: "zinv st ns"
    using rep by (simp add: zrep_def)
  have "by_rank_loop (heap st) rank (zlevel (zsl st)) (header (zsl st)) (length ([] :: zaddr list)) =
    Some (if rank \<le> length ns then Some ((header (zsl st) # ns) ! rank) else None)"
    by (rule by_rank_loop_correct [OF inv refl]) (use zinvD(2,3,4) [OF inv] in auto)
  then show ?thesis
    by (simp add: zslGetElementByRank_def)
qed

section \<open>Change of a score\<close>

lemma insert_key_between:
  assumes "\<forall>x\<in>set xs. kless x k" "\<forall>y\<in>set ys. kless k y"
  shows "insert_key k (xs @ ys) = xs @ k # ys"
proof -
  have "\<not> kless y k" if "y \<in> set ys" for y
    using assms(2) that kless_asym by blast
  then have "takeWhile (\<lambda>x. kless x k) ys = []" "dropWhile (\<lambda>x. kless x k) ys = ys"
    by (cases ys; simp)+
  then show ?thesis
    using assms(1) by (simp add: insert_key_def)
qed

lemma sorted_fst:
  assumes "sorted_wrt kless ks" "i \<le> j" "j < length ks"
  shows "fst (ks ! i) \<le> fst (ks ! j)"
proof (cases "i = j")
  case False
  then have "kless (ks ! i) (ks ! j)"
    using assms by (simp add: sorted_wrt_iff_nth_less)
  then show ?thesis
    by (auto simp: kless_def)
qed simp

lemma between_scores:
  assumes sorted: "sorted_wrt kless ks" and p: "p < length ks"
    and prev: "0 < p \<Longrightarrow> fst (ks ! (p - 1)) < s" and nxt: "Suc p < length ks \<Longrightarrow> s < fst (ks ! Suc p)"
  shows "\<forall>x\<in>set (take p ks). kless x (s, e)" "\<forall>y\<in>set (drop (Suc p) ks). kless (s, e) y"
proof -
  show "\<forall>x\<in>set (take p ks). kless x (s, e)"
  proof
    fix x
    assume "x \<in> set (take p ks)"
    then obtain i where i: "i < p" "x = ks ! i"
      by (auto simp: in_set_conv_nth)
    have "fst (ks ! i) \<le> fst (ks ! (p - 1))"
      by (rule sorted_fst [OF sorted]) (use i p in auto)
    also have "\<dots> < s"
      by (rule prev) (use i in simp)
    finally show "kless x (s, e)"
      using i by (simp add: kless_def)
  qed
  show "\<forall>y\<in>set (drop (Suc p) ks). kless (s, e) y"
  proof
    fix y
    assume "y \<in> set (drop (Suc p) ks)"
    then obtain i where i: "i < length (drop (Suc p) ks)" "y = drop (Suc p) ks ! i"
      by (auto simp: in_set_conv_nth)
    then have y: "y = ks ! (Suc p + i)" "Suc p + i < length ks"
      by simp_all
    have "s < fst (ks ! Suc p)"
      by (rule nxt) (use y in simp)
    also have "\<dots> \<le> fst (ks ! (Suc p + i))"
      by (rule sorted_fst [OF sorted]) (use y in auto)
    finally show "kless (s, e) y"
      using y by (simp add: kless_def)
  qed
qed

lemma zinv_back:
  assumes "zinv st ns" "j < length ns" "heap st (ns ! j) = Some n"
  shows "backward n = (if j = 0 then None else Some (ns ! (j - 1)))"
proof -
  have "backs (heap st) None (take j ns @ ns ! j # drop (Suc j) ns)"
    using zinvD(9) [OF assms(1)] id_take_nth_drop [OF assms(2)] by simp
  then have "\<exists>e s. info (heap st) (ns ! j) = Some (e, s, if take j ns = [] then None else Some (last (take j ns)))"
    by (simp add: backs_append)
  then have "backward n = (if take j ns = [] then None else Some (last (take j ns)))"
    using assms(3) by (auto simp: info_def)
  moreover have "last (take j ns) = ns ! (j - 1) \<and> take j ns \<noteq> []" if j0: "j \<noteq> 0"
  proof -
    have ne: "take j ns \<noteq> []"
      using j0 assms(2) by auto
    then show ?thesis
      using j0 assms(2) last_conv_nth [OF ne] by (simp add: min_def)
  qed
  ultimately show ?thesis
    by (cases "j = 0") simp_all
qed

lemma zinv_forward:
  assumes inv: "zinv st ns" and j: "j < length ns"
  shows "\<exists>l. get_level (heap st) (ns ! j) 0 = Some l \<and> fst l = (if Suc j < length ns then Some (ns ! Suc j) else None)"
proof -
  have lk: "linked_at (heap st) 0 ((header (zsl st) # take j ns) @ ns ! j # drop (Suc j) ns)"
    using zinvD(7) [OF inv zinvD(3) [OF inv]] id_take_nth_drop [OF j] by simp
  have ht: "0 < ht (heap st) y" if "y \<in> set ns" for y
    by (rule zinvD(5) [OF inv that])
  have "lvl (heap st) (ns ! j) 0 = link (ht (heap st)) 0 (drop (Suc j) ns)"
    by (rule linked_at_split [OF lk]) (use ht j in simp)
  moreover have "fst (link (ht (heap st)) 0 (drop (Suc j) ns)) = (if Suc j < length ns then Some (ns ! Suc j) else None)"
    using ht by (cases "Suc j < length ns") (simp_all add: Cons_nth_drop_Suc [symmetric])
  ultimately show ?thesis
    using ht j by (simp add: get_level_eq)
qed

lemma zinv_rescore:
  assumes inv: "zinv st ns" and n: "heap st x = Some n"
  shows "zinv (st\<lparr>heap := (heap st)(x \<mapsto> n\<lparr>score := s\<rparr>)\<rparr>) ns"
proof -
  let ?h = "(heap st)(x \<mapsto> n\<lparr>score := s\<rparr>)"
  have same: "ht ?h = ht (heap st)" "lvl ?h = lvl (heap st)"
    using n by (auto simp: ht_def lvl_def fun_eq_iff)
  have b: "backs ?h b xs = backs (heap st) b xs" for b xs
  proof (induction xs arbitrary: b)
    case (Cons y ys)
    have "(\<exists>e s. info ?h y = Some (e, s, b)) = (\<exists>e s. info (heap st) y = Some (e, s, b))"
      using n by (simp add: info_def)
    then show ?case
      using Cons by (simp only: backs.simps)
  qed simp
  show ?thesis
  proof (rule zinvI)
    show "linked_at (heap (st\<lparr>heap := ?h\<rparr>)) i (header (zsl (st\<lparr>heap := ?h\<rparr>)) # ns)" if "i < zlevel (zsl (st\<lparr>heap := ?h\<rparr>))" for i
      using linked_at_cong [OF zinvD(7) [OF inv], of i ?h] that same by simp
    show "heap (st\<lparr>heap := ?h\<rparr>) y = None" if "zbrk (st\<lparr>heap := ?h\<rparr>) \<le> y" for y
      using zinvD(12) [OF inv, of y] that n by auto
  qed (use zinvD(1,2,3,4,5,6,8,9,10,11) [OF inv] same b in simp_all)
qed

lemma rescore_rep:
  fixes st :: "('s :: linorder, 'e :: linorder) zstate"
  assumes rep: "zrep st ns ks" and p: "p < length ns" "heap st (ns ! p) = Some n"
    and lt: "\<forall>x\<in>set (take p ks). kless x (s, snd (ks ! p))" "\<forall>y\<in>set (drop (Suc p) ks). kless (s, snd (ks ! p)) y"
  shows "zrep (st\<lparr>heap := (heap st)(ns ! p \<mapsto> n\<lparr>score := s\<rparr>)\<rparr>) ns (take p ks @ (s, snd (ks ! p)) # drop (Suc p) ks)"
proof -
  let ?st = "st\<lparr>heap := (heap st)(ns ! p \<mapsto> n\<lparr>score := s\<rparr>)\<rparr>" and ?k = "(s, snd (ks ! p))"
  have inv: "zinv st ns" and sorted: "sorted_wrt kless ks" and len: "length ns = length ks"
    using rep zrep_len by (auto simp: zrep_def)
  have ne: "ns ! p \<noteq> header (zsl st)"
    by (rule zrep_distinct(1) [OF rep p(1)])
  have e: "ele n = Some (snd (ks ! p))"
    using zrep_key [OF rep p(1)] p(2) by (auto simp: ikey_def)
  have "map (ikey (heap ?st)) ns = map (\<lambda>(s, e). Some (s, Some e)) (ks[p := ?k])"
  proof (rule nth_equalityI)
    fix i
    assume "i < length (map (ikey (heap ?st)) ns)"
    then have i: "i < length ns"
      by simp
    show "map (ikey (heap ?st)) ns ! i = map (\<lambda>(s, e). Some (s, Some e)) (ks[p := ?k]) ! i"
    proof (cases "i = p")
      case True
      then show ?thesis
        using i len e by (simp add: ikey_def)
    next
      case False
      then have "ns ! i \<noteq> ns ! p"
        using zinvD(1) [OF inv] i p(1) by (simp add: nth_eq_iff_index_eq)
      then show ?thesis
        using zrep_key [OF rep i] i len False by (simp add: ikey_def case_prod_beta)
    qed
  qed (use len in simp)
  moreover have "ks[p := ?k] = take p ks @ ?k # drop (Suc p) ks"
    using p(1) len by (simp add: upd_conv_take_nth_drop)
  moreover have "sorted_wrt kless (take p ks @ ?k # drop (Suc p) ks)"
  proof -
    have "sorted_wrt kless (take p ks @ ks ! p # drop (Suc p) ks)"
      using sorted id_take_nth_drop [of p ks] p(1) len by simp
    then show ?thesis
      using lt by (simp add: sorted_wrt_append)
  qed
  moreover have "\<exists>s0. ikey (heap ?st) (header (zsl ?st)) = Some (s0, None)"
    using rep ne by (auto simp: zrep_def ikey_def)
  ultimately show ?thesis
    using zinv_rescore [OF inv p(2)] by (simp only: zrep_def simp_thms)
qed

lemma set_remove_nth:
  assumes "distinct xs" "p < length xs"
  shows "set (take p xs @ drop (Suc p) xs) = set xs - {xs ! p}"
proof -
  have xs: "xs = take p xs @ xs ! p # drop (Suc p) xs"
    by (rule id_take_nth_drop [OF assms(2)])
  have d: "distinct (take p xs @ xs ! p # drop (Suc p) xs)"
    using assms(1) xs by simp
  have "set xs = insert (xs ! p) (set (take p xs @ drop (Suc p) xs))"
    by (subst xs) simp
  then show ?thesis
    using d by auto
qed

lemma set_insert_nth: "set (take q xs @ a # drop q xs) = insert a (set xs)"
proof -
  have "set xs = set (take q xs) \<union> set (drop q xs)"
    by (metis append_take_drop_id set_append)
  then show ?thesis
    by simp
qed

lemma zslUpdateScore_rep:
  fixes st :: "('s :: linorder, 'e :: linorder) zstate"
  assumes rep: "zrep st ns ks" and cur: "(cur, e) \<in> set ks" and new: "(s, e) \<notin> set ks" and lv: "0 < lv" "lv \<le> 32"
  defines "x \<equiv> ns ! pos_of (cur, e) ks"
  shows "\<exists>st' y ns'. zslUpdateScore st lv cur e s = Some (st', y) \<and> zrep st' ns' (insert_key (s, e) (filter (\<lambda>k. k \<noteq> (cur, e)) ks)) \<and>
    y \<in> set ns' \<and> ikey (heap st') y = Some (s, Some e) \<and> (\<forall>z. z \<noteq> y \<longrightarrow> (z \<in> set ns' \<longleftrightarrow> z \<in> set ns \<and> z \<noteq> x)) \<and>
    (\<forall>z\<in>set ns'. z \<noteq> y \<longrightarrow> ikey (heap st') z = ikey (heap st) z) \<and> (y \<in> set ns \<longrightarrow> y = x)"
proof -
  let ?p = "pos_of (cur, e) ks"
  let ?A = "header (zsl st) # take ?p ns"
  have inv: "zinv st ns" and sorted: "sorted_wrt kless ks" and len: "length ns = length ks"
    using rep zrep_len by (auto simp: zrep_def)
  note p = pos_of_found [OF sorted cur]
  have pn: "?p < length ns"
    using p(1) len by simp
  obtain us l where us: "descend (heap st) (\<lambda>r sp m. node_less cur e m) (zlevel (zsl st)) (header (zsl st)) 0 = Some ((last ?A, ?p) # us)"
    "Suc (length us) = zlevel (zsl st)"
    "\<forall>i<zlevel (zsl st). last_at (ht (heap st)) i ?A (fst (((last ?A, ?p) # us) ! i)) (snd (((last ?A, ?p) # us) ! i))"
    "get_level (heap st) (last ?A) 0 = Some l" "fst l = (if ?p < length ns then Some (ns ! ?p) else None)"
    using zrep_search_less [OF rep, of cur e] by (elim exE conjE)
  obtain n where n: "heap st x = Some n" "score n = cur" "ele n = Some e"
    using zrep_key [OF rep pn] p(2) by (auto simp: ikey_Some x_def)
  have nis: "node_is cur e n"
    using n by (simp add: node_is_def)
  have sc: "\<exists>m. heap st (ns ! j) = Some m \<and> score m = fst (ks ! j)" if "j < length ns" for j
    using zrep_key [OF rep that] by (auto simp: ikey_Some)
  have "\<exists>b. (case backward n of None \<Rightarrow> Some True | Some b \<Rightarrow> do { bn \<leftarrow> heap st b; Some (score bn < s) }) = Some b \<and>
    (b \<longleftrightarrow> (0 < ?p \<longrightarrow> fst (ks ! (?p - 1)) < s))"
  proof (cases "?p = 0")
    case True
    then show ?thesis
      using zinv_back [OF inv pn] n(1) by (auto simp: x_def)
  next
    case False
    then have "?p - 1 < length ns"
      using pn by simp
    then obtain m where "heap st (ns ! (?p - 1)) = Some m" "score m = fst (ks ! (?p - 1))"
      using sc by blast
    then show ?thesis
      using False zinv_back [OF inv pn] n(1) by (simp add: x_def)
  qed
  then obtain b1 where b1: "(case backward n of None \<Rightarrow> Some True | Some b \<Rightarrow> do { bn \<leftarrow> heap st b; Some (score bn < s) }) = Some b1"
    "b1 \<longleftrightarrow> (0 < ?p \<longrightarrow> fst (ks ! (?p - 1)) < s)"
    by (elim exE conjE)
  obtain l2 where l2: "get_level (heap st) x 0 = Some l2" "fst l2 = (if Suc ?p < length ns then Some (ns ! Suc ?p) else None)"
    using zinv_forward [OF inv pn] unfolding x_def by (elim exE conjE)
  have "\<exists>b. (case fst l2 of None \<Rightarrow> Some True | Some y \<Rightarrow> do { yn \<leftarrow> heap st y; Some (score yn > s) }) = Some b \<and>
    (b \<longleftrightarrow> (Suc ?p < length ks \<longrightarrow> s < fst (ks ! Suc ?p)))"
    using l2(2) sc [of "Suc ?p"] len by auto
  then obtain b2 where b2: "(case fst l2 of None \<Rightarrow> Some True | Some y \<Rightarrow> do { yn \<leftarrow> heap st y; Some (score yn > s) }) = Some b2"
    "b2 \<longleftrightarrow> (Suc ?p < length ks \<longrightarrow> s < fst (ks ! Suc ?p))"
    by (elim exE conjE)
  have run: "zslUpdateScore st lv cur e s = (if b1 \<and> b2 then Some (st\<lparr>heap := (heap st)(x \<mapsto> n\<lparr>score := s\<rparr>)\<rparr>, x)
       else do {
         st \<leftarrow> zslDeleteNode st x (map fst ((last ?A, ?p) # us));
         (st, y) \<leftarrow> zslInsert st lv s e;
         Some (zslFreeNode st x, y)
       })"
    unfolding zslUpdateScore_def using us(1,4,5) pn n(1) nis b1(1) b2(1) l2(1) by (simp add: x_def)
  have dis: "distinct ns" and xh: "x \<noteq> header (zsl st)"
    using zinvD(1) [OF inv] zrep_distinct(1) [OF rep pn] by (simp_all add: x_def)
  have xn: "x \<in> set ns"
    using pn by (simp add: x_def)
  show ?thesis
  proof (cases "b1 \<and> b2")
    case True
    have pv: "fst (ks ! (?p - 1)) < s" if "0 < ?p"
      using True b1(2) that by blast
    have nx: "s < fst (ks ! Suc ?p)" if "Suc ?p < length ks"
      using True b2(2) that by blast
    note bt = between_scores [OF sorted p(1) pv nx, where e = e]
    have ks': "take ?p ks @ (s, e) # drop (Suc ?p) ks = insert_key (s, e) (filter (\<lambda>k. k \<noteq> (cur, e)) ks)"
      using insert_key_between [OF bt] remove_key [OF sorted cur] by simp
    have e2: "snd (ks ! ?p) = e"
      using p(2) by simp
    have "zrep (st\<lparr>heap := (heap st)(ns ! ?p \<mapsto> n\<lparr>score := s\<rparr>)\<rparr>) ns (take ?p ks @ (s, snd (ks ! ?p)) # drop (Suc ?p) ks)"
      by (rule rescore_rep [OF rep pn]) (use n(1) bt e2 in \<open>simp_all add: x_def\<close>)
    then have "zrep (st\<lparr>heap := (heap st)(x \<mapsto> n\<lparr>score := s\<rparr>)\<rparr>) ns (insert_key (s, e) (filter (\<lambda>k. k \<noteq> (cur, e)) ks))"
      using e2 ks' by (simp add: x_def)
    then show ?thesis
      using run True xn n by (intro exI [of _ "st\<lparr>heap := (heap st)(x \<mapsto> n\<lparr>score := s\<rparr>)\<rparr>"] exI [of _ x] exI [of _ ns]) (auto simp: ikey_def)
  next
    case False
    have "length ((last ?A, ?p) # us) = zlevel (zsl st)"
      using us(2) by simp
    note ul = last_at_fst [OF this us(3)]
    let ?ns = "take ?p ns @ drop (Suc ?p) ns" and ?ks = "filter (\<lambda>k. k \<noteq> (cur, e)) ks"
    obtain st1 where st1: "zslDeleteNode st x (map fst ((last ?A, ?p) # us)) = Some st1"
      "zrep st1 ?ns (take ?p ks @ drop (Suc ?p) ks)" "header (zsl st1) = header (zsl st)" "ikey (heap st1) = ikey (heap st)" "zbrk st1 = zbrk st"
      using zslDeleteNode_rep [OF rep pn ul] unfolding x_def by (elim exE conjE)
    have rep1: "zrep st1 ?ns ?ks"
      using st1(2) remove_key [OF sorted cur] by simp
    have nin: "(s, e) \<notin> set ?ks"
      using new by simp
    let ?q = "pos_of (s, e) ?ks" and ?a = "zbrk st1"
    obtain st2 where st2: "zslInsert st1 lv s e = Some (st2, ?a)" "zrep st2 (take ?q ?ns @ ?a # drop ?q ?ns) (insert_key (s, e) ?ks)"
      "ikey (heap st2) = (ikey (heap st1))(?a \<mapsto> (s, Some e))" "header (zsl st2) = header (zsl st1)"
      using zslInsert_rep [OF rep1 nin lv] by (elim exE conjE)
    have xa: "x \<noteq> ?a"
      using zinvD(12) [OF inv, of ?a] n(1) st1(5) by auto
    have an: "?a \<notin> set ns"
      using zinv_exists [OF inv, of ?a] zinvD(12) [OF inv, of ?a] st1(5) by auto
    have set_ns: "set (take ?q ?ns @ ?a # drop ?q ?ns) = insert ?a (set ?ns)"
      by (rule set_insert_nth)
    have sn: "set ?ns = set ns - {x}"
      unfolding x_def by (rule set_remove_nth [OF dis pn])
    have nx: "x \<notin> set (take ?q ?ns @ ?a # drop ?q ?ns)"
      using set_ns sn xa by auto
    have nh: "x \<noteq> header (zsl st2)"
      using xh st2(4) st1(3) by simp
    have r: "zslUpdateScore st lv cur e s = Some (zslFreeNode st2 x, ?a)"
      using run False st1(1) st2(1) by auto
    have inv2: "zinv st2 (take ?q ?ns @ ?a # drop ?q ?ns)"
      using st2(2) by (simp add: zrep_def)
    have k2: "ikey (heap (zslFreeNode st2 x)) = ((ikey (heap st))(?a \<mapsto> (s, Some e)))(x := None)"
      using zslFreeNode_inv(2) [OF inv2 nh nx] st2(3) st1(4) by simp
    show ?thesis
    proof (intro exI conjI)
      show "zrep (zslFreeNode st2 x) (take ?q ?ns @ ?a # drop ?q ?ns) (insert_key (s, e) ?ks)"
        by (rule zslFreeNode_rep [OF st2(2) nh nx])
    qed (use r k2 set_ns sn xa an in auto)
  qed
qed



lemma random_loop_ge: "random_loop lv rs = Some n \<Longrightarrow> lv \<le> n"
proof (induction lv rs rule: random_loop.induct)
  case (2 lv rs)
  then show ?case
    by simp
qed simp_all

lemma zslRandomLevel_bounds: "zslRandomLevel rs = Some lv \<Longrightarrow> 0 < lv \<and> lv \<le> ZSKIPLIST_MAXLEVEL"
  using random_loop_ge [of 1 rs] by (fastforce simp: zslRandomLevel_def ZSKIPLIST_MAXLEVEL_def split: Option.bind_splits if_splits)

section \<open>Properties\<close>

text \<open>A list with one key.\<close>

definition one_key :: "(int, nat) zstate" where
  "one_key = fst (the (zslInsert (zslCreate Map.empty 0) 2 5 7))"

lemma one_key_rep: "zrep one_key [1] [(5, 7)]" "zbrk one_key = 2"
proof -
  have "zrep (zslCreate Map.empty 0 :: (int, nat) zstate) [] []"
    by (rule zslCreate_rep) simp
  from zslInsert_rep [OF this, of 5 7 2] show "zrep one_key [1] [(5, 7)]" "zbrk one_key = 2"
    by (auto simp: one_key_def insert_key_def zslCreate_def)
qed

text \<open>C7: Insertion into a skip list that holds the sorted keys \<open>ks\<close>, of a key that is not in it and at any height that the random numbers may give, does not fault, no span wraps around, and gives a list that holds the key at its place: all forward
  pointers, spans, backward pointers, the tail and the length are those of the new sequence of nodes.\<close>

theorem zslInsert_correct:
  assumes "zrep st ns ks" "(s, e) \<notin> set ks" "zslRandomLevel rs = Some lv"
  shows "\<exists>st'. zslInsert st lv s e = Some (st', zbrk st) \<and>
    zrep st' (take (pos_of (s, e) ks) ns @ zbrk st # drop (pos_of (s, e) ks) ns) (insert_key (s, e) ks)"
proof -
  have "0 < lv" "lv \<le> 32"
    using zslRandomLevel_bounds [OF assms(3)] by (simp_all add: ZSKIPLIST_MAXLEVEL_def)
  then show ?thesis
    using zslInsert_rep [OF assms(1,2)] by blast
qed

theorem zslInsert_correct_witness:
  "\<exists>st'. zslInsert one_key 3 4 9 = Some (st', 2) \<and> zrep st' [2, 1] [(4, 9), (5, 7)]"
proof -
  have r: "zslRandomLevel [True, True, False] = Some 3"
    by (simp add: zslRandomLevel_def ZSKIPLIST_MAXLEVEL_def)
  have "pos_of (4, 9) [(5 :: int, 7 :: nat)] = 0" "insert_key (4, 9) [(5 :: int, 7 :: nat)] = [(4, 9), (5, 7)]"
    by (simp_all add: pos_of_def count_of_def kless_def insert_key_def)
  then show ?thesis
    using zslInsert_correct [OF one_key_rep(1) _ r, of 4 9] one_key_rep(2) by simp
qed

text \<open>C8: Deletion of a key does not fault, says whether the key was in the list, and gives a list that holds the other keys; a key that is not there leaves the keys as they were.\<close>

theorem zslDelete_correct:
  assumes "zrep st ns ks"
  shows "\<exists>st' ns'. zslDelete st s e = Some (st', (s, e) \<in> set ks) \<and> zrep st' ns' (filter (\<lambda>k. k \<noteq> (s, e)) ks)"
  using zslDelete_rep [OF assms] by blast

theorem zslDelete_correct_witness:
  "\<exists>st' ns'. zslDelete one_key 5 7 = Some (st', True) \<and> zrep st' ns' []"
  using zslDelete_correct [OF one_key_rep(1), of 5 7] by simp

text \<open>C27: A change of the score of a key, in place or by a deletion and an insertion, gives the list of keys without the old key and with the new one at its place; the returned node is the one that holds the new key.\<close>

theorem zslUpdateScore_correct:
  assumes "zrep st ns ks" "(cur, e) \<in> set ks" "(s, e) \<notin> set ks" "zslRandomLevel rs = Some lv"
  shows "\<exists>st' y ns' n. zslUpdateScore st lv cur e s = Some (st', y) \<and> zrep st' ns' (insert_key (s, e) (filter (\<lambda>k. k \<noteq> (cur, e)) ks)) \<and>
    y \<in> set ns' \<and> heap st' y = Some n \<and> score n = s \<and> ele n = Some e"
proof -
  have lv: "0 < lv" "lv \<le> 32"
    using zslRandomLevel_bounds [OF assms(4)] by (simp_all add: ZSKIPLIST_MAXLEVEL_def)
  obtain st' y ns' where "zslUpdateScore st lv cur e s = Some (st', y)" "zrep st' ns' (insert_key (s, e) (filter (\<lambda>k. k \<noteq> (cur, e)) ks))"
    "y \<in> set ns'" "ikey (heap st') y = Some (s, Some e)"
    using zslUpdateScore_rep [OF assms(1,2,3) lv] by (elim exE conjE)
  then show ?thesis
    unfolding ikey_Some by blast
qed

theorem zslUpdateScore_correct_witness:
  "\<exists>st' y ns' n. zslUpdateScore one_key 1 5 7 6 = Some (st', y) \<and> zrep st' ns' [(6, 7)] \<and> y \<in> set ns' \<and> heap st' y = Some n \<and> score n = 6 \<and> ele n = Some 7"
proof -
  have r: "zslRandomLevel [False] = Some 1"
    by (simp add: zslRandomLevel_def ZSKIPLIST_MAXLEVEL_def)
  show ?thesis
    using zslUpdateScore_correct [OF one_key_rep(1) _ _ r, of 5 7 6] by (simp add: insert_key_def)
qed

text \<open>C26: The rank of a key of the list is its position, counted from one, and the node that \<open>zslGetElementByRank\<close> returns for this rank holds the key; a key that is not in the list has rank zero.\<close>

theorem zslGetRank_roundtrip:
  assumes "zrep st ns ks"
  shows "if (s, e) \<in> set ks
    then \<exists>r x n. zslGetRank st s e = Some r \<and> 0 < r \<and> ks ! (r - 1) = (s, e) \<and>
      zslGetElementByRank st r = Some (Some x) \<and> heap st x = Some n \<and> score n = s \<and> ele n = Some e
    else zslGetRank st s e = Some 0"
proof (cases "(s, e) \<in> set ks")
  case True
  have sorted: "sorted_wrt kless ks"
    using assms by (simp add: zrep_def)
  note p = pos_of_found [OF sorted True]
  have pn: "pos_of (s, e) ks < length ns"
    using p(1) zrep_len [OF assms] by simp
  have "ikey (heap st) (ns ! pos_of (s, e) ks) = Some (s, Some e)"
    using zrep_key [OF assms pn] p(2) by simp
  then show ?thesis
    using True p pn zslGetRank_rep [OF assms, of s e] zslGetElementByRank_rep [OF assms, of "Suc (pos_of (s, e) ks)"]
    by (auto simp: ikey_Some)
qed (use zslGetRank_rep [OF assms] in simp)

theorem zslGetRank_roundtrip_witness:
  "\<exists>r x n. zslGetRank one_key 5 7 = Some r \<and> 0 < r \<and> [(5, 7)] ! (r - 1) = (5 :: int, 7 :: nat) \<and>
    zslGetElementByRank one_key r = Some (Some x) \<and> heap one_key x = Some n \<and> score n = 5 \<and> ele n = Some 7"
  using zslGetRank_roundtrip [OF one_key_rep(1), of 5 7] by simp

end
