(* ===== verification/Sorted_Set.thy ===== *)
theory Sorted_Set
  imports Skiplist_Order Stepwise
begin

text \<open>
  Sorted sets in the encoding with a skip list and a hash table (\<^verbatim>\<open>t_zset.c\<close>).

  \<^item> The hash table maps an element to the node whose score it points to, as in the code: a score is read through this pointer.
  \<^item> The hash table is the map that \<^verbatim>\<open>Dict_Map\<close> shows it to be, so that \<^verbatim>\<open>dictResize\<close> after a deletion has no effect here.
  \<^item> A score that the caller passes is \<open>None\<close> if it is \<^verbatim>\<open>NaN\<close>, and the addition of scores is an argument that may return \<open>None\<close> for the same reason.
  \<^item> The specification is a map from elements to scores; the ranks are defined from it alone. Every operation implements it, for any sequence of operations and any heights
    that the random numbers give to the nodes.
\<close>

section \<open>Operations\<close>

record ('s, 'e) zset =
  zdict :: "'e \<rightharpoonup> zaddr"
  zskip :: "('s, 'e) zstate"

record zadd_flags =
  in_incr :: bool
  in_nx :: bool
  in_xx :: bool
  in_gt :: bool
  in_lt :: bool

datatype zadd_out = ZADD_OUT_NOP | ZADD_OUT_NAN | ZADD_OUT_ADDED | ZADD_OUT_UPDATED

definition createZset :: "zaddr \<Rightarrow> ('s :: zero, 'e) zset" where
  "createZset a = \<lparr>zdict = Map.empty, zskip = zslCreate Map.empty a\<rparr>"

definition zsetLength :: "('s, 'e) zset \<Rightarrow> nat" where
  "zsetLength zs = zlength (zsl (zskip zs))"

definition zsetScore :: "('s, 'e) zset \<Rightarrow> 'e \<Rightarrow> 's option option" where
  "zsetScore zs e = (case zdict zs e of
     None \<Rightarrow> Some None
   | Some x \<Rightarrow> do { n \<leftarrow> heap (zskip zs) x; Some (Some (score n)) })"

text \<open>The result has the return value, the flag that is set and the value of \<^verbatim>\<open>*newscore\<close> if it is written.\<close>

definition zsetAdd ::
  "('s \<Rightarrow> 's \<Rightarrow> 's option) \<Rightarrow> ('s :: linorder, 'e :: linorder) zset \<Rightarrow> nat \<Rightarrow> 's option \<Rightarrow> 'e \<Rightarrow> zadd_flags \<Rightarrow>
   (('s, 'e) zset \<times> bool \<times> zadd_out option \<times> 's option) option" where
  "zsetAdd add zs lv sc e fl = (case sc of
     None \<Rightarrow> Some (zs, False, Some ZADD_OUT_NAN, None)
   | Some s \<Rightarrow> (case zdict zs e of
       Some x \<Rightarrow>
         if in_nx fl then Some (zs, True, Some ZADD_OUT_NOP, None)
         else do {
           n \<leftarrow> heap (zskip zs) x;
           let cur = score n;
           case (if in_incr fl then add s cur else Some s) of
             None \<Rightarrow> Some (zs, False, Some ZADD_OUT_NAN, None)
           | Some s \<Rightarrow>
               if (in_lt fl \<and> s \<ge> cur) \<or> (in_gt fl \<and> s \<le> cur) then Some (zs, True, Some ZADD_OUT_NOP, None)
               else if s \<noteq> cur then do {
                 (st, y) \<leftarrow> zslUpdateScore (zskip zs) lv cur e s;
                 Some (\<lparr>zdict = (zdict zs)(e \<mapsto> y), zskip = st\<rparr>, True, Some ZADD_OUT_UPDATED, Some s)
               }
               else Some (zs, True, None, Some s)
         }
     | None \<Rightarrow>
         if \<not> in_xx fl then do {
           (st, y) \<leftarrow> zslInsert (zskip zs) lv s e;
           Some (\<lparr>zdict = (zdict zs)(e \<mapsto> y), zskip = st\<rparr>, True, Some ZADD_OUT_ADDED, Some s)
         }
         else Some (zs, True, Some ZADD_OUT_NOP, None)))"

definition zsetRemoveFromSkiplist :: "('s :: linorder, 'e :: linorder) zset \<Rightarrow> 'e \<Rightarrow> (('s, 'e) zset \<times> bool) option" where
  "zsetRemoveFromSkiplist zs e = (case zdict zs e of
     None \<Rightarrow> Some (zs, False)
   | Some x \<Rightarrow> do {
       n \<leftarrow> heap (zskip zs) x;
       (st, retval) \<leftarrow> zslDelete (zskip zs) (score n) e;
       if retval then Some (\<lparr>zdict = (zdict zs)(e := None), zskip = st\<rparr>, True) else None
     })"

definition zsetDel :: "('s :: linorder, 'e :: linorder) zset \<Rightarrow> 'e \<Rightarrow> (('s, 'e) zset \<times> bool) option" where
  "zsetDel zs e = zsetRemoveFromSkiplist zs e"

text \<open>The rank and the score, or \<open>None\<close> for the value \<^verbatim>\<open>-1\<close>.\<close>

definition zsetRank :: "('s :: linorder, 'e :: linorder) zset \<Rightarrow> 'e \<Rightarrow> bool \<Rightarrow> (nat \<times> 's) option option" where
  "zsetRank zs e reverse = (let llen = zsetLength zs in
     case zdict zs e of
       None \<Rightarrow> Some None
     | Some x \<Rightarrow> do {
         n \<leftarrow> heap (zskip zs) x;
         rank \<leftarrow> zslGetRank (zskip zs) (score n) e;
         if rank = 0 then None
         else do {
           r \<leftarrow> (if reverse then csub llen rank else csub rank 1);
           Some (Some (r, score n))
         }
       })"

section \<open>The hash table and the list agree\<close>

definition points :: "('e \<rightharpoonup> zaddr) \<Rightarrow> zaddr set \<Rightarrow> (zaddr \<Rightarrow> ('s \<times> 'e option) option) \<Rightarrow> bool" where
  "points d N K \<longleftrightarrow> (\<forall>e x. d e = Some x \<longleftrightarrow> x \<in> N \<and> (\<exists>s. K x = Some (s, Some e)))"

lemma points_put:
  assumes d: "points d N K" and y: "y \<in> N'" "K' y = Some (s, Some e)" "y \<in> N \<Longrightarrow> d e = Some y"
    and N: "\<And>x. x \<noteq> y \<Longrightarrow> x \<in> N' \<longleftrightarrow> x \<in> N \<and> d e \<noteq> Some x" and K: "\<And>x. x \<in> N' \<Longrightarrow> x \<noteq> y \<Longrightarrow> K' x = K x"
  shows "points (d(e \<mapsto> y)) N' K'"
  unfolding points_def
proof (intro allI)
  fix f x
  have dx: "d f = Some x \<longleftrightarrow> x \<in> N \<and> (\<exists>s. K x = Some (s, Some f))" "d e = Some x \<longleftrightarrow> x \<in> N \<and> (\<exists>s. K x = Some (s, Some e))" for f x
    using d by (simp_all add: points_def)
  show "(d(e \<mapsto> y)) f = Some x \<longleftrightarrow> x \<in> N' \<and> (\<exists>s. K' x = Some (s, Some f))"
  proof (cases "x = y")
    case True
    then show ?thesis
      using y dx(1) [of f y] dx(2) [of y] by auto
  next
    case False
    show ?thesis
    proof (cases "f = e")
      case True
      have "\<nexists>s. K' x = Some (s, Some e)" if "x \<in> N'"
        using N [OF False] K [OF that False] dx(2) [of x] that by simp
      then show ?thesis
        using True False by auto
    next
      case fe: False
      show ?thesis
      proof (cases "x \<in> N'")
        case True
        then show ?thesis
          using fe N [OF False] K [OF True False] dx(1) [of f x] by simp
      next
        case xN: False
        then show ?thesis
          using fe N [OF False] dx(1) [of f x] dx(2) [of x] by auto
      qed
    qed
  qed
qed

lemma points_drop:
  assumes d: "points d N K" and N: "\<And>x. x \<in> N' \<longleftrightarrow> x \<in> N \<and> d e \<noteq> Some x" and K: "\<And>x. x \<in> N' \<Longrightarrow> K' x = K x"
  shows "points (d(e := None)) N' K'"
  unfolding points_def
proof (intro allI)
  fix f x
  have dx: "d f = Some x \<longleftrightarrow> x \<in> N \<and> (\<exists>s. K x = Some (s, Some f))" "d e = Some x \<longleftrightarrow> x \<in> N \<and> (\<exists>s. K x = Some (s, Some e))"
    using d by (simp_all add: points_def)
  show "(d(e := None)) f = Some x \<longleftrightarrow> x \<in> N' \<and> (\<exists>s. K' x = Some (s, Some f))"
  proof (cases "x \<in> N'")
    case True
    then show ?thesis
      using N [of x] K [OF True] dx by (cases "f = e") simp_all
  next
    case False
    then show ?thesis
      using N [of x] dx by (cases "f = e") auto
  qed
qed

text \<open>The sorted set \<open>zs\<close> holds the map \<open>m\<close>.\<close>

definition zset_rep :: "('s :: linorder, 'e :: linorder) zset \<Rightarrow> ('e \<rightharpoonup> 's) \<Rightarrow> bool" where
  "zset_rep zs m \<longleftrightarrow> (\<exists>ns ks. zrep (zskip zs) ns ks \<and> points (zdict zs) (set ns) (ikey (heap (zskip zs))) \<and>
     (\<forall>s e. (s, e) \<in> set ks \<longleftrightarrow> m e = Some s))"

definition zrank_of :: "('e :: linorder \<rightharpoonup> 's :: linorder) \<Rightarrow> 's \<Rightarrow> 'e \<Rightarrow> nat" where
  "zrank_of m s e = card {k. m (snd k) = Some (fst k) \<and> kless k (s, e)}"

lemma createZset_rep: "zset_rep (createZset a) Map.empty"
  unfolding zset_rep_def createZset_def
  by (intro exI [of _ "[]"]) (simp add: zslCreate_rep points_def)

lemma zset_lookup:
  assumes rep: "zrep (zskip zs) ns ks" "points (zdict zs) (set ns) (ikey (heap (zskip zs)))" and m: "\<forall>s e. (s, e) \<in> set ks \<longleftrightarrow> m e = Some s"
  shows "case m e of None \<Rightarrow> zdict zs e = None
    | Some s \<Rightarrow> zdict zs e = Some (ns ! pos_of (s, e) ks) \<and> (\<exists>n. heap (zskip zs) (ns ! pos_of (s, e) ks) = Some n \<and> score n = s)"
proof (cases "m e")
  case None
  have "zdict zs e \<noteq> Some x" for x
  proof
    assume "zdict zs e = Some x"
    then obtain s where x: "x \<in> set ns" "ikey (heap (zskip zs)) x = Some (s, Some e)"
      using rep(2) by (auto simp: points_def)
    then obtain j where "j < length ns" "ns ! j = x"
      by (auto simp: in_set_conv_nth)
    then have "ks ! j = (s, e)" "j < length ks"
      using zrep_key [OF rep(1), of j] x(2) zrep_len [OF rep(1)] by (cases "ks ! j"; auto)+
    then have "(s, e) \<in> set ks"
      by (metis nth_mem)
    then show False
      using m None by simp
  qed
  then show ?thesis
    using None by (cases "zdict zs e") auto
next
  case (Some s)
  then have "(s, e) \<in> set ks"
    using m by simp
  moreover have "sorted_wrt kless ks"
    using rep(1) by (simp add: zrep_def)
  ultimately have p: "pos_of (s, e) ks < length ns" "ks ! pos_of (s, e) ks = (s, e)"
    using pos_of_found [of ks "(s, e)"] zrep_len [OF rep(1)] by auto
  then have k: "ikey (heap (zskip zs)) (ns ! pos_of (s, e) ks) = Some (s, Some e)"
    using zrep_key [OF rep(1) p(1)] by simp
  then have "zdict zs e = Some (ns ! pos_of (s, e) ks)"
    using rep(2) p(1) unfolding points_def by simp
  then show ?thesis
    using Some k by (auto simp: ikey_Some)
qed


lemma zset_repI:
  "zrep (zskip zs) ns ks \<Longrightarrow> points (zdict zs) (set ns) (ikey (heap (zskip zs))) \<Longrightarrow> \<forall>s e. (s, e) \<in> set ks \<longleftrightarrow> m e = Some s \<Longrightarrow> zset_rep zs m"
  unfolding zset_rep_def by blast

lemma set_insert_key: "set (insert_key k ks) = insert k (set ks)"
  unfolding insert_key_take by (rule set_insert_nth)

lemma zset_insert:
  fixes zs :: "('s :: linorder, 'e :: linorder) zset"
  assumes rep: "zset_rep zs m" and e: "m e = None" and lv: "0 < lv" "lv \<le> 32"
  shows "zdict zs e = None \<and> (\<exists>st y. zslInsert (zskip zs) lv s e = Some (st, y) \<and> zset_rep \<lparr>zdict = (zdict zs)(e \<mapsto> y), zskip = st\<rparr> (m(e \<mapsto> s)))"
proof -
  let ?st = "zskip zs" and ?a = "zbrk (zskip zs)"
  obtain ns ks where r: "zrep ?st ns ks" "points (zdict zs) (set ns) (ikey (heap ?st))" "\<forall>s e. (s, e) \<in> set ks \<longleftrightarrow> m e = Some s"
    using rep unfolding zset_rep_def by (elim exE conjE)
  have d: "zdict zs e = None"
    using zset_lookup [OF r, of e] e by simp
  have new: "(s, e) \<notin> set ks"
    using r(3) e by simp
  let ?ns = "take (pos_of (s, e) ks) ns @ ?a # drop (pos_of (s, e) ks) ns"
  obtain st where st: "zslInsert ?st lv s e = Some (st, ?a)" "zrep st ?ns (insert_key (s, e) ks)" "ikey (heap st) = (ikey (heap ?st))(?a \<mapsto> (s, Some e))"
    using zslInsert_rep [OF r(1) new lv] by (elim exE conjE)
  have inv: "zinv ?st ns"
    using r(1) by (simp add: zrep_def)
  have a: "?a \<notin> set ns"
    using zinv_exists [OF inv, of ?a] zinvD(12) [OF inv, of ?a] by auto
  have p: "points ((zdict zs)(e \<mapsto> ?a)) (set ?ns) (ikey (heap st))"
    by (rule points_put [OF r(2)]) (use st(3) a d set_insert_nth [of _ ns ?a] in auto)
  have k: "\<forall>s' f. (s', f) \<in> set (insert_key (s, e) ks) \<longleftrightarrow> (m(e \<mapsto> s)) f = Some s'"
    using r(3) e by (auto simp: set_insert_key)
  have "zset_rep \<lparr>zdict = (zdict zs)(e \<mapsto> ?a), zskip = st\<rparr> (m(e \<mapsto> s))"
    by (rule zset_repI; (unfold zset.select_convs)?) (rule st(2) p k)+
  then show ?thesis
    using d st(1) by blast
qed

lemma zset_update:
  fixes zs :: "('s :: linorder, 'e :: linorder) zset"
  assumes rep: "zset_rep zs m" and e: "m e = Some cur" and s: "s \<noteq> cur" and lv: "0 < lv" "lv \<le> 32"
  shows "\<exists>st y. zslUpdateScore (zskip zs) lv cur e s = Some (st, y) \<and> zset_rep \<lparr>zdict = (zdict zs)(e \<mapsto> y), zskip = st\<rparr> (m(e \<mapsto> s))"
proof -
  let ?st = "zskip zs"
  obtain ns ks where r: "zrep ?st ns ks" "points (zdict zs) (set ns) (ikey (heap ?st))" "\<forall>s e. (s, e) \<in> set ks \<longleftrightarrow> m e = Some s"
    using rep unfolding zset_rep_def by (elim exE conjE)
  let ?x = "ns ! pos_of (cur, e) ks"
  have d: "zdict zs e = Some ?x"
    using zset_lookup [OF r, of e] e by simp
  have cur: "(cur, e) \<in> set ks" and new: "(s, e) \<notin> set ks"
    using r(3) e s by simp_all
  obtain st y ns' where st: "zslUpdateScore ?st lv cur e s = Some (st, y)" "zrep st ns' (insert_key (s, e) (filter (\<lambda>k. k \<noteq> (cur, e)) ks))"
    "y \<in> set ns'" "ikey (heap st) y = Some (s, Some e)" "\<forall>z. z \<noteq> y \<longrightarrow> (z \<in> set ns' \<longleftrightarrow> z \<in> set ns \<and> z \<noteq> ?x)"
    "\<forall>z\<in>set ns'. z \<noteq> y \<longrightarrow> ikey (heap st) z = ikey (heap ?st) z" "y \<in> set ns \<longrightarrow> y = ?x"
    using zslUpdateScore_rep [OF r(1) cur new lv] by (elim exE conjE)
  have p: "points ((zdict zs)(e \<mapsto> y)) (set ns') (ikey (heap st))"
    by (rule points_put [where K' = "ikey (heap st)", OF r(2) st(3,4)]) (use st(5,6,7) d in auto)
  have k: "\<forall>s' f. (s', f) \<in> set (insert_key (s, e) (filter (\<lambda>k. k \<noteq> (cur, e)) ks)) \<longleftrightarrow> (m(e \<mapsto> s)) f = Some s'"
    using r(3) e by (auto simp: set_insert_key)
  have "zset_rep \<lparr>zdict = (zdict zs)(e \<mapsto> y), zskip = st\<rparr> (m(e \<mapsto> s))"
    by (rule zset_repI; (unfold zset.select_convs)?) (rule st(2) p k)+
  then show ?thesis
    using st(1) by blast
qed

lemma zset_score:
  assumes rep: "zset_rep zs m"
  shows "case m e of None \<Rightarrow> zdict zs e = None | Some s \<Rightarrow> \<exists>x n. zdict zs e = Some x \<and> heap (zskip zs) x = Some n \<and> score n = s"
proof -
  obtain ns ks where r: "zrep (zskip zs) ns ks" "points (zdict zs) (set ns) (ikey (heap (zskip zs)))" "\<forall>s e. (s, e) \<in> set ks \<longleftrightarrow> m e = Some s"
    using rep unfolding zset_rep_def by (elim exE conjE)
  show ?thesis
    using zset_lookup [OF r, of e] by (auto split: option.splits)
qed

lemma zset_score_cases:
  assumes "zset_rep zs m"
  obtains "m e = None" "zdict zs e = None"
  | s x n where "m e = Some s" "zdict zs e = Some x" "heap (zskip zs) x = Some n" "score n = s"
  using zset_score [OF assms, of e] by (cases "m e") auto

section \<open>The specification\<close>

definition spec_add ::
  "('s \<Rightarrow> 's \<Rightarrow> 's option) \<Rightarrow> ('e \<rightharpoonup> 's :: linorder) \<Rightarrow> 's option \<Rightarrow> 'e \<Rightarrow> zadd_flags \<Rightarrow> ('e \<rightharpoonup> 's) \<times> bool \<times> zadd_out option \<times> 's option" where
  "spec_add add m sc e fl = (case sc of
     None \<Rightarrow> (m, False, Some ZADD_OUT_NAN, None)
   | Some s \<Rightarrow> (case m e of
       None \<Rightarrow> if in_xx fl then (m, True, Some ZADD_OUT_NOP, None) else (m(e \<mapsto> s), True, Some ZADD_OUT_ADDED, Some s)
     | Some cur \<Rightarrow>
         if in_nx fl then (m, True, Some ZADD_OUT_NOP, None)
         else (case (if in_incr fl then add s cur else Some s) of
             None \<Rightarrow> (m, False, Some ZADD_OUT_NAN, None)
           | Some s \<Rightarrow>
               if in_lt fl \<and> \<not> s < cur \<or> in_gt fl \<and> \<not> cur < s then (m, True, Some ZADD_OUT_NOP, None)
               else (m(e \<mapsto> s), True, if s = cur then None else Some ZADD_OUT_UPDATED, Some s))))"

lemma zsetAdd_rep:
  fixes zs :: "('s :: linorder, 'e :: linorder) zset"
  assumes rep: "zset_rep zs m" and lv: "0 < lv" "lv \<le> 32"
  shows "\<exists>zs'. zsetAdd add zs lv sc e fl = Some (zs', snd (spec_add add m sc e fl)) \<and> zset_rep zs' (fst (spec_add add m sc e fl))"
proof (cases sc)
  case None
  then show ?thesis
    using rep by (simp add: zsetAdd_def spec_add_def)
next
  case sc: (Some s)
  from rep show ?thesis
  proof (cases rule: zset_score_cases [of _ _ e])
    case 1
    obtain st y where "zslInsert (zskip zs) lv s e = Some (st, y)" "zset_rep \<lparr>zdict = (zdict zs)(e \<mapsto> y), zskip = st\<rparr> (m(e \<mapsto> s))"
      using zset_insert [OF rep 1(1) lv, of s] by blast
    then show ?thesis
      using rep 1 sc by (cases "in_xx fl") (simp_all add: zsetAdd_def spec_add_def)
  next
    case (2 cur x n)
    show ?thesis
    proof (cases "if in_incr fl then add s cur else Some s")
      case None
      then show ?thesis
        using rep 2 sc by (cases "in_nx fl") (simp_all add: zsetAdd_def spec_add_def)
    next
      case s': (Some s')
      show ?thesis
      proof (cases "s' = cur")
        case True
        have "m(e \<mapsto> cur) = m"
          using 2(1) by auto
        then show ?thesis
          using rep 2 sc s' True by (cases "in_nx fl"; cases "in_lt fl \<or> in_gt fl") (auto simp: zsetAdd_def spec_add_def)
      next
        case False
        obtain st y where "zslUpdateScore (zskip zs) lv cur e s' = Some (st, y)" "zset_rep \<lparr>zdict = (zdict zs)(e \<mapsto> y), zskip = st\<rparr> (m(e \<mapsto> s'))"
          using zset_update [OF rep 2(1) False lv] by (elim exE conjE)
        then show ?thesis
          using rep 2 sc s' False by (cases "in_nx fl"; cases "in_lt fl \<and> \<not> s' < cur \<or> in_gt fl \<and> \<not> cur < s'") (auto simp: zsetAdd_def spec_add_def not_less)
      qed
    qed
  qed
qed

lemma zsetDel_rep:
  fixes zs :: "('s :: linorder, 'e :: linorder) zset"
  assumes rep: "zset_rep zs m"
  shows "\<exists>zs'. zsetDel zs e = Some (zs', m e \<noteq> None) \<and> zset_rep zs' (m(e := None))"
proof -
  let ?st = "zskip zs"
  obtain ns ks where r: "zrep ?st ns ks" "points (zdict zs) (set ns) (ikey (heap ?st))" "\<forall>s e. (s, e) \<in> set ks \<longleftrightarrow> m e = Some s"
    using rep unfolding zset_rep_def by (elim exE conjE)
  show ?thesis
  proof (cases "m e")
    case None
    then have "m(e := None) = m" "zdict zs e = None"
      using zset_lookup [OF r, of e] by auto
    then show ?thesis
      using rep None by (simp add: zsetDel_def zsetRemoveFromSkiplist_def)
  next
    case (Some s)
    let ?p = "pos_of (s, e) ks"
    obtain n where d: "zdict zs e = Some (ns ! ?p)" "heap ?st (ns ! ?p) = Some n" "score n = s"
      using zset_lookup [OF r, of e] Some by auto
    have in_ks: "(s, e) \<in> set ks"
      using r(3) Some by simp
    have inv: "zinv ?st ns" and sorted: "sorted_wrt kless ks"
      using r(1) by (simp_all add: zrep_def)
    have pn: "?p < length ns" and dis: "distinct ns"
      using pos_of_found [OF sorted in_ks] zrep_len [OF r(1)] zinvD(1) [OF inv] by simp_all
    let ?ns = "take ?p ns @ drop (Suc ?p) ns"
    obtain st where st: "zslDelete ?st s e = Some (st, True)" "zrep st ?ns (filter (\<lambda>k. k \<noteq> (s, e)) ks)" "\<forall>x\<in>set ?ns. ikey (heap st) x = ikey (heap ?st) x"
      using zslDelete_rep [OF r(1), of s e] in_ks by auto
    have p: "points ((zdict zs)(e := None)) (set ?ns) (ikey (heap st))"
      by (rule points_drop [OF r(2)]) (use st(3) d(1) set_remove_nth [OF dis pn] in auto)
    have k: "\<forall>s' f. (s', f) \<in> set (filter (\<lambda>k. k \<noteq> (s, e)) ks) \<longleftrightarrow> (m(e := None)) f = Some s'"
      using r(3) Some by auto
    have "zset_rep \<lparr>zdict = (zdict zs)(e := None), zskip = st\<rparr> (m(e := None))"
      by (rule zset_repI; (unfold zset.select_convs)?) (rule st(2) p k)+
    then show ?thesis
      using d st(1) Some by (simp add: zsetDel_def zsetRemoveFromSkiplist_def)
  qed
qed

lemma zsetScore_rep: "zset_rep zs m \<Longrightarrow> zsetScore zs e = Some (m e)"
  by (erule zset_score_cases [of _ _ e]) (simp_all add: zsetScore_def)

lemma pos_of_card:
  assumes "sorted_wrt kless ks"
  shows "pos_of k ks = card {x \<in> set ks. kless x k}"
proof -
  have dis: "distinct ks"
    using assms by (induction ks) auto
  have "set (takeWhile (\<lambda>x. kless x k) ks) = {x \<in> set ks. kless x k}"
  proof (intro equalityI subsetI)
    fix x
    assume "x \<in> {x \<in> set ks. kless x k}"
    then obtain j where j: "j < length ks" "ks ! j = x" "kless x k"
      by (auto simp: in_set_conv_nth)
    then have "j < length (takeWhile (\<lambda>x. kless x k) ks)"
      using pos_of_iff [OF assms j(1), of k] by (simp add: pos_of_def count_of_def)
    then show "x \<in> set (takeWhile (\<lambda>x. kless x k) ks)"
      using j(2) takeWhile_nth nth_mem by metis
  qed (auto dest: set_takeWhileD)
  then show ?thesis
    using distinct_card [OF distinct_takeWhile [OF dis, of "\<lambda>x. kless x k"]] by (simp add: pos_of_def count_of_def)
qed

lemma zset_rep_ranks:
  fixes zs :: "('s :: linorder, 'e :: linorder) zset"
  assumes rep: "zset_rep zs m"
  shows "zsetLength zs = card (dom m)"
    "m e = Some s \<Longrightarrow> zslGetRank (zskip zs) s e = Some (Suc (zrank_of m s e)) \<and> Suc (zrank_of m s e) \<le> card (dom m)"
proof -
  obtain ns ks where r: "zrep (zskip zs) ns ks" "points (zdict zs) (set ns) (ikey (heap (zskip zs)))" "\<forall>s e. (s, e) \<in> set ks \<longleftrightarrow> m e = Some s"
    using rep unfolding zset_rep_def by (elim exE conjE)
  have inv: "zinv (zskip zs) ns" and sorted: "sorted_wrt kless ks"
    using r(1) by (simp_all add: zrep_def)
  have dis: "distinct ks"
    using sorted by (induction ks) auto
  have dom: "dom m = snd ` set ks"
    using r(3) by force
  have inj: "inj_on snd (set ks)"
    using r(3) by (auto simp: inj_on_def)
  have len: "card (dom m) = length ks"
    unfolding dom using card_image [OF inj] distinct_card [OF dis] by simp
  then show "zsetLength zs = card (dom m)"
    using zinvD(11) [OF inv] zrep_len [OF r(1)] by (simp add: zsetLength_def)
  assume "m e = Some s"
  then have in_ks: "(s, e) \<in> set ks"
    using r(3) by simp
  have "{x \<in> set ks. kless x (s, e)} = {k. m (snd k) = Some (fst k) \<and> kless k (s, e)}"
    using r(3) by auto
  then have p: "pos_of (s, e) ks = zrank_of m s e"
    unfolding zrank_of_def using pos_of_card [OF sorted] by simp
  then show "zslGetRank (zskip zs) s e = Some (Suc (zrank_of m s e)) \<and> Suc (zrank_of m s e) \<le> card (dom m)"
    using zslGetRank_rep [OF r(1), of s e] in_ks pos_of_found(1) [OF sorted in_ks] len by simp
qed

definition spec_rank :: "('e :: linorder \<rightharpoonup> 's :: linorder) \<Rightarrow> 'e \<Rightarrow> bool \<Rightarrow> (nat \<times> 's) option" where
  "spec_rank m e reverse = (case m e of
     None \<Rightarrow> None
   | Some s \<Rightarrow> Some (if reverse then card (dom m) - Suc (zrank_of m s e) else zrank_of m s e, s))"

lemma zsetRank_rep:
  fixes zs :: "('s :: linorder, 'e :: linorder) zset"
  assumes rep: "zset_rep zs m"
  shows "zsetRank zs e reverse = Some (spec_rank m e reverse)"
  using rep
proof (cases rule: zset_score_cases [of _ _ e])
  case 1
  then show ?thesis
    by (simp add: zsetRank_def spec_rank_def)
next
  case (2 s x n)
  then show ?thesis
    using zset_rep_ranks(1) [OF rep] zset_rep_ranks(2) [OF rep 2(1)] by (simp add: zsetRank_def spec_rank_def csub_def Let_def)
qed

section \<open>Sequences of operations\<close>

datatype ('s, 'e) zop =
  ZAdd "'s option" 'e zadd_flags nat
| ZDel 'e
| ZScore 'e
| ZRank 'e bool
| ZCard

datatype 's zreply =
  RAdd bool "zadd_out option" "'s option"
| RDel bool
| RScore "'s option"
| RRank "(nat \<times> 's) option"
| RCard nat

primrec zstep :: "('s \<Rightarrow> 's \<Rightarrow> 's option) \<Rightarrow> ('s :: linorder, 'e :: linorder) zset \<Rightarrow> ('s, 'e) zop \<Rightarrow> (('s, 'e) zset \<times> 's zreply) option" where
  "zstep add zs (ZAdd sc e fl lv) = do { (zs, b, out, s) \<leftarrow> zsetAdd add zs lv sc e fl; Some (zs, RAdd b out s) }"
| "zstep add zs (ZDel e) = do { (zs, b) \<leftarrow> zsetDel zs e; Some (zs, RDel b) }"
| "zstep add zs (ZScore e) = do { r \<leftarrow> zsetScore zs e; Some (zs, RScore r) }"
| "zstep add zs (ZRank e reverse) = do { r \<leftarrow> zsetRank zs e reverse; Some (zs, RRank r) }"
| "zstep add zs ZCard = Some (zs, RCard (zsetLength zs))"

primrec spec_step :: "('s \<Rightarrow> 's \<Rightarrow> 's option) \<Rightarrow> ('e :: linorder \<rightharpoonup> 's :: linorder) \<Rightarrow> ('s, 'e) zop \<Rightarrow> ('e \<rightharpoonup> 's) \<times> 's zreply" where
  "spec_step add m (ZAdd sc e fl lv) = (let (m', b, out, s) = spec_add add m sc e fl in (m', RAdd b out s))"
| "spec_step add m (ZDel e) = (m(e := None), RDel (m e \<noteq> None))"
| "spec_step add m (ZScore e) = (m, RScore (m e))"
| "spec_step add m (ZRank e reverse) = (m, RRank (spec_rank m e reverse))"
| "spec_step add m ZCard = (m, RCard (card (dom m)))"

fun zop_ok :: "('s, 'e) zop \<Rightarrow> bool" where
  "zop_ok (ZAdd sc e fl lv) \<longleftrightarrow> 0 < lv \<and> lv \<le> ZSKIPLIST_MAXLEVEL"
| "zop_ok p \<longleftrightarrow> True"

lemma zstep_refines:
  fixes zs :: "('s :: linorder, 'e :: linorder) zset"
  assumes rep: "zset_rep zs m" and ok: "zop_ok p"
  shows "\<exists>zs'. zstep add zs p = Some (zs', snd (spec_step add m p)) \<and> zset_rep zs' (fst (spec_step add m p))"
proof (cases p)
  case (ZAdd sc e fl lv)
  obtain zs' where "zsetAdd add zs lv sc e fl = Some (zs', snd (spec_add add m sc e fl))" "zset_rep zs' (fst (spec_add add m sc e fl))"
    using zsetAdd_rep [OF rep, of lv add sc e fl] ok ZAdd by (auto simp: ZSKIPLIST_MAXLEVEL_def)
  then show ?thesis
    using ZAdd by (cases "spec_add add m sc e fl") simp
next
  case (ZDel e)
  then show ?thesis
    using zsetDel_rep [OF rep, of e] by auto
next
  case (ZScore e)
  then show ?thesis
    using rep by (simp add: zsetScore_rep)
next
  case (ZRank e reverse)
  then show ?thesis
    using rep by (simp add: zsetRank_rep)
next
  case ZCard
  then show ?thesis
    using rep zset_rep_ranks(1) [OF rep] by simp
qed

interpretation zsr: stepwise_refinement zset_rep "\<lambda>m. 0" "\<lambda>p. 0" 0 zop_ok "zstep add" "spec_step add" for add
  by unfold_locales (use zstep_refines in auto)


text \<open>C2: Every sequence of additions (with all flags), deletions, lookups and rank queries on a new sorted set, with any heights that the random numbers give to the nodes, runs without a fault and without a failed assertion and
  replies exactly as the map from elements to scores does; the hash table and the skip list hold this map at the end.\<close>

theorem zset_refines:
  fixes a :: zaddr and ps :: "('s :: {zero, linorder}, 'e :: linorder) zop list"
  assumes "\<forall>p\<in>set ps. zop_ok p"
  shows "\<exists>zs'. concrete_run (zstep add) (createZset a) ps = Some (zs', snd (abstract_run (spec_step add) Map.empty ps)) \<and>
    zset_rep zs' (fst (abstract_run (spec_step add) Map.empty ps))"
  using zsr.run_refines [OF createZset_rep assms] by simp

theorem zset_refines_witness:
  "\<exists>zs'. concrete_run (zstep (\<lambda>x y. Some (x + y))) (createZset 0)
     [ZAdd (Some (5 :: int)) (7 :: nat) \<lparr>in_incr = False, in_nx = False, in_xx = False, in_gt = False, in_lt = False\<rparr> 2,
      ZAdd (Some 3) 7 \<lparr>in_incr = True, in_nx = False, in_xx = False, in_gt = True, in_lt = False\<rparr> 1, ZScore 7, ZDel 7] =
     Some (zs', [RAdd True (Some ZADD_OUT_ADDED) (Some 5), RAdd True (Some ZADD_OUT_UPDATED) (Some 8), RScore (Some 8), RDel True]) \<and>
     zset_rep zs' Map.empty"
proof -
  let ?ps = "[ZAdd (Some (5 :: int)) (7 :: nat) \<lparr>in_incr = False, in_nx = False, in_xx = False, in_gt = False, in_lt = False\<rparr> 2,
      ZAdd (Some 3) 7 \<lparr>in_incr = True, in_nx = False, in_xx = False, in_gt = True, in_lt = False\<rparr> 1, ZScore 7, ZDel 7]"
  have "\<forall>p\<in>set ?ps. zop_ok p"
    by (simp add: ZSKIPLIST_MAXLEVEL_def)
  from zset_refines [OF this, of "\<lambda>x y. Some (x + y)" 0] show ?thesis
    by (simp add: spec_add_def)
qed

end
