(* ===== verification/Sorted_Set_Ranges.thy ===== *)
theory Sorted_Set_Ranges
  imports Sorted_Set
begin

text \<open>
  Ranges of scores and of ranks in sorted sets with a skip list (\<^verbatim>\<open>t_zset.c\<close>): the first and the last node of a range, and the deletion of a range from the skip list and the hash table
  together. The deletions search once and then delete node after node with the same array of predecessors, which the proofs show to stay right while the list shrinks.
\<close>

section \<open>Operations\<close>

record 's zrangespec =
  zmin :: 's
  zmax :: 's
  minex :: bool
  maxex :: bool

definition zslValueGteMin :: "'s :: linorder \<Rightarrow> 's zrangespec \<Rightarrow> bool" where
  "zslValueGteMin v spec = (if minex spec then v > zmin spec else v \<ge> zmin spec)"

definition zslValueLteMax :: "'s :: linorder \<Rightarrow> 's zrangespec \<Rightarrow> bool" where
  "zslValueLteMax v spec = (if maxex spec then v < zmax spec else v \<le> zmax spec)"

definition zslIsInRange :: "('s :: linorder, 'e) zstate \<Rightarrow> 's zrangespec \<Rightarrow> bool option" where
  "zslIsInRange st rng =
     (if zmin rng > zmax rng \<or> (zmin rng = zmax rng \<and> (minex rng \<or> maxex rng)) then Some False
      else (case tail (zsl st) of
        None \<Rightarrow> Some False
      | Some x \<Rightarrow> do {
          n \<leftarrow> heap st x;
          if \<not> zslValueGteMin (score n) rng then Some False else do {
            l \<leftarrow> get_level (heap st) (header (zsl st)) 0;
            case fst l of
              None \<Rightarrow> Some False
            | Some y \<Rightarrow> do { m \<leftarrow> heap st y; Some (zslValueLteMax (score m) rng) }
          }
        }))"

definition zslFirstInRange :: "('s :: linorder, 'e) zstate \<Rightarrow> 's zrangespec \<Rightarrow> zaddr option option" where
  "zslFirstInRange st rng = do {
     b \<leftarrow> zslIsInRange st rng;
     if \<not> b then Some None else do {
       us \<leftarrow> descend (heap st) (\<lambda>r sp m. \<not> zslValueGteMin (score m) rng) (zlevel (zsl st)) (header (zsl st)) 0;
       (x, r) \<leftarrow> (case us of [] \<Rightarrow> None | u # _ \<Rightarrow> Some u);
       l \<leftarrow> get_level (heap st) x 0;
       y \<leftarrow> fst l;
       n \<leftarrow> heap st y;
       if \<not> zslValueLteMax (score n) rng then Some None else Some (Some y)
     }
   }"

definition zslLastInRange :: "('s :: linorder, 'e) zstate \<Rightarrow> 's zrangespec \<Rightarrow> zaddr option option" where
  "zslLastInRange st rng = do {
     b \<leftarrow> zslIsInRange st rng;
     if \<not> b then Some None else do {
       us \<leftarrow> descend (heap st) (\<lambda>r sp m. zslValueLteMax (score m) rng) (zlevel (zsl st)) (header (zsl st)) 0;
       (x, r) \<leftarrow> (case us of [] \<Rightarrow> None | u # _ \<Rightarrow> Some u);
       n \<leftarrow> heap st x;
       if \<not> zslValueGteMin (score n) rng then Some None else Some (Some x)
     }
   }"

text \<open>The loop of the range deletions, with the condition on the number \<^verbatim>\<open>traversed\<close> and the node.\<close>

partial_function (option) delete_loop ::
  "(nat \<Rightarrow> ('s, 'e) zskiplistNode \<Rightarrow> bool) \<Rightarrow> zaddr list \<Rightarrow> zaddr option \<Rightarrow> nat \<Rightarrow> nat \<Rightarrow> ('s, 'e) zset \<Rightarrow> (('s, 'e) zset \<times> nat) option" where
  "delete_loop go us x traversed removed zs = (case x of
     None \<Rightarrow> Some (zs, removed)
   | Some y \<Rightarrow> do {
       n \<leftarrow> heap (zskip zs) y;
       if \<not> go traversed n then Some (zs, removed)
       else do {
         l \<leftarrow> get_level (heap (zskip zs)) y 0;
         st \<leftarrow> zslDeleteNode (zskip zs) y us;
         n \<leftarrow> heap st y;
         e \<leftarrow> ele n;
         delete_loop go us (fst l) (Suc traversed) (Suc removed) \<lparr>zdict = (zdict zs)(e := None), zskip = zslFreeNode st y\<rparr>
       }
     })"

definition zslDeleteRangeByScore :: "('s :: linorder, 'e) zset \<Rightarrow> 's zrangespec \<Rightarrow> (('s, 'e) zset \<times> nat) option" where
  "zslDeleteRangeByScore zs rng = do {
     let st = zskip zs;
     us \<leftarrow> descend (heap st) (\<lambda>r sp m. \<not> zslValueGteMin (score m) rng) (zlevel (zsl st)) (header (zsl st)) 0;
     (x, r) \<leftarrow> (case us of [] \<Rightarrow> None | u # _ \<Rightarrow> Some u);
     l \<leftarrow> get_level (heap st) x 0;
     delete_loop (\<lambda>t n. zslValueLteMax (score n) rng) (map fst us) (fst l) 0 0 zs
   }"

definition zslDeleteRangeByRank :: "('s, 'e) zset \<Rightarrow> nat \<Rightarrow> nat \<Rightarrow> (('s, 'e) zset \<times> nat) option" where
  "zslDeleteRangeByRank zs start stop = do {
     let st = zskip zs;
     us \<leftarrow> descend (heap st) (\<lambda>r sp m. r + sp < start) (zlevel (zsl st)) (header (zsl st)) 0;
     (x, traversed) \<leftarrow> (case us of [] \<Rightarrow> None | u # _ \<Rightarrow> Some u);
     l \<leftarrow> get_level (heap st) x 0;
     delete_loop (\<lambda>t n. t \<le> stop) (map fst us) (fst l) (Suc traversed) 0 zs
   }"

section \<open>Deletion of a range\<close>

lemma drop_take_remove: "p < length xs \<Longrightarrow> take p (take p xs @ drop (Suc p) xs) = take p xs" "p < length xs \<Longrightarrow> drop p (take p xs @ drop (Suc p) xs) = drop (Suc p) xs"
  by simp_all

lemma delete_loop_correct:
  fixes zs :: "('s :: linorder, 'e :: linorder) zset"
  assumes rep: "zrep (zskip zs) ns ks" and pts: "points (zdict zs) (set ns) (ikey (heap (zskip zs)))" and q: "p + q \<le> length ns"
    and go: "\<And>i n. i \<le> q \<Longrightarrow> p + i < length ns \<Longrightarrow> heap (zskip zs) (ns ! (p + i)) = Some n \<Longrightarrow> go (t + i) n \<longleftrightarrow> i < q"
    and sc: "\<And>t n n'. score n = score n' \<Longrightarrow> go t n = go t n'"
    and us: "zlevel (zsl (zskip zs)) \<le> length us"
      "\<forall>i<zlevel (zsl (zskip zs)). \<exists>r. last_at (ht (heap (zskip zs))) i (header (zsl (zskip zs)) # take p ns) (us ! i) r"
  shows "\<exists>zs'. delete_loop go us (if p < length ns then Some (ns ! p) else None) t removed zs = Some (zs', removed + q) \<and>
    zrep (zskip zs') (take p ns @ drop (p + q) ns) (take p ks @ drop (p + q) ks) \<and>
    points (zdict zs') (set (take p ns @ drop (p + q) ns)) (ikey (heap (zskip zs')))"
  using assms
proof (induction q arbitrary: zs ns ks t removed)
  case 0
  show ?case
  proof (cases "p < length ns")
    case True
    obtain n where n: "heap (zskip zs) (ns ! p) = Some n"
      using zrep_key [OF 0(1) True] by (auto simp: ikey_Some)
    then have "\<not> go t n"
      using 0(4) [of 0 n] True by simp
    then show ?thesis
      using 0(1,2) True n by (subst delete_loop.simps) simp
  next
    case False
    then show ?thesis
      using 0(1,2) by (subst delete_loop.simps) simp
  qed
next
  case (Suc q)
  let ?st = "zskip zs" and ?ns = "take p ns @ drop (Suc p) ns" and ?ks = "take p ks @ drop (Suc p) ks" and ?x = "ns ! p" and ?e = "snd (ks ! p)"
  have pn: "p < length ns" and inv: "zinv ?st ns" and len: "length ns = length ks"
    using Suc.prems(1,3) zrep_len [OF Suc.prems(1)] by (auto simp: zrep_def)
  have dis: "distinct ns"
    using zinvD(1) [OF inv] by simp
  obtain n where n: "heap ?st ?x = Some n" "score n = fst (ks ! p)" "ele n = Some ?e"
    using zrep_key [OF Suc.prems(1) pn] by (auto simp: ikey_Some)
  have gn: "go t n"
    using Suc.prems(4) [of 0 n] pn n(1) by simp
  obtain l where l: "get_level (heap ?st) ?x 0 = Some l" "fst l = (if Suc p < length ns then Some (ns ! Suc p) else None)"
    using zinv_forward [OF inv pn] by (elim exE conjE)
  obtain st where st: "zslDeleteNode ?st ?x us = Some st" "zrep st ?ns ?ks" "header (zsl st) = header (zsl ?st)"
    "zlevel (zsl st) \<le> zlevel (zsl ?st)" "ht (heap st) = ht (heap ?st)" "ikey (heap st) = ikey (heap ?st)" "zbrk st = zbrk ?st"
    using zslDeleteNode_rep [OF Suc.prems(1) pn Suc.prems(6,7)] by (elim exE conjE)
  have "ikey (heap st) ?x = Some (fst (ks ! p), Some ?e)"
    using st(6) zrep_key [OF Suc.prems(1) pn] by simp
  then obtain n' where n': "heap st ?x = Some n'" "ele n' = Some ?e"
    by (auto simp: ikey_Some)
  have ne: "?x \<noteq> header (zsl st)" "?x \<notin> set ?ns"
    using zrep_distinct [OF Suc.prems(1) pn] st(3) by simp_all
  have inv': "zinv st ?ns"
    using st(2) by (simp add: zrep_def)
  note f = zslFreeNode_inv [OF inv' ne]
  define zs1 where "zs1 = \<lparr>zdict = (zdict zs)(?e := None), zskip = zslFreeNode st ?x\<rparr>"
  have zs1: "zskip zs1 = zslFreeNode st ?x" "zdict zs1 = (zdict zs)(?e := None)"
    by (simp_all add: zs1_def)
  have rep1: "zrep (zskip zs1) ?ns ?ks"
    unfolding zs1 by (rule zslFreeNode_rep [OF st(2) ne])
  have key1: "ikey (heap (zskip zs1)) y = ikey (heap ?st) y" if "y \<noteq> ?x" for y
    using f(2) st(6) that zs1(1) by simp
  have dx: "zdict zs ?e = Some ?x"
    using Suc.prems(2) zrep_key [OF Suc.prems(1) pn] pn by (simp add: points_def)
  have pts1: "points (zdict zs1) (set ?ns) (ikey (heap (zskip zs1)))"
    unfolding zs1(2)
  proof (rule points_drop [OF Suc.prems(2)])
    show "y \<in> set ?ns \<longleftrightarrow> y \<in> set ns \<and> zdict zs ?e \<noteq> Some y" for y
      using set_remove_nth [OF dis pn] dx by auto
    show "ikey (heap (zskip zs1)) y = ikey (heap ?st) y" if "y \<in> set ?ns" for y
      by (rule key1) (use that ne(2) in metis)
  qed
  have nth: "?ns ! (p + i) = ns ! (p + Suc i)" if "p + Suc i < length ns" for i
    using pn that by (simp add: nth_append)
  have q1: "p + q \<le> length ?ns"
    using Suc.prems(3) pn by simp
  have go1: "go (Suc t + i) m \<longleftrightarrow> i < q" if "i \<le> q" "p + i < length ?ns" "heap (zskip zs1) (?ns ! (p + i)) = Some m" for i m
  proof -
    have i: "p + Suc i < length ns"
      using that(2) pn by simp
    have y: "ns ! (p + Suc i) \<noteq> ?x"
      using dis i pn by (simp add: nth_eq_iff_index_eq)
    obtain k where k: "heap ?st (ns ! (p + Suc i)) = Some k"
      using zrep_key [OF Suc.prems(1) i] by (auto simp: ikey_Some)
    have "score m = score k"
      using key1 [OF y] k that(3) nth [OF i] by (simp add: ikey_def)
    then have "go (Suc t + i) m = go (Suc t + i) k"
      by (rule Suc.prems(5))
    moreover have "go (t + Suc i) k \<longleftrightarrow> Suc i < Suc q"
      by (rule Suc.prems(4)) (use that(1) i k in simp_all)
    ultimately show ?thesis
      by simp
  qed
  have us1: "zlevel (zsl (zskip zs1)) \<le> length us"
    "\<forall>i<zlevel (zsl (zskip zs1)). \<exists>r. last_at (ht (heap (zskip zs1))) i (header (zsl (zskip zs1)) # take p ?ns) (us ! i) r"
  proof -
    show "zlevel (zsl (zskip zs1)) \<le> length us"
      using st(4) Suc.prems(6) f(3) zs1(1) by simp
    show "\<forall>i<zlevel (zsl (zskip zs1)). \<exists>r. last_at (ht (heap (zskip zs1))) i (header (zsl (zskip zs1)) # take p ?ns) (us ! i) r"
    proof (intro allI impI)
      fix i
      assume "i < zlevel (zsl (zskip zs1))"
      then have "i < zlevel (zsl ?st)"
        using st(4) f(3) zs1(1) by simp
      then obtain r where r: "last_at (ht (heap ?st)) i (header (zsl ?st) # take p ns) (us ! i) r"
        using Suc.prems(7) by blast
      have "last_at (ht (heap (zskip zs1))) i (header (zsl ?st) # take p ns) (us ! i) r"
      proof (rule last_at_cong [OF r])
        fix y
        assume "y \<in> set (header (zsl ?st) # take p ns)"
        then have "y \<noteq> ?x"
          using ne st(3) by auto
        then show "ht (heap (zskip zs1)) y = ht (heap ?st) y"
          using f(5) st(5) zs1(1) by simp
      qed
      moreover have "header (zsl (zskip zs1)) = header (zsl ?st)" "take p ?ns = take p ns"
        using f(3) st(3) zs1(1) pn by simp_all
      ultimately show "\<exists>r. last_at (ht (heap (zskip zs1))) i (header (zsl (zskip zs1)) # take p ?ns) (us ! i) r"
        by metis
    qed
  qed
  have nxt: "(if p < length ?ns then Some (?ns ! p) else None) = fst l"
  proof (cases "Suc p < length ns")
    case True
    then show ?thesis
      using l(2) nth [of 0] by simp
  qed (use l(2) pn in simp)
  have dr: "take p ?ns @ drop (p + q) ?ns = take p ns @ drop (p + Suc q) ns" "take p ?ks @ drop (p + q) ?ks = take p ks @ drop (p + Suc q) ks"
    using pn len by (simp_all add: add.commute)
  from Suc.IH [OF rep1 pts1 q1 go1 Suc.prems(5) us1, of "Suc removed"]
  obtain zs' where z: "delete_loop go us (fst l) (Suc t) (Suc removed) zs1 = Some (zs', Suc removed + q)"
    "zrep (zskip zs') (take p ns @ drop (p + Suc q) ns) (take p ks @ drop (p + Suc q) ks)"
    "points (zdict zs') (set (take p ns @ drop (p + Suc q) ns)) (ikey (heap (zskip zs')))"
    unfolding nxt dr by blast
  have "delete_loop go us (if p < length ns then Some (ns ! p) else None) t removed zs = Some (zs', removed + Suc q)"
    using pn n(1) gn l(1) st(1) n' z(1) by (subst delete_loop.simps) (simp add: zs1_def)
  then show ?case
    using z(2,3) by blast
qed

text \<open>The interval of scores that a range denotes, and its relation to the comparisons of the code.\<close>

definition score_interval :: "'s :: linorder zrangespec \<Rightarrow> 's set" where
  "score_interval rng =
     (case (minex rng, maxex rng) of
        (False, False) \<Rightarrow> {zmin rng .. zmax rng}
      | (False, True) \<Rightarrow> {zmin rng ..< zmax rng}
      | (True, False) \<Rightarrow> {zmin rng <.. zmax rng}
      | (True, True) \<Rightarrow> {zmin rng <..< zmax rng})"

lemma score_interval_iff: "s \<in> score_interval rng \<longleftrightarrow> zslValueGteMin s rng \<and> zslValueLteMax s rng"
  by (auto simp: score_interval_def zslValueGteMin_def zslValueLteMax_def split: bool.splits)

lemma below_down: "kless x y \<Longrightarrow> \<not> zslValueGteMin (fst y) rng \<Longrightarrow> \<not> zslValueGteMin (fst x) rng"
  by (auto simp: zslValueGteMin_def kless_def)

lemma lte_down: "kless x y \<Longrightarrow> zslValueLteMax (fst y) rng \<Longrightarrow> zslValueLteMax (fst x) rng"
  by (auto simp: zslValueLteMax_def kless_def)

lemma remove_slice_set:
  assumes "distinct xs" "p + q \<le> length xs"
  shows "x \<in> set (take p xs @ drop (p + q) xs) \<longleftrightarrow> x \<in> set xs \<and> \<not> (\<exists>j. p \<le> j \<and> j < p + q \<and> x = xs ! j)"
proof -
  have xs: "xs = take p xs @ take q (drop p xs) @ drop (p + q) xs"
    by (metis append_take_drop_id drop_drop add.commute)
  have mid: "x \<in> set (take q (drop p xs)) \<longleftrightarrow> (\<exists>j. p \<le> j \<and> j < p + q \<and> x = xs ! j)"
  proof
    assume "x \<in> set (take q (drop p xs))"
    then obtain i where "i < length (take q (drop p xs))" "x = take q (drop p xs) ! i"
      by (auto simp: in_set_conv_nth)
    then show "\<exists>j. p \<le> j \<and> j < p + q \<and> x = xs ! j"
      using assms(2) by (intro exI [of _ "p + i"]) simp
  next
    assume "\<exists>j. p \<le> j \<and> j < p + q \<and> x = xs ! j"
    then obtain j where j: "p \<le> j" "j < p + q" "x = xs ! j"
      by blast
    then have "take q (drop p xs) ! (j - p) = x" "j - p < length (take q (drop p xs))"
      using assms(2) by simp_all
    then show "x \<in> set (take q (drop p xs))"
      using nth_mem by metis
  qed
  have "distinct (take p xs @ take q (drop p xs) @ drop (p + q) xs)"
    using assms(1) xs by simp
  moreover have "set xs = set (take p xs) \<union> set (take q (drop p xs)) \<union> set (drop (p + q) xs)"
    by (subst xs) auto
  ultimately show ?thesis
    using mid by auto
qed

lemma slice_card:
  assumes "distinct xs" "p + q \<le> length xs"
  shows "card {x. \<exists>j. p \<le> j \<and> j < p + q \<and> x = xs ! j} = q"
proof -
  have "{x. \<exists>j. p \<le> j \<and> j < p + q \<and> x = xs ! j} = (\<lambda>j. xs ! j) ` {p..<p + q}"
    by auto
  moreover have "inj_on (\<lambda>j. xs ! j) {p..<p + q}"
    using assms by (auto simp: inj_on_def nth_eq_iff_index_eq)
  ultimately show ?thesis
    by (simp add: card_image)
qed

text \<open>A deletion that removes the keys at the positions \<open>p\<close> to \<open>p + q - 1\<close>, as a change of the map.\<close>

definition slice :: "nat \<Rightarrow> nat \<Rightarrow> ('s \<times> 'e) list \<Rightarrow> ('s \<times> 'e) set" where
  "slice p q ks = {k. \<exists>j. p \<le> j \<and> j < p + q \<and> k = ks ! j}"

lemma slice_iff:
  assumes "sorted_wrt kless ks" "p + q \<le> length ks" "j < length ks" "ks ! j = k"
  shows "k \<in> slice p q ks \<longleftrightarrow> p \<le> j \<and> j < p + q"
proof
  assume "k \<in> slice p q ks"
  then obtain i where i: "p \<le> i" "i < p + q" "k = ks ! i"
    by (auto simp: slice_def)
  have "distinct ks"
    using assms(1) by (induction ks) auto
  moreover have "ks ! i = ks ! j" "i < length ks"
    using i assms by simp_all
  ultimately have "i = j"
    using assms(3) nth_eq_iff_index_eq by blast
  then show "p \<le> j \<and> j < p + q"
    using i by simp
qed (use assms(4) in \<open>auto simp: slice_def\<close>)

lemma slice_deleted:
  fixes zs' :: "('s :: linorder, 'e :: linorder) zset"
  assumes ks: "sorted_wrt kless ks" "p + q \<le> length ks" and m: "\<forall>s e. (s, e) \<in> set ks \<longleftrightarrow> m e = Some s"
    and z: "zrep (zskip zs') ns' (take p ks @ drop (p + q) ks)" "points (zdict zs') (set ns') (ikey (heap (zskip zs')))"
    and sl: "\<And>s e. m e = Some s \<Longrightarrow> (s, e) \<in> slice p q ks \<longleftrightarrow> del s e"
  shows "zset_rep zs' (\<lambda>e. case m e of None \<Rightarrow> None | Some s \<Rightarrow> if del s e then None else Some s)"
    "q = card {e. \<exists>s. m e = Some s \<and> del s e}"
proof -
  have dis: "distinct ks"
    using ks(1) by (induction ks) auto
  have "\<forall>s e. (s, e) \<in> set (take p ks @ drop (p + q) ks) \<longleftrightarrow> (case m e of None \<Rightarrow> None | Some s \<Rightarrow> if del s e then None else Some s) = Some s"
  proof (intro allI)
    fix s e
    have "(s, e) \<in> set (take p ks @ drop (p + q) ks) \<longleftrightarrow> m e = Some s \<and> (s, e) \<notin> slice p q ks"
      using remove_slice_set [OF dis ks(2), of "(s, e)"] m by (simp add: slice_def)
    also have "\<dots> \<longleftrightarrow> (case m e of None \<Rightarrow> None | Some s \<Rightarrow> if del s e then None else Some s) = Some s"
      using sl [of e] by (cases "m e") auto
    finally show "(s, e) \<in> set (take p ks @ drop (p + q) ks) \<longleftrightarrow> (case m e of None \<Rightarrow> None | Some s \<Rightarrow> if del s e then None else Some s) = Some s" .
  qed
  with z show "zset_rep zs' (\<lambda>e. case m e of None \<Rightarrow> None | Some s \<Rightarrow> if del s e then None else Some s)"
    by (rule zset_repI)
  have sub: "slice p q ks \<subseteq> set ks"
    using ks(2) by (auto simp: slice_def)
  have "inj_on snd (slice p q ks)"
  proof (rule inj_onI)
    fix x y
    assume "x \<in> slice p q ks" "y \<in> slice p q ks" "snd x = snd y"
    then show "x = y"
      using sub m by (cases x; cases y) (metis option.inject snd_conv subsetD)
  qed
  moreover have "{e. \<exists>s. m e = Some s \<and> del s e} = snd ` slice p q ks"
  proof (intro equalityI subsetI)
    fix e
    assume "e \<in> snd ` slice p q ks"
    then obtain s where "(s, e) \<in> slice p q ks"
      by auto
    then show "e \<in> {e. \<exists>s. m e = Some s \<and> del s e}"
      using sub m sl by blast
  qed (use sl in force)
  ultimately show "q = card {e. \<exists>s. m e = Some s \<and> del s e}"
    using slice_card [OF dis ks(2)] card_image by (metis slice_def)
qed

text \<open>A set with one element.\<close>

definition one_element :: "(int, nat) zset" where
  "one_element = fst (the (zsetAdd (\<lambda>x y. Some (x + y)) (createZset 0) 2 (Some 5) 7
     \<lparr>in_incr = False, in_nx = False, in_xx = False, in_gt = False, in_lt = False\<rparr>))"

lemma one_element_rep: "zset_rep one_element [7 \<mapsto> 5]"
  using zsetAdd_rep [OF createZset_rep, of 2 "\<lambda>x y. Some (x + y)" 0 "Some (5 :: int)" "7 :: nat"
      "\<lparr>in_incr = False, in_nx = False, in_xx = False, in_gt = False, in_lt = False\<rparr>"]
  by (auto simp: one_element_def spec_add_def)

text \<open>C23: Deletion of a range of scores removes from the skip list and from the hash table exactly the elements whose score is in the range, and returns their number; no node is freed that is still linked and no span wraps around.\<close>

theorem zslDeleteRangeByScore_correct:
  fixes zs :: "('s :: linorder, 'e :: linorder) zset"
  assumes rep: "zset_rep zs m"
  shows "\<exists>zs'. zslDeleteRangeByScore zs rng = Some (zs', card {e. \<exists>s. m e = Some s \<and> s \<in> score_interval rng}) \<and>
    zset_rep zs' (\<lambda>e. case m e of None \<Rightarrow> None | Some s \<Rightarrow> if s \<in> score_interval rng then None else Some s)"
proof -
  let ?st = "zskip zs"
  obtain ns ks where r: "zrep ?st ns ks" "points (zdict zs) (set ns) (ikey (heap ?st))" "\<forall>s e. (s, e) \<in> set ks \<longleftrightarrow> m e = Some s"
    using rep unfolding zset_rep_def by (elim exE conjE)
  have sorted: "sorted_wrt kless ks" and len: "length ns = length ks"
    using r(1) zrep_len by (auto simp: zrep_def)
  define c where "c = count_of (\<lambda>k. zslValueLteMax (fst k) rng) ks"
  define p where "p = count_of (\<lambda>k. \<not> zslValueGteMin (fst k) rng) ks"
  let ?A = "header (zsl ?st) # take p ns" and ?q = "c - p"
  have iffc: "zslValueLteMax (fst (ks ! j)) rng \<longleftrightarrow> j < c" if "j < length ks" for j
    unfolding c_def by (rule count_of_iff [where P = "\<lambda>k. zslValueLteMax (fst k) rng", OF sorted lte_down that])
  have iffp: "\<not> zslValueGteMin (fst (ks ! j)) rng \<longleftrightarrow> j < p" if "j < length ks" for j
    unfolding p_def by (rule count_of_iff [where P = "\<lambda>k. \<not> zslValueGteMin (fst k) rng", OF sorted below_down that])
  have le: "p + ?q \<le> length ks"
    using count_of_le [of "\<lambda>k. zslValueLteMax (fst k) rng" ks] count_of_le [of "\<lambda>k. \<not> zslValueGteMin (fst k) rng" ks]
    unfolding c_def [symmetric] p_def [symmetric] by arith
  have "\<exists>us l. descend (heap ?st) (\<lambda>r sp m. \<not> zslValueGteMin (score m) rng) (zlevel (zsl ?st)) (header (zsl ?st)) 0 = Some ((last ?A, p) # us) \<and>
    Suc (length us) = zlevel (zsl ?st) \<and>
    (\<forall>i<zlevel (zsl ?st). last_at (ht (heap ?st)) i ?A (fst (((last ?A, p) # us) ! i)) (snd (((last ?A, p) # us) ! i))) \<and>
    get_level (heap ?st) (last ?A) 0 = Some l \<and> fst l = (if p < length ns then Some (ns ! p) else None)"
    unfolding p_def
    by (rule zrep_search [where P = "\<lambda>k. \<not> zslValueGteMin (fst k) rng" and g = "\<lambda>m. \<not> zslValueGteMin (score m) rng", OF r(1) below_down]) simp_all
  then obtain us l where us: "descend (heap ?st) (\<lambda>r sp m. \<not> zslValueGteMin (score m) rng) (zlevel (zsl ?st)) (header (zsl ?st)) 0 = Some ((last ?A, p) # us)"
    "Suc (length us) = zlevel (zsl ?st)"
    "\<forall>i<zlevel (zsl ?st). last_at (ht (heap ?st)) i ?A (fst (((last ?A, p) # us) ! i)) (snd (((last ?A, p) # us) ! i))"
    "get_level (heap ?st) (last ?A) 0 = Some l" "fst l = (if p < length ns then Some (ns ! p) else None)"
    by (elim exE conjE)
  have "length ((last ?A, p) # us) = zlevel (zsl ?st)"
    using us(2) by simp
  note ul = last_at_fst [OF this us(3)]
  let ?go = "\<lambda>(t :: nat) n :: ('s, 'e) zskiplistNode. zslValueLteMax (score n) rng"
  have go: "?go (0 + i) n \<longleftrightarrow> i < ?q" if "i \<le> ?q" "p + i < length ns" "heap ?st (ns ! (p + i)) = Some n" for i n
  proof -
    have "score n = fst (ks ! (p + i))"
      using zrep_key [OF r(1) that(2)] that(3) by (simp add: ikey_def)
    then show ?thesis
      using iffc [of "p + i"] that(2) len by auto
  qed
  have pq: "p + ?q \<le> length ns"
    using le len by simp
  have sc: "?go t n = ?go t n'" if "score n = score n'" for t and n n' :: "('s, 'e) zskiplistNode"
    using that by simp
  have "\<exists>zs'. delete_loop ?go (map fst ((last ?A, p) # us)) (if p < length ns then Some (ns ! p) else None) 0 0 zs = Some (zs', 0 + ?q) \<and>
    zrep (zskip zs') (take p ns @ drop (p + ?q) ns) (take p ks @ drop (p + ?q) ks) \<and>
    points (zdict zs') (set (take p ns @ drop (p + ?q) ns)) (ikey (heap (zskip zs')))"
    by (rule delete_loop_correct [where go = ?go and t = 0 and removed = 0, OF r(1,2) pq]) (erule (2) go, erule sc, rule ul(1), rule ul(2))
  then obtain zs' where z: "delete_loop ?go (map fst ((last ?A, p) # us)) (if p < length ns then Some (ns ! p) else None) 0 0 zs = Some (zs', 0 + ?q)"
    "zrep (zskip zs') (take p ns @ drop (p + ?q) ns) (take p ks @ drop (p + ?q) ks)"
    "points (zdict zs') (set (take p ns @ drop (p + ?q) ns)) (ikey (heap (zskip zs')))"
    by (elim exE conjE)
  have sl: "(s, e) \<in> slice p ?q ks \<longleftrightarrow> s \<in> score_interval rng" if "m e = Some s" for s e
  proof -
    have "(s, e) \<in> set ks"
      using r(3) that by simp
    then obtain j where j: "j < length ks" "ks ! j = (s, e)"
      by (auto simp: in_set_conv_nth)
    have "(s, e) \<in> slice p ?q ks \<longleftrightarrow> p \<le> j \<and> j < p + ?q"
      by (rule slice_iff [OF sorted le j])
    then show ?thesis
      using iffc [OF j(1)] iffp [OF j(1)] j(2) by (auto simp: score_interval_iff)
  qed
  have "zslDeleteRangeByScore zs rng = Some (zs', ?q)"
    unfolding zslDeleteRangeByScore_def using us(1,4,5) z(1) by simp
  then show ?thesis
    using slice_deleted [where del = "\<lambda>s e. s \<in> score_interval rng", OF sorted le r(3) z(2,3) sl] by auto
qed


theorem zslDeleteRangeByScore_correct_witness:
  "\<exists>zs'. zslDeleteRangeByScore one_element \<lparr>zmin = 3, zmax = 5, minex = True, maxex = False\<rparr> = Some (zs', 1) \<and> zset_rep zs' Map.empty"
proof -
  have "{e :: nat. \<exists>s. [7 \<mapsto> 5 :: int] e = Some s \<and> s \<in> score_interval \<lparr>zmin = 3, zmax = 5, minex = True, maxex = False\<rparr>} = {7}"
    by (auto simp: score_interval_def split: if_splits)
  moreover have "(\<lambda>e :: nat. case [7 \<mapsto> 5 :: int] e of None \<Rightarrow> None
      | Some s \<Rightarrow> if s \<in> score_interval \<lparr>zmin = 3, zmax = 5, minex = True, maxex = False\<rparr> then None else Some s) = Map.empty"
    by (auto simp: fun_eq_iff score_interval_def)
  ultimately show ?thesis
    using zslDeleteRangeByScore_correct [OF one_element_rep, of "\<lparr>zmin = 3, zmax = 5, minex = True, maxex = False\<rparr>"] by simp
qed

lemma pos_of_nth:
  assumes "sorted_wrt kless ks" "j < length ks" "ks ! j = k"
  shows "pos_of k ks = j"
proof -
  have "k \<in> set ks"
    using nth_mem [OF assms(2)] assms(3) by simp
  note p = pos_of_found [OF assms(1) this]
  show ?thesis
    using count_upto [OF assms] count_upto [OF assms(1) p] by simp
qed

text \<open>C24: Deletion of a range of ranks, counted from one, removes exactly the elements whose rank is in the range and returns their number.\<close>

theorem zslDeleteRangeByRank_correct:
  fixes zs :: "('s :: linorder, 'e :: linorder) zset"
  assumes rep: "zset_rep zs m"
  shows "\<exists>zs'. zslDeleteRangeByRank zs start stop = Some (zs', card {e. \<exists>s. m e = Some s \<and> start \<le> Suc (zrank_of m s e) \<and> Suc (zrank_of m s e) \<le> stop}) \<and>
    zset_rep zs' (\<lambda>e. case m e of None \<Rightarrow> None
      | Some s \<Rightarrow> if start \<le> Suc (zrank_of m s e) \<and> Suc (zrank_of m s e) \<le> stop then None else Some s)"
proof -
  let ?st = "zskip zs"
  obtain ns ks where r: "zrep ?st ns ks" "points (zdict zs) (set ns) (ikey (heap ?st))" "\<forall>s e. (s, e) \<in> set ks \<longleftrightarrow> m e = Some s"
    using rep unfolding zset_rep_def by (elim exE conjE)
  have sorted: "sorted_wrt kless ks" and len: "length ns = length ks" and inv: "zinv ?st ns"
    using r(1) zrep_len by (auto simp: zrep_def)
  define p where "p = min (start - 1) (length ns)"
  define q where "q = min (stop - p) (length ns - p)"
  let ?A = "header (zsl ?st) # take p ns"
  have pl: "p \<le> length ns"
    by (simp add: p_def)
  have "q \<le> length ns - p"
    by (simp add: q_def)
  with pl have pq: "p + q \<le> length ns" and le: "p + q \<le> length ks"
    using len by linarith+
  have srch: "r + sp < start \<longleftrightarrow> r + sp \<le> p" if "0 < sp" "r + sp \<le> length ns" for r sp
    using that by (auto simp: p_def)
  have "\<exists>us l. descend (heap ?st) (\<lambda>r sp m. r + sp < start) (zlevel (zsl ?st)) (header (zsl ?st)) 0 = Some ((last ?A, p) # us) \<and>
    Suc (length us) = zlevel (zsl ?st) \<and>
    (\<forall>i<zlevel (zsl ?st). last_at (ht (heap ?st)) i ?A (fst (((last ?A, p) # us) ! i)) (snd (((last ?A, p) # us) ! i))) \<and>
    get_level (heap ?st) (last ?A) 0 = Some l \<and> fst l = (if p < length ns then Some (ns ! p) else None)"
    by (rule search_at [where go = "\<lambda>r sp m. r + sp < start", OF inv pl]) (erule (1) srch)
  then obtain us l where us: "descend (heap ?st) (\<lambda>r sp m. r + sp < start) (zlevel (zsl ?st)) (header (zsl ?st)) 0 = Some ((last ?A, p) # us)"
    "Suc (length us) = zlevel (zsl ?st)"
    "\<forall>i<zlevel (zsl ?st). last_at (ht (heap ?st)) i ?A (fst (((last ?A, p) # us) ! i)) (snd (((last ?A, p) # us) ! i))"
    "get_level (heap ?st) (last ?A) 0 = Some l" "fst l = (if p < length ns then Some (ns ! p) else None)"
    by (elim exE conjE)
  have "length ((last ?A, p) # us) = zlevel (zsl ?st)"
    using us(2) by simp
  note ul = last_at_fst [OF this us(3)]
  let ?go = "\<lambda>(t :: nat) n :: ('s, 'e) zskiplistNode. t \<le> stop"
  have go: "?go (Suc p + i) n \<longleftrightarrow> i < q" if "i \<le> q" "p + i < length ns" for i and n :: "('s, 'e) zskiplistNode"
    using that by (auto simp: q_def)
  have "\<exists>zs'. delete_loop ?go (map fst ((last ?A, p) # us)) (if p < length ns then Some (ns ! p) else None) (Suc p) 0 zs = Some (zs', 0 + q) \<and>
    zrep (zskip zs') (take p ns @ drop (p + q) ns) (take p ks @ drop (p + q) ks) \<and>
    points (zdict zs') (set (take p ns @ drop (p + q) ns)) (ikey (heap (zskip zs')))"
    by (rule delete_loop_correct [where go = ?go and t = "Suc p" and removed = 0, OF r(1,2) pq]) (erule (1) go, rule refl, rule ul(1), rule ul(2))
  then obtain zs' where z: "delete_loop ?go (map fst ((last ?A, p) # us)) (if p < length ns then Some (ns ! p) else None) (Suc p) 0 zs = Some (zs', 0 + q)"
    "zrep (zskip zs') (take p ns @ drop (p + q) ns) (take p ks @ drop (p + q) ks)"
    "points (zdict zs') (set (take p ns @ drop (p + q) ns)) (ikey (heap (zskip zs')))"
    by (elim exE conjE)
  have sl: "(s, e) \<in> slice p q ks \<longleftrightarrow> start \<le> Suc (zrank_of m s e) \<and> Suc (zrank_of m s e) \<le> stop" if "m e = Some s" for s e
  proof -
    have "(s, e) \<in> set ks"
      using r(3) that by simp
    then obtain j where j: "j < length ks" "ks ! j = (s, e)"
      by (auto simp: in_set_conv_nth)
    have "{x \<in> set ks. kless x (s, e)} = {k. m (snd k) = Some (fst k) \<and> kless k (s, e)}"
      using r(3) by auto
    then have "zrank_of m s e = j"
      unfolding zrank_of_def using pos_of_card [OF sorted, of "(s, e)"] pos_of_nth [OF sorted j] by simp
    moreover have "(s, e) \<in> slice p q ks \<longleftrightarrow> p \<le> j \<and> j < p + q"
      by (rule slice_iff [OF sorted le j])
    moreover have "p \<le> j \<and> j < p + q \<longleftrightarrow> start \<le> Suc j \<and> Suc j \<le> stop"
      using j(1) len unfolding p_def q_def by (auto simp: min_def)
    ultimately show ?thesis
      by simp
  qed
  have "zslDeleteRangeByRank zs start stop = Some (zs', q)"
    unfolding zslDeleteRangeByRank_def using us(1,4,5) z(1) by simp
  then show ?thesis
    using slice_deleted [where del = "\<lambda>s e. start \<le> Suc (zrank_of m s e) \<and> Suc (zrank_of m s e) \<le> stop", OF sorted le r(3) z(2,3) sl] by auto
qed

theorem zslDeleteRangeByRank_correct_witness:
  "\<exists>zs'. zslDeleteRangeByRank one_element 2 3 = Some (zs', 0) \<and> zset_rep zs' [7 \<mapsto> 5]"
proof -
  have "{k :: int \<times> nat. [7 \<mapsto> 5] (snd k) = Some (fst k) \<and> kless k (5, 7)} = {}"
    by (auto simp: kless_def split: if_splits)
  then have r: "zrank_of [7 \<mapsto> 5] (5 :: int) (7 :: nat) = 0"
    unfolding zrank_of_def by (simp only: card.empty)
  have a: "{e :: nat. \<exists>s. [7 \<mapsto> 5 :: int] e = Some s \<and> 2 \<le> Suc (zrank_of [7 \<mapsto> 5] s e) \<and> Suc (zrank_of [7 \<mapsto> 5] s e) \<le> 3} = {}"
    using r by (auto split: if_splits)
  have b: "(\<lambda>e :: nat. case [7 \<mapsto> 5 :: int] e of None \<Rightarrow> None
      | Some s \<Rightarrow> if 2 \<le> Suc (zrank_of [7 \<mapsto> 5] s e) \<and> Suc (zrank_of [7 \<mapsto> 5] s e) \<le> 3 then None else Some s) = [7 \<mapsto> 5]"
    using r by (auto simp: fun_eq_iff)
  show ?thesis
    using zslDeleteRangeByRank_correct [OF one_element_rep, of 2 3] by (simp only: a b card.empty)
qed

section \<open>First and last node of a range\<close>

lemma zslIsInRange_rep:
  fixes st :: "('s :: linorder, 'e :: linorder) zstate"
  assumes rep: "zrep st ns ks"
  shows "\<exists>b. zslIsInRange st rng = Some b \<and>
    (b \<longrightarrow> ks \<noteq> [] \<and> zslValueGteMin (fst (ks ! (length ks - 1))) rng \<and> zslValueLteMax (fst (ks ! 0)) rng) \<and>
    (\<not> b \<longrightarrow> (\<forall>j<length ks. fst (ks ! j) \<notin> score_interval rng))"
proof (cases "zmin rng > zmax rng \<or> (zmin rng = zmax rng \<and> (minex rng \<or> maxex rng))")
  case True
  then have "s \<notin> score_interval rng" for s
    by (auto simp: score_interval_iff zslValueGteMin_def zslValueLteMax_def)
  then show ?thesis
    using True by (intro exI [of _ False]) (auto simp: zslIsInRange_def)
next
  case nonempty: False
  have inv: "zinv st ns" and sorted: "sorted_wrt kless ks" and len: "length ns = length ks"
    using rep zrep_len by (auto simp: zrep_def)
  show ?thesis
  proof (cases "ns = []")
    case True
    then show ?thesis
      using zinvD(10) [OF inv] nonempty len by (intro exI [of _ False]) (auto simp: zslIsInRange_def)
  next
    case False
    let ?l = "length ks - 1"
    have l: "0 < length ns" "?l < length ns" "last ns = ns ! ?l"
    proof -
      show pos: "0 < length ns"
        using False by simp
      show "?l < length ns"
        using pos len by linarith
      show "last ns = ns ! ?l"
        using False len by (simp add: last_conv_nth)
    qed
    have mono: "fst (ks ! 0) \<le> fst (ks ! j)" "fst (ks ! j) \<le> fst (ks ! ?l)" if "j < length ks" for j
      using sorted_fst [OF sorted] that by auto
    obtain n where n: "heap st (ns ! ?l) = Some n" "score n = fst (ks ! ?l)"
      using zrep_key [OF rep l(2)] by (auto simp: ikey_Some)
    obtain m where m: "heap st (ns ! 0) = Some m" "score m = fst (ks ! 0)"
      using zrep_key [OF rep l(1)] by (auto simp: ikey_Some)
    have "\<exists>us l. descend (heap st) (\<lambda>r sp m. False) (zlevel (zsl st)) (header (zsl st)) 0 = Some ((last (header (zsl st) # take 0 ns), 0) # us) \<and>
      Suc (length us) = zlevel (zsl st) \<and>
      (\<forall>i<zlevel (zsl st). last_at (ht (heap st)) i (header (zsl st) # take 0 ns)
         (fst (((last (header (zsl st) # take 0 ns), 0) # us) ! i)) (snd (((last (header (zsl st) # take 0 ns), 0) # us) ! i))) \<and>
      get_level (heap st) (last (header (zsl st) # take 0 ns)) 0 = Some l \<and> fst l = (if 0 < length ns then Some (ns ! 0) else None)"
      by (rule search_at [where go = "\<lambda>r sp m. False", OF inv]) auto
    then obtain lv where lv: "get_level (heap st) (header (zsl st)) 0 = Some lv" "fst lv = Some (ns ! 0)"
      using l(1) by auto
    have run: "zslIsInRange st rng = Some (zslValueGteMin (fst (ks ! ?l)) rng \<and> zslValueLteMax (fst (ks ! 0)) rng)"
      unfolding zslIsInRange_def if_not_P [OF nonempty] using zinvD(10) [OF inv] False l(3) n m lv by simp
    have "fst (ks ! j) \<notin> score_interval rng" if "\<not> (zslValueGteMin (fst (ks ! ?l)) rng \<and> zslValueLteMax (fst (ks ! 0)) rng)" "j < length ks" for j
      using that(1) mono [OF that(2)] by (auto simp: score_interval_iff zslValueGteMin_def zslValueLteMax_def split: if_splits)
    then show ?thesis
      using run False len by (intro exI [of _ "zslValueGteMin (fst (ks ! ?l)) rng \<and> zslValueLteMax (fst (ks ! 0)) rng"]) auto
  qed
qed

text \<open>C28: The first and the last node in a range of scores are those of the sorted sequence, and there is none exactly if no key is in the range; the assertion that the search ends at a node holds.\<close>

theorem zslFirstLastInRange_correct:
  fixes st :: "('s :: linorder, 'e :: linorder) zstate"
  assumes rep: "zrep st ns ks"
  shows "\<exists>x y. zslFirstInRange st rng = Some x \<and> zslLastInRange st rng = Some y \<and>
    (if \<exists>j<length ks. fst (ks ! j) \<in> score_interval rng
     then \<exists>i j. i \<le> j \<and> j < length ks \<and> x = Some (ns ! i) \<and> y = Some (ns ! j) \<and> (\<forall>k<length ks. fst (ks ! k) \<in> score_interval rng \<longleftrightarrow> i \<le> k \<and> k \<le> j)
     else x = None \<and> y = None)"
proof -
  have inv: "zinv st ns" and sorted: "sorted_wrt kless ks" and len: "length ns = length ks"
    using rep zrep_len by (auto simp: zrep_def)
  define c where "c = count_of (\<lambda>k. zslValueLteMax (fst k) rng) ks"
  define p where "p = count_of (\<lambda>k. \<not> zslValueGteMin (fst k) rng) ks"
  have iffc: "zslValueLteMax (fst (ks ! j)) rng \<longleftrightarrow> j < c" if "j < length ks" for j
    unfolding c_def by (rule count_of_iff [where P = "\<lambda>k. zslValueLteMax (fst k) rng", OF sorted lte_down that])
  have iffp: "\<not> zslValueGteMin (fst (ks ! j)) rng \<longleftrightarrow> j < p" if "j < length ks" for j
    unfolding p_def by (rule count_of_iff [where P = "\<lambda>k. \<not> zslValueGteMin (fst k) rng", OF sorted below_down that])
  have cl: "c \<le> length ks"
    unfolding c_def by (rule count_of_le)
  have rg: "fst (ks ! j) \<in> score_interval rng \<longleftrightarrow> p \<le> j \<and> j < c" if "j < length ks" for j
    using iffc [OF that] iffp [OF that] by (auto simp: score_interval_iff)
  obtain b where b: "zslIsInRange st rng = Some b"
    "b \<longrightarrow> ks \<noteq> [] \<and> zslValueGteMin (fst (ks ! (length ks - 1))) rng \<and> zslValueLteMax (fst (ks ! 0)) rng"
    "\<not> b \<longrightarrow> (\<forall>j<length ks. fst (ks ! j) \<notin> score_interval rng)"
    using zslIsInRange_rep [OF rep, of rng] by (elim exE conjE)
  show ?thesis
  proof (cases b)
    case False
    then show ?thesis
      using b by (auto simp: zslFirstInRange_def zslLastInRange_def)
  next
    case True
    then have ne: "0 < length ks" "\<not> length ks - 1 < p" "0 < c"
      using b(2) iffc [of 0] iffp [of "length ks - 1"] by auto
    have pn: "p < length ns" "c - 1 < length ns"
      using ne cl len by auto
    obtain n where n: "heap st (ns ! p) = Some n" "score n = fst (ks ! p)"
      using zrep_key [OF rep pn(1)] by (auto simp: ikey_Some)
    obtain n' where n': "heap st (ns ! (c - 1)) = Some n'" "score n' = fst (ks ! (c - 1))"
      using zrep_key [OF rep pn(2)] by (auto simp: ikey_Some)
    let ?A = "header (zsl st) # take p ns" and ?C = "header (zsl st) # take c ns"
    have "\<exists>us l. descend (heap st) (\<lambda>r sp m. \<not> zslValueGteMin (score m) rng) (zlevel (zsl st)) (header (zsl st)) 0 = Some ((last ?A, p) # us) \<and>
      Suc (length us) = zlevel (zsl st) \<and>
      (\<forall>i<zlevel (zsl st). last_at (ht (heap st)) i ?A (fst (((last ?A, p) # us) ! i)) (snd (((last ?A, p) # us) ! i))) \<and>
      get_level (heap st) (last ?A) 0 = Some l \<and> fst l = (if p < length ns then Some (ns ! p) else None)"
      unfolding p_def
      by (rule zrep_search [where P = "\<lambda>k. \<not> zslValueGteMin (fst k) rng" and g = "\<lambda>m. \<not> zslValueGteMin (score m) rng", OF rep below_down]) simp_all
    then obtain us l where us: "descend (heap st) (\<lambda>r sp m. \<not> zslValueGteMin (score m) rng) (zlevel (zsl st)) (header (zsl st)) 0 = Some ((last ?A, p) # us)"
      "get_level (heap st) (last ?A) 0 = Some l" "fst l = (if p < length ns then Some (ns ! p) else None)"
      by (elim exE conjE)
    have "\<exists>us l. descend (heap st) (\<lambda>r sp m. zslValueLteMax (score m) rng) (zlevel (zsl st)) (header (zsl st)) 0 = Some ((last ?C, c) # us) \<and>
      Suc (length us) = zlevel (zsl st) \<and>
      (\<forall>i<zlevel (zsl st). last_at (ht (heap st)) i ?C (fst (((last ?C, c) # us) ! i)) (snd (((last ?C, c) # us) ! i))) \<and>
      get_level (heap st) (last ?C) 0 = Some l \<and> fst l = (if c < length ns then Some (ns ! c) else None)"
      unfolding c_def
      by (rule zrep_search [where P = "\<lambda>k. zslValueLteMax (fst k) rng" and g = "\<lambda>m. zslValueLteMax (score m) rng", OF rep lte_down]) simp_all
    then obtain vs where vs: "descend (heap st) (\<lambda>r sp m. zslValueLteMax (score m) rng) (zlevel (zsl st)) (header (zsl st)) 0 = Some ((last ?C, c) # vs)"
      by (elim exE conjE)
    have "take c ns \<noteq> []"
      using ne(3) pn(2) by auto
    then have lc: "last ?C = ns ! (c - 1)"
      using pn(2) cl len by (simp add: last_conv_nth)
    have first: "zslFirstInRange st rng = Some (if p < c then Some (ns ! p) else None)"
      using b(1) True us pn(1) n iffc [of p] len by (simp add: zslFirstInRange_def)
    have lst: "zslLastInRange st rng = Some (if p < c then Some (ns ! (c - 1)) else None)"
    proof -
      have "zslValueGteMin (fst (ks ! (c - 1))) rng \<longleftrightarrow> p < c"
        using iffp [of "c - 1"] pn(2) len ne(3) by auto
      then show ?thesis
        using b(1) True vs lc n' by (simp add: zslLastInRange_def)
    qed
    show ?thesis
    proof (cases "p < c")
      case True
      have "\<exists>j<length ks. fst (ks ! j) \<in> score_interval rng"
        using rg [of p] pn(1) len True by auto
      moreover have "\<exists>i j. i \<le> j \<and> j < length ks \<and> Some (ns ! p) = Some (ns ! i) \<and> Some (ns ! (c - 1)) = Some (ns ! j) \<and>
        (\<forall>k<length ks. fst (ks ! k) \<in> score_interval rng \<longleftrightarrow> i \<le> k \<and> k \<le> j)"
        using rg True pn len by (intro exI [of _ p] exI [of _ "c - 1"]) auto
      ultimately show ?thesis
        using first lst True by auto
    next
      case False
      then have "\<not> (\<exists>j<length ks. fst (ks ! j) \<in> score_interval rng)"
        using rg by auto
      then show ?thesis
        using first lst False by auto
    qed
  qed
qed

theorem zslFirstLastInRange_correct_witness:
  "zslFirstInRange one_key \<lparr>zmin = 3, zmax = 5, minex = True, maxex = False\<rparr> = Some (Some 1) \<and>
   zslLastInRange one_key \<lparr>zmin = 3, zmax = 5, minex = True, maxex = False\<rparr> = Some (Some 1)"
  using zslFirstLastInRange_correct [OF one_key_rep(1), of "\<lparr>zmin = 3, zmax = 5, minex = True, maxex = False\<rparr>"]
  by (auto simp: score_interval_def)

end
