(* ===== verification/Spec2Isabelle.thy ===== *)
theory Spec2Isabelle
  imports Intset Util_Numbers Listpack_Ranges Dict_Scan Adlist Siphash Bitops Sds_Args Sds Multi Sorted_Set_Ranges
begin

text \<open>
  Verification of the data structures and low-level routines of Redis 7.2.10.

  \<^bold>\<open>The program.\<close> Redis keeps a keyspace in memory and serves commands on it from one event
  loop. Commands work on typed objects, and objects are stored in a small number of encodings:
  compact byte strings (intsets, listpacks, ziplists), hash tables, linked lists, skip lists and radix
  trees. This development covers encodings and the routines they rest on, which are
  sequential, have contracts of their own and are the part of the server where an error corrupts
  memory or loses data, and of the command layer the transactions, whose promise depends on the order of
  the events of several clients. The other commands, persistence, replication and the cluster bus use the encodings and
  are not modelled.

  \<^bold>\<open>Conventions.\<close> A C function is a HOL function with the same name; a loop of it is a separate
  function named after it (\<open>dictRehash_loop\<close>). Memory is explicit. A buffer is the list of the bytes of its
  allocation and an access outside of it is \<open>None\<close>; so is a failed \<open>assert\<close>, a use of freed memory,
  and a loop that does not end where termination is not structural. A statement \<open>f x = Some y\<close>
  hence includes that \<open>f\<close> returns and touches only its own memory. A result \<open>NULL\<close> is a
  value of an inner option type. Fixed-width integers are words where their overflow can be observed, and
  integers with an explicit range otherwise. What the allocator returns, the bytes of fresh memory
  and the callbacks of the caller are parameters of the definitions.

  \<^bold>\<open>Theories.\<close>

  \<^item> \<open>Redis_Prelude\<close>: bytes, words, bounds-checked buffers, little-endian integers and the rewrite
    collections of the proofs. \<open>Stepwise\<close>: the locale \<open>stepwise_refinement\<close>, which lifts a simulation of single
    operations to sequences of operations. \<open>Set_Interface\<close> and \<open>Map_Interface\<close>: the contracts of a set of
    integers and of a map with keys up to an equivalence, and what follows from them for every client.

  \<^item> \<open>Intset\<close> (\<^verbatim>\<open>intset.c\<close>): the sorted arrays of integers of 2, 4 or 8 bytes as the bytes of their blob:
    search, insertion with widening, removal, validation. The interpretation of the set contract shows
    that any sequence of operations behaves as on a finite set of integers; the result of the validation is given for every blob.

  \<^item> \<open>Util_Numbers\<close> (\<^verbatim>\<open>util.c\<close>): the conversions between strings and integers, with round
    trips, the exact accepted language and the treatment of overflow, and the sizes with units, with the table of the units.

  \<^item> \<open>Listpack_Encoding\<close>, \<open>Listpack\<close>, \<open>Listpack_Ranges\<close> (\<^verbatim>\<open>listpack.c\<close>): the encodings of one element and of its back
    length, traversal in both directions, insertion, replacement, removal, ranges, merging and validation of
    blobs. The theorems relate the bytes of a well-formed blob to the list of its elements, and say that what the validation accepts is covered
    by its entries up to the last byte.

  \<^item> \<open>Dict\<close>, \<open>Dict_Correct\<close>, \<open>Dict_Map\<close>, \<open>Dict_Scan\<close> (\<^verbatim>\<open>dict.c\<close>, \<^verbatim>\<open>dict.h\<close>): hash tables with incremental rehashing. A bucket is the list of
    its entries, an entry pointer a position. \<open>dict_ok\<close> is the invariant of both tables during rehashing.
    The interpretation of the map contract gives the refinement for sequences of operations with rehashing steps
    and resizing in between; further theorems cover progress and termination of rehashing, clearing, the
    removal in two phases, and the cursor of \<^verbatim>\<open>dictScan\<close>, whose guarantee is proved for tables that grow
    and shrink between calls.

  \<^item> \<open>Adlist\<close> (\<^verbatim>\<open>adlist.c\<close>): doubly linked lists as nodes in a heap. \<open>list_rep\<close> relates a heap and a list
    header to the sequence of the nodes; all operations refine those on the sequence of the values, and
    the duplication of a list is correct on its error paths too, with the causes of a failure and the values that are freed.

  \<^item> \<open>Siphash\<close> (\<^verbatim>\<open>siphash.c\<close>): the hash of the dictionaries and its variant that ignores case.

  \<^item> \<open>Bitops\<close> (\<^verbatim>\<open>bitops.c\<close>): integers of any width at any bit offset, and their overflow checks against what their comment
    promises, with the two places where the code differs from it. The result of a signed subtraction that overflows is a parameter.

  \<^item> \<open>Sds\<close> and \<open>Sds_Args\<close> (\<^verbatim>\<open>sds.c\<close>, \<^verbatim>\<open>sds.h\<close>): the dynamic strings with their five header types, whose operations refine those on
    plain sequences of bytes through every reallocation, with the exact condition for an append to fail, and the quoting and splitting of argument lines, which are
    inverse to each other, and what splitting does to the strings that need no quoting according to \<^verbatim>\<open>sdsneedsrepr\<close>.

  \<^item> \<open>Skiplist\<close>, \<open>Skiplist_Order\<close>, \<open>Sorted_Set\<close>, \<open>Sorted_Set_Ranges\<close> (\<^verbatim>\<open>t_zset.c\<close>, \<^verbatim>\<open>server.h\<close>): skip lists as nodes in a heap with a forward pointer and a span on each level.
    \<open>zinv\<close> says what every level links and how far each span reaches; insertion and deletion at a place keep it. \<open>zrep\<close> adds the order of the keys, with
    the searches, the ranks and the change of a score. A sorted set is a skip list and a hash table that points into its nodes; its additions with all flags, deletions, scores and ranks
    refine a map from elements to scores, and the deletions of ranges remove exactly the elements of the range from both. A range of scores is the interval
    \<open>score_interval\<close>, defined apart from the comparisons of the code.

  \<^item> \<open>Multi\<close> (\<^verbatim>\<open>multi.c\<close>, parts of \<^verbatim>\<open>db.c\<close>, \<^verbatim>\<open>networking.c\<close> and of \<^verbatim>\<open>processCommand\<close> in \<^verbatim>\<open>server.c\<close>): the queueing of commands, their execution and the watched keys, which are linked from the clients and from the
    databases. \<open>serverStep\<close> is one event of the server: a client connects or is freed, a command of a client is queued or run (\<open>queue_or_call\<close>, with \<^verbatim>\<open>MULTI\<close>, \<^verbatim>\<open>EXEC\<close>,
    \<^verbatim>\<open>DISCARD\<close>, \<^verbatim>\<open>WATCH\<close>, \<^verbatim>\<open>UNWATCH\<close>, \<^verbatim>\<open>RESET\<close> and \<^verbatim>\<open>QUIT\<close> by their definitions and any other command by the parameter \<open>call\<close>), refused or redirected, a key is changed, databases are
    flushed or exchanged, and time passes. The hypothesis \<open>call_ok\<close> on the other commands lets them free other clients, as \<^verbatim>\<open>CLIENT KILL\<close> does. The theorems are the check-and-set promise of \<^verbatim>\<open>WATCH\<close> for every interleaving, that no
    reachable state faults, and the exception to the promise that the code makes.

  \<^bold>\<open>Bounds and fuel.\<close> No definition uses fuel. Loops that count are structurally recursive on their count;
  \<open>lpValidateIntegrity_loop\<close>, \<open>rev_loop\<close>, the loops of \<^verbatim>\<open>sdssplitargs\<close> and the loops of the digit conversions have termination proofs; \<open>dictScan_loop\<close>,
  \<open>listDup_loop\<close>, \<open>listSearchKey_loop\<close>, \<open>lpFind_loop\<close>, \<open>walk\<close>, \<open>delete_loop\<close>, \<open>touch_loop\<close>, \<open>exec_loop\<close> and \<open>dictRehashMilliseconds_loop\<close> are partial functions, for which the theorems show that
  they return. Numeric hypotheses state what the address space guarantees: a blob is shorter than \<open>2^32\<close> bytes
  where its header stores 32 bits, a string is shorter than \<open>2^62\<close> bytes, a list or a dictionary has fewer than \<open>2^64\<close> or \<open>2^60\<close> elements.

  \<^bold>\<open>Where the model is coarser than C.\<close> Counts whose overflow no caller reaches are natural numbers: the
  number of steps of \<open>dictRehash\<close>, whose product with 10 is an \<^verbatim>\<open>int\<close> in the source, the ranks of \<open>zslDeleteRangeByRank\<close>, which are \<^verbatim>\<open>unsigned int\<close>, and the length that \<open>lpEncodeGetType\<close> gets, which is a \<^verbatim>\<open>uint32_t\<close>.
  The links of a new list node start as \<open>NULL\<close> instead of being indeterminate until they are set. \<open>lpNew\<close> and \<open>lpInsert\<close> have no branch for an allocator that returns \<open>NULL\<close>, since \<^verbatim>\<open>zmalloc\<close> and
  \<^verbatim>\<open>zrealloc\<close> end the process instead. The hash table of a sorted set is a finite map here, as the contract of \<open>Dict_Map\<close> allows.

  \<^bold>\<open>Not modelled.\<close> In \<^verbatim>\<open>dict.c\<close>: iterators and their fingerprint, random sampling, statistics and defragmentation.
  In \<^verbatim>\<open>listpack.c\<close>: random sampling and printing. In \<^verbatim>\<open>util.c\<close>: floating-point conversions, file names, random bytes and time.
  In \<^verbatim>\<open>bitops.c\<close>: population count, bit search and the commands. In \<^verbatim>\<open>sds.c\<close>: formatted printing, \<^verbatim>\<open>sdsnew\<close>,
  \<^verbatim>\<open>sdsfree\<close>, joining, splitting by a separator and templates. In \<^verbatim>\<open>t_zset.c\<close>: lexicographic ranges, the listpack encoding and the commands. In \<^verbatim>\<open>multi.c\<close>: the report of the memory overhead. Of \<^verbatim>\<open>freeClient\<close>, \<^verbatim>\<open>RESET\<close>,
  \<^verbatim>\<open>replicationCacheMaster\<close> and \<^verbatim>\<open>emptyData\<close> only what they do to transactions, watched keys and the data: not subscriptions, tracking, authentication, module events and the slots of a cluster. The remaining files are listed in the manifest with the reason:
  other encodings that are left for later, code that is mostly input and output, and code generated
  from tables.
\<close>

end
